(* ===== verification/C_Prelude.thy ===== *)
theory C_Prelude
  imports Main "HOL-Library.Word"
begin

text \<open>
  Prelude of the development: how the C code's failures, memory and integers are
  represented, and the generic lemmas the components share.

  A C function that can fail is modelled by a value of type \<open>c_error + 'a\<close>.
  \<open>Inl e\<close> stands for an execution that does not come back in a defined state:
  \<^item> \<open>Abort\<close>: an \<open>EMO_ASSERT\<close> of \<open>Debug.h\<close> fails (\<open>emo_abort\<close>, i.e. \<open>abort()\<close>);
  \<^item> \<open>NullDeref\<close>: a member of a NULL pointer is read or written;
  \<^item> \<open>UseAfterFree\<close>: a cell that is not (or no longer) allocated is accessed;
  \<^item> \<open>BadFree\<close>: \<open>p_free\<close> on a pointer that \<open>p_malloc\<close> did not return;
  \<^item> \<open>OutOfBounds\<close>: an access outside an array;
  \<^item> \<open>Uninit\<close>: a variable or member is read before it is written;
  \<^item> \<open>TypeConfusion\<close>: a union member or a \<open>void *\<close> is read at another type;
  \<^item> \<open>Diverge\<close>: the call does not return (an endless loop or recursion).

  \<open>p_malloc\<close> of \<open>p_malloc.c\<close> asserts that \<open>malloc\<close> succeeded, so an out-of-memory run
  ends in \<open>Abort\<close> before any of the code modelled here; allocation therefore always
  succeeds in the model. Addresses are natural numbers handed out in increasing order and
  never reused, so an access through a stale pointer is always detected.
  Debug output (\<open>emo_printf\<close>) is not modelled.
\<close>

section \<open>Results of C functions\<close>

datatype c_error =
    Abort
  | NullDeref
  | UseAfterFree
  | BadFree
  | OutOfBounds
  | Uninit
  | TypeConfusion
  | Diverge

type_synonym 'a res = "c_error + 'a"

definition bind_res :: "'a res \<Rightarrow> ('a \<Rightarrow> 'b res) \<Rightarrow> 'b res" where
  "bind_res m f = (case m of Inl e \<Rightarrow> Inl e | Inr x \<Rightarrow> f x)"

definition c_assert :: "bool \<Rightarrow> unit res" where
  "c_assert b = (if b then Inr () else Inl Abort)"

definition is_ok :: "'a res \<Rightarrow> bool" where
  "is_ok r = (case r of Inl _ \<Rightarrow> False | Inr _ \<Rightarrow> True)"

lemma bind_res_simps [simp]:
  "bind_res (Inl e) f = Inl e"
  "bind_res (Inr x) f = f x"
  by (simp_all add: bind_res_def)

lemma bind_res_eq_Inr [simp]:
  "bind_res m f = Inr y \<longleftrightarrow> (\<exists>x. m = Inr x \<and> f x = Inr y)"
  by (cases m) auto

lemma bind_res_eq_Inl:
  "bind_res m f = Inl e \<longleftrightarrow> m = Inl e \<or> (\<exists>x. m = Inr x \<and> f x = Inl e)"
  by (cases m) auto

lemma bind_res_assoc: "bind_res (bind_res m f) g = bind_res m (\<lambda>x. bind_res (f x) g)"
  by (cases m) auto

lemma bind_res_cong [fundef_cong]:
  "m = m' \<Longrightarrow> (\<And>x. m' = Inr x \<Longrightarrow> f x = f' x) \<Longrightarrow> bind_res m f = bind_res m' f'"
  by (cases m') auto

lemma c_assert_simps [simp]:
  "c_assert True = Inr ()"
  "c_assert False = Inl Abort"
  "c_assert b = Inr u \<longleftrightarrow> b"
  by (simp_all add: c_assert_def)

lemma is_ok_simps [simp]:
  "is_ok (Inr x)"
  "\<not> is_ok (Inl e)"
  by (simp_all add: is_ok_def)

lemma is_ok_ex: "is_ok r \<longleftrightarrow> (\<exists>x. r = Inr x)"
  by (cases r) auto

section \<open>Collections of facts\<close>

named_theorems refine_rules \<open>what a concrete operation does to the abstract value it represents\<close>
named_theorems frame_rules \<open>what an operation leaves unchanged\<close>

section \<open>Strings\<close>

text \<open>
  A C string is the list of its characters without the terminating zero.
  \<open>strchr s c\<close> is modelled by the index of the first occurrence.
\<close>

fun strchr_index :: "char \<Rightarrow> string \<Rightarrow> nat option" where
  "strchr_index c [] = None"
| "strchr_index c (x # xs) = (if x = c then Some 0 else map_option Suc (strchr_index c xs))"

lemma strchr_index_None [simp]: "strchr_index c s = None \<longleftrightarrow> c \<notin> set s"
  by (induction s) auto

lemma strchr_index_Some_nth:
  "strchr_index c s = Some i \<Longrightarrow> i < length s \<and> s ! i = c \<and> c \<notin> set (take i s)"
  by (induction s arbitrary: i) (auto split: if_splits simp: nth_Cons')

lemma strchr_index_append:
  "c \<notin> set a \<Longrightarrow> strchr_index c (a @ c # b) = Some (length a)"
  by (induction a) auto

lemma strchr_index_append_notin:
  "c \<notin> set a \<Longrightarrow> strchr_index c (a @ b) = map_option ((+) (length a)) (strchr_index c b)"
proof (induction a)
  case Nil
  then show ?case by (simp add: option.map_ident)
next
  case (Cons x a)
  then show ?case by (auto simp: option.map_comp intro!: option.map_cong0)
qed

section \<open>Lists\<close>

lemma filter_neq_notin: "k \<notin> set (map f xs) \<Longrightarrow> filter (\<lambda>x. f x \<noteq> k) xs = xs"
  by (auto simp: filter_id_conv)

lemma distinct_map_filterI [intro]: "distinct (map f xs) \<Longrightarrow> distinct (map f (filter P xs))"
  by (rule distinct_map_filter)

section \<open>Sequences of steps\<close>

text \<open>A component that reacts to events: the events are processed in order, the first failure ends the run.\<close>

fun run_steps :: "('e \<Rightarrow> 's \<Rightarrow> 's res) \<Rightarrow> 'e list \<Rightarrow> 's \<Rightarrow> 's res" where
  "run_steps step [] s = Inr s"
| "run_steps step (ev # evs) s = bind_res (step ev s) (run_steps step evs)"

text \<open>\<open>grows\<close>: what the steps only ever add to.\<close>

locale growing_steps =
  fixes step :: "'e \<Rightarrow> 's \<Rightarrow> 's res"
    and grows :: "'s \<Rightarrow> 's \<Rightarrow> bool"
  assumes grows_refl: "grows s s"
    and grows_trans: "grows s s1 \<Longrightarrow> grows s1 s2 \<Longrightarrow> grows s s2"
    and step_grows: "step ev s = Inr s' \<Longrightarrow> grows s s'"
begin

lemma run_grows: "run_steps step evs s = Inr s' \<Longrightarrow> grows s s'"
proof (induction evs arbitrary: s)
  case (Cons ev evs)
  then obtain s1 where "step ev s = Inr s1" "run_steps step evs s1 = Inr s'" by auto
  with Cons.IH step_grows grows_trans show ?case by blast
qed (simp add: grows_refl)

end

text \<open>
  Guarded output: only a key step opens the gate, a step that ends with the gate closed emits nothing of the guarded kind, and what is
  emitted over several steps is emitted in one of them. Then output that appears after a closed state was preceded by a key step, and
  nothing was emitted before that step.
\<close>

locale guarded_steps = growing_steps step grows
  for step :: "'e \<Rightarrow> 's \<Rightarrow> 's res" and grows :: "'s \<Rightarrow> 's \<Rightarrow> bool" +
  fixes opened :: "'s \<Rightarrow> bool"
    and key :: "'e \<Rightarrow> 's \<Rightarrow> bool"
    and emits :: "'s \<Rightarrow> 's \<Rightarrow> bool"
  assumes key_opens: "step ev s = Inr s' \<Longrightarrow> opened s' \<Longrightarrow> opened s \<or> key ev s"
    and closed_silent: "step ev s = Inr s' \<Longrightarrow> \<not> opened s' \<Longrightarrow> \<not> emits s s'"
    and emits_refl: "\<not> emits s s"
    and emits_split: "grows s s1 \<Longrightarrow> grows s1 s2 \<Longrightarrow> emits s s2 \<longleftrightarrow> emits s s1 \<or> emits s1 s2"
begin

lemma first_opening:
  "run_steps step evs s = Inr s' \<Longrightarrow> \<not> opened s \<Longrightarrow> emits s s' \<Longrightarrow>
   \<exists>before ev after m m'. evs = before @ ev # after \<and> run_steps step before s = Inr m \<and> key ev m \<and> step ev m = Inr m' \<and>
     opened m' \<and> \<not> emits s m"
proof (induction evs arbitrary: s)
  case Nil
  then show ?case using emits_refl by simp
next
  case (Cons ev evs)
  obtain s1 where s1: "step ev s = Inr s1" "run_steps step evs s1 = Inr s'" using Cons.prems(1) by auto
  show ?case
  proof (cases "opened s1")
    case True
    with key_opens [OF s1(1)] Cons.prems(2) s1(1) emits_refl show ?thesis
      by (intro exI [of _ "[]"] exI [of _ ev] exI [of _ evs] exI [of _ s] exI [of _ s1]) simp
  next
    case False
    note silent = closed_silent [OF s1(1) this]
    with emits_split [OF step_grows [OF s1(1)] run_grows [OF s1(2)]] Cons.prems(3) have "emits s1 s'" by blast
    from Cons.IH [OF s1(2) False this] obtain before ev' after m m' where
      ih: "evs = before @ ev' # after" "run_steps step before s1 = Inr m" "key ev' m" "step ev' m = Inr m'" "opened m'" "\<not> emits s1 m"
      by blast
    have "\<not> emits s m" using emits_split [OF step_grows [OF s1(1)] run_grows [OF ih(2)]] silent ih(6) by blast
    with ih s1(1) show ?thesis
      by (intro exI [of _ "ev # before"] exI [of _ ev'] exI [of _ after] exI [of _ m] exI [of _ m']) simp
  qed
qed

end

end
