(* ===== verification/Geometry.thy ===== *)
theory Geometry
  imports C_Prelude
begin

text \<open>
  Rectangles (\<open>Rectangle.c\<close>) and the clipping, translation and redraw-region state of the drawing
  layer (\<open>lgui.c\<close>).

  Coordinates are mathematical integers: the screen is 320 by 240 and every coordinate the
  layout produces is far below the range of \<open>int\<close>. \<open>clip_stack\<close> is the five-element static array and
  \<open>CLIP\<close> its current entry; \<open>region_blit\<close> the thirty redraw rectangles handed to the display.
  \<open>clip_ok\<close> is the invariant that keeps \<open>CLIP\<close> inside the stack; \<open>lgui_push_region\<close> has no such
  guard, so its write is checked.
\<close>

section \<open>Rectangles\<close>

record Rectangle =
  r_x :: int
  r_y :: int
  r_width :: int
  r_height :: int

definition rectangle_zero :: Rectangle where
  "rectangle_zero = \<lparr>r_x = 0, r_y = 0, r_width = 0, r_height = 0\<rparr>"

definition rectangle_union :: "Rectangle \<Rightarrow> Rectangle \<Rightarrow> Rectangle" where
  "rectangle_union r o' =
     (let rx1 = r_x r; ry1 = r_y r; rx2 = r_x r + r_width r; ry2 = r_y r + r_height r;
          ox1 = r_x o'; oy1 = r_y o'; ox2 = r_x o' + r_width o'; oy2 = r_y o' + r_height o';
          x = (if rx1 < ox1 then rx1 else ox1);
          y = (if ry1 < oy1 then ry1 else oy1)
      in \<lparr>r_x = x, r_y = y,
          r_width = (if rx2 > ox2 then rx2 - x else ox2 - x),
          r_height = (if ry2 > oy2 then ry2 - y else oy2 - y)\<rparr>)"

text \<open>The pixels of a rectangle: half open on both axes.\<close>

definition in_rect :: "Rectangle \<Rightarrow> int \<Rightarrow> int \<Rightarrow> bool" where
  "in_rect r x y \<longleftrightarrow> r_x r \<le> x \<and> x < r_x r + r_width r \<and> r_y r \<le> y \<and> y < r_y r + r_height r"

definition rect_subset :: "Rectangle \<Rightarrow> Rectangle \<Rightarrow> bool" where
  "rect_subset a b \<longleftrightarrow> r_x b \<le> r_x a \<and> r_y b \<le> r_y a \<and>
     r_x a + r_width a \<le> r_x b + r_width b \<and> r_y a + r_height a \<le> r_y b + r_height b"

section \<open>Clipping state of the drawing layer\<close>

definition LGUI_WIDTH :: int where "LGUI_WIDTH = 320"
definition LGUI_HEIGHT :: int where "LGUI_HEIGHT = 240"
definition CLIP_STACK_SIZE :: nat where "CLIP_STACK_SIZE = 5"
definition REDRAW_REGION_COUNT :: nat where "REDRAW_REGION_COUNT = 30"

record lgui_clip =
  clip_stack :: "Rectangle list"
  clip_index :: int
  translate_x :: int
  translate_y :: int
  region_index :: nat
  region_blit :: "Rectangle list"
  lguiDirty :: bool

definition CLIP :: "'b lgui_clip_scheme \<Rightarrow> Rectangle" where
  "CLIP s = clip_stack s ! nat (clip_index s)"

definition set_CLIP :: "Rectangle \<Rightarrow> 'b lgui_clip_scheme \<Rightarrow> 'b lgui_clip_scheme" where
  "set_CLIP r s = s\<lparr>clip_stack := (clip_stack s)[nat (clip_index s) := r]\<rparr>"

definition lgui_clip_set :: "Rectangle \<Rightarrow> 'b lgui_clip_scheme \<Rightarrow> 'b lgui_clip_scheme" where
  "lgui_clip_set rect s = set_CLIP rect s"

definition lgui_clip_union :: "Rectangle \<Rightarrow> 'b lgui_clip_scheme \<Rightarrow> 'b lgui_clip_scheme" where
  "lgui_clip_union rect s =
     (let c = CLIP s;
          yh = r_y c + r_height c; xh = r_x c + r_width c;
          nyh = r_y rect + r_height rect; nxh = r_x rect + r_width rect;
          x = (if r_x rect < r_x c then r_x rect else r_x c);
          y = (if r_y rect < r_y c then r_y rect else r_y c)
      in set_CLIP \<lparr>r_x = x, r_y = y,
                   r_width = (if nxh > xh then nxh - x else xh - x),
                   r_height = (if nyh > yh then nyh - y else yh - y)\<rparr> s)"

definition lgui_clip_and :: "Rectangle \<Rightarrow> 'b lgui_clip_scheme \<Rightarrow> 'b lgui_clip_scheme" where
  "lgui_clip_and rect s =
     (let c = CLIP s;
          yh = r_y c + r_height c; xh = r_x c + r_width c;
          nyh = r_y rect + r_height rect; nxh = r_x rect + r_width rect;
          x = (if r_x rect > r_x c then r_x rect else r_x c);
          y = (if r_y rect > r_y c then r_y rect else r_y c)
      in set_CLIP \<lparr>r_x = x, r_y = y,
                   r_width = (if nxh < xh then nxh - x else xh - x),
                   r_height = (if nyh < yh then nyh - y else yh - y)\<rparr> s)"

definition lgui_clip_identity :: "'b lgui_clip_scheme \<Rightarrow> 'b lgui_clip_scheme" where
  "lgui_clip_identity s =
     set_CLIP \<lparr>r_x = 0, r_y = 0, r_width = LGUI_WIDTH, r_height = LGUI_HEIGHT\<rparr> (s\<lparr>clip_index := 0\<rparr>)"

definition lgui_clip_push :: "'b lgui_clip_scheme \<Rightarrow> 'b lgui_clip_scheme" where
  "lgui_clip_push s =
     (if clip_index s \<ge> int CLIP_STACK_SIZE - 1 then s
      else let s' = s\<lparr>clip_index := clip_index s + 1\<rparr>
           in set_CLIP (clip_stack s' ! nat (clip_index s' - 1)) s')"

definition lgui_clip_pop :: "'b lgui_clip_scheme \<Rightarrow> 'b lgui_clip_scheme" where
  "lgui_clip_pop s =
     (let s = s\<lparr>clip_index := clip_index s - 1\<rparr>
      in if clip_index s < 0 then s\<lparr>clip_index := 0\<rparr> else s)"

text \<open>
  \<open>lgui_clip_rect\<close> returns 0 (\<open>None\<close>) when nothing is drawn, or 1 with the offsets
  \<open>lowx, lowy, highx, highy\<close> of the visible part, relative to the rectangle's corner.
\<close>

definition clip_axis :: "int \<Rightarrow> int \<Rightarrow> int \<Rightarrow> int \<Rightarrow> (int \<times> int) option" where
  "clip_axis pos len cpos clen =
     (if pos > cpos + clen then None
      else
        let low = (if pos < cpos then cpos - pos else 0)
        in if low > len then None
           else
             let val = pos + len
             in if val < cpos then None
                else
                  let high = (if val > cpos + clen then cpos + clen - pos else len)
                  in if high \<le> 0 then None else Some (low, high))"

definition lgui_clip_rect :: "Rectangle \<Rightarrow> 'b lgui_clip_scheme \<Rightarrow> (int \<times> int \<times> int \<times> int) option" where
  "lgui_clip_rect rect s =
     (let c = CLIP s in
      case clip_axis (r_y rect) (r_height rect) (r_y c) (r_height c) of
        None \<Rightarrow> None
      | Some (lowy, highy) \<Rightarrow>
          (case clip_axis (r_x rect) (r_width rect) (r_x c) (r_width c) of
             None \<Rightarrow> None
           | Some (lowx, highx) \<Rightarrow> Some (lowx, lowy, highx, highy)))"

definition lgui_translate :: "int \<Rightarrow> int \<Rightarrow> 'b lgui_clip_scheme \<Rightarrow> 'b lgui_clip_scheme" where
  "lgui_translate x y s = s\<lparr>translate_x := translate_x s + x, translate_y := translate_y s + y\<rparr>"

definition lgui_get_translate :: "'b lgui_clip_scheme \<Rightarrow> int \<times> int" where
  "lgui_get_translate s = (translate_x s, translate_y s)"

definition lgui_push_region :: "'b lgui_clip_scheme \<Rightarrow> 'b lgui_clip_scheme res" where
  "lgui_push_region s =
     (if region_index s < REDRAW_REGION_COUNT
      then Inr (s\<lparr>region_blit := (region_blit s)[region_index s := CLIP s], region_index := region_index s + 1\<rparr>)
      else Inl OutOfBounds)"

definition lgui_index_count :: "'b lgui_clip_scheme \<Rightarrow> nat" where
  "lgui_index_count s = region_index s"

definition lgui_get_region :: "nat \<Rightarrow> 'b lgui_clip_scheme \<Rightarrow> Rectangle res" where
  "lgui_get_region index s =
     (if index < REDRAW_REGION_COUNT then Inr (region_blit s ! index) else Inl OutOfBounds)"

definition lgui_blit_done :: "'b lgui_clip_scheme \<Rightarrow> 'b lgui_clip_scheme" where
  "lgui_blit_done s = s\<lparr>region_index := 0, lguiDirty := False\<rparr>"

definition lgui_set_dirty :: "'b lgui_clip_scheme \<Rightarrow> 'b lgui_clip_scheme" where
  "lgui_set_dirty s = s\<lparr>lguiDirty := True\<rparr>"

definition lgui_is_dirty :: "'b lgui_clip_scheme \<Rightarrow> bool" where
  "lgui_is_dirty s = lguiDirty s"

section \<open>Lemmas\<close>

definition clip_ok :: "'b lgui_clip_scheme \<Rightarrow> bool" where
  "clip_ok s \<longleftrightarrow> length (clip_stack s) = CLIP_STACK_SIZE \<and> 0 \<le> clip_index s \<and>
     clip_index s < int CLIP_STACK_SIZE"

definition screen :: Rectangle where
  "screen = \<lparr>r_x = 0, r_y = 0, r_width = LGUI_WIDTH, r_height = LGUI_HEIGHT\<rparr>"

lemmas clip_op_defs = lgui_clip_set_def lgui_clip_union_def lgui_clip_and_def lgui_clip_identity_def
  lgui_clip_push_def lgui_clip_pop_def set_CLIP_def CLIP_def

lemma CLIP_set [simp]: "clip_ok s \<Longrightarrow> CLIP (set_CLIP r s) = r"
  by (auto simp: CLIP_def set_CLIP_def clip_ok_def)

lemma clip_ok_ops:
  assumes "clip_ok s"
  shows "clip_ok (lgui_clip_set r s)" "clip_ok (lgui_clip_union r s)" "clip_ok (lgui_clip_and r s)"
    "clip_ok (lgui_clip_identity s)" "clip_ok (lgui_clip_push s)" "clip_ok (lgui_clip_pop s)"
  using assms by (auto simp: clip_op_defs clip_ok_def Let_def CLIP_STACK_SIZE_def)

lemma clip_axis_Some:
  "clip_axis pos len cpos clen = Some (low, high) \<Longrightarrow>
     low = max 0 (cpos - pos) \<and> high = min len (cpos + clen - pos) \<and> 0 < high"
  by (auto simp: clip_axis_def Let_def split: if_splits)

lemma clip_axis_None:
  "clip_axis pos len cpos clen = None \<Longrightarrow>
     \<not> (\<exists>p. pos \<le> p \<and> p < pos + len \<and> cpos \<le> p \<and> p < cpos + clen)"
  by (auto simp: clip_axis_def Let_def split: if_splits)

lemma lgui_clip_rect_Some:
  assumes "lgui_clip_rect rect s = Some (lowx, lowy, highx, highy)"
  shows "lowx = max 0 (r_x (CLIP s) - r_x rect)" "lowy = max 0 (r_y (CLIP s) - r_y rect)"
    "highx = min (r_width rect) (r_x (CLIP s) + r_width (CLIP s) - r_x rect)"
    "highy = min (r_height rect) (r_y (CLIP s) + r_height (CLIP s) - r_y rect)"
    "0 < highx" "0 < highy"
  using assms
  by (auto simp: lgui_clip_rect_def Let_def split: option.splits prod.splits dest!: clip_axis_Some)

lemma lgui_clip_rect_None:
  "lgui_clip_rect rect s = None \<Longrightarrow> \<not> (in_rect rect x y \<and> in_rect (CLIP s) x y)"
  by (fastforce simp: lgui_clip_rect_def Let_def in_rect_def split: option.splits prod.splits dest: clip_axis_None)

text \<open>The visible offsets select exactly the pixels of the rectangle inside the clip region.\<close>

lemma lgui_clip_rect_pixels:
  assumes "lgui_clip_rect rect s = Some (lowx, lowy, highx, highy)"
  shows "lowx \<le> x - r_x rect \<and> x - r_x rect < highx \<and> lowy \<le> y - r_y rect \<and> y - r_y rect < highy \<longleftrightarrow>
     in_rect rect x y \<and> in_rect (CLIP s) x y"
  unfolding lgui_clip_rect_Some [OF assms] by (auto simp: in_rect_def)

lemma lgui_clip_and_pixels:
  "clip_ok s \<Longrightarrow> in_rect (CLIP (lgui_clip_and rect s)) x y \<longleftrightarrow> in_rect rect x y \<and> in_rect (CLIP s) x y"
  by (auto simp: lgui_clip_and_def Let_def in_rect_def)

lemma lgui_clip_and_subset: "clip_ok s \<Longrightarrow> rect_subset (CLIP (lgui_clip_and rect s)) (CLIP s)"
  by (auto simp: lgui_clip_and_def Let_def rect_subset_def)

lemma lgui_clip_and_index: "clip_index (lgui_clip_and r t) = clip_index t"
  by (simp add: lgui_clip_and_def set_CLIP_def Let_def)

lemma lgui_clip_and_below:
  "nat (clip_index t) \<noteq> n \<Longrightarrow> clip_stack (lgui_clip_and r t) ! n = clip_stack t ! n"
  unfolding lgui_clip_and_def Let_def set_CLIP_def by simp

lemma rect_subset_trans: "rect_subset a b \<Longrightarrow> rect_subset b c \<Longrightarrow> rect_subset a c"
  by (auto simp: rect_subset_def)

lemma rect_subset_in: "rect_subset a b \<Longrightarrow> in_rect a x y \<Longrightarrow> in_rect b x y"
  by (auto simp: rect_subset_def in_rect_def)

section \<open>Properties\<close>

text \<open>
  \<open>rectangle_union\<close> is the smallest rectangle that contains both operands: it contains
  both, and every rectangle that contains both contains it.
\<close>

theorem rectangle_union_least:
  "rect_subset r (rectangle_union r s) \<and> rect_subset s (rectangle_union r s) \<and>
   (\<forall>t. rect_subset (rectangle_union r s) t = (rect_subset r t \<and> rect_subset s t))"
  by (auto simp: rectangle_union_def Let_def rect_subset_def)

text \<open>
  whatever \<open>lgui_clip_rect\<close> answers, the offsets it returns select exactly the pixels of the
  rectangle that lie in the current clip region, and when it answers "nothing to draw" no pixel of the
  rectangle lies there.
\<close>

theorem lgui_clip_rect_exact:
  "case lgui_clip_rect rect s of
     None \<Rightarrow> \<forall>x y. \<not> (in_rect rect x y \<and> in_rect (CLIP s) x y)
   | Some (lowx, lowy, highx, highy) \<Rightarrow>
       \<forall>x y. (lowx \<le> x - r_x rect \<and> x - r_x rect < highx \<and> lowy \<le> y - r_y rect \<and> y - r_y rect < highy) =
         (in_rect rect x y \<and> in_rect (CLIP s) x y)"
  using lgui_clip_rect_None [of rect s] lgui_clip_rect_pixels [of rect s] by (auto split: option.splits)

text \<open>
  Commands of the clip interface as the widgets issue them, to state what any sequence of
  them preserves.
\<close>

datatype clip_cmd = Push | Pop | And Rectangle | Identity

fun run_clip :: "clip_cmd \<Rightarrow> lgui_clip \<Rightarrow> lgui_clip" where
  "run_clip Push s = lgui_clip_push s"
| "run_clip Pop s = lgui_clip_pop s"
| "run_clip (And r) s = lgui_clip_and r s"
| "run_clip Identity s = lgui_clip_identity s"

definition clip_bounded :: "lgui_clip \<Rightarrow> bool" where
  "clip_bounded s \<longleftrightarrow> clip_ok s \<and> (\<forall>i \<le> nat (clip_index s). rect_subset (clip_stack s ! i) screen)"

lemma run_clip_bounded: "clip_bounded s \<Longrightarrow> clip_bounded (run_clip c s)"
proof (cases c)
  case Push
  assume b: "clip_bounded s"
  show ?thesis
  proof (cases "clip_index s \<ge> int CLIP_STACK_SIZE - 1")
    case False
    then have "nat (clip_index s + 1) = Suc (nat (clip_index s))"
      using b by (auto simp: clip_bounded_def clip_ok_def)
    then show ?thesis using b False
      by (auto simp: Push clip_bounded_def clip_ok_def lgui_clip_push_def set_CLIP_def nth_list_update le_Suc_eq Let_def)
  qed (use b in \<open>simp add: Push lgui_clip_push_def\<close>)
next
  case Pop
  assume "clip_bounded s"
  then show ?thesis by (auto simp: Pop clip_bounded_def clip_ok_def lgui_clip_pop_def Let_def)
next
  case (And r)
  assume b: "clip_bounded s"
  then have ok: "clip_ok s" and cur: "rect_subset (CLIP s) screen"
    by (auto simp: clip_bounded_def CLIP_def)
  have "rect_subset (CLIP (lgui_clip_and r s)) screen"
    using lgui_clip_and_subset [OF ok] cur rect_subset_trans by blast
  with b clip_ok_ops(3) [OF ok, of r] show ?thesis
    by (auto simp: And clip_bounded_def clip_ok_def lgui_clip_and_def set_CLIP_def CLIP_def Let_def nth_list_update)
next
  case Identity
  assume "clip_bounded s"
  then show ?thesis
    by (auto simp: Identity clip_bounded_def clip_ok_def lgui_clip_identity_def set_CLIP_def screen_def
        rect_subset_def CLIP_STACK_SIZE_def)
qed


definition clip_initial :: lgui_clip where
  "clip_initial = lgui_clip_identity \<lparr>clip_stack = replicate CLIP_STACK_SIZE rectangle_zero, clip_index = 0,
     translate_x = 0, translate_y = 0, region_index = 0,
     region_blit = replicate REDRAW_REGION_COUNT rectangle_zero, lguiDirty = False\<rparr>"

lemma clip_initial_bounded: "clip_bounded clip_initial"
  by (auto simp: clip_initial_def clip_bounded_def clip_ok_def lgui_clip_identity_def set_CLIP_def screen_def
      rect_subset_def CLIP_STACK_SIZE_def)


text \<open>
  A push followed by any intersections and a pop restores the clip region, unless the stack was
  full.
\<close>

theorem lgui_clip_push_pop:
  assumes "clip_ok s" and "clip_index s < int CLIP_STACK_SIZE - 1"
  shows "CLIP (lgui_clip_pop (fold lgui_clip_and rs (lgui_clip_push s))) = CLIP s"
proof -
  let ?n = "nat (clip_index s)"
  have step: "clip_stack (fold lgui_clip_and rs t) ! ?n = clip_stack t ! ?n \<and>
      clip_index (fold lgui_clip_and rs t) = clip_index t" if "clip_index t = clip_index s + 1" for t :: "'a lgui_clip_scheme"
  proof -
    have "nat (clip_index s + 1) \<noteq> ?n" using assms(1) by (auto simp: clip_ok_def)
    with that show ?thesis
      by (induction rs arbitrary: t) (simp_all add: lgui_clip_and_below lgui_clip_and_index)
  qed
  have idx: "clip_index (lgui_clip_push s) = clip_index s + 1" and
    old: "clip_stack (lgui_clip_push s) ! ?n = clip_stack s ! ?n"
    using assms by (auto simp: lgui_clip_push_def set_CLIP_def Let_def clip_ok_def)
  have "CLIP (lgui_clip_pop (fold lgui_clip_and rs (lgui_clip_push s))) =
      clip_stack (fold lgui_clip_and rs (lgui_clip_push s)) ! ?n"
    using step [OF idx] idx assms(1) by (auto simp: lgui_clip_pop_def CLIP_def Let_def clip_ok_def)
  with step [OF idx] old show ?thesis by (simp add: CLIP_def)
qed

theorem lgui_clip_push_pop_witness:
  "CLIP (lgui_clip_pop (fold lgui_clip_and [rectangle_zero] (lgui_clip_push clip_initial))) = screen"
  using lgui_clip_push_pop [of clip_initial "[rectangle_zero]"] clip_initial_bounded
  by (simp add: clip_bounded_def clip_initial_def CLIP_STACK_SIZE_def lgui_clip_identity_def set_CLIP_def CLIP_def
      screen_def)

end
