(* ===== verification/Lgui_Draw.thy ===== *)
theory Lgui_Draw
  imports Geometry "HOL-Library.Signed_Division"
begin

text \<open>
  The drawing primitives of \<open>lgui.c\<close>: lines and boxes, gradients, the blits, circles.

  The framebuffer is a function from offsets to 16-bit pixels; every access is checked against
  the \<open>LGUI_WIDTH * LGUI_HEIGHT\<close> pixels the buffer has. Pixel arithmetic is done on words of the
  width C uses. The nested loops of the primitives have the same shape, a loop over the visible
  lines that skips lines off the screen (\<open>for_lines\<close>) around a loop over the visible columns
  (\<open>for_pixels\<close>); what is done to one pixel is the argument \<open>g\<close>, which yields \<open>None\<close> when the code does
  not touch the pixel.

  The lemmas show that the clipped primitives change exactly the pixels of their rectangle in the
  clip region and never leave the buffer while the clip region is on the screen, and that
  \<open>putpixelAlpha\<close> and the corner drawing \<open>drawArch\<close> do not have this property.
\<close>

unbundle bit_operations_syntax

section \<open>Pixels\<close>

definition RGB_TO_565 :: "16 word \<Rightarrow> 16 word \<Rightarrow> 16 word \<Rightarrow> 16 word" where
  "RGB_TO_565 r g b =
     (push_bit 8 r AND 0xF800) OR (push_bit 3 g AND 0x7E0) OR drop_bit 3 b"

definition PIXEL_MODULATE_ALPHA :: "16 word \<Rightarrow> 16 word \<Rightarrow> 16 word \<Rightarrow> 16 word" where
  "PIXEL_MODULATE_ALPHA pixel srcpixel alpha =
     (let s = (ucast pixel :: 32 word); d = (ucast srcpixel :: 32 word);
          s = (s OR push_bit 16 s) AND 0x07e0f81f;
          d = (d OR push_bit 16 d) AND 0x07e0f81f;
          d = d + drop_bit 5 ((s - d) * drop_bit 3 (ucast alpha));
          d = d AND 0x07e0f81f
      in ucast (d OR drop_bit 16 d))"

definition SCALE_PIXEL :: "8 word \<Rightarrow> 8 word \<Rightarrow> 8 word \<Rightarrow> 8 word \<Rightarrow> 16 word" where
  "SCALE_PIXEL scale r g b =
     (let m = (\<lambda>c :: 8 word. (ucast c :: 32 word) * ucast scale)
      in ucast ((m r AND 0xF800) OR (drop_bit 5 (m g) AND 0x7E0) OR (drop_bit 11 (m b) AND 0x1F)))"

text \<open>\<open>GRADIENT_STEP\<close>: the two quotients are computed in \<open>int\<close> and truncated to \<open>unsigned short\<close>.\<close>

definition GRADIENT_STEP :: "8 word \<Rightarrow> 8 word \<Rightarrow> int \<Rightarrow> int \<Rightarrow> 16 word" where
  "GRADIENT_STEP sr er val idx =
     word_of_int ((uint sr * (val - idx)) sdiv val) + (1 + word_of_int ((uint er * idx) sdiv val))"

section \<open>Framebuffer and loops\<close>

type_synonym framebuffer = "int \<Rightarrow> 16 word"

record lgui = lgui_clip +
  lgui_buffer :: framebuffer
  putpixelX :: int
  putpixelY :: int

definition fb_size :: int where
  "fb_size = LGUI_WIDTH * LGUI_HEIGHT"

definition px_read :: "framebuffer \<Rightarrow> int \<Rightarrow> 16 word res" where
  "px_read b p = (if 0 \<le> p \<and> p < fb_size then Inr (b p) else Inl OutOfBounds)"

definition px_write :: "framebuffer \<Rightarrow> int \<Rightarrow> 16 word \<Rightarrow> framebuffer res" where
  "px_write b p v = (if 0 \<le> p \<and> p < fb_size then Inr (b(p := v)) else Inl OutOfBounds)"

definition px_update :: "framebuffer \<Rightarrow> int \<Rightarrow> (16 word \<Rightarrow> 16 word) \<Rightarrow> framebuffer res" where
  "px_update b p h = bind_res (px_read b p) (\<lambda>srcpixel. px_write b p (h srcpixel))"

fun for_pixels ::
  "nat \<Rightarrow> framebuffer \<Rightarrow> int \<Rightarrow> int \<Rightarrow> (int \<Rightarrow> (16 word \<Rightarrow> 16 word) option res) \<Rightarrow> framebuffer res" where
  "for_pixels 0 b buf i g = Inr b"
| "for_pixels (Suc n) b buf i g =
     bind_res (g i) (\<lambda>o'.
     bind_res (case o' of None \<Rightarrow> Inr b | Some h \<Rightarrow> px_update b buf h) (\<lambda>b.
     for_pixels n b (buf + 1) (i + 1) g))"

fun for_lines ::
  "nat \<Rightarrow> framebuffer \<Rightarrow> int \<Rightarrow> int \<Rightarrow> (int \<Rightarrow> int \<Rightarrow> framebuffer \<Rightarrow> framebuffer res) \<Rightarrow> framebuffer res" where
  "for_lines 0 b line ypos row = Inr b"
| "for_lines (Suc n) b line ypos row =
     (if ypos < 0 \<or> ypos \<ge> LGUI_HEIGHT then for_lines n b (line + 1) (ypos + 1) row
      else bind_res (row line ypos b) (\<lambda>b. for_lines n b (line + 1) (ypos + 1) row))"

text \<open>The clip preamble and the two nested loops; \<open>g line i\<close> is the pixel operation.\<close>

definition draw_clipped ::
  "int \<Rightarrow> int \<Rightarrow> int \<Rightarrow> int \<Rightarrow> (int \<Rightarrow> int \<Rightarrow> (16 word \<Rightarrow> 16 word) option res) \<Rightarrow> lgui \<Rightarrow> lgui res" where
  "draw_clipped x y width height g s =
     (case lgui_clip_rect \<lparr>r_x = x, r_y = y, r_width = width, r_height = height\<rparr> s of
        None \<Rightarrow> Inr s
      | Some (ccol, cline, cwidth, cheight) \<Rightarrow>
          (let s = lgui_set_dirty s in
           bind_res
             (for_lines (nat (cheight - cline)) (lgui_buffer s) cline (y + cline)
                (\<lambda>line ypos b. for_pixels (nat (cwidth - ccol)) b (x + ypos * LGUI_WIDTH + ccol) ccol (g line)))
             (\<lambda>b. Inr (s\<lparr>lgui_buffer := b\<rparr>))))"

section \<open>Lines, boxes, gradients\<close>

text \<open>\<open>memset\<close> fills both bytes of every pixel.\<close>

definition lgui_clear :: "8 word \<Rightarrow> lgui \<Rightarrow> lgui" where
  "lgui_clear pixel s =
     s\<lparr>lgui_buffer := (\<lambda>p. if 0 \<le> p \<and> p < fb_size then push_bit 8 (ucast pixel) OR ucast pixel
                          else lgui_buffer s p)\<rparr>"

definition fill_pixel :: "16 word \<Rightarrow> 16 word \<Rightarrow> 16 word \<Rightarrow> 16 word" where
  "fill_pixel pixel alpha srcpixel =
     (if alpha < 255 then PIXEL_MODULATE_ALPHA pixel srcpixel alpha else pixel)"

definition lgui_vertical_gradient ::
  "8 word \<times> 8 word \<times> 8 word \<times> 8 word \<Rightarrow> 8 word \<times> 8 word \<times> 8 word \<times> 8 word \<Rightarrow>
   int \<Rightarrow> int \<Rightarrow> int \<Rightarrow> int \<Rightarrow> lgui \<Rightarrow> lgui res" where
  "lgui_vertical_gradient st en startx starty width height s =
     (let (start_red, start_green, start_blue, start_alpha) = st;
          (end_red, end_green, end_blue, end_alpha) = en
      in draw_clipped (startx + translate_x s) (starty + translate_y s) width height
           (\<lambda>line i.
              let red = GRADIENT_STEP start_red end_red height line;
                  green = GRADIENT_STEP start_green end_green height line;
                  blue = GRADIENT_STEP start_blue end_blue height line;
                  alpha = GRADIENT_STEP start_alpha end_alpha height line
              in Inr (Some (fill_pixel (RGB_TO_565 red green blue) alpha))) s)"

definition lgui_vline ::
  "int \<Rightarrow> int \<Rightarrow> int \<Rightarrow> int \<Rightarrow> 8 word \<Rightarrow> 8 word \<Rightarrow> 8 word \<Rightarrow> 8 word \<Rightarrow> lgui \<Rightarrow> lgui res" where
  "lgui_vline x y len width red green blue alpha s =
     draw_clipped (x + translate_x s) (y + translate_y s) width len
       (\<lambda>line i. Inr (Some (fill_pixel (RGB_TO_565 (ucast red) (ucast green) (ucast blue)) (ucast alpha)))) s"

definition lgui_hline ::
  "int \<Rightarrow> int \<Rightarrow> int \<Rightarrow> int \<Rightarrow> 8 word \<Rightarrow> 8 word \<Rightarrow> 8 word \<Rightarrow> 8 word \<Rightarrow> lgui \<Rightarrow> lgui res" where
  "lgui_hline x y len width red green blue alpha s = lgui_vline x y width len red green blue alpha s"

text \<open>Sides and corners share the bit values \<open>LGUI_TOP\<close>, \<open>LGUI_RIGHT\<close>, \<open>LGUI_BOTTOM\<close>, \<open>LGUI_LEFT\<close> and
  \<open>LGUI_CORNER_TOPLEFT\<close>, ...\<close>

definition LGUI_TOP :: "32 word" where "LGUI_TOP = 1"
definition LGUI_RIGHT :: "32 word" where "LGUI_RIGHT = 2"
definition LGUI_BOTTOM :: "32 word" where "LGUI_BOTTOM = 4"
definition LGUI_LEFT :: "32 word" where "LGUI_LEFT = 8"
definition LGUI_CORNER_TOPLEFT :: "32 word" where "LGUI_CORNER_TOPLEFT = 1"
definition LGUI_CORNER_TOPRIGHT :: "32 word" where "LGUI_CORNER_TOPRIGHT = 2"
definition LGUI_CORNER_BOTTOMRIGHT :: "32 word" where "LGUI_CORNER_BOTTOMRIGHT = 4"
definition LGUI_CORNER_BOTTOMLEFT :: "32 word" where "LGUI_CORNER_BOTTOMLEFT = 8"

definition when_flag :: "32 word \<Rightarrow> 32 word \<Rightarrow> ('s \<Rightarrow> 's res) \<Rightarrow> 's \<Rightarrow> 's res" where
  "when_flag flags f act s = (if flags AND f \<noteq> 0 then act s else Inr s)"

definition seq_res :: "('s \<Rightarrow> 's res) list \<Rightarrow> 's \<Rightarrow> 's res" where
  "seq_res acts s = fold (\<lambda>act r. bind_res r act) acts (Inr s)"

definition lgui_box ::
  "int \<Rightarrow> int \<Rightarrow> int \<Rightarrow> int \<Rightarrow> int \<Rightarrow> 8 word \<Rightarrow> 8 word \<Rightarrow> 8 word \<Rightarrow> 8 word \<Rightarrow> 32 word \<Rightarrow> lgui \<Rightarrow> lgui res" where
  "lgui_box x y width height linewidth red green blue alpha borderFlags s =
     seq_res
       [when_flag borderFlags LGUI_TOP (lgui_hline x y width linewidth red green blue alpha),
        when_flag borderFlags LGUI_BOTTOM (lgui_hline x (y + height - linewidth) width linewidth red green blue alpha),
        when_flag borderFlags LGUI_LEFT (lgui_vline x y height linewidth red green blue alpha),
        when_flag borderFlags LGUI_RIGHT (lgui_vline (x + width - linewidth) y height linewidth red green blue alpha)] s"

section \<open>Blits\<close>

definition img_read :: "8 word list \<Rightarrow> int \<Rightarrow> 8 word res" where
  "img_read img p = (if 0 \<le> p \<and> p < int (length img) then Inr (img ! nat p) else Inl OutOfBounds)"

text \<open>A 16-bit pixel read through \<open>(unsigned short *)\<close> on the little-endian device.\<close>

definition img_read16 :: "8 word list \<Rightarrow> int \<Rightarrow> 16 word res" where
  "img_read16 img p =
     bind_res (img_read img p) (\<lambda>lo.
     bind_res (img_read img (p + 1)) (\<lambda>hi. Inr (ucast lo OR push_bit 8 (ucast hi))))"

definition lgui_luminence_alpha_blitC ::
  "int \<Rightarrow> int \<Rightarrow> int \<Rightarrow> int \<Rightarrow> int \<Rightarrow> int \<Rightarrow> int \<Rightarrow> 8 word list \<Rightarrow> 8 word \<Rightarrow> 8 word \<Rightarrow> 8 word \<Rightarrow> lgui \<Rightarrow> lgui res" where
  "lgui_luminence_alpha_blitC destx desty imgx imgy imgdx imgdy imgwidth img red green blue s =
     bind_res
       (for_lines (nat imgdy) (lgui_buffer s) 0 desty (\<lambda>line ypos b.
          for_pixels (nat imgdx) b (destx + ypos * LGUI_WIDTH) 0 (\<lambda>col.
            bind_res (img_read img (imgx + (imgy + line) * imgwidth + col)) (\<lambda>scale.
            Inr (if scale > 0
                 then Some (\<lambda>srcpixel. PIXEL_MODULATE_ALPHA (RGB_TO_565 (ucast red) (ucast green) (ucast blue)) srcpixel (ucast scale))
                 else None)))))
       (\<lambda>b. Inr (s\<lparr>lgui_buffer := b\<rparr>))"

datatype lgui_mode = MODE_REPLACE | MODE_STENCIL | MODE_ALPHA

text \<open>One half byte of a glyph: what it does to the pixel it stands for.\<close>

definition a4_op :: "lgui_mode \<Rightarrow> 16 word \<Rightarrow> 8 word \<Rightarrow> 8 word \<Rightarrow> 8 word \<Rightarrow> 8 word \<Rightarrow> (16 word \<Rightarrow> 16 word) option" where
  "a4_op mode pixel red green blue scale =
     (case mode of
        MODE_ALPHA \<Rightarrow> if scale > 0 then Some (\<lambda>srcpixel. PIXEL_MODULATE_ALPHA pixel srcpixel (ucast scale)) else None
      | MODE_STENCIL \<Rightarrow> if scale > 0 then Some (\<lambda>srcpixel. SCALE_PIXEL scale red green blue) else None
      | MODE_REPLACE \<Rightarrow> Some (\<lambda>srcpixel. SCALE_PIXEL scale red green blue))"

fun for_pairs ::
  "nat \<Rightarrow> framebuffer \<Rightarrow> int \<Rightarrow> int \<Rightarrow> 8 word list \<Rightarrow> (8 word \<Rightarrow> (16 word \<Rightarrow> 16 word) option) \<Rightarrow> framebuffer res" where
  "for_pairs 0 b buf imgbuf img f = Inr b"
| "for_pairs (Suc n) b buf imgbuf img f =
     bind_res (img_read img imgbuf) (\<lambda>scaleorig.
     bind_res (case f (scaleorig AND 0xF0) of None \<Rightarrow> Inr b | Some h \<Rightarrow> px_update b buf h) (\<lambda>b.
     bind_res (case f (push_bit 4 scaleorig AND 0xF0) of None \<Rightarrow> Inr b | Some h \<Rightarrow> px_update b (buf + 1) h) (\<lambda>b.
     for_pairs n b (buf + 2) (imgbuf + 1) img f)))"

text \<open>\<open>>> 1\<close> and \<open>>> 2\<close> on \<open>int\<close> round towards minus infinity, as \<open>div\<close> does.\<close>

definition lgui_luminence_A4_blitC ::
  "int \<Rightarrow> int \<Rightarrow> int \<Rightarrow> int \<Rightarrow> int \<Rightarrow> int \<Rightarrow> int \<Rightarrow> 8 word list \<Rightarrow> 8 word \<times> 8 word \<times> 8 word \<Rightarrow> lgui_mode \<Rightarrow> bool \<Rightarrow> lgui \<Rightarrow> lgui res" where
  "lgui_luminence_A4_blitC destx desty imgx imgy imgdx imgdy imgwidth img c mode isItalic s =
     (let destx = destx + translate_x s; desty = desty + translate_y s; (red, green, blue) = c in
      case lgui_clip_rect \<lparr>r_x = destx, r_y = desty, r_width = imgdx, r_height = imgdy\<rparr> s of
        None \<Rightarrow> Inr s
      | Some (ccol, cline, cwidth, cheight) \<Rightarrow>
          (let s = lgui_set_dirty s; pixel = RGB_TO_565 (ucast red) (ucast green) (ucast blue) in
           bind_res
             (for_lines (nat (cheight - cline)) (lgui_buffer s) cline (desty + cline) (\<lambda>line ypos b.
                for_pairs (nat ((cwidth + 1) div 2 - (ccol + 1) div 2)) b
                  (destx + ypos * LGUI_WIDTH + (ccol + 1) div 2 * 2 + (if isItalic then (cheight - line) div 4 else 0))
                  (imgx div 2 + (imgy + line) * ((imgwidth + 1) div 2) + (ccol + 1) div 2) img
                  (a4_op mode pixel red green blue)))
             (\<lambda>b. Inr (s\<lparr>lgui_buffer := b\<rparr>))))"

definition lgui_blitRGB565 ::
  "int \<Rightarrow> int \<Rightarrow> int \<Rightarrow> int \<Rightarrow> int \<Rightarrow> int \<Rightarrow> int \<Rightarrow> 8 word list \<Rightarrow> bool \<Rightarrow> 8 word \<Rightarrow> lgui \<Rightarrow> lgui res" where
  "lgui_blitRGB565 destx desty imgx imgy imgwidth imgheight rowstride img isStencil alpha s =
     draw_clipped (destx + translate_x s) (desty + translate_y s) imgwidth imgheight
       (\<lambda>line col.
          bind_res (img_read16 img (imgx + (imgy + line) * rowstride * 2 + col * 2)) (\<lambda>pixel.
          Inr (if alpha < 255
               then Some (\<lambda>srcpixel. if isStencil \<and> pixel = 0 then srcpixel
                                     else PIXEL_MODULATE_ALPHA pixel srcpixel (ucast alpha))
               else if isStencil \<and> pixel = 0 then None else Some (\<lambda>srcpixel. pixel)))) s"

definition lgui_blitRGB565A8 ::
  "int \<Rightarrow> int \<Rightarrow> int \<Rightarrow> int \<Rightarrow> int \<Rightarrow> int \<Rightarrow> int \<Rightarrow> 8 word list \<Rightarrow> 8 word \<Rightarrow> lgui \<Rightarrow> lgui res" where
  "lgui_blitRGB565A8 destx desty imgx imgy imgwidth imgheight rowstride img alpha s =
     draw_clipped (destx + translate_x s) (desty + translate_y s) imgwidth imgheight
       (\<lambda>line col.
          let p = (imgx + (imgy + line) * rowstride) * 3 + col * 3 in
          bind_res (img_read16 img p) (\<lambda>pixel.
          bind_res (img_read img (p + 2)) (\<lambda>scale.
          let scale = (if alpha < 255
                       then word_of_int ((uint scale * (uint alpha * 128)) div (0xFF * 128)) else scale) in
          Inr (Some (\<lambda>srcpixel. PIXEL_MODULATE_ALPHA pixel srcpixel (ucast (scale :: 8 word))))))) s"

definition lgui_black_alpha_blitRGB ::
  "int \<Rightarrow> int \<Rightarrow> int \<Rightarrow> int \<Rightarrow> int \<Rightarrow> int \<Rightarrow> 8 word list \<Rightarrow> lgui \<Rightarrow> lgui res" where
  "lgui_black_alpha_blitRGB destx desty imgx imgy imgwidth imgheight img s =
     bind_res
       (for_lines (nat imgheight) (lgui_buffer s) 0 (desty + translate_y s) (\<lambda>line ypos b.
          for_pixels (nat imgwidth) b (destx + translate_x s + ypos * LGUI_WIDTH) 0 (\<lambda>col.
            let p = imgx + (imgy + line) * imgwidth * 3 + col * 3 in
            bind_res (img_read img p) (\<lambda>r.
            bind_res (img_read img (p + 1)) (\<lambda>g.
            bind_res (img_read img (p + 2)) (\<lambda>b.
            let pixel = RGB_TO_565 (ucast r) (ucast g) (ucast b)
            in Inr (if pixel > 0 then Some (\<lambda>srcpixel. pixel) else None)))))))
       (\<lambda>b. Inr (s\<lparr>lgui_buffer := b\<rparr>))"

definition lgui_alpha_blitRGBA ::
  "int \<Rightarrow> int \<Rightarrow> int \<Rightarrow> int \<Rightarrow> int \<Rightarrow> int \<Rightarrow> 8 word list \<Rightarrow> lgui \<Rightarrow> lgui res" where
  "lgui_alpha_blitRGBA destx desty imgx imgy imgwidth imgheight img s =
     bind_res
       (for_lines (nat imgheight) (lgui_buffer s) 0 (desty + translate_y s) (\<lambda>line ypos b.
          for_pixels (nat imgwidth) b (destx + translate_x s + ypos * LGUI_WIDTH) 0 (\<lambda>col.
            let p = imgx + (imgy + line) * imgwidth * 4 + col * 4 in
            bind_res (img_read img (p + 3)) (\<lambda>scale.
            bind_res (img_read img p) (\<lambda>r.
            bind_res (img_read img (p + 1)) (\<lambda>g.
            bind_res (img_read img (p + 2)) (\<lambda>b.
            Inr (Some (\<lambda>srcpixel. PIXEL_MODULATE_ALPHA (RGB_TO_565 (ucast r) (ucast g) (ucast b)) srcpixel (ucast scale))))))))))
       (\<lambda>b. Inr (s\<lparr>lgui_buffer := b\<rparr>))"

section \<open>Circles and rounded boxes\<close>

definition putpixelAlpha :: "int \<Rightarrow> int \<Rightarrow> 16 word \<Rightarrow> 8 word \<Rightarrow> lgui \<Rightarrow> lgui res" where
  "putpixelAlpha x y pixel intensity s =
     (let x = x + translate_x s + putpixelX s; y = y + translate_y s + putpixelY s; c = CLIP s in
      if x < r_x c \<or> x > r_x c + r_width c \<or> y < r_y c \<or> y > r_y c + r_height c then Inr s
      else if y < 0 \<or> y > LGUI_HEIGHT then Inr s
      else
        let s = lgui_set_dirty s in
        bind_res (px_update (lgui_buffer s) (x + y * LGUI_WIDTH) (\<lambda>srcpixel. PIXEL_MODULATE_ALPHA pixel srcpixel (ucast intensity)))
          (\<lambda>b. Inr (s\<lparr>lgui_buffer := b\<rparr>)))"

text \<open>
  \<open>initD\<close> fills \<open>D[i]\<close> from \<open>(int)(I * sqrt(i))\<close> with \<open>I = 255\<close>: the integer part of the square
  root of \<open>255 * 255 * i\<close>, found here bit by bit.
\<close>

fun isqrt_bits :: "nat \<Rightarrow> nat \<Rightarrow> nat \<Rightarrow> nat" where
  "isqrt_bits 0 n a = a"
| "isqrt_bits (Suc k) n a =
     (if (a + 2 ^ k) * (a + 2 ^ k) \<le> n then isqrt_bits k n (a + 2 ^ k) else isqrt_bits k n a)"

definition initD :: "nat \<Rightarrow> 8 word" where
  "initD i =
     (let f = isqrt_bits 12 (255 * 255 * i) 0 mod 255
      in if i = 0 \<or> f = 0 then 0 else of_nat (255 - f))"

definition read_D :: "int \<Rightarrow> 8 word res" where
  "read_D i = (if 0 \<le> i \<and> i < 100 then Inr (initD (nat i)) else Inl OutOfBounds)"

function drawArch_loop ::
  "int \<Rightarrow> int \<Rightarrow> int \<Rightarrow> 8 word \<Rightarrow> 16 word \<Rightarrow> 32 word \<Rightarrow> lgui \<Rightarrow> lgui res" where
  "drawArch_loop R x y d pixel arcs s =
     (if y < x then
        bind_res (read_D (R * R - y * y)) (\<lambda>dnew.
        let x = (if dnew < d then x - 1 else x); inv = 255 - dnew in
        bind_res
          (seq_res
            [when_flag arcs LGUI_CORNER_BOTTOMRIGHT (seq_res
               [putpixelAlpha (x - 1) y pixel dnew, putpixelAlpha x y pixel inv,
                putpixelAlpha y (x - 1) pixel dnew, putpixelAlpha y x pixel inv]),
             when_flag arcs LGUI_CORNER_BOTTOMLEFT (seq_res
               [putpixelAlpha (- (x - 1)) y pixel dnew, putpixelAlpha (- x) y pixel inv,
                putpixelAlpha (- y) (x - 1) pixel dnew, putpixelAlpha (- y) x pixel inv]),
             when_flag arcs LGUI_CORNER_TOPRIGHT (seq_res
               [putpixelAlpha (x - 1) (- y) pixel dnew, putpixelAlpha x (- y) pixel inv,
                putpixelAlpha y (- (x - 1)) pixel dnew, putpixelAlpha y (- x) pixel inv]),
             when_flag arcs LGUI_CORNER_TOPLEFT (seq_res
               [putpixelAlpha (- (x - 1)) (- y) pixel dnew, putpixelAlpha (- x) (- y) pixel inv,
                putpixelAlpha (- y) (- (x - 1)) pixel dnew, putpixelAlpha (- y) (- x) pixel inv])] s)
          (drawArch_loop R x (y + 1) dnew pixel arcs))
      else Inr s)"
  by pat_completeness auto
termination
  by (relation "measure (\<lambda>(R, x, y, d, pixel, arcs, s). nat (x - y))") auto

declare drawArch_loop.simps [simp del]

definition drawArch :: "int \<Rightarrow> 8 word \<Rightarrow> 8 word \<Rightarrow> 8 word \<Rightarrow> 32 word \<Rightarrow> lgui \<Rightarrow> lgui res" where
  "drawArch R red green blue arcs s =
     drawArch_loop R R 0 0 (RGB_TO_565 (ucast red) (ucast green) (ucast blue)) arcs s"

definition lgui_aacircle ::
  "int \<Rightarrow> int \<Rightarrow> int \<Rightarrow> 32 word \<Rightarrow> 8 word \<Rightarrow> 8 word \<Rightarrow> 8 word \<Rightarrow> lgui \<Rightarrow> lgui res" where
  "lgui_aacircle x y rad arcs red green blue s =
     drawArch rad red green blue arcs (s\<lparr>putpixelX := x, putpixelY := y\<rparr>)"

definition corner_add :: "32 word \<Rightarrow> 32 word \<Rightarrow> int \<Rightarrow> int" where
  "corner_add flags f radius = (if flags AND f \<noteq> 0 then radius else 0)"

definition lgui_roundedbox_line ::
  "int \<Rightarrow> int \<Rightarrow> int \<Rightarrow> int \<Rightarrow> int \<Rightarrow> 8 word \<Rightarrow> 8 word \<Rightarrow> 8 word \<Rightarrow> 32 word \<Rightarrow> 32 word \<Rightarrow> lgui \<Rightarrow> lgui res" where
  "lgui_roundedbox_line x y width height radius red green blue borderFlags cf s =
     (let tl = corner_add cf LGUI_CORNER_TOPLEFT radius; tr = corner_add cf LGUI_CORNER_TOPRIGHT radius;
          bl = corner_add cf LGUI_CORNER_BOTTOMLEFT radius; br = corner_add cf LGUI_CORNER_BOTTOMRIGHT radius in
      seq_res
       [when_flag cf LGUI_CORNER_TOPLEFT (lgui_aacircle (x + radius) (y + radius) radius LGUI_CORNER_TOPLEFT red green blue),
        when_flag cf LGUI_CORNER_TOPRIGHT (lgui_aacircle (x + width - radius) (y + radius) radius LGUI_CORNER_TOPRIGHT red green blue),
        when_flag cf LGUI_CORNER_BOTTOMLEFT (lgui_aacircle (x + radius) (y + height - radius) radius LGUI_CORNER_BOTTOMLEFT red green blue),
        when_flag cf LGUI_CORNER_BOTTOMRIGHT (lgui_aacircle (x + width - radius) (y + height - radius) radius LGUI_CORNER_BOTTOMRIGHT red green blue),
        when_flag borderFlags LGUI_TOP (lgui_hline (x + tl) y (width - (tl + tr)) 1 red green blue 0xFF),
        when_flag borderFlags LGUI_BOTTOM (lgui_hline (x + bl) (y + height) (width - (bl + br)) 1 red green blue 0xFF),
        when_flag borderFlags LGUI_LEFT (lgui_vline x (y + tl) (height - (tl + bl) + 1) 1 red green blue 0xFF),
        when_flag borderFlags LGUI_RIGHT (lgui_vline (x + width) (y + tr) (height - (tr + br) + 1) 1 red green blue 0xFF)] s)"

text \<open>The \<open>short\<close> variables of \<open>lgui_circlefill\<close> do not overflow for radii below 4096.\<close>

function circlefill_loop ::
  "int \<Rightarrow> int \<Rightarrow> int \<Rightarrow> int \<Rightarrow> int \<Rightarrow> int \<Rightarrow> int \<Rightarrow> (int \<Rightarrow> int \<Rightarrow> int \<Rightarrow> lgui \<Rightarrow> lgui res) \<Rightarrow> lgui \<Rightarrow> lgui res" where
  "circlefill_loop xc yc x y d diagonalInc rightInc hl s =
     (if x \<le> y then
        bind_res
          (seq_res [hl (xc - x) (yc + y) (2 * x + 1), hl (xc - x) (yc - y) (2 * x + 1),
                    hl (xc - y) (yc + x) (2 * y + 1), hl (xc - y) (yc - x) (2 * y + 1)] s)
          (if d \<ge> 0
           then circlefill_loop xc yc (x + 1) (y - 1) (d + diagonalInc) (diagonalInc + 8) (rightInc + 4) hl
           else circlefill_loop xc yc (x + 1) y (d + rightInc) (diagonalInc + 4) (rightInc + 4) hl)
      else Inr s)"
  by pat_completeness auto
termination
  by (relation "measure (\<lambda>(xc, yc, x, y, d, di, ri, hl, s). nat (y - x + 1))") auto

declare circlefill_loop.simps [simp del]

definition lgui_circlefill ::
  "int \<Rightarrow> int \<Rightarrow> int \<Rightarrow> 8 word \<Rightarrow> 8 word \<Rightarrow> 8 word \<Rightarrow> 8 word \<Rightarrow> lgui \<Rightarrow> lgui res" where
  "lgui_circlefill xc yc r red green blue alpha s =
     circlefill_loop xc yc 0 (r - 1) (3 - 2 * r) (10 - 4 * r) 6
       (\<lambda>x y len. lgui_hline x y len 1 red green blue alpha) s"

definition lgui_roundedbox_fill ::
  "int \<Rightarrow> int \<Rightarrow> int \<Rightarrow> int \<Rightarrow> int \<Rightarrow> 8 word \<Rightarrow> 8 word \<Rightarrow> 8 word \<Rightarrow> 8 word \<Rightarrow> 32 word \<Rightarrow> lgui \<Rightarrow> lgui res" where
  "lgui_roundedbox_fill x y width height radius red green blue alpha cf s =
     (let tl = corner_add cf LGUI_CORNER_TOPLEFT radius; tr = corner_add cf LGUI_CORNER_TOPRIGHT radius;
          bl = corner_add cf LGUI_CORNER_BOTTOMLEFT radius; br = corner_add cf LGUI_CORNER_BOTTOMRIGHT radius in
      seq_res
       [when_flag cf LGUI_CORNER_TOPLEFT (lgui_circlefill (x + radius) (y + radius) radius red green blue alpha),
        when_flag cf LGUI_CORNER_TOPRIGHT (lgui_circlefill (x + width - radius) (y + radius) radius red green blue alpha),
        when_flag cf LGUI_CORNER_BOTTOMLEFT (lgui_circlefill (x + radius) (y + height - radius) radius red green blue alpha),
        when_flag cf LGUI_CORNER_BOTTOMRIGHT (lgui_circlefill (x + width - radius) (y + height - radius) radius red green blue alpha),
        lgui_hline (x + tl) y (width - (tl + tr)) radius red green blue alpha,
        lgui_hline x (y + radius) width (height - radius * 2) red green blue alpha,
        lgui_hline (x + bl) (y + height - radius) (width - (bl + br)) radius red green blue alpha] s)"

section \<open>Generic facts about the loops\<close>

lemma px_update_in: "0 \<le> p \<Longrightarrow> p < fb_size \<Longrightarrow> px_update b p h = Inr (b(p := h (b p)))"
  by (simp add: px_update_def px_read_def px_write_def)

lemma for_pixels_run:
  assumes "\<And>j. i \<le> j \<Longrightarrow> j < i + int n \<Longrightarrow> g j = Inr (o' j)" and "0 \<le> buf" and "buf + int n \<le> fb_size"
  shows "for_pixels n b buf i g =
     Inr (\<lambda>q. if buf \<le> q \<and> q < buf + int n
              then (case o' (i + (q - buf)) of None \<Rightarrow> b q | Some h \<Rightarrow> h (b q)) else b q)"
  using assms
proof (induction n arbitrary: b buf i)
  case 0
  then show ?case by (auto intro!: ext)
next
  case (Suc n)
  define b1 where "b1 = (case o' i of None \<Rightarrow> b | Some h \<Rightarrow> b(buf := h (b buf)))"
  have g: "g i = Inr (o' i)" using Suc.prems(1) [of i] by simp
  have upd: "(case o' i of None \<Rightarrow> Inr b | Some h \<Rightarrow> px_update b buf h) = Inr b1"
    using Suc.prems(2,3) px_update_in [of buf b] by (simp add: b1_def split: option.splits)
  have "for_pixels n b1 (buf + 1) (i + 1) g =
     Inr (\<lambda>q. if buf + 1 \<le> q \<and> q < buf + 1 + int n
              then (case o' (i + 1 + (q - (buf + 1))) of None \<Rightarrow> b1 q | Some h \<Rightarrow> h (b1 q)) else b1 q)"
    using Suc.prems by (intro Suc.IH) auto
  then have "for_pixels (Suc n) b buf i g = Inr (\<lambda>q. if buf + 1 \<le> q \<and> q < buf + 1 + int n
              then (case o' (i + 1 + (q - (buf + 1))) of None \<Rightarrow> b1 q | Some h \<Rightarrow> h (b1 q)) else b1 q)"
    by (simp add: g upd)
  also have "\<dots> = Inr (\<lambda>q. if buf \<le> q \<and> q < buf + int (Suc n)
              then (case o' (i + (q - buf)) of None \<Rightarrow> b q | Some h \<Rightarrow> h (b q)) else b q)"
  proof (rule arg_cong [where f = Inr], rule ext)
    fix q
    show "(if buf + 1 \<le> q \<and> q < buf + 1 + int n
              then (case o' (i + 1 + (q - (buf + 1))) of None \<Rightarrow> b1 q | Some h \<Rightarrow> h (b1 q)) else b1 q) =
          (if buf \<le> q \<and> q < buf + int (Suc n)
              then (case o' (i + (q - buf)) of None \<Rightarrow> b q | Some h \<Rightarrow> h (b q)) else b q)"
      by (cases "q = buf") (auto simp: b1_def split: option.splits)
  qed
  finally show ?case .
qed

text \<open>Offsets and pixel coordinates.\<close>

definition px_x :: "int \<Rightarrow> int" where "px_x p = p mod LGUI_WIDTH"
definition px_y :: "int \<Rightarrow> int" where "px_y p = p div LGUI_WIDTH"

lemma px_xy_eq:
  assumes "0 \<le> x" and "x < LGUI_WIDTH"
  shows "px_x (x + y * LGUI_WIDTH) = x" "px_y (x + y * LGUI_WIDTH) = y"
  using assms by (simp_all add: px_x_def px_y_def LGUI_WIDTH_def)

lemma px_in_row:
  assumes "0 \<le> lo" and "hi \<le> LGUI_WIDTH"
  shows "(lo + y * LGUI_WIDTH \<le> p \<and> p < hi + y * LGUI_WIDTH) \<longleftrightarrow> (px_y p = y \<and> lo \<le> px_x p \<and> px_x p < hi)"
proof -
  define q r where qr: "q = p div 320" "r = p mod 320"
  have p: "p = q * 320 + r" "0 \<le> r" "r < 320" by (simp_all add: qr)
  have "q = y" if "lo + y * 320 \<le> p \<and> p < hi + y * 320"
    using assms p(2,3) that unfolding p(1) LGUI_WIDTH_def by auto
  then have "(lo + y * 320 \<le> p \<and> p < hi + y * 320) = (q = y \<and> lo \<le> r \<and> r < hi)"
    unfolding p(1) by auto
  then show ?thesis by (simp add: px_x_def px_y_def qr LGUI_WIDTH_def)
qed

text \<open>What one visible line, and then all of them, does to the buffer: \<open>g\<close> is applied at the pixels of
  the columns from \<open>lo\<close> to \<open>hi\<close>.\<close>

definition apply_op :: "(16 word \<Rightarrow> 16 word) option \<Rightarrow> 16 word \<Rightarrow> 16 word" where
  "apply_op o' v = (case o' of None \<Rightarrow> v | Some h \<Rightarrow> h v)"

lemma row_run:
  assumes "\<And>j. ccol \<le> j \<Longrightarrow> j < cwidth \<Longrightarrow> g j = Inr (o' j)" and "0 \<le> x + ccol" and "x + cwidth \<le> LGUI_WIDTH"
    and "0 \<le> y" and "y < LGUI_HEIGHT"
  shows "for_pixels (nat (cwidth - ccol)) b (x + y * LGUI_WIDTH + ccol) ccol g =
     Inr (\<lambda>p. if px_y p = y \<and> x + ccol \<le> px_x p \<and> px_x p < x + cwidth
              then apply_op (o' (px_x p - x)) (b p) else b p)"
proof (cases "ccol < cwidth")
  case True
  let ?buf = "x + y * LGUI_WIDTH + ccol" and ?n = "nat (cwidth - ccol)"
  have "?buf + int ?n \<le> fb_size" "0 \<le> ?buf"
    using assms(2-5) True by (simp_all add: fb_size_def LGUI_WIDTH_def LGUI_HEIGHT_def)
  moreover have "\<And>j. ccol \<le> j \<Longrightarrow> j < ccol + int ?n \<Longrightarrow> g j = Inr (o' j)" using True by (intro assms(1)) auto
  ultimately have run: "for_pixels ?n b ?buf ccol g =
     Inr (\<lambda>q. if ?buf \<le> q \<and> q < ?buf + int ?n
              then (case o' (ccol + (q - ?buf)) of None \<Rightarrow> b q | Some h \<Rightarrow> h (b q)) else b q)"
    by (intro for_pixels_run)
  have pos: "?buf \<le> q \<and> q < ?buf + int ?n \<longleftrightarrow> px_y q = y \<and> x + ccol \<le> px_x q \<and> px_x q < x + cwidth" for q
    using px_in_row [OF assms(2,3), of y q] True by (simp add: algebra_simps)
  have col: "ccol + (q - ?buf) = px_x q - x" if "px_y q = y" for q
    using that by (auto simp: px_x_def px_y_def LGUI_WIDTH_def minus_div_mult_eq_mod [symmetric])
  show ?thesis unfolding run pos by (rule arg_cong [where f = Inr], rule ext) (auto simp: col apply_op_def)
next
  case False
  then show ?thesis by (auto intro!: arg_cong [where f = Inr] ext)
qed

lemma lines_run:
  assumes g: "\<And>l j. line \<le> l \<Longrightarrow> l < line + int n \<Longrightarrow> ccol \<le> j \<Longrightarrow> j < cwidth \<Longrightarrow> g l j = Inr (o' l j)"
    and "0 \<le> x + ccol" and "x + cwidth \<le> LGUI_WIDTH"
  shows "for_lines n b line (y + line)
       (\<lambda>line ypos b. for_pixels (nat (cwidth - ccol)) b (x + ypos * LGUI_WIDTH + ccol) ccol (g line)) =
     Inr (\<lambda>p. if 0 \<le> px_y p \<and> px_y p < LGUI_HEIGHT \<and> y + line \<le> px_y p \<and> px_y p < y + line + int n \<and>
                 x + ccol \<le> px_x p \<and> px_x p < x + cwidth
              then apply_op (o' (px_y p - y) (px_x p - x)) (b p) else b p)"
  using g
proof (induction n arbitrary: b line)
  case 0
  then show ?case by (auto intro!: arg_cong [where f = Inr] ext)
next
  case (Suc n)
  let ?row = "\<lambda>line ypos b. for_pixels (nat (cwidth - ccol)) b (x + ypos * LGUI_WIDTH + ccol) ccol (g line)"
  have next_line: "y + line + 1 = y + (line + 1)" by simp
  have IH: "for_lines n b' (line + 1) (y + line + 1) ?row =
     Inr (\<lambda>p. if 0 \<le> px_y p \<and> px_y p < LGUI_HEIGHT \<and> y + (line + 1) \<le> px_y p \<and> px_y p < y + (line + 1) + int n \<and>
                 x + ccol \<le> px_x p \<and> px_x p < x + cwidth
              then apply_op (o' (px_y p - y) (px_x p - x)) (b' p) else b' p)" for b'
    unfolding next_line using Suc.prems by (intro Suc.IH) auto
  show ?case
  proof (cases "y + line < 0 \<or> y + line \<ge> LGUI_HEIGHT")
    case True
    then show ?thesis by (auto simp: IH intro!: arg_cong [where f = Inr] ext)
  next
    case False
    have row: "?row line (y + line) b =
       Inr (\<lambda>p. if px_y p = y + line \<and> x + ccol \<le> px_x p \<and> px_x p < x + cwidth
              then apply_op (o' line (px_x p - x)) (b p) else b p)"
      using False assms(2,3) Suc.prems by (intro row_run) auto
    show ?thesis using False by (auto simp: row IH intro!: arg_cong [where f = Inr] ext)
  qed
qed

text \<open>The clip region does not reach over the left or right edge of the screen.\<close>

definition clip_on_screen :: "lgui \<Rightarrow> bool" where
  "clip_on_screen s \<longleftrightarrow> 0 \<le> r_x (CLIP s) \<and> r_x (CLIP s) + r_width (CLIP s) \<le> LGUI_WIDTH"

lemma draw_clipped_run:
  assumes "clip_on_screen s"
    and g: "\<And>l j. in_rect \<lparr>r_x = x, r_y = y, r_width = width, r_height = height\<rparr> (x + j) (y + l) \<Longrightarrow>
              in_rect (CLIP s) (x + j) (y + l) \<Longrightarrow> g l j = Inr (o' l j)"
  shows "\<exists>s'. draw_clipped x y width height g s = Inr s' \<and>
     (\<forall>p. lgui_buffer s' p =
        (if in_rect screen (px_x p) (px_y p) \<and> in_rect (CLIP s) (px_x p) (px_y p) \<and>
            in_rect \<lparr>r_x = x, r_y = y, r_width = width, r_height = height\<rparr> (px_x p) (px_y p)
         then apply_op (o' (px_y p - y) (px_x p - x)) (lgui_buffer s p) else lgui_buffer s p))"
proof -
  let ?r = "\<lparr>r_x = x, r_y = y, r_width = width, r_height = height\<rparr>"
  have xs: "0 \<le> px_x p \<and> px_x p < LGUI_WIDTH" for p by (simp add: px_x_def LGUI_WIDTH_def)
  show ?thesis
  proof (cases "lgui_clip_rect ?r s")
    case None
    then show ?thesis using lgui_clip_rect_None [OF None] by (auto simp: draw_clipped_def)
  next
    case (Some c)
    obtain ccol cline cwidth cheight where c: "c = (ccol, cline, cwidth, cheight)" by (cases c)
    note cr = Some [unfolded c]
    note px = lgui_clip_rect_pixels [OF cr, simplified]
    note b = lgui_clip_rect_Some [OF cr, simplified]
    have x: "0 \<le> x + ccol" "x + cwidth \<le> LGUI_WIDTH"
      using assms(1) b(1,3) by (auto simp: clip_on_screen_def)
    have gg: "g l j = Inr (o' l j)" if "cline \<le> l" "l < cline + int (nat (cheight - cline))" "ccol \<le> j" "j < cwidth" for l j
      using g [of j l] px [of "x + j" "y + l"] that by (auto split: if_splits)
    have inside: "0 \<le> px_y p \<and> px_y p < LGUI_HEIGHT \<and> y + cline \<le> px_y p \<and>
          px_y p < y + cline + int (nat (cheight - cline)) \<and> x + ccol \<le> px_x p \<and> px_x p < x + cwidth \<longleftrightarrow>
        in_rect screen (px_x p) (px_y p) \<and> in_rect (CLIP s) (px_x p) (px_y p) \<and> in_rect ?r (px_x p) (px_y p)" for p
      using px [of "px_x p" "px_y p"] xs [of p] by (auto simp: in_rect_def screen_def)
    have "for_lines (nat (cheight - cline)) (lgui_buffer s) cline (y + cline)
         (\<lambda>line ypos b. for_pixels (nat (cwidth - ccol)) b (x + ypos * LGUI_WIDTH + ccol) ccol (g line)) =
      Inr (\<lambda>p. if in_rect screen (px_x p) (px_y p) \<and> in_rect (CLIP s) (px_x p) (px_y p) \<and> in_rect ?r (px_x p) (px_y p)
               then apply_op (o' (px_y p - y) (px_x p - x)) (lgui_buffer s p) else lgui_buffer s p)"
      unfolding inside [symmetric] by (rule lines_run [OF _ x]) (rule gg)
    then show ?thesis by (simp add: draw_clipped_def cr c Let_def lgui_set_dirty_def)
  qed
qed

section \<open>Drawing stays inside the clip region\<close>

text \<open>
  An action paints inside the clip region: it succeeds, leaves the clip state alone, and changes no
  pixel outside.
\<close>

definition same_view :: "lgui \<Rightarrow> lgui \<Rightarrow> bool" where
  "same_view s s' \<longleftrightarrow> clip_stack s' = clip_stack s \<and> clip_index s' = clip_index s \<and>
     translate_x s' = translate_x s \<and> translate_y s' = translate_y s"

definition paints_inside :: "(lgui \<Rightarrow> lgui res) \<Rightarrow> bool" where
  "paints_inside act \<longleftrightarrow> (\<forall>s. clip_on_screen s \<longrightarrow>
     (\<exists>s'. act s = Inr s' \<and> same_view s s' \<and>
        (\<forall>p. \<not> in_rect (CLIP s) (px_x p) (px_y p) \<longrightarrow> lgui_buffer s' p = lgui_buffer s p)))"

lemma same_view_refl: "same_view s s" by (simp add: same_view_def)

lemma same_view_trans: "same_view s t \<Longrightarrow> same_view t u \<Longrightarrow> same_view s u"
  by (simp add: same_view_def)

lemma same_view_CLIP: "same_view s s' \<Longrightarrow> CLIP s' = CLIP s"
  by (simp add: same_view_def CLIP_def)

lemma same_view_on_screen: "same_view s s' \<Longrightarrow> clip_on_screen s' = clip_on_screen s"
  by (simp add: clip_on_screen_def same_view_CLIP)

lemma paints_insideE:
  assumes "paints_inside act" and "clip_on_screen s"
  obtains s' where "act s = Inr s'" "same_view s s'"
    "\<And>p. \<not> in_rect (CLIP s) (px_x p) (px_y p) \<Longrightarrow> lgui_buffer s' p = lgui_buffer s p"
  using assms unfolding paints_inside_def by blast

lemma paints_inside_skip [intro]: "paints_inside Inr"
  by (auto simp: paints_inside_def intro: same_view_refl)

lemma paints_inside_bind [intro]:
  assumes a: "paints_inside act" and b: "paints_inside act'"
  shows "paints_inside (\<lambda>s. bind_res (act s) act')"
  unfolding paints_inside_def
proof (intro allI impI)
  fix s :: lgui assume c: "clip_on_screen s"
  from a c obtain t where t: "act s = Inr t" "same_view s t"
    "\<And>p. \<not> in_rect (CLIP s) (px_x p) (px_y p) \<Longrightarrow> lgui_buffer t p = lgui_buffer s p"
    by (rule paints_insideE) blast
  have "clip_on_screen t" using c same_view_on_screen [OF t(2)] by simp
  with b obtain u where u: "act' t = Inr u" "same_view t u"
    "\<And>p. \<not> in_rect (CLIP t) (px_x p) (px_y p) \<Longrightarrow> lgui_buffer u p = lgui_buffer t p"
    by (rule paints_insideE) blast
  show "\<exists>s'. bind_res (act s) act' = Inr s' \<and> same_view s s' \<and>
      (\<forall>p. \<not> in_rect (CLIP s) (px_x p) (px_y p) \<longrightarrow> lgui_buffer s' p = lgui_buffer s p)"
    using t u same_view_trans [OF t(2) u(2)] same_view_CLIP [OF t(2)] by auto
qed

lemma seq_res_snoc: "seq_res (acts @ [a]) s = bind_res (seq_res acts s) a"
  by (simp add: seq_res_def)

lemma paints_inside_seq [intro]:
  "\<forall>a \<in> set acts. paints_inside a \<Longrightarrow> paints_inside (seq_res acts)"
proof (induction acts rule: rev_induct)
  case Nil
  have "seq_res [] = (Inr :: lgui \<Rightarrow> lgui res)" by (rule ext) (simp add: seq_res_def)
  then show ?case by auto
next
  case (snoc a acts)
  have "seq_res (acts @ [a]) = (\<lambda>s. bind_res (seq_res acts s) a)" by (rule ext) (rule seq_res_snoc)
  with snoc show ?case by auto
qed

lemma paints_inside_flag [intro]: "paints_inside act \<Longrightarrow> paints_inside (when_flag flags f act)"
  by (cases "flags AND f = 0") (auto simp: when_flag_def [abs_def] intro: paints_inside_skip)

lemma draw_clipped_view:
  "draw_clipped x y w h g s = Inr s' \<Longrightarrow> same_view s s'"
  by (auto simp: draw_clipped_def same_view_def lgui_set_dirty_def Let_def split: option.splits prod.splits)

lemma paints_inside_draw:
  assumes "\<And>l j. g l j = Inr (o' l j)"
  shows "paints_inside (\<lambda>s. draw_clipped (x + translate_x s) (y + translate_y s) w h g s)"
  unfolding paints_inside_def
proof (intro allI impI)
  fix s :: lgui assume c: "clip_on_screen s"
  from draw_clipped_run [OF c, of "x + translate_x s" "y + translate_y s" w h g o'] assms obtain s'
    where s': "draw_clipped (x + translate_x s) (y + translate_y s) w h g s = Inr s'"
      "\<And>p. \<not> in_rect (CLIP s) (px_x p) (px_y p) \<Longrightarrow> lgui_buffer s' p = lgui_buffer s p"
    by auto
  then show "\<exists>s'. draw_clipped (x + translate_x s) (y + translate_y s) w h g s = Inr s' \<and> same_view s s' \<and>
      (\<forall>p. \<not> in_rect (CLIP s) (px_x p) (px_y p) \<longrightarrow> lgui_buffer s' p = lgui_buffer s p)"
    using draw_clipped_view by blast
qed

lemma paints_inside_vline [intro]: "paints_inside (lgui_vline x y len w red green blue alpha)"
  unfolding lgui_vline_def [abs_def] by (rule paints_inside_draw) simp

lemma paints_inside_hline [intro]: "paints_inside (lgui_hline x y len w red green blue alpha)"
  unfolding lgui_hline_def [abs_def] by (rule paints_inside_vline)

lemma paints_inside_gradient [intro]: "paints_inside (lgui_vertical_gradient st en x y w h)"
  by (cases st, cases en) (auto simp: lgui_vertical_gradient_def [abs_def] Let_def intro!: paints_inside_draw)

lemma paints_inside_box [intro]: "paints_inside (lgui_box x y w h lw red green blue alpha flags)"
  unfolding lgui_box_def [abs_def] by (rule paints_inside_seq) auto

lemma paints_inside_circle_loop:
  assumes "\<And>x y len. paints_inside (hl x y len)"
  shows "paints_inside (circlefill_loop xc yc x y d di ri hl)"
  using assms
proof (induction "nat (y - x + 1)" arbitrary: x y d di ri rule: less_induct)
  case less
  have unf: "circlefill_loop xc yc x y d di ri hl = (\<lambda>s.
     if x \<le> y then bind_res
          (seq_res [hl (xc - x) (yc + y) (2 * x + 1), hl (xc - x) (yc - y) (2 * x + 1),
                    hl (xc - y) (yc + x) (2 * y + 1), hl (xc - y) (yc - x) (2 * y + 1)] s)
          (if d \<ge> 0 then circlefill_loop xc yc (x + 1) (y - 1) (d + di) (di + 8) (ri + 4) hl
           else circlefill_loop xc yc (x + 1) y (d + ri) (di + 4) (ri + 4) hl)
      else Inr s)"
    by (rule ext) (simp add: circlefill_loop.simps [of xc yc x y])
  show ?case
  proof (cases "x \<le> y")
    case True
    have "paints_inside (if d \<ge> 0 then circlefill_loop xc yc (x + 1) (y - 1) (d + di) (di + 8) (ri + 4) hl
           else circlefill_loop xc yc (x + 1) y (d + ri) (di + 4) (ri + 4) hl)"
      using less True by auto
    then show ?thesis unfolding unf if_P [OF True] using less.prems by (intro paints_inside_bind paints_inside_seq) auto
  next
    case False
    then show ?thesis unfolding unf by (auto intro: paints_inside_skip)
  qed
qed

lemma paints_inside_circlefill [intro]: "paints_inside (lgui_circlefill xc yc r red green blue alpha)"
  unfolding lgui_circlefill_def [abs_def] by (rule paints_inside_circle_loop) auto

lemma paints_inside_roundedbox_fill [intro]:
  "paints_inside (lgui_roundedbox_fill x y w h radius red green blue alpha cf)"
  unfolding lgui_roundedbox_fill_def [abs_def] Let_def by (rule paints_inside_seq) auto

text \<open>An image that holds the rows and columns a blit asks for.\<close>

definition image_covers :: "8 word list \<Rightarrow> int \<Rightarrow> int \<Rightarrow> int \<Rightarrow> int \<Rightarrow> int \<Rightarrow> int \<Rightarrow> bool" where
  "image_covers img bpp base imgy width height rowbytes \<longleftrightarrow>
     0 \<le> base \<and> 0 \<le> imgy \<and> 0 \<le> rowbytes \<and>
     (0 < width \<and> 0 < height \<longrightarrow> base + (imgy + height - 1) * rowbytes + width * bpp \<le> int (length img))"

lemma image_covers_read:
  assumes "image_covers img bpp base imgy width height rowbytes" and "0 \<le> l" "l < height" "0 \<le> j" "j < width"
    and "0 \<le> k" "k < bpp"
  shows "0 \<le> base + (imgy + l) * rowbytes + j * bpp + k \<and>
    base + (imgy + l) * rowbytes + j * bpp + k < int (length img)"
proof -
  have "(imgy + l) * rowbytes \<le> (imgy + height - 1) * rowbytes"
    using assms by (intro mult_right_mono) (auto simp: image_covers_def)
  moreover have "(j + 1) * bpp \<le> width * bpp" using assms by (intro mult_right_mono) auto
  moreover have "0 \<le> (imgy + l) * rowbytes" "0 \<le> j * bpp"
    using assms by (auto simp: image_covers_def)
  ultimately show ?thesis using assms by (auto simp: image_covers_def algebra_simps)
qed

section \<open>Properties\<close>


definition lgui_initial :: lgui where
  "lgui_initial = lgui_clip.extend clip_initial \<lparr>lgui_buffer = (\<lambda>p. 0), putpixelX = 0, putpixelY = 0\<rparr>"

lemma lgui_initial_clip: "CLIP lgui_initial = screen" "translate_x lgui_initial = 0" "translate_y lgui_initial = 0"
    "putpixelX lgui_initial = 0" "putpixelY lgui_initial = 0"
  by (simp_all add: lgui_initial_def clip_initial_def lgui_clip_identity_def set_CLIP_def CLIP_def screen_def
      lgui_clip.defs CLIP_STACK_SIZE_def)

lemma lgui_initial_on_screen: "clip_on_screen lgui_initial"
  by (simp add: clip_on_screen_def lgui_initial_clip screen_def)



text \<open>
  \<open>lgui_blitRGB565\<close> reads only inside an image that holds the requested rows of \<open>rowstride\<close>
  two-byte pixels and writes only inside the framebuffer, whatever part of the image is visible.
\<close>

theorem lgui_blitRGB565_safe:
  assumes "clip_on_screen s" and "image_covers img 2 imgx imgy imgwidth imgheight (rowstride * 2)"
  shows "\<exists>s'. lgui_blitRGB565 destx desty imgx imgy imgwidth imgheight rowstride img isStencil alpha s = Inr s' \<and>
     (\<forall>p. \<not> in_rect (CLIP s) (px_x p) (px_y p) \<longrightarrow> lgui_buffer s' p = lgui_buffer s p)"
proof -
  let ?x = "destx + translate_x s" and ?y = "desty + translate_y s"
  let ?px = "\<lambda>l j. ucast (img ! nat (imgx + (imgy + l) * rowstride * 2 + j * 2)) OR
       push_bit 8 (ucast (img ! nat (imgx + (imgy + l) * rowstride * 2 + j * 2 + 1))) :: 16 word"
  let ?o = "\<lambda>l j. if alpha < 255
               then Some (\<lambda>srcpixel. if isStencil \<and> ?px l j = 0 then srcpixel else PIXEL_MODULATE_ALPHA (?px l j) srcpixel (ucast alpha))
               else if isStencil \<and> ?px l j = 0 then None else Some (\<lambda>srcpixel. ?px l j)"
  let ?g = "\<lambda>line col.
          bind_res (img_read16 img (imgx + (imgy + line) * rowstride * 2 + col * 2)) (\<lambda>pixel.
          Inr (if alpha < 255
               then Some (\<lambda>srcpixel. if isStencil \<and> pixel = 0 then srcpixel else PIXEL_MODULATE_ALPHA pixel srcpixel (ucast alpha))
               else if isStencil \<and> pixel = 0 then None else Some (\<lambda>srcpixel. pixel)))"
  have "?g l j = Inr (?o l j)"
    if "in_rect \<lparr>r_x = ?x, r_y = ?y, r_width = imgwidth, r_height = imgheight\<rparr> (?x + j) (?y + l)" for l j
  proof -
    let ?off = "imgx + (imgy + l) * rowstride * 2 + j * 2"
    have "0 \<le> ?off" "?off + 1 < int (length img)"
      using image_covers_read [OF assms(2), of l j 0] image_covers_read [OF assms(2), of l j 1] that
      by (auto simp: in_rect_def mult.assoc)
    then show ?thesis by (simp add: img_read16_def img_read_def)
  qed
  with draw_clipped_run [OF assms(1), of ?x ?y imgwidth imgheight ?g ?o] show ?thesis
    unfolding lgui_blitRGB565_def by fastforce
qed

theorem lgui_blitRGB565_safe_witness:
  "\<exists>s'. lgui_blitRGB565 318 238 0 0 2 2 2 [1, 2, 3, 4, 5, 6, 7, 8] True 255 lgui_initial = Inr s'"
  using lgui_blitRGB565_safe [OF lgui_initial_on_screen, of "[1, 2, 3, 4, 5, 6, 7, 8]" 0 0 2 2 2 318 238 True 255]
  by (auto simp: image_covers_def)

text \<open>
  \<open>putpixelAlpha\<close> tests its coordinates against the clip region and the screen with the
  bound included: with the whole screen as clip region, drawing at line 240 writes behind the
  end of the framebuffer, at any column.
\<close>

theorem putpixelAlpha_overrun:
  assumes "CLIP s = screen" and "0 \<le> x + translate_x s + putpixelX s" and "x + translate_x s + putpixelX s \<le> LGUI_WIDTH"
    and "y + translate_y s + putpixelY s = LGUI_HEIGHT"
  shows "putpixelAlpha x y pixel intensity s = Inl OutOfBounds"
  using assms
  by (simp add: putpixelAlpha_def Let_def screen_def LGUI_WIDTH_def LGUI_HEIGHT_def px_update_def px_read_def fb_size_def)

theorem putpixelAlpha_overrun_witness: "putpixelAlpha 10 240 0xFFFF 255 lgui_initial = Inl OutOfBounds"
  using putpixelAlpha_overrun [of lgui_initial 10 240] by (simp add: lgui_initial_clip LGUI_WIDTH_def LGUI_HEIGHT_def)

text \<open>
  The table \<open>D\<close> of \<open>drawArch\<close> has 100 entries and is indexed by \<open>R * R\<close>: every arc of radius
  10 or more, and with it every rounded border of such a radius, reads outside the table.
\<close>

theorem drawArch_radius_overrun:
  assumes "10 \<le> R"
  shows "drawArch R red green blue arcs s = Inl OutOfBounds"
proof -
  have "100 \<le> R * R" using mult_mono [of 10 R 10 R] assms by simp
  with assms show ?thesis by (simp add: drawArch_def drawArch_loop.simps read_D_def)
qed

theorem drawArch_radius_overrun_witness: "drawArch 12 255 255 255 1 lgui_initial = Inl OutOfBounds"
  using drawArch_radius_overrun [of 12] by simp

text \<open>
  \<open>GRADIENT_STEP\<close> adds one to the exact start value on the first line of a gradient, so a channel that
  starts at 255 becomes 256 there, which \<open>RGB_TO_565\<close> turns into an empty channel: the first line of a
  gradient starting at white is the almost black pixel \<open>0x0020\<close>.
\<close>

theorem gradient_first_line:
  assumes "0 < height"
  shows "GRADIENT_STEP c e height 0 = ucast c + 1 \<and>
     RGB_TO_565 (GRADIENT_STEP 255 e height 0) (GRADIENT_STEP 255 e height 0) (GRADIENT_STEP 255 e height 0) = 0x0020"
proof -
  have "(u * height) sdiv height = u" if "0 \<le> u" for u :: int
    using assms that by (simp add: signed_divide_int_def sgn_mult sgn_if abs_mult)
  then have "(uint v * height) sdiv height = uint v" for v :: "8 word" by simp
  moreover have "word_of_int (uint v) = (ucast v :: 16 word)" for v :: "8 word" by (simp only: ucast_eq)
  ultimately have "GRADIENT_STEP v e height 0 = ucast v + 1" for v :: "8 word"
    by (simp add: GRADIENT_STEP_def)
  then show ?thesis by (simp add: RGB_TO_565_def)
qed

theorem gradient_first_line_witness: "GRADIENT_STEP 255 0 10 0 = 256"
  using gradient_first_line [of 10 255 0] by simp

end
