(* ===== verification/Linked_List.thy ===== *)
theory Linked_List
  imports C_Prelude
begin

text \<open>
  The doubly linked list of \<open>List.h\<close> and \<open>List.c\<close> on an explicit heap of nodes.

  A \<open>ListNode\<close> is a cell of the heap; \<open>prev\<close> and \<open>next\<close> are addresses or NULL (\<open>None\<close>).
  A \<open>List\<close> struct is passed by value and returned updated, so \<open>EMO_ASSERT(l != NULL)\<close>
  and \<open>EMO_ASSERT(iter != NULL)\<close> hold by typing; assertions on node pointers are kept.
  A \<open>ListIterator\<close> holds the current node and, for the byte offset of \<open>next\<close> or \<open>prev\<close>
  that \<open>list_begin\<close> and \<open>list_rbegin\<close> compute, the direction it stands for; the list it
  belongs to is an argument of the operations that change it.

  Loops over the chain carry fuel \<open>Suc (brk h)\<close>: every allocated address is below
  \<open>brk h\<close>, so a walk that takes more steps visits a node twice and never ends.

  The lemmas show that each operation refines the corresponding operation on HOL lists
  (relation \<open>dll\<close>), which nodes it leaves alone, and where the code breaks the structure.
\<close>

section \<open>Heap of list nodes\<close>

type_synonym addr = nat

record 'a ListNode =
  ln_data :: 'a
  ln_prev :: "addr option"
  ln_next :: "addr option"

record 'a heap =
  cells :: "addr \<Rightarrow> 'a ListNode option"
  brk :: addr

record LList =
  l_length :: int
  l_head :: "addr option"
  l_tail :: "addr option"

datatype iter_offset = NextOff | PrevOff

record ListIterator =
  it_node :: "addr option"
  it_offset :: iter_offset

definition read_node :: "'a heap \<Rightarrow> addr \<Rightarrow> 'a ListNode res" where
  "read_node h a = (case cells h a of None \<Rightarrow> Inl UseAfterFree | Some n \<Rightarrow> Inr n)"

definition write_node :: "'a heap \<Rightarrow> addr \<Rightarrow> 'a ListNode \<Rightarrow> 'a heap" where
  "write_node h a n = h\<lparr>cells := (cells h)(a \<mapsto> n)\<rparr>"

definition malloc_node :: "'a heap \<Rightarrow> addr \<times> 'a heap" where
  "malloc_node h = (brk h, h\<lparr>brk := Suc (brk h)\<rparr>)"

definition free_node :: "'a heap \<Rightarrow> addr \<Rightarrow> 'a heap" where
  "free_node h a = h\<lparr>cells := (cells h)(a := None)\<rparr>"

definition deref :: "'a heap \<Rightarrow> addr option \<Rightarrow> 'a ListNode res" where
  "deref h p = (case p of None \<Rightarrow> Inl NullDeref | Some a \<Rightarrow> read_node h a)"

definition set_next :: "'a heap \<Rightarrow> addr \<Rightarrow> addr option \<Rightarrow> 'a heap res" where
  "set_next h a v = bind_res (read_node h a) (\<lambda>n. Inr (write_node h a (n\<lparr>ln_next := v\<rparr>)))"

definition set_prev :: "'a heap \<Rightarrow> addr \<Rightarrow> addr option \<Rightarrow> 'a heap res" where
  "set_prev h a v = bind_res (read_node h a) (\<lambda>n. Inr (write_node h a (n\<lparr>ln_prev := v\<rparr>)))"

section \<open>The operations of List.c\<close>

text \<open>\<open>list_init\<close> (and \<open>list_new\<close>, which allocates the struct first).\<close>

definition list_new :: LList where
  "list_new = \<lparr>l_length = 0, l_head = None, l_tail = None\<rparr>"

definition list_append :: "'a heap \<Rightarrow> LList \<Rightarrow> 'a \<Rightarrow> ('a heap \<times> LList) res" where
  "list_append h l item =
     (let (node, h) = malloc_node h in
      bind_res
        (case l_tail l of
           Some t \<Rightarrow> bind_res (set_next h t (Some node)) (\<lambda>h. Inr (h, l))
         | None \<Rightarrow> Inr (h, l\<lparr>l_head := Some node\<rparr>))
        (\<lambda>(h, l).
           let h = write_node h node
                     \<lparr>ln_data = item, ln_prev = l_tail l, ln_next = None\<rparr>
           in Inr (h, l\<lparr>l_tail := Some node, l_length := l_length l + 1\<rparr>)))"

definition list_prepend :: "'a heap \<Rightarrow> LList \<Rightarrow> 'a \<Rightarrow> ('a heap \<times> LList) res" where
  "list_prepend h l item =
     (let (node, h) = malloc_node h in
      bind_res
        (case l_head l of
           Some hd' \<Rightarrow> set_prev h hd' (Some node)
         | None \<Rightarrow> Inr h)
        (\<lambda>h.
           let h = write_node h node
                     \<lparr>ln_data = item, ln_prev = None, ln_next = l_head l\<rparr>;
               l = l\<lparr>l_head := Some node\<rparr>;
               l = (if l_tail l = None then l\<lparr>l_tail := Some node\<rparr> else l)
           in Inr (h, l\<lparr>l_length := l_length l + 1\<rparr>)))"

fun list_clear_loop :: "nat \<Rightarrow> 'a heap \<Rightarrow> addr option \<Rightarrow> 'a heap res" where
  "list_clear_loop fuel h None = Inr h"
| "list_clear_loop 0 h (Some a) = Inl Diverge"
| "list_clear_loop (Suc fuel) h (Some a) =
     bind_res (read_node h a) (\<lambda>n. list_clear_loop fuel (free_node h a) (ln_next n))"

text \<open>\<open>list_clear\<close> frees the nodes and does not touch the \<open>List\<close> struct.\<close>

definition list_clear :: "'a heap \<Rightarrow> LList \<Rightarrow> 'a heap res" where
  "list_clear h l = list_clear_loop (Suc (brk h)) h (l_head l)"

text \<open>\<open>list_delete\<close> clears the list and frees the struct, so no list is returned.\<close>

definition list_delete :: "'a heap \<Rightarrow> LList \<Rightarrow> 'a heap res" where
  "list_delete h l = list_clear h l"

definition list_begin :: "LList \<Rightarrow> ListIterator" where
  "list_begin l = \<lparr>it_node = l_head l, it_offset = NextOff\<rparr>"

definition list_rbegin :: "LList \<Rightarrow> ListIterator" where
  "list_rbegin l = \<lparr>it_node = l_tail l, it_offset = PrevOff\<rparr>"

definition listIterator_finished :: "ListIterator \<Rightarrow> bool" where
  "listIterator_finished it = (it_node it = None)"

definition listIterator_item :: "'a heap \<Rightarrow> ListIterator \<Rightarrow> 'a option res" where
  "listIterator_item h it =
     (case it_node it of
        None \<Rightarrow> Inr None
      | Some a \<Rightarrow> bind_res (read_node h a) (\<lambda>n. Inr (Some (ln_data n))))"

definition listIterator_next :: "'a heap \<Rightarrow> ListIterator \<Rightarrow> ListIterator res" where
  "listIterator_next h it =
     (case it_node it of
        None \<Rightarrow> Inr it
      | Some a \<Rightarrow> bind_res (read_node h a)
          (\<lambda>n. Inr (it\<lparr>it_node := (case it_offset it of NextOff \<Rightarrow> ln_next n | PrevOff \<Rightarrow> ln_prev n)\<rparr>)))"

definition listIterator_remove ::
  "'a heap \<Rightarrow> LList \<Rightarrow> ListIterator \<Rightarrow> ('a heap \<times> LList \<times> ListIterator) res" where
  "listIterator_remove h l it =
     (case it_node it of
        None \<Rightarrow> Inl NullDeref
      | Some a \<Rightarrow>
          bind_res (read_node h a) (\<lambda>n.
          bind_res
            (case ln_prev n of
               Some p \<Rightarrow> bind_res (set_next h p (ln_next n)) (\<lambda>h. Inr (h, l))
             | None \<Rightarrow> Inr (h, l\<lparr>l_head := ln_next n\<rparr>)) (\<lambda>(h, l).
          bind_res
            (case ln_next n of
               Some q \<Rightarrow> bind_res (set_prev h q (ln_prev n)) (\<lambda>h. Inr (h, l))
             | None \<Rightarrow> Inr (h, l\<lparr>l_tail := ln_prev n\<rparr>)) (\<lambda>(h, l).
          Inr (free_node h a, l\<lparr>l_length := l_length l - 1\<rparr>,
               it\<lparr>it_node := ln_prev n\<rparr>)))))"

definition listIterator_insertBefore ::
  "'a heap \<Rightarrow> LList \<Rightarrow> ListIterator \<Rightarrow> 'a \<Rightarrow> ('a heap \<times> LList) res" where
  "listIterator_insertBefore h l it obj =
     (case it_node it of
        None \<Rightarrow> Inl Abort
      | Some a \<Rightarrow>
          (let (node, h) = malloc_node h in
           bind_res (read_node h a) (\<lambda>n.
           let new = \<lparr>ln_data = obj, ln_prev = ln_prev n, ln_next = Some a\<rparr>;
               h = write_node h node new in
           bind_res (set_prev h a (Some node)) (\<lambda>h.
           let l = l\<lparr>l_length := l_length l + 1\<rparr> in
           Inr (h, if ln_prev new = None then l\<lparr>l_head := Some node\<rparr> else l)))))"

definition listIterator_insertAfter ::
  "'a heap \<Rightarrow> LList \<Rightarrow> ListIterator \<Rightarrow> 'a \<Rightarrow> ('a heap \<times> LList) res" where
  "listIterator_insertAfter h l it obj =
     (case it_node it of
        None \<Rightarrow> Inl Abort
      | Some a \<Rightarrow>
          (let (node, h) = malloc_node h in
           bind_res (read_node h a) (\<lambda>n.
           let new = \<lparr>ln_data = obj, ln_prev = Some a, ln_next = ln_next n\<rparr>;
               h = write_node h node new in
           bind_res (set_next h a (Some node)) (\<lambda>h.
           let l = l\<lparr>l_length := l_length l + 1\<rparr> in
           Inr (h, if ln_next new = None then l\<lparr>l_tail := Some node\<rparr> else l)))))"

fun list_findIter_loop ::
  "nat \<Rightarrow> 'a heap \<Rightarrow> 'b \<Rightarrow> ('b \<Rightarrow> 'a \<Rightarrow> int) \<Rightarrow> ListIterator \<Rightarrow> (bool \<times> ListIterator) res" where
  "list_findIter_loop 0 h obj lc it = (if listIterator_finished it then Inr (False, it) else Inl Diverge)"
| "list_findIter_loop (Suc fuel) h obj lc it =
     (if listIterator_finished it then Inr (False, it)
      else bind_res (listIterator_item h it) (\<lambda>output.
           case output of
             None \<Rightarrow> Inl NullDeref
           | Some x \<Rightarrow>
               if lc obj x = 0 then Inr (True, it)
               else bind_res (listIterator_next h it) (list_findIter_loop fuel h obj lc)))"

definition list_findIter ::
  "'a heap \<Rightarrow> LList \<Rightarrow> 'b \<Rightarrow> ('b \<Rightarrow> 'a \<Rightarrow> int) \<Rightarrow> (bool \<times> ListIterator) res" where
  "list_findIter h l obj lc = list_findIter_loop (Suc (brk h)) h obj lc (list_begin l)"

definition list_find :: "'a heap \<Rightarrow> LList \<Rightarrow> 'b \<Rightarrow> ('b \<Rightarrow> 'a \<Rightarrow> int) \<Rightarrow> 'a option res" where
  "list_find h l obj lc =
     bind_res (list_findIter h l obj lc)
       (\<lambda>(result, it). if \<not> result then Inr None else listIterator_item h it)"

text \<open>
  \<open>list_debug\<close> walks the list from \<open>list_begin\<close> and prints every item; the model returns the
  printed items. \<open>list_walk\<close> is its loop, which every client loop of the shape
  \<open>for (list_begin(..); !listIterator_finished(..); listIterator_next(..))\<close> shares.
\<close>

fun list_walk :: "nat \<Rightarrow> 'a heap \<Rightarrow> ListIterator \<Rightarrow> 'a list res" where
  "list_walk 0 h it = (if listIterator_finished it then Inr [] else Inl Diverge)"
| "list_walk (Suc fuel) h it =
     (if listIterator_finished it then Inr []
      else bind_res (listIterator_item h it) (\<lambda>output.
           case output of
             None \<Rightarrow> Inl NullDeref
           | Some x \<Rightarrow>
               bind_res (listIterator_next h it) (\<lambda>it.
               bind_res (list_walk fuel h it) (\<lambda>xs. Inr (x # xs)))))"

definition list_debug :: "'a heap \<Rightarrow> LList \<Rightarrow> 'a list res" where
  "list_debug h l = list_walk (Suc (brk h)) h (list_begin l)"

definition list_size :: "LList \<Rightarrow> int" where
  "list_size l = l_length l"

definition list_firstItem :: "'a heap \<Rightarrow> LList \<Rightarrow> 'a option res" where
  "list_firstItem h l =
     (case l_head l of None \<Rightarrow> Inr None | Some a \<Rightarrow> bind_res (read_node h a) (\<lambda>n. Inr (Some (ln_data n))))"

definition list_lastItem :: "'a heap \<Rightarrow> LList \<Rightarrow> 'a option res" where
  "list_lastItem h l =
     (case l_tail l of None \<Rightarrow> Inr None | Some a \<Rightarrow> bind_res (read_node h a) (\<lambda>n. Inr (Some (ln_data n))))"

definition ListEqualComparitor :: "'a \<Rightarrow> 'a \<Rightarrow> int" where
  "ListEqualComparitor arg1 arg2 = (if arg1 = arg2 then 0 else 1)"

declare list_walk.simps [simp del] list_findIter_loop.simps [simp del]

section \<open>Abstraction: the list a chain of nodes represents\<close>

fun first_addr :: "(addr \<times> 'a) list \<Rightarrow> addr option \<Rightarrow> addr option" where
  "first_addr [] nx = nx"
| "first_addr ((a, x) # xs) nx = Some a"

fun last_addr :: "(addr \<times> 'a) list \<Rightarrow> addr option \<Rightarrow> addr option" where
  "last_addr [] pv = pv"
| "last_addr ((a, x) # xs) pv = last_addr xs (Some a)"

text \<open>\<open>dlseg c pv xs nx\<close>: the cells at the addresses of \<open>xs\<close> hold its items and are linked
  in both directions, the first one back to \<open>pv\<close>, the last one on to \<open>nx\<close>.\<close>

fun dlseg :: "(addr \<Rightarrow> 'a ListNode option) \<Rightarrow> addr option \<Rightarrow> (addr \<times> 'a) list \<Rightarrow> addr option \<Rightarrow> bool" where
  "dlseg c pv [] nx = True"
| "dlseg c pv ((a, x) # xs) nx =
     (c a = Some \<lparr>ln_data = x, ln_prev = pv, ln_next = first_addr xs nx\<rparr> \<and> dlseg c (Some a) xs nx)"

text \<open>The two halves of \<open>dlseg\<close>: the links a forward walk follows and those a backward
  walk follows.\<close>

fun fwdseg :: "(addr \<Rightarrow> 'a ListNode option) \<Rightarrow> (addr \<times> 'a) list \<Rightarrow> addr option \<Rightarrow> bool" where
  "fwdseg c [] nx = True"
| "fwdseg c ((a, x) # xs) nx =
     ((case c a of None \<Rightarrow> False | Some n \<Rightarrow> ln_data n = x \<and> ln_next n = first_addr xs nx) \<and>
      fwdseg c xs nx)"

fun bwdseg :: "(addr \<Rightarrow> 'a ListNode option) \<Rightarrow> addr option \<Rightarrow> (addr \<times> 'a) list \<Rightarrow> bool" where
  "bwdseg c pv [] = True"
| "bwdseg c pv ((a, x) # xs) =
     ((case c a of None \<Rightarrow> False | Some n \<Rightarrow> ln_data n = x \<and> ln_prev n = pv) \<and>
      bwdseg c (Some a) xs)"

abbreviation addrs :: "(addr \<times> 'a) list \<Rightarrow> addr set" where
  "addrs xs \<equiv> fst ` set xs"

definition dll :: "'a heap \<Rightarrow> LList \<Rightarrow> (addr \<times> 'a) list \<Rightarrow> bool" where
  "dll h l xs \<longleftrightarrow>
     dlseg (cells h) None xs None \<and> distinct (map fst xs) \<and> (\<forall>a \<in> addrs xs. a < brk h) \<and>
     l_head l = first_addr xs None \<and> l_tail l = last_addr xs None \<and>
     l_length l = int (length xs)"

text \<open>The cells outside \<open>A\<close> are the same in both heaps.\<close>

definition same_outside :: "addr set \<Rightarrow> 'a heap \<Rightarrow> 'a heap \<Rightarrow> bool" where
  "same_outside A h h' \<longleftrightarrow> (\<forall>b. b \<notin> A \<longrightarrow> cells h' b = cells h b) \<and> brk h \<le> brk h'"

lemmas node_defs =
  read_node_def write_node_def malloc_node_def free_node_def set_next_def set_prev_def

lemma first_addr_append: "first_addr (xs @ ys) nx = first_addr xs (first_addr ys nx)"
  by (cases xs) auto

lemma last_addr_append: "last_addr (xs @ ys) pv = last_addr ys (last_addr xs pv)"
  by (induction xs arbitrary: pv) auto

lemma first_addr_None [simp]: "first_addr xs None = None \<longleftrightarrow> xs = []"
  by (cases xs) auto

lemma last_addr_Some_in: "last_addr xs pv = Some a \<Longrightarrow> xs \<noteq> [] \<Longrightarrow> a \<in> addrs xs"
proof (induction xs arbitrary: pv)
  case (Cons p xs)
  then show ?case by (cases p; cases xs) auto
qed simp

lemma last_addr_None [simp]: "last_addr xs None = None \<longleftrightarrow> xs = []"
proof (induction xs rule: rev_induct)
  case (snoc p xs)
  then show ?case by (cases p) (simp add: last_addr_append)
qed simp

lemma dlseg_append [simp]:
  "dlseg c pv (xs @ ys) nx \<longleftrightarrow>
     dlseg c pv xs (first_addr ys nx) \<and> dlseg c (last_addr xs pv) ys nx"
  by (induction xs arbitrary: pv) (auto simp: first_addr_append)

lemma dlseg_frame [frame_rules]:
  "a \<notin> addrs xs \<Longrightarrow> dlseg (c(a := v)) pv xs nx = dlseg c pv xs nx"
  by (induction xs arbitrary: pv) auto

lemma dlseg_fwdseg: "dlseg c pv xs nx \<Longrightarrow> fwdseg c xs nx"
  by (induction xs arbitrary: pv) auto

lemma dlseg_bwdseg: "dlseg c pv xs nx \<Longrightarrow> bwdseg c pv xs"
  by (induction xs arbitrary: pv) auto

lemma fwdseg_append [simp]:
  "fwdseg c (xs @ ys) nx \<longleftrightarrow> fwdseg c xs (first_addr ys nx) \<and> fwdseg c ys nx"
  by (induction xs) (auto simp: first_addr_append split: option.splits)

lemma bwdseg_append [simp]:
  "bwdseg c pv (xs @ ys) \<longleftrightarrow> bwdseg c pv xs \<and> bwdseg c (last_addr xs pv) ys"
  by (induction xs arbitrary: pv) auto

lemma fwdseg_frame [frame_rules]: "a \<notin> addrs xs \<Longrightarrow> fwdseg (c(a := v)) xs nx = fwdseg c xs nx"
  by (induction xs) auto

lemma bwdseg_frame [frame_rules]: "a \<notin> addrs xs \<Longrightarrow> bwdseg (c(a := v)) pv xs = bwdseg c pv xs"
  by (induction xs arbitrary: pv) auto

lemma dlseg_cong:
  "(\<And>a. a \<in> addrs xs \<Longrightarrow> c a = c' a) \<Longrightarrow> dlseg c pv xs nx = dlseg c' pv xs nx"
  by (induction xs arbitrary: pv) auto

text \<open>Relinking the last node forward, or the first node backward.\<close>

lemma dlseg_relink_next:
  assumes "dlseg c pv (xs @ [(a, x)]) nx" and "a \<notin> addrs xs"
  shows "dlseg (c(a \<mapsto> \<lparr>ln_data = x, ln_prev = last_addr xs pv, ln_next = nx'\<rparr>)) pv (xs @ [(a, x)]) nx'"
  using assms by (simp add: dlseg_frame)

lemma dlseg_relink_prev:
  assumes "dlseg c pv ((a, x) # xs) nx" and "a \<notin> addrs xs"
  shows "dlseg (c(a \<mapsto> \<lparr>ln_data = x, ln_prev = pv', ln_next = first_addr xs nx\<rparr>)) pv' ((a, x) # xs) nx"
  using assms by (simp add: dlseg_frame)

lemma dll_length_le: "dll h l xs \<Longrightarrow> length xs \<le> brk h"
proof -
  assume d: "dll h l xs"
  have "card (set (map fst xs)) = length (map fst xs)"
    using d by (intro distinct_card) (simp add: dll_def)
  then have "length xs = card (addrs xs)" by simp
  also have "\<dots> \<le> card {..<brk h}"
    using d by (intro card_mono) (auto simp: dll_def)
  finally show ?thesis by simp
qed

lemma dll_brk_fresh: "dll h l xs \<Longrightarrow> brk h \<notin> addrs xs"
  by (auto simp: dll_def)

lemma dll_new [refine_rules]: "dll h list_new []"
  by (simp add: dll_def list_new_def)

text \<open>A list keeps its contents when only other cells change.\<close>

lemma dll_same_outside [frame_rules]:
  assumes "dll h l xs" and "same_outside A h h'" and "addrs xs \<inter> A = {}"
  shows "dll h' l xs"
proof -
  have "\<And>a. a \<in> addrs xs \<Longrightarrow> cells h a = cells h' a"
    using assms(2,3) unfolding same_outside_def by (metis IntI empty_iff)
  then have "dlseg (cells h') None xs None"
    using assms(1) dlseg_cong [of xs "cells h" "cells h'"] by (simp add: dll_def)
  with assms show ?thesis by (fastforce simp: dll_def same_outside_def)
qed

section \<open>What each operation does to the represented list\<close>

lemma list_append_refines [refine_rules]:
  assumes "dll h l xs"
  shows "\<exists>h' l'. list_append h l x = Inr (h', l') \<and> dll h' l' (xs @ [(brk h, x)]) \<and>
           same_outside (insert (brk h) (addrs xs)) h h'"
proof (cases xs rule: rev_cases)
  case Nil
  with assms show ?thesis
    by (simp add: list_append_def dll_def node_defs same_outside_def)
next
  case (snoc ys p)
  obtain a y where p: "p = (a, y)" by fastforce
  have "a < brk h" "brk h \<notin> addrs ys" "a \<notin> addrs ys"
    using assms by (auto simp: dll_def snoc p)
  then show ?thesis
    using assms
    by (auto simp: list_append_def dll_def node_defs same_outside_def snoc p last_addr_append
        first_addr_append dlseg_frame)
qed

lemma list_prepend_refines [refine_rules]:
  assumes "dll h l xs"
  shows "\<exists>h' l'. list_prepend h l x = Inr (h', l') \<and> dll h' l' ((brk h, x) # xs) \<and>
           same_outside (insert (brk h) (addrs xs)) h h'"
proof (cases xs)
  case Nil
  with assms show ?thesis
    by (simp add: list_prepend_def dll_def node_defs same_outside_def)
next
  case (Cons p ys)
  obtain a y where p: "p = (a, y)" by fastforce
  have "last_addr ys (Some a) \<noteq> None"
    using last_addr_None [of "(a, y) # ys"] by (simp del: last_addr_None)
  moreover have "a < brk h" "brk h \<notin> addrs ys" "a \<notin> addrs ys"
    using assms by (auto simp: dll_def Cons p)
  ultimately show ?thesis
    using assms
    by (auto simp: list_prepend_def dll_def node_defs same_outside_def Cons p dlseg_frame)
      (force intro: less_SucI)
qed

text \<open>
  \<open>listIterator_remove\<close> unlinks and frees the current node; the iterator is left on the
  previous node, and at the head that is NULL: the iteration is then finished.
\<close>

lemma listIterator_remove_refines [refine_rules]:
  assumes d: "dll h l (us @ (a, x) # vs)" and it: "it_node it = Some a"
  shows "\<exists>h' l'. listIterator_remove h l it = Inr (h', l', it\<lparr>it_node := last_addr us None\<rparr>) \<and>
           dll h' l' (us @ vs) \<and> same_outside (addrs (us @ (a, x) # vs)) h h' \<and> cells h' a = None \<and> brk h' = brk h"
proof -
  have na: "a \<notin> addrs us" "a \<notin> addrs vs" "addrs us \<inter> addrs vs = {}"
    using d by (auto simp: dll_def)
  have ca: "cells h a = Some \<lparr>ln_data = x, ln_prev = last_addr us None, ln_next = first_addr vs None\<rparr>"
    using d by (simp add: dll_def)
  show ?thesis
  proof (cases us rule: rev_cases; cases vs)
    assume "us = []" "vs = []"
    then show ?thesis using d it na ca
      by (simp add: listIterator_remove_def dll_def node_defs same_outside_def)
  next
    fix q vs' assume "us = []" "vs = q # vs'"
    then show ?thesis using d it na ca
      by (cases q) (auto simp: listIterator_remove_def dll_def node_defs same_outside_def dlseg_frame)
  next
    fix us' p assume "us = us' @ [p]" "vs = []"
    then show ?thesis using d it na ca
      by (cases p) (auto simp: listIterator_remove_def dll_def node_defs same_outside_def dlseg_frame
          last_addr_append first_addr_append)
  next
    fix us' p q vs' assume "us = us' @ [p]" "vs = q # vs'"
    then show ?thesis using d it na ca
      by (cases p; cases q) (auto simp: listIterator_remove_def dll_def node_defs same_outside_def
          dlseg_frame last_addr_append first_addr_append)
  qed
qed

lemma listIterator_remove_finished: "it_node it = None \<Longrightarrow> listIterator_remove h l it = Inl NullDeref"
  by (simp add: listIterator_remove_def)

lemma list_clear_loop_frees:
  "dlseg (cells h) pv xs None \<Longrightarrow> distinct (map fst xs) \<Longrightarrow> length xs \<le> fuel \<Longrightarrow>
   list_clear_loop fuel h (first_addr xs None) =
     Inr (h\<lparr>cells := (\<lambda>b. if b \<in> addrs xs then None else cells h b)\<rparr>)"
proof (induction xs arbitrary: fuel h pv)
  case Nil
  then show ?case by simp
next
  case (Cons p xs)
  obtain a x where p: "p = (a, x)" by fastforce
  obtain n where n: "fuel = Suc n" using Cons.prems(3) by (cases fuel) auto
  have na: "a \<notin> addrs xs" using Cons.prems(2) p by auto
  have seg: "dlseg (cells (free_node h a)) (Some a) xs None"
    using Cons.prems(1) na by (simp add: p free_node_def dlseg_frame)
  from Cons.IH [OF seg, of n] show ?case
    using Cons.prems na by (auto simp: p n node_defs intro!: arg_cong [where f = Inr] heap.equality)
qed

lemma list_clear_refines [refine_rules]:
  assumes "dll h l xs"
  shows "list_clear h l = Inr (h\<lparr>cells := (\<lambda>b. if b \<in> addrs xs then None else cells h b)\<rparr>)"
  using list_clear_loop_frees [of h None xs "Suc (brk h)"] dll_length_le [OF assms] assms
  by (simp add: list_clear_def dll_def)

text \<open>Iterating forward visits the represented items in order, iterating backward in the
  opposite order.\<close>

lemma list_walk_next:
  "fwdseg (cells h) xs None \<Longrightarrow> length xs \<le> fuel \<Longrightarrow>
   list_walk fuel h \<lparr>it_node = first_addr xs None, it_offset = NextOff\<rparr> = Inr (map snd xs)"
proof (induction xs arbitrary: fuel)
  case Nil
  then show ?case by (cases fuel) (simp_all add: listIterator_finished_def list_walk.simps)
next
  case (Cons p xs)
  then show ?case
    by (cases p; cases fuel)
      (auto simp: listIterator_finished_def listIterator_item_def listIterator_next_def node_defs
        list_walk.simps split: option.splits)
qed

lemma list_walk_prev:
  "bwdseg (cells h) None xs \<Longrightarrow> length xs \<le> fuel \<Longrightarrow>
   list_walk fuel h \<lparr>it_node = last_addr xs None, it_offset = PrevOff\<rparr> = Inr (rev (map snd xs))"
proof (induction xs arbitrary: fuel rule: rev_induct)
  case Nil
  then show ?case by (cases fuel) (simp_all add: listIterator_finished_def list_walk.simps)
next
  case (snoc p xs)
  then show ?case
    by (cases p; cases fuel)
      (auto simp: listIterator_finished_def listIterator_item_def listIterator_next_def node_defs
        last_addr_append list_walk.simps split: option.splits)
qed

lemma list_debug_refines [refine_rules]: "dll h l xs \<Longrightarrow> list_debug h l = Inr (map snd xs)"
  using list_walk_next [of h xs "Suc (brk h)"] dll_length_le [of h l xs]
    dlseg_fwdseg [of "cells h" None xs None]
  by (simp add: list_debug_def dll_def list_begin_def)

lemma list_rwalk_refines [refine_rules]:
  "dll h l xs \<Longrightarrow> list_walk (Suc (brk h)) h (list_rbegin l) = Inr (rev (map snd xs))"
  using list_walk_prev [of h xs "Suc (brk h)"] dll_length_le [of h l xs]
    dlseg_bwdseg [of "cells h" None xs None]
  by (simp add: dll_def list_rbegin_def)

lemma list_size_refines [refine_rules]: "dll h l xs \<Longrightarrow> list_size l = int (length xs)"
  by (simp add: dll_def list_size_def)

lemma list_firstItem_refines [refine_rules]:
  "dll h l xs \<Longrightarrow> list_firstItem h l = Inr (case xs of [] \<Rightarrow> None | p # _ \<Rightarrow> Some (snd p))"
  by (cases xs) (auto simp: dll_def list_firstItem_def node_defs)

lemma list_lastItem_refines [refine_rules]:
  "dll h l xs \<Longrightarrow> list_lastItem h l = Inr (if xs = [] then None else Some (snd (last xs)))"
  by (cases xs rule: rev_cases) (auto simp: dll_def list_lastItem_def node_defs last_addr_append)

text \<open>\<open>list_findIter\<close> stops at the first item the comparator maps to 0.\<close>

definition find_result :: "(addr \<times> 'a) list \<Rightarrow> bool \<times> ListIterator" where
  "find_result ys = (ys \<noteq> [], \<lparr>it_node = first_addr ys None, it_offset = NextOff\<rparr>)"

lemma list_findIter_loop_refines:
  "dlseg (cells h) pv xs None \<Longrightarrow> length xs \<le> fuel \<Longrightarrow>
   list_findIter_loop fuel h obj lc \<lparr>it_node = first_addr xs None, it_offset = NextOff\<rparr> =
     Inr (find_result (dropWhile (\<lambda>p. lc obj (snd p) \<noteq> 0) xs))"
proof (induction xs arbitrary: fuel pv)
  case Nil
  then show ?case by (cases fuel) (simp_all add: listIterator_finished_def find_result_def list_findIter_loop.simps)
next
  case (Cons p xs)
  then show ?case
    by (cases p; cases fuel)
      (auto simp: listIterator_finished_def listIterator_item_def listIterator_next_def node_defs
        find_result_def list_findIter_loop.simps)
qed

lemma list_findIter_refines [refine_rules]:
  "dll h l xs \<Longrightarrow>
   list_findIter h l obj lc = Inr (find_result (dropWhile (\<lambda>p. lc obj (snd p) \<noteq> 0) xs))"
  using list_findIter_loop_refines [of h None xs "Suc (brk h)"] dll_length_le [of h l xs]
  by (simp add: list_findIter_def dll_def list_begin_def)

lemma find_dropWhile:
  "List.find P xs = (case dropWhile (\<lambda>x. \<not> P x) xs of [] \<Rightarrow> None | x # _ \<Rightarrow> Some x)"
  by (induction xs) auto

lemma dlseg_cell:
  "dlseg c pv xs nx \<Longrightarrow> (a, x) \<in> set xs \<Longrightarrow> \<exists>n. c a = Some n \<and> ln_data n = x"
  by (induction xs arbitrary: pv) auto

lemma list_find_refines [refine_rules]:
  assumes d: "dll h l xs"
  shows "list_find h l obj lc = Inr (List.find (\<lambda>x. lc obj x = 0) (map snd xs))"
proof -
  let ?ys = "dropWhile (\<lambda>p. lc obj (snd p) \<noteq> 0) xs"
  have dw: "dropWhile (\<lambda>x. lc obj x \<noteq> 0) (map snd xs) = map snd ?ys"
    by (simp add: dropWhile_map comp_def)
  show ?thesis
  proof (cases ?ys)
    case Nil
    then show ?thesis
      using list_findIter_refines [OF d, of obj lc]
      by (simp only: find_dropWhile dw) (simp add: list_find_def find_result_def)
  next
    case (Cons p ys)
    obtain a x where p: "p = (a, x)" by fastforce
    have "(a, x) \<in> set xs" using Cons p by (metis list.set_intros(1) set_dropWhileD)
    then obtain n where "cells h a = Some n" "ln_data n = x"
      using d dlseg_cell [of "cells h" None xs None] by (auto simp: dll_def)
    then show ?thesis
      using list_findIter_refines [OF d, of obj lc]
      by (simp add: list_find_def find_result_def find_dropWhile dw Cons p listIterator_item_def node_defs)
  qed
qed

subsection \<open>Insertion at an iterator\<close>

text \<open>At the ends both insertions are right: before the head, after the tail.\<close>

lemma listIterator_insertBefore_head [refine_rules]:
  assumes d: "dll h l ((a, x) # vs)" and it: "it_node it = Some a"
  shows "\<exists>h' l'. listIterator_insertBefore h l it obj = Inr (h', l') \<and> dll h' l' ((brk h, obj) # (a, x) # vs)"
proof -
  have "a < brk h" "brk h \<notin> addrs vs" "a \<notin> addrs vs" using d by (auto simp: dll_def)
  then show ?thesis
    using d it
    by (auto simp: listIterator_insertBefore_def dll_def node_defs dlseg_frame)
qed

lemma listIterator_insertAfter_tail [refine_rules]:
  assumes d: "dll h l (us @ [(a, x)])" and it: "it_node it = Some a"
  shows "\<exists>h' l'. listIterator_insertAfter h l it obj = Inr (h', l') \<and> dll h' l' (us @ [(a, x), (brk h, obj)])"
proof -
  have "a < brk h" "brk h \<notin> addrs us" "a \<notin> addrs us" using d by (auto simp: dll_def)
  then show ?thesis
    using d it
    by (auto simp: listIterator_insertAfter_def dll_def node_defs dlseg_frame last_addr_append first_addr_append)
qed

text \<open>
  Inside the list they are not: \<open>insertBefore\<close> does not link the previous node to the new
  one, \<open>insertAfter\<close> does not link the next node back. The forward walk misses the item
  inserted before, the backward walk the item inserted after; the counted length is one more.
\<close>

lemma listIterator_insertBefore_mid:
  assumes d: "dll h l (us @ (a, x) # vs)" and us: "us \<noteq> []" and it: "it_node it = Some a"
  shows "\<exists>h' l'. listIterator_insertBefore h l it obj = Inr (h', l') \<and>
           list_debug h' l' = Inr (map snd (us @ (a, x) # vs)) \<and>
           list_size l' = int (length (us @ (a, x) # vs)) + 1"
proof -
  let ?xs = "us @ (a, x) # vs"
  let ?c = "(cells h)(brk h \<mapsto> \<lparr>ln_data = obj, ln_prev = last_addr us None, ln_next = Some a\<rparr>,
       a \<mapsto> \<lparr>ln_data = x, ln_prev = Some (brk h), ln_next = first_addr vs None\<rparr>)"
  let ?h = "\<lparr>cells = ?c, brk = Suc (brk h)\<rparr>" and ?l = "l\<lparr>l_length := l_length l + 1\<rparr>"
  have na: "a \<notin> addrs us" "a \<notin> addrs vs" "a \<noteq> brk h" using d by (auto simp: dll_def)
  have nb: "brk h \<notin> addrs us" "brk h \<notin> addrs vs" using dll_brk_fresh [OF d] by auto
  have run: "listIterator_insertBefore h l it obj = Inr (?h, ?l)"
    using d it us na by (auto simp: listIterator_insertBefore_def dll_def node_defs)
  have "fwdseg ?c ?xs None"
    using d na nb dlseg_fwdseg [of "cells h" None ?xs None] by (simp add: dll_def fwdseg_frame)
  then have "list_debug ?h ?l = Inr (map snd ?xs)"
    using list_walk_next [of ?h ?xs "Suc (brk ?h)"] dll_length_le [OF d] d
    by (simp add: list_debug_def list_begin_def dll_def)
  with run d show ?thesis by (simp add: dll_def list_size_def)
qed

lemma listIterator_insertAfter_mid:
  assumes d: "dll h l (us @ (a, x) # vs)" and vs: "vs \<noteq> []" and it: "it_node it = Some a"
  shows "\<exists>h' l'. listIterator_insertAfter h l it obj = Inr (h', l') \<and>
           list_debug h' l' = Inr (map snd (us @ (a, x) # (brk h, obj) # vs)) \<and>
           list_walk (Suc (brk h')) h' (list_rbegin l') = Inr (rev (map snd (us @ (a, x) # vs)))"
proof -
  let ?xs = "us @ (a, x) # vs" and ?ys = "us @ (a, x) # (brk h, obj) # vs"
  let ?c = "(cells h)(brk h \<mapsto> \<lparr>ln_data = obj, ln_prev = Some a, ln_next = first_addr vs None\<rparr>,
       a \<mapsto> \<lparr>ln_data = x, ln_prev = last_addr us None, ln_next = Some (brk h)\<rparr>)"
  let ?h = "\<lparr>cells = ?c, brk = Suc (brk h)\<rparr>" and ?l = "l\<lparr>l_length := l_length l + 1\<rparr>"
  have na: "a \<notin> addrs us" "a \<notin> addrs vs" "a \<noteq> brk h" using d by (auto simp: dll_def)
  have nb: "brk h \<notin> addrs us" "brk h \<notin> addrs vs" using dll_brk_fresh [OF d] by auto
  have run: "listIterator_insertAfter h l it obj = Inr (?h, ?l)"
    using d it vs na by (auto simp: listIterator_insertAfter_def dll_def node_defs)
  have "fwdseg ?c ?ys None"
    using d na nb dlseg_fwdseg [of "cells h" None ?xs None] by (simp add: dll_def fwdseg_frame)
  then have fwd: "list_debug ?h ?l = Inr (map snd ?ys)"
    using list_walk_next [of ?h ?ys "Suc (brk ?h)"] dll_length_le [OF d] d
    by (simp add: list_debug_def list_begin_def dll_def first_addr_append)
  have "bwdseg ?c None ?xs"
    using d na nb dlseg_bwdseg [of "cells h" None ?xs None] by (simp add: dll_def bwdseg_frame)
  then have "list_walk (Suc (brk ?h)) ?h (list_rbegin ?l) = Inr (rev (map snd ?xs))"
    using list_walk_prev [of ?h ?xs "Suc (brk ?h)"] dll_length_le [OF d] d
    by (simp add: list_rbegin_def dll_def)
  with run fwd show ?thesis by simp
qed

subsection \<open>A cleared list cannot be used again\<close>

text \<open>
  \<open>list_clear\<close> frees the nodes and leaves \<open>head\<close>, \<open>tail\<close> and \<open>length\<close> as they were: the next
  append to the same \<open>List\<close> writes to a freed node.
\<close>

lemma list_clear_append_uaf:
  assumes d: "dll h l xs" and ne: "xs \<noteq> []"
  shows "bind_res (list_clear h l) (\<lambda>h. list_append h l x) = Inl UseAfterFree"
proof -
  obtain t where t: "last_addr xs None = Some t"
    using ne last_addr_None [of xs] by (cases "last_addr xs None") auto
  then have "l_tail l = Some t" "t \<in> addrs xs"
    using d last_addr_Some_in [OF t ne] by (simp_all add: dll_def)
  then show ?thesis
    by (simp add: list_clear_refines [OF d] list_append_def node_defs)
qed

section \<open>The interface the clients rely on\<close>

text \<open>
  Clients that only append and traverse (the list of in-progress requests, the redraw list,
  the completed fields and nodes of a synchronisation) see a list through this contract.
\<close>

fun append_all :: "('h \<Rightarrow> 'l \<Rightarrow> 'a \<Rightarrow> ('h \<times> 'l) res) \<Rightarrow> 'h \<Rightarrow> 'l \<Rightarrow> 'a list \<Rightarrow> ('h \<times> 'l) res" where
  "append_all app h l [] = Inr (h, l)"
| "append_all app h l (x # xs) = bind_res (app h l x) (\<lambda>(h, l). append_all app h l xs)"

locale sequence_store =
  fixes repr :: "'h \<Rightarrow> 'l \<Rightarrow> 'a list \<Rightarrow> bool"
    and fresh :: "'l"
    and app :: "'h \<Rightarrow> 'l \<Rightarrow> 'a \<Rightarrow> ('h \<times> 'l) res"
    and items :: "'h \<Rightarrow> 'l \<Rightarrow> 'a list res"
    and count :: "'l \<Rightarrow> int"
    and search :: "'h \<Rightarrow> 'l \<Rightarrow> ('a \<Rightarrow> bool) \<Rightarrow> 'a option res"
  assumes repr_fresh: "repr h fresh []"
    and repr_app: "repr h l xs \<Longrightarrow> \<exists>h' l'. app h l x = Inr (h', l') \<and> repr h' l' (xs @ [x])"
    and repr_items: "repr h l xs \<Longrightarrow> items h l = Inr xs"
    and repr_count: "repr h l xs \<Longrightarrow> count l = int (length xs)"
    and repr_search: "repr h l xs \<Longrightarrow> search h l P = Inr (List.find P xs)"
begin

lemma append_all_repr:
  "repr h l xs \<Longrightarrow> \<exists>h' l'. append_all app h l ys = Inr (h', l') \<and> repr h' l' (xs @ ys)"
proof (induction ys arbitrary: h l xs)
  case Nil
  then show ?case by simp
next
  case (Cons y ys)
  from repr_app [OF Cons.prems, of y] obtain h1 l1
    where 1: "app h l y = Inr (h1, l1)" "repr h1 l1 (xs @ [y])" by blast
  from Cons.IH [OF 1(2)] 1(1) show ?case by simp
qed

lemma append_all_observed:
  "\<exists>h' l'. append_all app h fresh ys = Inr (h', l') \<and> items h' l' = Inr ys \<and>
     count l' = int (length ys) \<and> search h' l' P = Inr (List.find P ys)"
  using append_all_repr [OF repr_fresh, of h ys] repr_items repr_count repr_search by fastforce

end

definition ll_repr :: "'a heap \<Rightarrow> LList \<Rightarrow> 'a list \<Rightarrow> bool" where
  "ll_repr h l xs \<longleftrightarrow> (\<exists>ps. dll h l ps \<and> map snd ps = xs)"

text \<open>A comparator in the style of \<open>strcmp\<close> for a predicate.\<close>

definition cmp_of :: "('a \<Rightarrow> bool) \<Rightarrow> unit \<Rightarrow> 'a \<Rightarrow> int" where
  "cmp_of P u x = (if P x then 0 else 1)"

interpretation ll: sequence_store ll_repr list_new list_append list_debug list_size
  "\<lambda>h l P. list_find h l () (cmp_of P)"
proof unfold_locales
  fix h :: "'a heap" and l :: LList and xs :: "'a list" and x :: 'a and P :: "'a \<Rightarrow> bool"
  show "ll_repr h list_new []" by (auto simp: ll_repr_def intro: dll_new)
  assume r: "ll_repr h l xs"
  then obtain ps where ps: "dll h l ps" "map snd ps = xs" by (auto simp: ll_repr_def)
  from list_append_refines [OF ps(1), of x] ps(2)
  show "\<exists>h' l'. list_append h l x = Inr (h', l') \<and> ll_repr h' l' (xs @ [x])"
    by (auto simp: ll_repr_def intro!: exI [of _ "ps @ [(brk h, x)]"])
  show "list_debug h l = Inr xs" using list_debug_refines ps by blast
  show "list_size l = int (length xs)" using list_size_refines [OF ps(1)] ps(2) by auto
  show "list_find h l () (cmp_of P) = Inr (List.find P xs)"
    using list_find_refines [OF ps(1), of "()" "cmp_of P"] ps(2) by (simp add: cmp_of_def)
qed

section \<open>Properties\<close>

text \<open>The list \<open>[10, 20, 30]\<close> as three appends lay it out.\<close>

definition demo_heap :: "nat heap" where
  "demo_heap = \<lparr>cells = [0 \<mapsto> \<lparr>ln_data = 10, ln_prev = None, ln_next = Some 1\<rparr>,
                        1 \<mapsto> \<lparr>ln_data = 20, ln_prev = Some 0, ln_next = Some 2\<rparr>,
                        2 \<mapsto> \<lparr>ln_data = 30, ln_prev = Some 1, ln_next = None\<rparr>], brk = 3\<rparr>"

definition demo_list :: LList where
  "demo_list = \<lparr>l_length = 3, l_head = Some 0, l_tail = Some 2\<rparr>"

lemma demo_dll: "dll demo_heap demo_list [(0, 10), (1, 20), (2, 30)]"
  by (simp add: dll_def demo_heap_def demo_list_def)

text \<open>
  C7: a list built by any sequence of \<open>list_append\<close> calls from \<open>list_new\<close> never fails, is read
  back by the forward iteration in insertion order and by the backward iteration in reverse
  order, and \<open>list_size\<close>, \<open>list_firstItem\<close>, \<open>list_lastItem\<close> and \<open>list_find\<close> answer accordingly.
\<close>

theorem list_append_sequence:
  "\<exists>h' l'. append_all list_append h list_new ys = Inr (h', l') \<and>
     list_debug h' l' = Inr ys \<and>
     list_walk (Suc (brk h')) h' (list_rbegin l') = Inr (rev ys) \<and>
     list_size l' = int (length ys) \<and>
     list_firstItem h' l' = Inr (if ys = [] then None else Some (hd ys)) \<and>
     list_lastItem h' l' = Inr (if ys = [] then None else Some (last ys)) \<and>
     list_find h' l' () (cmp_of P) = Inr (List.find P ys)"
proof -
  obtain h' l' where run: "append_all list_append h list_new ys = Inr (h', l')" and "ll_repr h' l' ys"
    using ll.append_all_repr [OF ll.repr_fresh, of h ys] by auto
  then obtain ps where ps: "dll h' l' ps" "map snd ps = ys" by (auto simp: ll_repr_def)
  have "list_firstItem h' l' = Inr (if ys = [] then None else Some (hd ys))"
    using list_firstItem_refines [OF ps(1)] ps(2) by (cases ps) auto
  moreover have "list_lastItem h' l' = Inr (if ys = [] then None else Some (last ys))"
    using list_lastItem_refines [OF ps(1)] ps(2) by (auto simp: last_map)
  moreover have "list_find h' l' () (cmp_of P) = Inr (List.find P ys)"
    using ll.repr_search [of h' l' ys P] ps by (auto simp: ll_repr_def)
  ultimately show ?thesis
    using run list_debug_refines [OF ps(1)] list_rwalk_refines [OF ps(1)] list_size_refines [OF ps(1)] ps(2)
    by auto
qed

text \<open>
  \<open>listIterator_remove\<close> at any node of a well-formed list unlinks exactly that node in both
  directions, frees its cell, leaves every cell outside the list alone, and parks the iterator
  on the predecessor (NULL when the head was removed).
\<close>

theorem listIterator_remove_unlinks:
  assumes "dll h l (us @ (a, x) # vs)" and "it_node it = Some a"
  shows "\<exists>h' l'. listIterator_remove h l it = Inr (h', l', it\<lparr>it_node := last_addr us None\<rparr>) \<and>
     list_debug h' l' = Inr (map snd us @ map snd vs) \<and>
     list_walk (Suc (brk h')) h' (list_rbegin l') = Inr (rev (map snd us @ map snd vs)) \<and>
     list_size l' = list_size l - 1 \<and> cells h' a = None \<and>
     same_outside (addrs (us @ (a, x) # vs)) h h'"
proof -
  from listIterator_remove_refines [OF assms] obtain h' l'
    where 1: "listIterator_remove h l it = Inr (h', l', it\<lparr>it_node := last_addr us None\<rparr>)"
      "dll h' l' (us @ vs)" "same_outside (addrs (us @ (a, x) # vs)) h h'" "cells h' a = None" by blast
  then show ?thesis
    using list_debug_refines [OF 1(2)] list_rwalk_refines [OF 1(2)] list_size_refines [OF 1(2)]
      list_size_refines [OF assms(1)] by auto
qed

theorem listIterator_remove_unlinks_witness:
  "\<exists>h' l'. listIterator_remove demo_heap demo_list \<lparr>it_node = Some 1, it_offset = NextOff\<rparr> =
       Inr (h', l', \<lparr>it_node = Some 0, it_offset = NextOff\<rparr>) \<and> list_debug h' l' = Inr [10, 30]"
  using listIterator_remove_unlinks [of demo_heap demo_list "[(0, 10)]" 1 20 "[(2, 30)]"
      "\<lparr>it_node = Some 1, it_offset = NextOff\<rparr>"] demo_dll by auto

text \<open>
  \<open>listIterator_insertBefore\<close> at a node that is not the head does not link the new node
  into the forward chain: the insertion succeeds and \<open>length\<close> grows, but a forward iteration
  still visits only the old items.
\<close>

theorem listIterator_insertBefore_loses_item:
  assumes "dll h l (us @ (a, x) # vs)" and "us \<noteq> []" and "it_node it = Some a"
  shows "\<exists>h' l'. listIterator_insertBefore h l it obj = Inr (h', l') \<and>
     list_size l' = list_size l + 1 \<and> list_debug h' l' = list_debug h l"
  using listIterator_insertBefore_mid [OF assms, of obj] list_debug_refines [OF assms(1)]
    list_size_refines [OF assms(1)] by (auto simp: list_size_def)

theorem listIterator_insertBefore_loses_item_witness:
  "\<exists>h' l'. listIterator_insertBefore demo_heap demo_list \<lparr>it_node = Some 1, it_offset = NextOff\<rparr> 15 = Inr (h', l') \<and>
     list_size l' = list_size demo_list + 1 \<and> list_debug h' l' = list_debug demo_heap demo_list"
  using listIterator_insertBefore_loses_item [of demo_heap demo_list "[(0, 10)]" 1 20 "[(2, 30)]"
      "\<lparr>it_node = Some 1, it_offset = NextOff\<rparr>"] demo_dll by auto

end
