(* ===== verification/Key_Map.thy ===== *)
theory Key_Map
  imports Linked_List
begin

text \<open>
  The keyed map of \<open>Map.h\<close> and \<open>Map.c\<close>: a linked list of \<open>MapNode\<close>s searched from the front,
  with string keys (\<open>map_string\<close>) or integer keys (\<open>map_int\<close>).

  The key union is the datatype \<open>map_key\<close>; reading the other member is \<open>TypeConfusion\<close>. An
  integer key travels as \<open>(const void *)key\<close>, so the assertion \<open>key != NULL\<close> fails for key 0.
  Each \<open>MapNode\<close> is allocated by \<open>map_append\<close>, reachable from exactly one list node and freed
  together with it, so it is stored in the list node's \<open>data\<close>.

  The lemmas show that the operations refine an association list with distinct keys
  (\<open>am_find\<close>, \<open>am_remove\<close>, \<open>am_append\<close>), which satisfies the laws of the locale \<open>assoc_store\<close>
  that the rest of the development relies on.
\<close>

datatype map_key = Kstring string | Number int

datatype MapType = STRING | NUMBER

record 'v MapNode =
  mn_key :: map_key
  mn_data :: 'v

record Map =
  m_type :: MapType
  m_list :: LList

definition key_null :: "map_key \<Rightarrow> bool" where
  "key_null k = (k = Number 0)"

text \<open>Comparison of a stored key with the searched one: \<open>strcmp\<close> or integer equality.\<close>

definition key_match :: "MapType \<Rightarrow> map_key \<Rightarrow> map_key \<Rightarrow> bool res" where
  "key_match t stored key =
     (case t of
        STRING \<Rightarrow> (case (stored, key) of (Kstring s, Kstring k) \<Rightarrow> Inr (s = k) | _ \<Rightarrow> Inl TypeConfusion)
      | NUMBER \<Rightarrow> (case (stored, key) of (Number n, Number k) \<Rightarrow> Inr (n = k) | _ \<Rightarrow> Inl TypeConfusion))"

text \<open>The key stored in a new node: a copy of the string, or the integer itself.\<close>

definition key_store :: "MapType \<Rightarrow> map_key \<Rightarrow> map_key res" where
  "key_store t key =
     (case (t, key) of
        (STRING, Kstring s) \<Rightarrow> Inr (Kstring s)
      | (NUMBER, Number n) \<Rightarrow> Inr (Number n)
      | _ \<Rightarrow> Inl TypeConfusion)"

definition map_new :: "MapType \<Rightarrow> Map" where
  "map_new htt = \<lparr>m_type = htt, m_list = list_new\<rparr>"

definition map_string :: Map where
  "map_string = map_new STRING"

definition map_int :: Map where
  "map_int = map_new NUMBER"

fun map_remove_loop ::
  "nat \<Rightarrow> 'v MapNode heap \<Rightarrow> Map \<Rightarrow> map_key \<Rightarrow> ListIterator \<Rightarrow> ('v MapNode heap \<times> Map) res" where
  "map_remove_loop 0 h ht key it = (if listIterator_finished it then Inr (h, ht) else Inl Diverge)"
| "map_remove_loop (Suc fuel) h ht key it =
     (if listIterator_finished it then Inr (h, ht)
      else bind_res (listIterator_item h it) (\<lambda>output.
           case output of
             None \<Rightarrow> Inl NullDeref
           | Some node \<Rightarrow>
               bind_res (key_match (m_type ht) (mn_key node) key) (\<lambda>eq.
               if eq then
                 bind_res (listIterator_remove h (m_list ht) it) (\<lambda>(h, l, it).
                 Inr (h, ht\<lparr>m_list := l\<rparr>))
               else bind_res (listIterator_next h it) (map_remove_loop fuel h ht key))))"

definition map_remove :: "'v MapNode heap \<Rightarrow> Map \<Rightarrow> map_key \<Rightarrow> ('v MapNode heap \<times> Map) res" where
  "map_remove h ht key =
     bind_res (c_assert (\<not> key_null key)) (\<lambda>_.
     map_remove_loop (Suc (brk h)) h ht key (list_begin (m_list ht)))"

definition map_append :: "'v MapNode heap \<Rightarrow> Map \<Rightarrow> map_key \<Rightarrow> 'v \<Rightarrow> ('v MapNode heap \<times> Map) res" where
  "map_append h ht key data =
     bind_res (c_assert (\<not> key_null key)) (\<lambda>_.
     bind_res (map_remove h ht key) (\<lambda>(h, ht).
     bind_res (key_store (m_type ht) key) (\<lambda>k.
     bind_res (list_append h (m_list ht) \<lparr>mn_key = k, mn_data = data\<rparr>) (\<lambda>(h, l).
     Inr (h, ht\<lparr>m_list := l\<rparr>)))))"

fun map_find_loop ::
  "nat \<Rightarrow> 'v MapNode heap \<Rightarrow> MapType \<Rightarrow> map_key \<Rightarrow> ListIterator \<Rightarrow> ('v option \<times> ListIterator) res" where
  "map_find_loop 0 h t key it = (if listIterator_finished it then Inr (None, it) else Inl Diverge)"
| "map_find_loop (Suc fuel) h t key it =
     (if listIterator_finished it then Inr (None, it)
      else bind_res (listIterator_item h it) (\<lambda>output.
           case output of
             None \<Rightarrow> Inl NullDeref
           | Some node \<Rightarrow>
               bind_res (key_match t (mn_key node) key) (\<lambda>eq.
               if eq then Inr (Some (mn_data node), it)
               else bind_res (listIterator_next h it) (map_find_loop fuel h t key))))"

text \<open>Both searches return the data found (\<open>None\<close> for NULL) and the iterator left behind.\<close>

definition map_find_number :: "'v MapNode heap \<Rightarrow> Map \<Rightarrow> int \<Rightarrow> ('v option \<times> ListIterator) res" where
  "map_find_number h ht key = map_find_loop (Suc (brk h)) h NUMBER (Number key) (list_begin (m_list ht))"

definition map_find_string :: "'v MapNode heap \<Rightarrow> Map \<Rightarrow> string \<Rightarrow> ('v option \<times> ListIterator) res" where
  "map_find_string h ht key = map_find_loop (Suc (brk h)) h STRING (Kstring key) (list_begin (m_list ht))"

definition map_find_iter :: "'v MapNode heap \<Rightarrow> Map \<Rightarrow> map_key \<Rightarrow> ('v option \<times> ListIterator) res" where
  "map_find_iter h ht key =
     bind_res (c_assert (\<not> key_null key)) (\<lambda>_.
     case (m_type ht, key) of
       (STRING, Kstring s) \<Rightarrow> map_find_string h ht s
     | (NUMBER, Number n) \<Rightarrow> map_find_number h ht n
     | _ \<Rightarrow> Inl TypeConfusion)"

definition map_find :: "'v MapNode heap \<Rightarrow> Map \<Rightarrow> map_key \<Rightarrow> 'v option res" where
  "map_find h ht key = bind_res (map_find_iter h ht key) (\<lambda>(v, it). Inr v)"

definition mapIterator_item :: "'v MapNode heap \<Rightarrow> ListIterator \<Rightarrow> (map_key \<times> 'v) res" where
  "mapIterator_item h it =
     bind_res (listIterator_item h it) (\<lambda>item.
     case item of None \<Rightarrow> Inl NullDeref | Some node \<Rightarrow> Inr (mn_key node, mn_data node))"

definition mapIterator_replace :: "'v MapNode heap \<Rightarrow> ListIterator \<Rightarrow> 'v \<Rightarrow> 'v MapNode heap res" where
  "mapIterator_replace h it data =
     (case it_node it of
        None \<Rightarrow> Inl NullDeref
      | Some a \<Rightarrow> bind_res (read_node h a) (\<lambda>n.
          Inr (write_node h a (n\<lparr>ln_data := (ln_data n)\<lparr>mn_data := data\<rparr>\<rparr>))))"

text \<open>The iteration is the one of the underlying list.\<close>

definition map_begin :: "Map \<Rightarrow> ListIterator" where
  "map_begin ht = list_begin (m_list ht)"

definition mapIterator_finished :: "ListIterator \<Rightarrow> bool" where
  "mapIterator_finished it = listIterator_finished it"

definition mapIterator_next :: "'v MapNode heap \<Rightarrow> ListIterator \<Rightarrow> ListIterator res" where
  "mapIterator_next h it = listIterator_next h it"

text \<open>\<open>p_free\<close> of the key: a string key was allocated by \<open>p_strdup\<close>; an integer key read
  through \<open>key.kstring\<close> is no allocated pointer (\<open>p_free(NULL)\<close> is harmless).\<close>

definition free_key_string :: "map_key \<Rightarrow> unit res" where
  "free_key_string k = (case k of Kstring s \<Rightarrow> Inr () | Number n \<Rightarrow> if n = 0 then Inr () else Inl BadFree)"

definition mapIterator_remove ::
  "'v MapNode heap \<Rightarrow> Map \<Rightarrow> ListIterator \<Rightarrow> ('v MapNode heap \<times> Map \<times> ListIterator) res" where
  "mapIterator_remove h ht it =
     bind_res (listIterator_item h it) (\<lambda>item.
     bind_res (listIterator_remove h (m_list ht) it) (\<lambda>(h, l, it).
     case item of
       None \<Rightarrow> Inl NullDeref
     | Some node \<Rightarrow> bind_res (free_key_string (mn_key node)) (\<lambda>_. Inr (h, ht\<lparr>m_list := l\<rparr>, it))))"

definition mapIterator_removeInt ::
  "'v MapNode heap \<Rightarrow> Map \<Rightarrow> ListIterator \<Rightarrow> ('v MapNode heap \<times> Map \<times> ListIterator) res" where
  "mapIterator_removeInt h ht it =
     bind_res (listIterator_remove h (m_list ht) it) (\<lambda>(h, l, it). Inr (h, ht\<lparr>m_list := l\<rparr>, it))"

fun map_delete_loop :: "nat \<Rightarrow> 'v MapNode heap \<Rightarrow> Map \<Rightarrow> ('v MapNode heap \<times> Map) res" where
  "map_delete_loop 0 h ht = (if listIterator_finished (list_begin (m_list ht)) then Inr (h, ht) else Inl Diverge)"
| "map_delete_loop (Suc fuel) h ht =
     (let it = list_begin (m_list ht) in
      if listIterator_finished it then Inr (h, ht)
      else bind_res (mapIterator_item h it) (\<lambda>(k, v).
           bind_res (case m_type ht of STRING \<Rightarrow> free_key_string k | NUMBER \<Rightarrow> Inr ()) (\<lambda>_.
           bind_res (listIterator_remove h (m_list ht) it) (\<lambda>(h, l, it).
           map_delete_loop fuel h (ht\<lparr>m_list := l\<rparr>)))))"

definition map_delete :: "'v MapNode heap \<Rightarrow> Map \<Rightarrow> 'v MapNode heap res" where
  "map_delete h ht =
     bind_res (map_delete_loop (Suc (brk h)) h ht) (\<lambda>(h, ht). list_clear h (m_list ht))"

declare map_remove_loop.simps [simp del] map_find_loop.simps [simp del] map_delete_loop.simps [simp del]

section \<open>Abstraction: association lists with distinct keys\<close>

definition am_find :: "'k \<Rightarrow> ('k \<times> 'v) list \<Rightarrow> 'v option" where
  "am_find k al = map_of al k"

definition am_remove :: "'k \<Rightarrow> ('k \<times> 'v) list \<Rightarrow> ('k \<times> 'v) list" where
  "am_remove k al = filter (\<lambda>p. fst p \<noteq> k) al"

definition am_append :: "'k \<Rightarrow> 'v \<Rightarrow> ('k \<times> 'v) list \<Rightarrow> ('k \<times> 'v) list" where
  "am_append k v al = am_remove k al @ [(k, v)]"

fun am_replace :: "'k \<Rightarrow> 'v \<Rightarrow> ('k \<times> 'v) list \<Rightarrow> ('k \<times> 'v) list" where
  "am_replace k v [] = []"
| "am_replace k v ((k', v') # al) = (if k' = k then (k', v) # al else (k', v') # am_replace k v al)"

fun key_typed :: "MapType \<Rightarrow> map_key \<Rightarrow> bool" where
  "key_typed STRING (Kstring s) = True"
| "key_typed NUMBER (Number n) = True"
| "key_typed t k = False"

definition kvs :: "(addr \<times> 'v MapNode) list \<Rightarrow> (map_key \<times> 'v) list" where
  "kvs ps = map (\<lambda>p. (mn_key (snd p), mn_data (snd p))) ps"

definition map_repr :: "'v MapNode heap \<Rightarrow> Map \<Rightarrow> (map_key \<times> 'v) list \<Rightarrow> bool" where
  "map_repr h ht al \<longleftrightarrow>
     (\<exists>ps. dll h (m_list ht) ps \<and> kvs ps = al) \<and>
     (\<forall>k \<in> fst ` set al. key_typed (m_type ht) k) \<and> distinct (map fst al)"

lemma key_match_typed [simp]:
  "key_typed t s \<Longrightarrow> key_typed t k \<Longrightarrow> key_match t s k = Inr (s = k)"
  by (cases t; cases s; cases k) (auto simp: key_match_def)

lemma key_store_typed [simp]: "key_typed t k \<Longrightarrow> key_store t k = Inr k"
  by (cases t; cases k) (auto simp: key_store_def)

lemma kvs_simps [simp]:
  "kvs [] = []"
  "kvs (p # ps) = (mn_key (snd p), mn_data (snd p)) # kvs ps"
  "kvs (ps @ qs) = kvs ps @ kvs qs"
  by (simp_all add: kvs_def)

lemma am_find_append [simp]: "am_find k (am_append k' v al) = (if k = k' then Some v else am_find k al)"
  unfolding am_find_def am_append_def am_remove_def by (induction al) auto

lemma am_find_remove [simp]: "am_find k (am_remove k' al) = (if k = k' then None else am_find k al)"
  unfolding am_find_def am_remove_def by (induction al) auto

lemma am_find_Nil [simp]: "am_find k [] = None"
  by (simp add: am_find_def)

lemma am_find_replace [simp]:
  "am_find k (am_replace k' v al) =
     (if k = k' \<and> am_find k al \<noteq> None then Some v else am_find k al)"
  unfolding am_find_def by (induction al) auto

lemma am_find_None_iff: "am_find k al = None \<longleftrightarrow> k \<notin> fst ` set al"
  by (simp add: am_find_def map_of_eq_None_iff)

lemma am_remove_id: "k \<notin> fst ` set al \<Longrightarrow> am_remove k al = al"
  by (auto simp: am_remove_def filter_id_conv)

lemma keys_am_replace [simp]: "map fst (am_replace k v al) = map fst al"
  by (induction al) auto

lemma distinct_am_remove [simp]: "distinct (map fst al) \<Longrightarrow> distinct (map fst (am_remove k al))"
  by (auto simp: am_remove_def)

lemma keys_am_remove [simp]: "fst ` set (am_remove k al) = fst ` set al - {k}"
  by (auto simp: am_remove_def)

lemma distinct_am_append [simp]: "distinct (map fst al) \<Longrightarrow> distinct (map fst (am_append k v al))"
  by (auto simp: am_append_def am_remove_def)

lemma keys_am_append [simp]: "fst ` set (am_append k v al) = insert k (fst ` set al)"
  by (auto simp: am_append_def am_remove_def)

text \<open>Removing the first match, as the loop of \<open>map_remove\<close> does.\<close>

fun rm_first :: "map_key \<Rightarrow> (addr \<times> 'v MapNode) list \<Rightarrow> (addr \<times> 'v MapNode) list" where
  "rm_first k [] = []"
| "rm_first k (p # ps) = (if mn_key (snd p) = k then ps else p # rm_first k ps)"

lemma kvs_rm_first: "distinct (map fst (kvs ps)) \<Longrightarrow> kvs (rm_first k ps) = am_remove k (kvs ps)"
proof (induction ps)
  case (Cons p ps)
  then have "mn_key (snd p) = k \<Longrightarrow> am_remove k (kvs ps) = kvs ps" by (intro am_remove_id) auto
  with Cons show ?case by (auto simp: am_remove_def)
qed (simp add: am_remove_def)

lemma dll_item:
  "dll h l (us @ (a, x) # vs) \<Longrightarrow> listIterator_item h \<lparr>it_node = Some a, it_offset = d\<rparr> = Inr (Some x)"
  by (simp add: dll_def listIterator_item_def node_defs)

lemma dll_next:
  "dll h l (us @ (a, x) # vs) \<Longrightarrow>
   listIterator_next h \<lparr>it_node = Some a, it_offset = NextOff\<rparr> =
     Inr \<lparr>it_node = first_addr vs None, it_offset = NextOff\<rparr>"
  by (simp add: dll_def listIterator_next_def node_defs)

lemma map_remove_loop_refines:
  assumes "dll h (m_list ht) (us @ vs)" and "length vs \<le> fuel" and "key_typed (m_type ht) k"
    and "\<forall>p \<in> set vs. key_typed (m_type ht) (mn_key (snd p))"
  shows "\<exists>h' l'. map_remove_loop fuel h ht k \<lparr>it_node = first_addr vs None, it_offset = NextOff\<rparr> =
      Inr (h', ht\<lparr>m_list := l'\<rparr>) \<and> dll h' l' (us @ rm_first k vs) \<and> brk h' = brk h \<and>
      same_outside (addrs (us @ vs)) h h'"
  using assms
proof (induction vs arbitrary: us fuel)
  case Nil
  then show ?case
    by (cases fuel)
      (auto simp: map_remove_loop.simps listIterator_finished_def same_outside_def intro!: exI [of _ h] exI [of _ "m_list ht"])
next
  case (Cons p vs)
  obtain a x where p: "p = (a, x)" by fastforce
  obtain n where n: "fuel = Suc n" using Cons.prems(2) by (cases fuel) auto
  note d = Cons.prems(1) [unfolded p]
  show ?case
  proof (cases "mn_key x = k")
    case True
    from listIterator_remove_refines [OF d, of "\<lparr>it_node = Some a, it_offset = NextOff\<rparr>"]
    obtain h' l' where "listIterator_remove h (m_list ht) \<lparr>it_node = Some a, it_offset = NextOff\<rparr> =
        Inr (h', l', \<lparr>it_node = last_addr us None, it_offset = NextOff\<rparr>)" "dll h' l' (us @ vs)"
        "same_outside (addrs (us @ (a, x) # vs)) h h'" "brk h' = brk h"
      by auto
    with True Cons.prems show ?thesis
      by (auto simp: map_remove_loop.simps listIterator_finished_def p n dll_item [OF d])
  next
    case False
    have d': "dll h (m_list ht) ((us @ [(a, x)]) @ vs)" using d by simp
    from Cons.IH [OF d', of n] Cons.prems False show ?thesis
      by (auto simp: map_remove_loop.simps listIterator_finished_def p n dll_item [OF d] dll_next [OF d])
  qed
qed

lemma map_repr_new [refine_rules]: "map_repr h (map_new t) []"
  by (auto simp: map_repr_def map_new_def intro!: exI [of _ "[]"] dll_new)

lemma map_repr_obtain:
  assumes "map_repr h ht al"
  obtains ps where "dll h (m_list ht) ps" "kvs ps = al"
    "\<forall>p \<in> set ps. key_typed (m_type ht) (mn_key (snd p))" "distinct (map fst al)"
proof -
  from assms obtain ps where ps: "dll h (m_list ht) ps" "kvs ps = al"
    "\<forall>k \<in> fst ` set al. key_typed (m_type ht) k" "distinct (map fst al)"
    by (auto simp: map_repr_def)
  moreover have "\<forall>p \<in> set ps. key_typed (m_type ht) (mn_key (snd p))"
    using ps(3) by (auto simp: ps(2) [symmetric] kvs_def)
  ultimately show thesis using that by blast
qed

lemma map_remove_refines [refine_rules]:
  assumes r: "map_repr h ht al" and k: "key_typed (m_type ht) k" "\<not> key_null k"
  shows "\<exists>h' ht'. map_remove h ht k = Inr (h', ht') \<and> map_repr h' ht' (am_remove k al) \<and> m_type ht' = m_type ht"
proof -
  from r obtain ps where ps: "dll h (m_list ht) ps" "kvs ps = al"
    "\<forall>p \<in> set ps. key_typed (m_type ht) (mn_key (snd p))" "distinct (map fst al)"
    by (rule map_repr_obtain)
  from map_remove_loop_refines [of h ht "[]" ps "Suc (brk h)" k] ps(1,3) k dll_length_le [OF ps(1)]
  obtain h' l' where run: "map_remove h ht k = Inr (h', ht\<lparr>m_list := l'\<rparr>)" "dll h' l' (rm_first k ps)"
    by (auto simp: map_remove_def list_begin_def dll_def)
  have "kvs (rm_first k ps) = am_remove k al" using kvs_rm_first [of ps k] ps by simp
  with run r ps(4) show ?thesis
    by (auto simp: map_repr_def)
qed

lemma map_append_refines [refine_rules]:
  assumes r: "map_repr h ht al" and k: "key_typed (m_type ht) k" "\<not> key_null k"
  shows "\<exists>h' ht'. map_append h ht k v = Inr (h', ht') \<and> map_repr h' ht' (am_append k v al) \<and> m_type ht' = m_type ht"
proof -
  from map_remove_refines [OF r k] obtain h1 ht1
    where rem: "map_remove h ht k = Inr (h1, ht1)" "map_repr h1 ht1 (am_remove k al)" "m_type ht1 = m_type ht"
    by blast
  from rem(2) obtain ps where ps: "dll h1 (m_list ht1) ps" "kvs ps = am_remove k al"
    by (rule map_repr_obtain)
  from list_append_refines [OF ps(1), of "\<lparr>mn_key = k, mn_data = v\<rparr>"] obtain h2 l2
    where app: "list_append h1 (m_list ht1) \<lparr>mn_key = k, mn_data = v\<rparr> = Inr (h2, l2)"
      "dll h2 l2 (ps @ [(brk h1, \<lparr>mn_key = k, mn_data = v\<rparr>)])" by blast
  have "kvs (ps @ [(brk h1, \<lparr>mn_key = k, mn_data = v\<rparr>)]) = am_append k v al"
    by (simp add: ps(2) am_append_def)
  with app(2) have "\<exists>qs. dll h2 l2 qs \<and> kvs qs = am_append k v al" by blast
  moreover have "\<forall>j \<in> fst ` set (am_append k v al). key_typed (m_type ht) j" "distinct (map fst (am_append k v al))"
    using r k by (auto simp: map_repr_def simp del: set_map)
  ultimately show ?thesis
    using rem app k by (auto simp: map_append_def map_repr_def)
qed

text \<open>Searching: the loop stops at the first node with the key.\<close>

lemma map_find_loop_refines:
  assumes "dll h l (us @ vs)" and "length vs \<le> fuel" and "key_typed t k"
    and "\<forall>p \<in> set vs. key_typed t (mn_key (snd p))"
  shows "map_find_loop fuel h t k \<lparr>it_node = first_addr vs None, it_offset = NextOff\<rparr> =
      Inr (am_find k (kvs vs),
           \<lparr>it_node = first_addr (dropWhile (\<lambda>p. mn_key (snd p) \<noteq> k) vs) None, it_offset = NextOff\<rparr>)"
  using assms
proof (induction vs arbitrary: us fuel)
  case Nil
  then show ?case
    by (cases fuel) (auto simp: map_find_loop.simps listIterator_finished_def)
next
  case (Cons p vs)
  obtain a x where p: "p = (a, x)" by fastforce
  obtain n where n: "fuel = Suc n" using Cons.prems(2) by (cases fuel) auto
  note d = Cons.prems(1) [unfolded p]
  have d': "dll h l ((us @ [(a, x)]) @ vs)" using d by simp
  from Cons.IH [OF d', of n] Cons.prems show ?case
    by (auto simp: map_find_loop.simps listIterator_finished_def p n dll_item [OF d] dll_next [OF d] am_find_def)
qed

lemma map_find_iter_refines:
  assumes ps: "dll h (m_list ht) ps" "\<forall>p \<in> set ps. key_typed (m_type ht) (mn_key (snd p))"
    and k: "key_typed (m_type ht) k" "\<not> key_null k"
  shows "map_find_iter h ht k =
     Inr (am_find k (kvs ps),
          \<lparr>it_node = first_addr (dropWhile (\<lambda>p. mn_key (snd p) \<noteq> k) ps) None, it_offset = NextOff\<rparr>)"
proof -
  have "map_find_iter h ht k = map_find_loop (Suc (brk h)) h (m_type ht) k (list_begin (m_list ht))"
    using k by (cases "m_type ht"; cases k)
      (auto simp: map_find_iter_def map_find_number_def map_find_string_def)
  with map_find_loop_refines [of h "m_list ht" "[]" ps "Suc (brk h)" "m_type ht" k] ps k
    dll_length_le [OF ps(1)]
  show ?thesis by (simp add: list_begin_def dll_def)
qed

lemma map_find_refines [refine_rules]:
  assumes r: "map_repr h ht al" and k: "key_typed (m_type ht) k" "\<not> key_null k"
  shows "map_find h ht k = Inr (am_find k al)"
proof -
  from r obtain ps where ps: "dll h (m_list ht) ps" "kvs ps = al"
    "\<forall>p \<in> set ps. key_typed (m_type ht) (mn_key (snd p))" "distinct (map fst al)"
    by (rule map_repr_obtain)
  with map_find_iter_refines [OF ps(1,3) k] show ?thesis by (simp add: map_find_def)
qed

lemma map_find_null_key: "map_find h ht (Number 0) = Inl Abort"
  by (simp add: map_find_def map_find_iter_def key_null_def)

text \<open>\<open>mapIterator_replace\<close> at the iterator a successful search left behind.\<close>

lemma dlseg_write_data:
  assumes "dlseg c pv (us @ (a, x) # vs) nx" and "distinct (map fst (us @ (a, x) # vs))"
  shows "dlseg (c(a \<mapsto> (the (c a))\<lparr>ln_data := y\<rparr>)) pv (us @ (a, y) # vs) nx"
  using assms by (auto simp: dlseg_frame)

lemma mapIterator_replace_refines [refine_rules]:
  assumes r: "map_repr h ht al" and k: "key_typed (m_type ht) k" "\<not> key_null k"
    and f: "map_find_iter h ht k = Inr (Some old, it)"
  shows "\<exists>h'. mapIterator_replace h it v = Inr h' \<and> map_repr h' ht (am_replace k v al)"
proof -
  from r obtain ps where ps: "dll h (m_list ht) ps" "kvs ps = al"
    "\<forall>p \<in> set ps. key_typed (m_type ht) (mn_key (snd p))" "distinct (map fst al)"
    by (rule map_repr_obtain)
  let ?P = "\<lambda>p. mn_key (snd p) \<noteq> k"
  from f map_find_iter_refines [OF ps(1,3) k] have it: "it_node it = first_addr (dropWhile ?P ps) None"
    and found: "am_find k al = Some old" by (auto simp: ps(2))
  then have "k \<in> fst ` set al" by (metis am_find_None_iff option.distinct(1))
  then obtain p where "p \<in> set ps" "\<not> ?P p" by (auto simp: ps(2) [symmetric] kvs_def)
  then obtain q vs where dw: "dropWhile ?P ps = q # vs" by (cases "dropWhile ?P ps") auto
  obtain a x where q: "q = (a, x)" by fastforce
  have split: "ps = takeWhile ?P ps @ (a, x) # vs" using takeWhile_dropWhile_id [of ?P ps] by (simp add: dw q)
  have kx: "mn_key x = k" using hd_dropWhile [of ?P ps] by (simp add: dw q)
  let ?us = "takeWhile ?P ps" and ?y = "x\<lparr>mn_data := v\<rparr>"
  have d: "dll h (m_list ht) (?us @ (a, x) # vs)" using ps(1) split by simp
  then obtain n where n: "cells h a = Some n" "ln_data n = x" by (auto simp: dll_def)
  let ?h = "write_node h a (n\<lparr>ln_data := ?y\<rparr>)"
  have run: "mapIterator_replace h it v = Inr ?h"
    using it by (simp add: mapIterator_replace_def dw q n read_node_def)
  have d': "dll ?h (m_list ht) (?us @ (a, ?y) # vs)"
    using d n dlseg_write_data [of "cells h" None ?us a x vs None ?y]
    by (auto simp: dll_def write_node_def last_addr_append first_addr_append)
  have "am_replace k v (kvs us @ (mn_key x, mn_data x) # kvs vs) = kvs us @ (k, v) # kvs vs"
    if "\<forall>p \<in> set us. ?P p" for us using that by (induction us) (auto simp: kx)
  from this [of ?us] have "am_replace k v al = kvs (?us @ (a, ?y) # vs)"
    using set_takeWhileD [of _ ?P ps] by (subst ps(2) [symmetric], subst split) (auto simp: kx)
  with d' have "\<exists>qs. dll ?h (m_list ht) qs \<and> kvs qs = am_replace k v al" by metis
  moreover have "map fst (am_replace k v al) = map fst al" by simp
  ultimately show ?thesis using r run
    by (metis (no_types, lifting) map_repr_def list.set_map)
qed

text \<open>
  \<open>mapIterator_remove\<close> frees the key as a string. On a string map it removes the entry; on an
  integer map it frees the integer.
\<close>

lemma mapIterator_remove_string:
  assumes d: "dll h (m_list ht) (us @ (a, x) # vs)" and s: "mn_key x = Kstring s"
  shows "\<exists>h' l' it'. mapIterator_remove h ht \<lparr>it_node = Some a, it_offset = NextOff\<rparr> =
           Inr (h', ht\<lparr>m_list := l'\<rparr>, it') \<and> dll h' l' (us @ vs)"
  using listIterator_remove_refines [OF d, of "\<lparr>it_node = Some a, it_offset = NextOff\<rparr>"] s
  by (auto simp: mapIterator_remove_def dll_item [OF d] free_key_string_def)

lemma mapIterator_remove_number:
  assumes d: "dll h (m_list ht) (us @ (a, x) # vs)" and n: "mn_key x = Number n" "n \<noteq> 0"
  shows "mapIterator_remove h ht \<lparr>it_node = Some a, it_offset = NextOff\<rparr> = Inl BadFree"
  using listIterator_remove_refines [OF d, of "\<lparr>it_node = Some a, it_offset = NextOff\<rparr>"] n
  by (auto simp: mapIterator_remove_def dll_item [OF d] free_key_string_def)

lemma mapIterator_removeInt_refines [refine_rules]:
  assumes d: "dll h (m_list ht) (us @ (a, x) # vs)"
  shows "\<exists>h' l' it'. mapIterator_removeInt h ht \<lparr>it_node = Some a, it_offset = NextOff\<rparr> =
           Inr (h', ht\<lparr>m_list := l'\<rparr>, it') \<and> dll h' l' (us @ vs)"
  using listIterator_remove_refines [OF d, of "\<lparr>it_node = Some a, it_offset = NextOff\<rparr>"]
  by (auto simp: mapIterator_removeInt_def)

lemma map_delete_loop_refines:
  assumes "dll h (m_list ht) ps" and "length ps \<le> fuel"
    and "\<forall>p \<in> set ps. key_typed (m_type ht) (mn_key (snd p))"
  shows "\<exists>h' l'. map_delete_loop fuel h ht = Inr (h', ht\<lparr>m_list := l'\<rparr>) \<and> dll h' l' [] \<and>
           (\<forall>a \<in> addrs ps. cells h' a = None) \<and> same_outside (addrs ps) h h'"
  using assms
proof (induction ps arbitrary: h ht fuel)
  case Nil
  then show ?case
    by (cases fuel)
      (auto simp: map_delete_loop.simps listIterator_finished_def list_begin_def dll_def same_outside_def
        intro!: exI [of _ h] exI [of _ "m_list ht"])
next
  case (Cons p ps)
  obtain a x where p: "p = (a, x)" by fastforce
  obtain n where n: "fuel = Suc n" using Cons.prems(2) by (cases fuel) auto
  have d: "dll h (m_list ht) ([] @ (a, x) # ps)" using Cons.prems(1) by (simp add: p)
  from listIterator_remove_refines [OF d, of "list_begin (m_list ht)"] d
  obtain h1 l1 it1 where rem: "listIterator_remove h (m_list ht) (list_begin (m_list ht)) = Inr (h1, l1, it1)"
    "dll h1 l1 ps" "same_outside (addrs ((a, x) # ps)) h h1" "cells h1 a = None"
    by (auto simp: dll_def list_begin_def)
  have na: "a \<notin> addrs ps" using d by (auto simp: dll_def)
  from Cons.IH [of h1 "ht\<lparr>m_list := l1\<rparr>" n] rem(2) Cons.prems n obtain h' l'
    where rest: "map_delete_loop n h1 (ht\<lparr>m_list := l1\<rparr>) = Inr (h', ht\<lparr>m_list := l'\<rparr>)" "dll h' l' []"
      "\<forall>b \<in> addrs ps. cells h' b = None" "same_outside (addrs ps) h1 h'"
    by auto
  have start: "list_begin (m_list ht) = \<lparr>it_node = Some a, it_offset = NextOff\<rparr>"
    using d by (simp add: list_begin_def dll_def)
  have "cells h' a = None" using rest(4) rem(4) na by (auto simp: same_outside_def)
  moreover have "same_outside (addrs ((a, x) # ps)) h h'"
    using rest(4) rem(3) by (auto simp: same_outside_def)
  moreover have "(case m_type ht of STRING \<Rightarrow> free_key_string (mn_key x) | NUMBER \<Rightarrow> Inr ()) = Inr ()"
    using Cons.prems(3) by (cases "mn_key x"; cases "m_type ht") (auto simp: p free_key_string_def)
  ultimately show ?case
    using rem rest dll_item [OF d]
    by (auto simp: map_delete_loop.simps n p start listIterator_finished_def mapIterator_item_def)
qed

lemma map_delete_refines [refine_rules]:
  assumes ps: "dll h (m_list ht) ps" "\<forall>p \<in> set ps. key_typed (m_type ht) (mn_key (snd p))"
  shows "\<exists>h'. map_delete h ht = Inr h' \<and> (\<forall>a \<in> addrs ps. cells h' a = None) \<and> same_outside (addrs ps) h h'"
proof -
  from map_delete_loop_refines [OF ps(1) _ ps(2), of "Suc (brk h)"] dll_length_le [OF ps(1)]
  obtain h' l' where "map_delete_loop (Suc (brk h)) h ht = Inr (h', ht\<lparr>m_list := l'\<rparr>)" "dll h' l' []"
    "\<forall>a \<in> addrs ps. cells h' a = None" "same_outside (addrs ps) h h'" by auto
  then show ?thesis
    using list_clear_refines [of h' l' "[]"] by (auto simp: map_delete_def)
qed

section \<open>The contract of a keyed store\<close>

text \<open>
  What the clients of a map rely on: a lookup returns what was stored last under the key.
  \<open>wf\<close> is the store's own invariant.
\<close>

locale assoc_store =
  fixes wf :: "'m \<Rightarrow> bool"
    and emp :: 'm
    and store :: "'k \<Rightarrow> 'v \<Rightarrow> 'm \<Rightarrow> 'm"
    and del :: "'k \<Rightarrow> 'm \<Rightarrow> 'm"
    and look :: "'k \<Rightarrow> 'm \<Rightarrow> 'v option"
  assumes wf_emp: "wf emp"
    and wf_store: "wf m \<Longrightarrow> wf (store k v m)"
    and wf_del: "wf m \<Longrightarrow> wf (del k m)"
    and look_emp: "look k emp = None"
    and look_store: "wf m \<Longrightarrow> look k (store k' v m) = (if k = k' then Some v else look k m)"
    and look_del: "wf m \<Longrightarrow> look k (del k' m) = (if k = k' then None else look k m)"
begin

text \<open>A sequence of updates: the last one of a key decides.\<close>

lemma look_fold_store:
  "wf m \<Longrightarrow> look k (fold (\<lambda>(k, v). store k v) ups m) =
     (case map_of (rev ups) k of Some v \<Rightarrow> Some v | None \<Rightarrow> look k m)"
  by (induction ups arbitrary: m)
    (auto simp: look_store wf_store map_add_def split: option.splits)

lemma look_store_store: "wf m \<Longrightarrow> look k (store k v (store k w m)) = Some v"
  by (simp add: look_store wf_store)

lemma look_del_store: "wf m \<Longrightarrow> look k (del k (store k v m)) = None"
  by (simp add: look_del wf_store)

end

interpretation am: assoc_store "\<lambda>al. distinct (map fst al)" "[]" am_append am_remove am_find
  by unfold_locales auto

section \<open>Properties\<close>

fun map_append_all :: "'v MapNode heap \<Rightarrow> Map \<Rightarrow> (map_key \<times> 'v) list \<Rightarrow> ('v MapNode heap \<times> Map) res" where
  "map_append_all h ht [] = Inr (h, ht)"
| "map_append_all h ht ((k, v) # ups) = bind_res (map_append h ht k v) (\<lambda>(h, ht). map_append_all h ht ups)"

lemma map_append_all_refines:
  assumes "map_repr h ht al" and "\<forall>p \<in> set ups. key_typed (m_type ht) (fst p) \<and> \<not> key_null (fst p)"
  shows "\<exists>h' ht'. map_append_all h ht ups = Inr (h', ht') \<and> m_type ht' = m_type ht \<and>
     map_repr h' ht' (fold (\<lambda>(k, v). am_append k v) ups al)"
  using assms
proof (induction ups arbitrary: h ht al)
  case Nil
  then show ?case by simp
next
  case (Cons p ups)
  obtain k v where p: "p = (k, v)" by fastforce
  from map_append_refines [OF Cons.prems(1), of k v] Cons.prems(2) p obtain h1 ht1
    where 1: "map_append h ht k v = Inr (h1, ht1)" "map_repr h1 ht1 (am_append k v al)" "m_type ht1 = m_type ht"
    by auto
  from Cons.IH [OF 1(2)] Cons.prems(2) 1 show ?case by (auto simp: p)
qed



text \<open>
  \<open>map_delete\<close> on a map of any kind releases every node of the map and no other cell.
\<close>

theorem map_delete_frees_all:
  assumes "dll h (m_list ht) ps" and "\<forall>p \<in> set ps. key_typed (m_type ht) (mn_key (snd p))"
  shows "\<exists>h'. map_delete h ht = Inr h' \<and> (\<forall>a. cells h' a = (if a \<in> addrs ps then None else cells h a))"
  using map_delete_refines [OF assms] unfolding same_outside_def by auto

theorem map_delete_frees_all_witness:
  "\<exists>h'. map_delete \<lparr>cells = [0 \<mapsto> \<lparr>ln_data = \<lparr>mn_key = Number 7, mn_data = ''x''\<rparr>, ln_prev = None, ln_next = None\<rparr>],
       brk = 1\<rparr> \<lparr>m_type = NUMBER, m_list = \<lparr>l_length = 1, l_head = Some 0, l_tail = Some 0\<rparr>\<rparr> = Inr h' \<and>
     cells h' 0 = None"
proof -
  let ?h = "\<lparr>cells = [0 \<mapsto> \<lparr>ln_data = \<lparr>mn_key = Number 7, mn_data = ''x''\<rparr>, ln_prev = None, ln_next = None\<rparr>], brk = 1\<rparr>"
  let ?m = "\<lparr>m_type = NUMBER, m_list = \<lparr>l_length = 1, l_head = Some 0, l_tail = Some 0\<rparr>\<rparr>"
  have "dll ?h (m_list ?m) [(0, \<lparr>mn_key = Number 7, mn_data = ''x''\<rparr>)]" by (simp add: dll_def)
  from map_delete_frees_all [OF this] show ?thesis by auto
qed

text \<open>
  \<open>mapIterator_remove\<close> frees the key through \<open>key.kstring\<close> whatever the kind of the map: on
  an entry with a nonzero integer key it passes that integer to \<open>p_free\<close>, while
  \<open>mapIterator_removeInt\<close> removes the same entry.
\<close>

theorem mapIterator_remove_int_key:
  assumes "dll h (m_list ht) (us @ (a, x) # vs)" and "mn_key x = Number n" and "n \<noteq> 0"
  shows "mapIterator_remove h ht \<lparr>it_node = Some a, it_offset = NextOff\<rparr> = Inl BadFree \<and>
    (\<exists>h' l' it'. mapIterator_removeInt h ht \<lparr>it_node = Some a, it_offset = NextOff\<rparr> =
           Inr (h', ht\<lparr>m_list := l'\<rparr>, it') \<and> list_debug h' l' = Inr (map snd (us @ vs)))"
proof -
  from mapIterator_removeInt_refines [OF assms(1)] obtain h' l' it'
    where 1: "mapIterator_removeInt h ht \<lparr>it_node = Some a, it_offset = NextOff\<rparr> =
           Inr (h', ht\<lparr>m_list := l'\<rparr>, it')" "dll h' l' (us @ vs)" by auto
  with list_debug_refines [OF 1(2)] mapIterator_remove_number [OF assms] show ?thesis by blast
qed

theorem mapIterator_remove_int_key_witness:
  "mapIterator_remove
     \<lparr>cells = [0 \<mapsto> \<lparr>ln_data = \<lparr>mn_key = Number 7, mn_data = ''x''\<rparr>, ln_prev = None, ln_next = None\<rparr>], brk = 1\<rparr>
     \<lparr>m_type = NUMBER, m_list = \<lparr>l_length = 1, l_head = Some 0, l_tail = Some 0\<rparr>\<rparr>
     \<lparr>it_node = Some 0, it_offset = NextOff\<rparr> = Inl BadFree"
proof -
  let ?h = "\<lparr>cells = [0 \<mapsto> \<lparr>ln_data = \<lparr>mn_key = Number 7, mn_data = ''x''\<rparr>, ln_prev = None, ln_next = None\<rparr>], brk = 1\<rparr>"
  let ?m = "\<lparr>m_type = NUMBER, m_list = \<lparr>l_length = 1, l_head = Some 0, l_tail = Some 0\<rparr>\<rparr>"
  have "dll ?h (m_list ?m) ([] @ [(0, \<lparr>mn_key = Number 7, mn_data = ''x''\<rparr>)])" by (simp add: dll_def)
  from mapIterator_remove_int_key [OF this, of 7] show ?thesis by simp
qed

end
