(* ===== verification/Emo_Field.thy ===== *)
theory Emo_Field
  imports C_Prelude
begin

text \<open>
  The numbering of field names and the table of built-in type names of
  \<open>protocol/EmobiixField.c\<close>.

  \<open>EmoFieldMap\<close> is the table of names indexed by \<open>EmoField\<close>. The built-in type names are one
  character block with the names separated by zeros; a pointer into it is the offset, and a type
  test compares pointers, so \<open>emo_builtin_type\<close> must return the very offset that
  \<open>emo_builtin_type_init\<close> assigned to the name. The lemmas show that the numbering is a
  bijection between the known numbers and names and that all nineteen offsets agree.
\<close>

section \<open>Field numbers\<close>

definition EmoFieldMap :: "string list" where
  "EmoFieldMap = [
    ''ERROR-NONE'', ''alignment'', ''alpha'', ''array'', ''arraysource'', ''autoscroll'',
    ''background-color'', ''bold'', ''border'', ''border-color'', ''border-corners'', ''bottom'', ''box'',
    ''box-renderer'', ''button'', ''canfocus'', ''center'', ''check-color'', ''checkbox'', ''checkfield'',
    ''checkvalue'', ''color'', ''cursor'', ''cursor-color'', ''data'', ''datafield'', ''direction'',
    ''endindex'', ''entry'', ''false'', ''fieldname'', ''fieldvalue'', ''fill'', ''filterfield'',
    ''filtervalue'', ''fixed'', ''focusindex'', ''focusstack'', ''font'', ''font-alignment'',
    ''font-color'', ''frame'', ''gradbox'', ''gradient'', ''hasfocus'', ''height'', ''hgrid'',
    ''horizontal'', ''id'', ''image'', ''imgheight'', ''imgwidth'', ''imgx'', ''imgy'', ''label'', ''left'',
    ''margin'', ''marginbottom'', ''marginleft'', ''marginright'', ''margintop'', ''multiline'', ''name'',
    ''none'', ''orientation'', ''packing'', ''pixelformat'', ''position'', ''prepend'', ''radius'',
    ''reference'', ''renderer'', ''right'', ''rounded'', ''scrollbar'', ''scrolled'', ''set'', ''solid'',
    ''stack'', ''startcount'', ''startindex'', ''stencil'', ''text'', ''thumb-color'', ''top'',
    ''track-color'', ''transparency'', ''type'', ''vertical'', ''vgrid'', ''view'', ''weight'', ''width'',
    ''x'', ''xoffset'', ''y'', ''yoffset'', ''iconified'', ''style'', ''startupview'', ''fullscreen'',
    ''url'', ''index'', ''mime-type'', ''description'', ''onload'', ''accesskey'', ''onreturn'', ''icon'',
    ''setitem'', ''onsyncfinished'']"

definition EMO_FIELD_UNKNOWN_FIELD :: int where "EMO_FIELD_UNKNOWN_FIELD = 111"
definition EMO_FIELD_TYPE :: int where "EMO_FIELD_TYPE = 87"
definition EMO_FIELD_NAME :: int where "EMO_FIELD_NAME = 62"
definition EMO_FIELD_REFERENCE :: int where "EMO_FIELD_REFERENCE = 70"
definition EMO_FIELD_PACKING :: int where "EMO_FIELD_PACKING = 65"
definition EMO_FIELD_ARRAYSOURCE :: int where "EMO_FIELD_ARRAYSOURCE = 4"
definition EMO_FIELD_FILTERFIELD :: int where "EMO_FIELD_FILTERFIELD = 33"
definition EMO_FIELD_FILTERVALUE :: int where "EMO_FIELD_FILTERVALUE = 34"
definition EMO_FIELD_DIRECTION :: int where "EMO_FIELD_DIRECTION = 26"
definition EMO_FIELD_STARTCOUNT :: int where "EMO_FIELD_STARTCOUNT = 79"
definition EMO_FIELD_YOFFSET :: int where "EMO_FIELD_YOFFSET = 96"
definition EMO_FIELD_ONSYNCFINISHED :: int where "EMO_FIELD_ONSYNCFINISHED = 110"
definition EMO_FIELD_ALIGNMENT :: int where "EMO_FIELD_ALIGNMENT = 1"
definition EMO_FIELD_AUTOSCROLL :: int where "EMO_FIELD_AUTOSCROLL = 5"
definition EMO_FIELD_BACKGROUND_COLOR :: int where "EMO_FIELD_BACKGROUND_COLOR = 6"
definition EMO_FIELD_BORDER :: int where "EMO_FIELD_BORDER = 8"
definition EMO_FIELD_BORDER_COLOR :: int where "EMO_FIELD_BORDER_COLOR = 9"
definition EMO_FIELD_BORDER_CORNERS :: int where "EMO_FIELD_BORDER_CORNERS = 10"
definition EMO_FIELD_BOX_RENDERER :: int where "EMO_FIELD_BOX_RENDERER = 13"
definition EMO_FIELD_CANFOCUS :: int where "EMO_FIELD_CANFOCUS = 15"
definition EMO_FIELD_CHECK_COLOR :: int where "EMO_FIELD_CHECK_COLOR = 17"
definition EMO_FIELD_CHECKFIELD :: int where "EMO_FIELD_CHECKFIELD = 19"
definition EMO_FIELD_CHECKVALUE :: int where "EMO_FIELD_CHECKVALUE = 20"
definition EMO_FIELD_COLOR :: int where "EMO_FIELD_COLOR = 21"
definition EMO_FIELD_CURSOR :: int where "EMO_FIELD_CURSOR = 22"
definition EMO_FIELD_CURSOR_COLOR :: int where "EMO_FIELD_CURSOR_COLOR = 23"
definition EMO_FIELD_DATA :: int where "EMO_FIELD_DATA = 24"
definition EMO_FIELD_FIELDNAME :: int where "EMO_FIELD_FIELDNAME = 30"
definition EMO_FIELD_FIELDVALUE :: int where "EMO_FIELD_FIELDVALUE = 31"
definition EMO_FIELD_FILL :: int where "EMO_FIELD_FILL = 32"
definition EMO_FIELD_FOCUSSTACK :: int where "EMO_FIELD_FOCUSSTACK = 37"
definition EMO_FIELD_FONT_COLOR :: int where "EMO_FIELD_FONT_COLOR = 40"
definition EMO_FIELD_HASFOCUS :: int where "EMO_FIELD_HASFOCUS = 44"
definition EMO_FIELD_HEIGHT :: int where "EMO_FIELD_HEIGHT = 45"
definition EMO_FIELD_ID :: int where "EMO_FIELD_ID = 48"
definition EMO_FIELD_MARGIN :: int where "EMO_FIELD_MARGIN = 56"
definition EMO_FIELD_MARGINBOTTOM :: int where "EMO_FIELD_MARGINBOTTOM = 57"
definition EMO_FIELD_MARGINLEFT :: int where "EMO_FIELD_MARGINLEFT = 58"
definition EMO_FIELD_MARGINRIGHT :: int where "EMO_FIELD_MARGINRIGHT = 59"
definition EMO_FIELD_MARGINTOP :: int where "EMO_FIELD_MARGINTOP = 60"
definition EMO_FIELD_MULTILINE :: int where "EMO_FIELD_MULTILINE = 61"
definition EMO_FIELD_POSITION :: int where "EMO_FIELD_POSITION = 67"
definition EMO_FIELD_RADIUS :: int where "EMO_FIELD_RADIUS = 69"
definition EMO_FIELD_RENDERER :: int where "EMO_FIELD_RENDERER = 71"
definition EMO_FIELD_ROUNDED :: int where "EMO_FIELD_ROUNDED = 73"
definition EMO_FIELD_STARTINDEX :: int where "EMO_FIELD_STARTINDEX = 80"
definition EMO_FIELD_THUMB_COLOR :: int where "EMO_FIELD_THUMB_COLOR = 83"
definition EMO_FIELD_TRACK_COLOR :: int where "EMO_FIELD_TRACK_COLOR = 85"
definition EMO_FIELD_WIDTH :: int where "EMO_FIELD_WIDTH = 92"
definition EMO_FIELD_X :: int where "EMO_FIELD_X = 93"
definition EMO_FIELD_XOFFSET :: int where "EMO_FIELD_XOFFSET = 94"
definition EMO_FIELD_Y :: int where "EMO_FIELD_Y = 95"
definition EMO_FIELD_ICONIFIED :: int where "EMO_FIELD_ICONIFIED = 97"
definition EMO_FIELD_STYLE :: int where "EMO_FIELD_STYLE = 98"
definition EMO_FIELD_STARTUPVIEW :: int where "EMO_FIELD_STARTUPVIEW = 99"
definition EMO_FIELD_FULLSCREEN :: int where "EMO_FIELD_FULLSCREEN = 100"
definition EMO_FIELD_URL :: int where "EMO_FIELD_URL = 101"
definition EMO_FIELD_INDEX :: int where "EMO_FIELD_INDEX = 102"
definition EMO_FIELD_ONLOAD :: int where "EMO_FIELD_ONLOAD = 105"
definition EMO_FIELD_ACCESSKEY :: int where "EMO_FIELD_ACCESSKEY = 106"
definition EMO_FIELD_ONRETURN :: int where "EMO_FIELD_ONRETURN = 107"
definition EMO_FIELD_MIMETYPE :: int where "EMO_FIELD_MIMETYPE = 103"
definition EMO_FIELD_DATAFIELD :: int where "EMO_FIELD_DATAFIELD = 25"
definition EMO_FIELD_IMGHEIGHT :: int where "EMO_FIELD_IMGHEIGHT = 50"
definition EMO_FIELD_IMGWIDTH :: int where "EMO_FIELD_IMGWIDTH = 51"
definition EMO_FIELD_WEIGHT :: int where "EMO_FIELD_WEIGHT = 91"

lemmas emo_field_defs =
  EMO_FIELD_UNKNOWN_FIELD_def EMO_FIELD_TYPE_def EMO_FIELD_NAME_def EMO_FIELD_REFERENCE_def EMO_FIELD_PACKING_def
  EMO_FIELD_ARRAYSOURCE_def EMO_FIELD_FILTERFIELD_def EMO_FIELD_FILTERVALUE_def EMO_FIELD_DIRECTION_def
  EMO_FIELD_STARTCOUNT_def EMO_FIELD_YOFFSET_def EMO_FIELD_ONSYNCFINISHED_def EMO_FIELD_ALIGNMENT_def
  EMO_FIELD_AUTOSCROLL_def EMO_FIELD_BACKGROUND_COLOR_def EMO_FIELD_BORDER_def EMO_FIELD_BORDER_COLOR_def
  EMO_FIELD_BORDER_CORNERS_def EMO_FIELD_BOX_RENDERER_def EMO_FIELD_CANFOCUS_def EMO_FIELD_CHECK_COLOR_def
  EMO_FIELD_CHECKFIELD_def EMO_FIELD_CHECKVALUE_def EMO_FIELD_COLOR_def EMO_FIELD_CURSOR_def EMO_FIELD_CURSOR_COLOR_def
  EMO_FIELD_DATA_def EMO_FIELD_FIELDNAME_def EMO_FIELD_FIELDVALUE_def EMO_FIELD_FILL_def EMO_FIELD_FOCUSSTACK_def
  EMO_FIELD_FONT_COLOR_def EMO_FIELD_HASFOCUS_def EMO_FIELD_HEIGHT_def EMO_FIELD_ID_def EMO_FIELD_MARGIN_def
  EMO_FIELD_MARGINBOTTOM_def EMO_FIELD_MARGINLEFT_def EMO_FIELD_MARGINRIGHT_def EMO_FIELD_MARGINTOP_def
  EMO_FIELD_MULTILINE_def EMO_FIELD_POSITION_def EMO_FIELD_RADIUS_def EMO_FIELD_RENDERER_def EMO_FIELD_ROUNDED_def
  EMO_FIELD_STARTINDEX_def EMO_FIELD_THUMB_COLOR_def EMO_FIELD_TRACK_COLOR_def EMO_FIELD_WIDTH_def EMO_FIELD_X_def
  EMO_FIELD_XOFFSET_def EMO_FIELD_Y_def EMO_FIELD_ICONIFIED_def EMO_FIELD_STYLE_def EMO_FIELD_STARTUPVIEW_def
  EMO_FIELD_FULLSCREEN_def EMO_FIELD_URL_def EMO_FIELD_INDEX_def EMO_FIELD_ONLOAD_def EMO_FIELD_ACCESSKEY_def
  EMO_FIELD_ONRETURN_def EMO_FIELD_MIMETYPE_def EMO_FIELD_DATAFIELD_def EMO_FIELD_IMGHEIGHT_def EMO_FIELD_IMGWIDTH_def
  EMO_FIELD_WEIGHT_def

definition emo_field_to_string :: "int \<Rightarrow> string option" where
  "emo_field_to_string fieldId =
     (if fieldId \<le> 0 \<or> fieldId \<ge> EMO_FIELD_UNKNOWN_FIELD then None
      else Some (EmoFieldMap ! nat fieldId))"

fun emo_field_search :: "string \<Rightarrow> string list \<Rightarrow> int \<Rightarrow> int" where
  "emo_field_search fieldName [] fieldId = EMO_FIELD_UNKNOWN_FIELD"
| "emo_field_search fieldName (n # ns) fieldId =
     (if fieldName = n then fieldId else emo_field_search fieldName ns (fieldId + 1))"

text \<open>The loop starts at \<open>EMO_FIELD_ERRORNONE + 1\<close>, the second entry of the table.\<close>

definition emo_field_to_int :: "string option \<Rightarrow> int" where
  "emo_field_to_int fieldName =
     (case fieldName of
        None \<Rightarrow> EMO_FIELD_UNKNOWN_FIELD
      | Some s \<Rightarrow> if s = [] then EMO_FIELD_UNKNOWN_FIELD
                  else emo_field_search s (drop 1 EmoFieldMap) 1)"

lemma EmoFieldMap_length: "length EmoFieldMap = 111"
  by (simp add: EmoFieldMap_def)

lemma EmoFieldMap_distinct: "distinct EmoFieldMap"
  unfolding EmoFieldMap_def by code_simp

lemma EmoFieldMap_nonempty: "[] \<notin> set EmoFieldMap"
  by (simp add: EmoFieldMap_def)

lemma emo_field_search_nth:
  "distinct ns \<Longrightarrow> i < length ns \<Longrightarrow> emo_field_search (ns ! i) ns k = k + int i"
proof (induction ns arbitrary: i k)
  case (Cons n ns)
  then show ?case by (cases i) (auto simp: nth_mem)
qed simp

lemma emo_field_search_notin: "s \<notin> set ns \<Longrightarrow> emo_field_search s ns k = EMO_FIELD_UNKNOWN_FIELD"
  by (induction ns arbitrary: k) auto

section \<open>Built-in type names\<close>

definition nul :: char where "nul = CHR 0x00"

definition builtin_names :: "string list" where
  "builtin_names = [''view'', ''entry'', ''checkbox'', ''box'', ''application'', ''script'', ''style'',
     ''image'', ''label'', ''stack'', ''set'', ''setitem'', ''text'', ''array'', ''frame'', ''reference'',
     ''scrolled'', ''gradient'', ''data'']"

text \<open>The block \<open>EMO_TYPE_NAMES\<close>: every name with its zero, and one more zero at the end.\<close>

definition EMO_TYPE_NAMES :: string where
  "EMO_TYPE_NAMES = concat (map (\<lambda>t. t @ [nul]) builtin_names) @ [nul]"

text \<open>The offsets of \<open>emo_builtin_type_init\<close>.\<close>

definition EMO_TYPE_VIEW :: nat where "EMO_TYPE_VIEW = 0"
definition EMO_TYPE_ENTRY :: nat where "EMO_TYPE_ENTRY = EMO_TYPE_VIEW + 5"
definition EMO_TYPE_CHECKBOX :: nat where "EMO_TYPE_CHECKBOX = EMO_TYPE_ENTRY + 6"
definition EMO_TYPE_BOX :: nat where "EMO_TYPE_BOX = EMO_TYPE_CHECKBOX + 9"
definition EMO_TYPE_APPLICATION :: nat where "EMO_TYPE_APPLICATION = EMO_TYPE_BOX + 4"
definition EMO_TYPE_SCRIPT :: nat where "EMO_TYPE_SCRIPT = EMO_TYPE_APPLICATION + 12"
definition EMO_TYPE_STYLE :: nat where "EMO_TYPE_STYLE = EMO_TYPE_SCRIPT + 7"
definition EMO_TYPE_IMAGE :: nat where "EMO_TYPE_IMAGE = EMO_TYPE_STYLE + 6"
definition EMO_TYPE_LABEL :: nat where "EMO_TYPE_LABEL = EMO_TYPE_IMAGE + 6"
definition EMO_TYPE_STACK :: nat where "EMO_TYPE_STACK = EMO_TYPE_LABEL + 6"
definition EMO_TYPE_SET :: nat where "EMO_TYPE_SET = EMO_TYPE_STACK + 6"
definition EMO_TYPE_SETITEM :: nat where "EMO_TYPE_SETITEM = EMO_TYPE_SET + 4"
definition EMO_TYPE_TEXT :: nat where "EMO_TYPE_TEXT = EMO_TYPE_SETITEM + 8"
definition EMO_TYPE_ARRAY :: nat where "EMO_TYPE_ARRAY = EMO_TYPE_TEXT + 5"
definition EMO_TYPE_FRAME :: nat where "EMO_TYPE_FRAME = EMO_TYPE_ARRAY + 6"
definition EMO_TYPE_REFERENCE :: nat where "EMO_TYPE_REFERENCE = EMO_TYPE_FRAME + 6"
definition EMO_TYPE_SCROLLED :: nat where "EMO_TYPE_SCROLLED = EMO_TYPE_REFERENCE + 10"
definition EMO_TYPE_GRADIENT :: nat where "EMO_TYPE_GRADIENT = EMO_TYPE_SCROLLED + 9"
definition EMO_TYPE_DATA :: nat where "EMO_TYPE_DATA = EMO_TYPE_GRADIENT + 9"
definition EMO_TYPE_NAMES_END :: nat where "EMO_TYPE_NAMES_END = EMO_TYPE_DATA + 5"

lemmas emo_type_defs = EMO_TYPE_VIEW_def EMO_TYPE_ENTRY_def EMO_TYPE_CHECKBOX_def EMO_TYPE_BOX_def
     EMO_TYPE_APPLICATION_def EMO_TYPE_SCRIPT_def EMO_TYPE_STYLE_def EMO_TYPE_IMAGE_def EMO_TYPE_LABEL_def
     EMO_TYPE_STACK_def EMO_TYPE_SET_def EMO_TYPE_SETITEM_def EMO_TYPE_TEXT_def EMO_TYPE_ARRAY_def
     EMO_TYPE_FRAME_def EMO_TYPE_REFERENCE_def EMO_TYPE_SCROLLED_def EMO_TYPE_GRADIENT_def EMO_TYPE_DATA_def
     EMO_TYPE_NAMES_END_def

definition emo_builtin_type_init :: "(string \<times> nat) list" where
  "emo_builtin_type_init = [(''view'', EMO_TYPE_VIEW), (''entry'', EMO_TYPE_ENTRY), (''checkbox'',
     EMO_TYPE_CHECKBOX), (''box'', EMO_TYPE_BOX), (''application'', EMO_TYPE_APPLICATION), (''script'',
     EMO_TYPE_SCRIPT), (''style'', EMO_TYPE_STYLE), (''image'', EMO_TYPE_IMAGE), (''label'', EMO_TYPE_LABEL),
     (''stack'', EMO_TYPE_STACK), (''set'', EMO_TYPE_SET), (''setitem'', EMO_TYPE_SETITEM), (''text'',
     EMO_TYPE_TEXT), (''array'', EMO_TYPE_ARRAY), (''frame'', EMO_TYPE_FRAME), (''reference'',
     EMO_TYPE_REFERENCE), (''scrolled'', EMO_TYPE_SCROLLED), (''gradient'', EMO_TYPE_GRADIENT), (''data'',
     EMO_TYPE_DATA)]"

text \<open>The C string at an offset of the block.\<close>

definition cstr_at :: "nat \<Rightarrow> string" where
  "cstr_at p = takeWhile (\<lambda>c. c \<noteq> nul) (drop p EMO_TYPE_NAMES)"

text \<open>The walk of \<open>emo_builtin_type\<close> over the rest of the block, from the offset \<open>p\<close>.\<close>

function emo_builtin_walk :: "string \<Rightarrow> string \<Rightarrow> nat \<Rightarrow> nat option" where
  "emo_builtin_walk typeName block p =
     (let name = takeWhile (\<lambda>c. c \<noteq> nul) block in
      if name = [] then None
      else if typeName = name then Some p
      else emo_builtin_walk typeName (drop (length name + 1) block) (p + length name + 1))"
  by pat_completeness auto
termination
proof (relation "measure (\<lambda>(t, block, p). length block)", simp, clarsimp simp: Let_def)
  fix block :: string assume "takeWhile (\<lambda>c. c \<noteq> nul) block \<noteq> []"
  then show "length block - Suc (length (takeWhile (\<lambda>c. c \<noteq> nul) block)) < length block"
    by (cases block) auto
qed

declare emo_builtin_walk.simps [simp del]

definition emo_builtin_type :: "string \<Rightarrow> nat option" where
  "emo_builtin_type typeName = emo_builtin_walk typeName EMO_TYPE_NAMES 0"

text \<open>The walk visits the names in order.\<close>

fun offset_of :: "string \<Rightarrow> string list \<Rightarrow> nat \<Rightarrow> nat option" where
  "offset_of t [] p = None"
| "offset_of t (n # ns) p = (if t = n then Some p else offset_of t ns (p + length n + 1))"

lemma takeWhile_name: "nul \<notin> set n \<Longrightarrow> takeWhile (\<lambda>c. c \<noteq> nul) (n @ nul # r) = n"
  by (induction n) auto

lemma emo_builtin_walk_names:
  "\<forall>n \<in> set ns. n \<noteq> [] \<and> nul \<notin> set n \<Longrightarrow>
   emo_builtin_walk t (concat (map (\<lambda>t. t @ [nul]) ns) @ [nul]) p = offset_of t ns p"
proof (induction ns arbitrary: p)
  case Nil
  then show ?case by (simp add: emo_builtin_walk.simps)
next
  case (Cons n ns)
  then show ?case
    by (subst emo_builtin_walk.simps) (simp add: takeWhile_name Let_def)
qed

lemma builtin_names_ok: "\<forall>n \<in> set builtin_names. n \<noteq> [] \<and> nul \<notin> set n"
  by (simp add: builtin_names_def nul_def)

lemma emo_builtin_type_offset: "emo_builtin_type t = offset_of t builtin_names 0"
  unfolding emo_builtin_type_def EMO_TYPE_NAMES_def by (rule emo_builtin_walk_names [OF builtin_names_ok])

lemma offset_of_None: "offset_of t ns p = None \<longleftrightarrow> t \<notin> set ns"
  by (induction ns arbitrary: p) auto

lemma offset_of_cstr:
  "offset_of t ns p = Some q \<Longrightarrow> \<forall>n \<in> set ns. nul \<notin> set n \<Longrightarrow>
   p \<le> q \<and> takeWhile (\<lambda>c. c \<noteq> nul) (drop (q - p) (concat (map (\<lambda>t. t @ [nul]) ns) @ [nul])) = t"
proof (induction ns arbitrary: p)
  case (Cons n ns)
  show ?case
  proof (cases "t = n")
    case True
    with Cons.prems show ?thesis by (simp add: takeWhile_name)
  next
    case False
    with Cons.prems have "offset_of t ns (p + length n + 1) = Some q" by simp
    with Cons.IH [OF this] Cons.prems(2) have le: "p + length n + 1 \<le> q" and
      tw: "takeWhile (\<lambda>c. c \<noteq> nul) (drop (q - (p + length n + 1)) (concat (map (\<lambda>t. t @ [nul]) ns) @ [nul])) = t"
      by auto
    have "drop (q - p) ((n @ [nul]) @ r) = drop (q - (p + length n + 1)) r" for r
      using le by (subst drop_append) simp
    with tw le show ?thesis by simp
  qed
qed simp

lemma emo_builtin_type_cstr: "emo_builtin_type t = Some q \<Longrightarrow> cstr_at q = t"
  using offset_of_cstr [of t builtin_names 0 q] builtin_names_ok
  by (simp add: emo_builtin_type_offset cstr_at_def EMO_TYPE_NAMES_def)

section \<open>Properties\<close>

text \<open>
  field numbers and field names correspond one to one: the number of a known name is looked
  up back, every name outside the table and the empty name map to \<open>EMO_FIELD_UNKNOWN_FIELD\<close>, and a number
  that a name maps to has exactly that name.
\<close>

theorem emo_field_roundtrip:
  "(\<forall>i s. emo_field_to_string i = Some s \<longrightarrow> emo_field_to_int (Some s) = i) \<and>
   (\<forall>s. emo_field_to_int (Some s) \<noteq> EMO_FIELD_UNKNOWN_FIELD \<longrightarrow> emo_field_to_string (emo_field_to_int (Some s)) = Some s)"
proof -
  let ?ns = "drop 1 EmoFieldMap"
  have d: "distinct ?ns" "length ?ns = 110" "[] \<notin> set ?ns"
    using EmoFieldMap_distinct EmoFieldMap_length EmoFieldMap_nonempty by (auto dest: in_set_dropD)
  have nth: "?ns ! i = EmoFieldMap ! Suc i" if "i < 110" for i using that by (simp add: EmoFieldMap_length)
  have 1: "emo_field_to_int (Some (EmoFieldMap ! Suc i)) = 1 + int i" if i: "i < 110" for i
  proof -
    have "?ns ! i \<in> set ?ns" using i d(2) by (intro nth_mem) simp
    with d(3) have "EmoFieldMap ! Suc i \<noteq> []" by (metis nth [OF i])
    with emo_field_search_nth [OF d(1), of i 1] i d(2) nth [OF i] show ?thesis by (simp add: emo_field_to_int_def)
  qed
  have "emo_field_to_int (Some s) = i" if "emo_field_to_string i = Some s" for i s
  proof -
    from that have "0 < i" "i < 111" "s = EmoFieldMap ! nat i"
      by (auto simp: emo_field_to_string_def EMO_FIELD_UNKNOWN_FIELD_def split: if_splits)
    then show ?thesis using 1 [of "nat i - 1"] by (simp add: Suc_diff_Suc)
  qed
  moreover have "emo_field_to_string (emo_field_to_int (Some s)) = Some s"
    if k: "emo_field_to_int (Some s) \<noteq> EMO_FIELD_UNKNOWN_FIELD" for s
  proof -
    have "s \<in> set ?ns" using k emo_field_search_notin by (auto simp: emo_field_to_int_def split: if_splits)
    then obtain i where i: "i < 110" "s = EmoFieldMap ! Suc i" using d(2) nth by (metis in_set_conv_nth)
    then show ?thesis using 1 [OF i(1)]
      by (simp add: emo_field_to_string_def EMO_FIELD_UNKNOWN_FIELD_def nat_add_distrib)
  qed
  ultimately show ?thesis by blast
qed

theorem emo_field_roundtrip_witness:
  "emo_field_to_int (emo_field_to_string EMO_FIELD_TYPE) = EMO_FIELD_TYPE"
  using emo_field_roundtrip
  by (simp add: emo_field_to_string_def EMO_FIELD_TYPE_def EMO_FIELD_UNKNOWN_FIELD_def)

text \<open>
  \<open>emo_builtin_type\<close> returns, for each of the nineteen type names, the address that
  \<open>emo_builtin_type_init\<close> stored in the variable of that type, so that comparing pointers compares names;
  the string there is the name itself, and other names are not built in.
\<close>

theorem emo_builtin_type_correct:
  "emo_builtin_type t = map_of emo_builtin_type_init t \<and>
   (\<forall>q. emo_builtin_type t = Some q \<longrightarrow> cstr_at q = t \<and> q < EMO_TYPE_NAMES_END)"
proof -
  have 1: "emo_builtin_type t = map_of emo_builtin_type_init t"
    by (simp add: emo_builtin_type_offset builtin_names_def emo_builtin_type_init_def emo_type_defs)
  moreover have "q < EMO_TYPE_NAMES_END" if "emo_builtin_type t = Some q" for q
    using that unfolding 1 by (auto simp: emo_builtin_type_init_def emo_type_defs split: if_splits)
  ultimately show ?thesis using emo_builtin_type_cstr by blast
qed

theorem emo_builtin_type_correct_witness:
  "emo_builtin_type ''application'' = Some EMO_TYPE_APPLICATION \<and> cstr_at EMO_TYPE_APPLICATION = ''application''"
  using emo_builtin_type_correct [of "''application''"] by (simp add: emo_builtin_type_init_def)

end
