(* ===== verification/Int_Text.thy ===== *)
theory Int_Text
  imports C_Prelude "HOL-Library.Signed_Division"
begin

text \<open>
  Numbers and text: \<open>emo_itoa\<close> and \<open>emo_uitoa\<close> of \<open>ProtocolUtils.c\<close>, which print the integer fields of an
  object for the wire, and the library functions \<open>atoi\<close> and \<open>strtoul(.., NULL, 16)\<close> that read them back.

  The digit alphabet is indexed from its middle, so that the negative remainders of C's
  division select the same digits; the digits are produced in reverse and the buffer is reversed
  in place by the second loop. The result buffer is a list; the callers pass 64 bytes. The lemmas show
  that reading a printed number gives the number back.
\<close>

section \<open>Printing\<close>

definition itoa_alphabet :: string where
  "itoa_alphabet = ''zyxwvutsrqponmlkjihgfedcba9876543210123456789abcdefghijklmnopqrstuvwxyz''"

text \<open>The \<open>do\<close> loop: the digits written so far and the last \<open>tmp_value\<close>. A base of at least two
  makes \<open>value\<close> shrink.\<close>

lemma sdiv_abs_less: "v sdiv b \<noteq> 0 \<Longrightarrow> \<not> b < 2 \<Longrightarrow> \<bar>v sdiv b\<bar> < \<bar>v :: int\<bar>"
proof -
  assume a: "v sdiv b \<noteq> 0" "\<not> b < 2"
  have "v \<noteq> 0" using a by (auto simp: signed_divide_int_def)
  then have "\<bar>v\<bar> div b < \<bar>v\<bar>" using a by (intro int_div_less_self) auto
  moreover have "\<bar>v sdiv b\<bar> = \<bar>v\<bar> div b"
    using a \<open>v \<noteq> 0\<close> by (auto simp: signed_divide_int_def abs_mult sgn_if pos_imp_zdiv_nonneg_iff)
  ultimately show ?thesis by simp
qed

function itoa_digits :: "int \<Rightarrow> int \<Rightarrow> string \<Rightarrow> string \<times> int" where
  "itoa_digits value base out =
     (let tmp_value = value;
          value = tmp_value sdiv base;
          out = out @ [itoa_alphabet ! nat (35 + (tmp_value - value * base))]
      in if value = 0 \<or> base < 2 then (out, tmp_value) else itoa_digits value base out)"
  by pat_completeness auto
termination
  by (relation "measure (\<lambda>(value, base, out). nat \<bar>value\<bar>)") (auto simp: sdiv_abs_less)

declare itoa_digits.simps [simp del]

text \<open>The loop that swaps the characters at \<open>ptr1\<close> and \<open>ptr\<close> while moving them towards each other.\<close>

function reverse_loop :: "string \<Rightarrow> nat \<Rightarrow> nat \<Rightarrow> string" where
  "reverse_loop s ptr1 ptr =
     (if ptr1 < ptr then reverse_loop (s[ptr := s ! ptr1, ptr1 := s ! ptr]) (ptr1 + 1) (ptr - 1) else s)"
  by pat_completeness auto
termination by (relation "measure (\<lambda>(s, i, j). j - i)") auto

declare reverse_loop.simps [simp del]

definition emo_itoa :: "int \<Rightarrow> int \<Rightarrow> string" where
  "emo_itoa value base =
     (if base < 2 \<or> base > 36 then []
      else
        let (out, tmp_value) = itoa_digits value base [];
            out = (if tmp_value < 0 then out @ ''-'' else out)
        in reverse_loop out 0 (length out - 1))"

definition emo_uitoa :: "int \<Rightarrow> int \<Rightarrow> string" where
  "emo_uitoa value base =
     (if base < 2 \<or> base > 36 then []
      else
        let (out, tmp_value) = itoa_digits value base []
        in reverse_loop out 0 (length out - 1))"

section \<open>Reading\<close>

definition c_isspace :: "char \<Rightarrow> bool" where
  "c_isspace c = (c \<in> {CHR '' '', CHR 0x09, CHR 0x0A, CHR 0x0B, CHR 0x0C, CHR 0x0D})"

definition digit_value :: "char \<Rightarrow> int" where
  "digit_value c =
     (let n = int (of_char c) in
      if 48 \<le> n \<and> n \<le> 57 then n - 48
      else if 97 \<le> n \<and> n \<le> 122 then n - 87
      else if 65 \<le> n \<and> n \<le> 90 then n - 55
      else 99)"

text \<open>The value of the longest prefix of digits of the base.\<close>

fun read_digits :: "int \<Rightarrow> int \<Rightarrow> string \<Rightarrow> int" where
  "read_digits base acc [] = acc"
| "read_digits base acc (c # cs) =
     (if digit_value c < base then read_digits base (acc * base + digit_value c) cs else acc)"

fun read_sign :: "string \<Rightarrow> int \<times> string" where
  "read_sign [] = (1, [])"
| "read_sign (c # cs) = (if c = CHR ''-'' then (-1, cs) else if c = CHR ''+'' then (1, cs) else (1, c # cs))"

definition atoi :: "string \<Rightarrow> int" where
  "atoi s = (let (sg, t) = read_sign (dropWhile c_isspace s) in sg * read_digits 10 0 t)"

text \<open>\<open>strtoul\<close> in base 16 accepts a prefix \<open>0x\<close>, saturates at \<open>ULONG_MAX\<close> and negates modulo \<open>2^32\<close>.\<close>

definition strtoul16 :: "string \<Rightarrow> 32 word" where
  "strtoul16 s =
     (let (sg, t) = read_sign (dropWhile c_isspace s);
          t = (case t of z # x # h # r \<Rightarrow>
                 if z = CHR ''0'' \<and> (x = CHR ''x'' \<or> x = CHR ''X'') \<and> digit_value h < 16 then h # r else t
               | _ \<Rightarrow> t);
          v = read_digits 16 0 t
      in if v \<ge> 2 ^ 32 then - 1 else word_of_int (sg * v))"

section \<open>Lemmas\<close>

lemma length_reverse_loop: "length (reverse_loop s i j) = length s"
proof (induction s i j rule: reverse_loop.induct)
  case (1 s i j)
  then show ?case by (subst reverse_loop.simps) auto
qed

lemma reverse_loop_nth:
  "j < length s \<Longrightarrow> k < length s \<Longrightarrow>
   reverse_loop s i j ! k = (if i \<le> k \<and> k \<le> j then s ! (i + j - k) else s ! k)"
proof (induction s i j rule: reverse_loop.induct)
  case (1 s i j)
  show ?case
  proof (cases "i < j")
    case True
    have eq: "reverse_loop s i j = reverse_loop (s[j := s ! i, i := s ! j]) (i + 1) (j - 1)"
      using True by (simp add: reverse_loop.simps [of s i j])
    have IH: "reverse_loop (s[j := s ! i, i := s ! j]) (i + 1) (j - 1) ! k =
      (if i + 1 \<le> k \<and> k \<le> j - 1 then s[j := s ! i, i := s ! j] ! (i + 1 + (j - 1) - k) else s[j := s ! i, i := s ! j] ! k)"
      using 1 True by (intro 1(1)) auto
    show ?thesis
    proof (cases "k = i \<or> k = j")
      case True
      then show ?thesis unfolding eq IH using \<open>i < j\<close> 1(2) by (auto simp: nth_list_update)
    next
      case False
      then have "i + 1 \<le> k \<and> k \<le> j - 1 \<longleftrightarrow> i \<le> k \<and> k \<le> j" using \<open>i < j\<close> by auto
      then show ?thesis unfolding eq IH using False \<open>i < j\<close> 1(2,3) by (auto simp: nth_list_update)
    qed
  next
    case False
    then have "reverse_loop s i j = s" by (simp add: reverse_loop.simps [of s i j])
    moreover have "i + j - k = k" if "i \<le> k" "k \<le> j" using False that by simp
    ultimately show ?thesis by auto
  qed
qed

lemma reverse_loop_rev: "reverse_loop s 0 (length s - 1) = rev s"
proof (cases "s = []")
  case True
  then show ?thesis by (simp add: reverse_loop.simps)
next
  case False
  then show ?thesis
    by (intro nth_equalityI) (auto simp: length_reverse_loop reverse_loop_nth rev_nth)
qed

text \<open>The digits as a number: most significant first, as \<open>read_digits\<close> sees them after the
  reversal.\<close>

lemma read_digits_append:
  "\<forall>c \<in> set xs. digit_value c < base \<Longrightarrow> read_digits base acc (xs @ ys) = read_digits base (read_digits base acc xs) ys"
  by (induction xs arbitrary: acc) auto

lemma alphabet_table:
  "map (\<lambda>i. digit_value (itoa_alphabet ! i)) [26..<45] = [9, 8, 7, 6, 5, 4, 3, 2, 1, 0, 1, 2, 3, 4, 5, 6, 7, 8, 9]"
  unfolding itoa_alphabet_def by code_simp

lemma alphabet_nth:
  "k < 19 \<Longrightarrow> digit_value (itoa_alphabet ! (26 + k)) = [9, 8, 7, 6, 5, 4, 3, 2, 1, 0, 1, 2, 3, 4, 5, 6, 7, 8, 9] ! k"
  unfolding alphabet_table [symmetric] by (subst nth_map) (simp_all del: upt_rec_numeral)

lemma alphabet_pos: "0 \<le> d \<Longrightarrow> d < 10 \<Longrightarrow>
    digit_value (itoa_alphabet ! nat (35 + d)) = d \<and> digit_value (itoa_alphabet ! nat (35 - d)) = d"
proof -
  assume d: "0 \<le> d" "d < 10"
  have n: "nat (35 + d) = 26 + nat (9 + d)" "nat (35 - d) = 26 + nat (9 - d)" "nat (9 + d) < 19" "nat (9 - d) < 19"
    using d by auto
  have "d = 0 \<or> d = 1 \<or> d = 2 \<or> d = 3 \<or> d = 4 \<or> d = 5 \<or> d = 6 \<or> d = 7 \<or> d = 8 \<or> d = 9"
    using d by arith
  then show ?thesis unfolding n(1,2) alphabet_nth [OF n(3)] alphabet_nth [OF n(4)]
    by (elim disjE) simp_all
qed

lemma itoa_digits_decimal:
  assumes "itoa_digits v 10 out = (res, lst)"
  shows "\<exists>ds. res = out @ ds \<and> ds \<noteq> [] \<and> (\<forall>c \<in> set ds. digit_value c < 10) \<and> read_digits 10 0 (rev ds) = \<bar>v\<bar> \<and>
     (lst < 0 \<longleftrightarrow> v < 0)"
  using assms
proof (induction v "10 :: int" out rule: itoa_digits.induct)
  case (1 v out)
  define q where "q = v sdiv 10"
  define c where "c = itoa_alphabet ! nat (35 + (v - q * 10))"
  have q: "\<bar>q\<bar> = \<bar>v\<bar> div 10" "v < 0 \<Longrightarrow> q \<le> 0" "0 \<le> v \<Longrightarrow> 0 \<le> q"
    unfolding q_def signed_divide_int_def by (auto simp: abs_mult sgn_if)
  have r: "v - q * 10 = (if v < 0 then - (\<bar>v\<bar> mod 10) else \<bar>v\<bar> mod 10)"
    using q by (cases "v < 0") (auto simp: minus_div_mult_eq_mod [symmetric])
  have dc: "digit_value c = \<bar>v\<bar> mod 10"
    using alphabet_pos [of "\<bar>v\<bar> mod 10"] unfolding c_def r by (cases "v < 0") auto
  have step: "itoa_digits v 10 out = (if q = 0 then (out @ [c], v) else itoa_digits q 10 (out @ [c]))"
    by (subst itoa_digits.simps) (simp add: Let_def q_def c_def)
  show ?case
  proof (cases "q = 0")
    case True
    then have "\<bar>v\<bar> < 10" using q(1) by auto
    with True 1(2) dc show ?thesis unfolding step by (auto simp: digit_value_def)
  next
    case False
    with 1(2) step have rec: "itoa_digits q 10 (out @ [c]) = (res, lst)" by simp
    have "\<exists>ds. res = (out @ [c]) @ ds \<and> ds \<noteq> [] \<and> (\<forall>c \<in> set ds. digit_value c < 10) \<and>
        read_digits 10 0 (rev ds) = \<bar>q\<bar> \<and> (lst < 0 \<longleftrightarrow> q < 0)"
      using False rec by (intro 1(1)) (auto simp: q_def c_def)
    then obtain ds where ds: "res = out @ c # ds" "\<forall>c \<in> set ds. digit_value c < 10"
      "read_digits 10 0 (rev ds) = \<bar>q\<bar>" "lst < 0 \<longleftrightarrow> q < 0" by auto
    have "read_digits 10 0 (rev (c # ds)) = \<bar>q\<bar> * 10 + \<bar>v\<bar> mod 10"
      using ds(2,3) dc by (simp add: read_digits_append)
    also have "\<dots> = \<bar>v\<bar>" unfolding q(1) by simp
    finally have "read_digits 10 0 (rev (c # ds)) = \<bar>v\<bar>" .
    moreover have "lst < 0 \<longleftrightarrow> v < 0" using ds(4) q(2,3) False by (cases "v < 0") auto
    ultimately show ?thesis using ds dc by (intro exI [of _ "c # ds"]) auto
  qed
qed

lemma digit_not_sign: "digit_value c < 10 \<Longrightarrow> \<not> c_isspace c \<and> c \<noteq> CHR ''-'' \<and> c \<noteq> CHR ''+''"
  by (auto simp: digit_value_def c_isspace_def Let_def)

lemma atoi_digits:
  assumes "ds \<noteq> []" and "\<forall>c \<in> set ds. digit_value c < 10"
  shows "atoi ds = read_digits 10 0 ds" "atoi (CHR ''-'' # ds) = - read_digits 10 0 ds"
proof -
  obtain c cs where ds: "ds = c # cs" using assms(1) by (cases ds) auto
  show "atoi ds = read_digits 10 0 ds"
    using assms(2) digit_not_sign [of c] by (simp add: atoi_def ds)
  have "\<not> c_isspace (CHR ''-'')" by (simp add: c_isspace_def)
  then show "atoi (CHR ''-'' # ds) = - read_digits 10 0 ds" by (simp add: atoi_def)
qed

text \<open>What is printed in base 10: a sign and digits.\<close>

lemma emo_itoa_decimal:
  "\<exists>ds. ds \<noteq> [] \<and> (\<forall>c \<in> set ds. digit_value c < 10) \<and> read_digits 10 0 ds = \<bar>v\<bar> \<and>
     emo_itoa v 10 = (if v < 0 then CHR ''-'' # ds else ds) \<and> emo_uitoa v 10 = ds"
proof -
  obtain res lst where run: "itoa_digits v 10 [] = (res, lst)" by fastforce
  from itoa_digits_decimal [OF run] have res: "res \<noteq> []" "\<forall>c \<in> set res. digit_value c < 10"
    "read_digits 10 0 (rev res) = \<bar>v\<bar>" "lst < 0 \<longleftrightarrow> v < 0" by auto
  have "emo_itoa v 10 = (if v < 0 then CHR ''-'' # rev res else rev res)"
    using res(4) reverse_loop_rev [of "res @ ''-''"] reverse_loop_rev [of res] by (simp add: emo_itoa_def run)
  moreover have "emo_uitoa v 10 = rev res" using reverse_loop_rev [of res] by (simp add: emo_uitoa_def run)
  ultimately show ?thesis using res by (intro exI [of _ "rev res"]) auto
qed

lemma atoi_emo_itoa: "atoi (emo_itoa v 10) = v"
  using emo_itoa_decimal [of v] atoi_digits by (auto split: if_splits)

lemma emo_itoa_inj: "emo_itoa v 10 = emo_itoa w 10 \<longleftrightarrow> v = w"
  by (metis atoi_emo_itoa)

lemma itoa_digits_length:
  "itoa_digits v 10 out = (res, lst) \<Longrightarrow> \<bar>v\<bar> < 10 ^ Suc k \<Longrightarrow> length res \<le> length out + Suc k"
proof (induction k arbitrary: v out)
  case 0
  then have "v sdiv 10 = 0" by (auto simp: signed_divide_int_def)
  with 0 show ?case by (subst (asm) itoa_digits.simps) (auto simp: Let_def)
next
  case (Suc k)
  define q where "q = v sdiv 10"
  have "\<bar>q\<bar> = \<bar>v\<bar> div 10" unfolding q_def signed_divide_int_def by (simp add: abs_mult sgn_if)
  with Suc.prems(2) have q: "\<bar>q\<bar> < 10 ^ Suc k" by auto
  define c where "c = itoa_alphabet ! nat (35 + (v - q * 10))"
  have "itoa_digits v 10 out = (if q = 0 then (out @ [c], v) else itoa_digits q 10 (out @ [c]))"
    by (subst itoa_digits.simps) (auto simp: Let_def q_def c_def)
  with Suc.prems(1) Suc.IH [OF _ q, of "out @ [c]"] show ?case by (auto split: if_split_asm)
qed

lemma emo_itoa_length: "\<bar>v\<bar> < 10 ^ Suc k \<Longrightarrow> length (emo_itoa v 10) \<le> Suc (Suc k)"
proof -
  assume v: "\<bar>v\<bar> < 10 ^ Suc k"
  obtain res lst where run: "itoa_digits v 10 [] = (res, lst)" by fastforce
  from itoa_digits_length [OF run v] show ?thesis
    using reverse_loop_rev [of "res @ ''-''"] reverse_loop_rev [of res] by (simp add: emo_itoa_def run)
qed

lemma emo_itoa_no_nul: "CHR 0x00 \<notin> set (emo_itoa v 10)" "CHR 0x00 \<notin> set (emo_uitoa v 10)"
proof -
  have "digit_value (CHR 0x00) = 99" by (simp add: digit_value_def)
  then show "CHR 0x00 \<notin> set (emo_itoa v 10)" "CHR 0x00 \<notin> set (emo_uitoa v 10)"
    using emo_itoa_decimal [of v] by (auto split: if_splits)
qed

section \<open>Properties\<close>

text \<open>
  C28: printing any integer in base 10 with \<open>emo_itoa\<close> and reading the text with \<open>atoi\<close> returns the
  integer, the most negative one included; \<open>emo_uitoa\<close> prints non-negative values the same way, and a base
  outside 2 to 36 gives the empty string.
\<close>

theorem emo_itoa_atoi:
  "atoi (emo_itoa v 10) = v \<and> (v \<ge> 0 \<longrightarrow> emo_uitoa v 10 = emo_itoa v 10) \<and>
   (base < 2 \<or> base > 36 \<longrightarrow> emo_itoa v base = [] \<and> emo_uitoa v base = [])"
proof (intro conjI impI)
  show "atoi (emo_itoa v 10) = v" by (rule atoi_emo_itoa)
  show "emo_uitoa v 10 = emo_itoa v 10" if "v \<ge> 0" using emo_itoa_decimal [of v] that by auto
qed (simp_all add: emo_itoa_def emo_uitoa_def)

theorem emo_itoa_atoi_witness: "atoi (emo_itoa (- 2147483648) 10) = - 2147483648 \<and> emo_itoa 42 37 = []"
  using emo_itoa_atoi [of "- 2147483648"] emo_itoa_atoi [of 42 37] by simp

end
