(* ===== verification/Dyn_Array.thy ===== *)
theory Dyn_Array
  imports C_Prelude
begin

text \<open>
  The growable array of \<open>Array.h\<close> and \<open>Array.c\<close>.

  \<open>a_data\<close> is the allocated block as a list of \<open>size\<close> element slots; a slot that was never
  written is \<open>None\<close> (\<open>p_realloc\<close> does not clear memory), and the struct's \<open>size\<close> is the length
  of this list. Elements are copied in and out as values, so \<open>elementSize\<close> only matters for the
  assertion of \<open>array_new\<close>. Sizes are natural numbers: an array for which
  \<open>newSize * elementSize\<close> exceeds 32 bits does not fit the device's memory.

  The growth factor is a C \<open>float\<close>, kept as a multiple of \<open>2^-22\<close> (\<open>2.2f\<close> is
  \<open>9227469 / 2^22\<close>). \<open>grown_size\<close> computes \<open>(size_t)((newSize * factor) + 0.5f)\<close> with the
  single-precision rounding (24 significant bits, to nearest, ties to even) of each operation.

  The lemmas show that growing always makes room, that every operation keeps the well-formedness
  of the array and what it does to the list of its elements, and that \<open>array_removeItem\<close>
  leaves the length unchanged.
\<close>

section \<open>Single-precision arithmetic of the growth factor\<close>

fun bitlen :: "nat \<Rightarrow> nat" where
  "bitlen n = (if n = 0 then 0 else Suc (bitlen (n div 2)))"

declare bitlen.simps [simp del]

lemma bitlen_0 [simp]: "bitlen 0 = 0"
  by (simp add: bitlen.simps)

text \<open>Rounding of a fixed-point value to 24 significant bits.\<close>

definition round24 :: "nat \<Rightarrow> nat" where
  "round24 v =
     (let u = 2 ^ (bitlen v - 24); q = v div u; r = v mod u
      in if 2 * r > u \<or> (2 * r = u \<and> odd q) then (q + 1) * u else q * u)"

definition factor_default :: nat where
  "factor_default = 9227469"

definition grown_size :: "nat \<Rightarrow> nat \<Rightarrow> nat" where
  "grown_size factor newSize =
     (let f = round24 (newSize * 2 ^ 22);
          p = round24 (f * factor);
          s = round24 (p + 2 ^ 43)
      in s div 2 ^ 44)"

lemma bitlen_bound: "v < 2 ^ bitlen v \<and> (v \<noteq> 0 \<longrightarrow> 2 ^ (bitlen v - 1) \<le> v)"
proof (induction v rule: bitlen.induct)
  case (1 n)
  show ?case
  proof (cases "n = 0")
    case False
    then have IH: "n div 2 < 2 ^ bitlen (n div 2)" "n div 2 \<noteq> 0 \<longrightarrow> 2 ^ (bitlen (n div 2) - 1) \<le> n div 2"
      using 1 by auto
    have b: "bitlen n = Suc (bitlen (n div 2))" using False by (simp add: bitlen.simps [of n])
    have "2 ^ bitlen (n div 2) \<le> n"
    proof (cases "n div 2 = 0")
      case True
      then show ?thesis using False by (simp add: bitlen.simps)
    next
      case nz: False
      then obtain m where m: "bitlen (n div 2) = Suc m" by (subst (asm) bitlen.simps) (metis bitlen.simps)
      show ?thesis using IH(2) nz m by auto
    qed
    with b IH(1) show ?thesis by auto
  qed (simp add: bitlen.simps)
qed

text \<open>Rounding loses at most one unit in the last of 24 places.\<close>

lemma round24_arith: "u * 2 ^ 23 \<le> v \<Longrightarrow> r < u \<Longrightarrow> v - r \<le> w \<Longrightarrow> 15 * v \<le> 16 * (w :: nat)"
  by simp

lemma round24_lower: "15 * v \<le> 16 * round24 v"
proof -
  let ?u = "2 ^ (bitlen v - 24) :: nat"
  have lo: "v - v mod ?u \<le> round24 v"
    by (auto simp: round24_def Let_def minus_mod_eq_div_mult)
  show ?thesis
  proof (cases "bitlen v \<le> 24")
    case True
    then show ?thesis using lo by simp
  next
    case False
    then have "v \<noteq> 0" by (metis bitlen_0 zero_le)
    then have "2 ^ (bitlen v - 1) \<le> v" using bitlen_bound by blast
    moreover have "bitlen v - 1 = (bitlen v - 24) + 23" using False by simp
    ultimately have "?u * 2 ^ 23 \<le> v" by (metis power_add)
    moreover have "v mod ?u < ?u" by simp
    ultimately show ?thesis using lo by (rule round24_arith)
  qed
qed

lemma round24_exact: "v < 2 ^ 24 \<Longrightarrow> round24 v = v"
proof -
  assume v: "v < 2 ^ 24"
  have "bitlen v \<le> 24"
  proof (rule ccontr)
    assume "\<not> bitlen v \<le> 24"
    then have "24 \<le> bitlen v - 1" "v \<noteq> 0" by (linarith, metis bitlen_0 zero_le)
    then have "(2::nat) ^ 24 \<le> 2 ^ (bitlen v - 1)" "v \<noteq> 0"
      using power_increasing [of 24 "bitlen v - 1" "2::nat"] by simp_all
    with bitlen_bound [of v] v show False by linarith
  qed
  then show ?thesis by (simp add: round24_def)
qed

lemma grown_size_arith:
  "15 * (n * 2 ^ 22) \<le> 16 * f \<Longrightarrow> 15 * fp \<le> 16 * p \<Longrightarrow> 15 * (p + 2 ^ 43) \<le> 16 * s \<Longrightarrow>
   f * 9227469 \<le> fp \<Longrightarrow> n * 2 ^ 44 \<le> (s :: nat)"
  by simp

lemma grown_size_ge: "factor_default \<le> factor \<Longrightarrow> n \<le> grown_size factor n"
proof -
  assume f: "factor_default \<le> factor"
  let ?f = "round24 (n * 2 ^ 22)"
  let ?p = "round24 (?f * factor)"
  let ?s = "round24 (?p + 2 ^ 43)"
  have 1: "15 * (n * 2 ^ 22) \<le> 16 * ?f" by (rule round24_lower)
  have 2: "15 * (?f * factor) \<le> 16 * ?p" by (rule round24_lower)
  have 3: "15 * (?p + 2 ^ 43) \<le> 16 * ?s" by (rule round24_lower)
  have 4: "?f * 9227469 \<le> ?f * factor" using f by (simp add: factor_default_def)
  have "n * 2 ^ 44 \<le> ?s" using 1 2 3 4 by (rule grown_size_arith)
  then show ?thesis by (simp add: grown_size_def Let_def less_eq_div_iff_mult_less_eq)
qed

section \<open>The operations of Array.c\<close>

record 'a Array =
  a_data :: "'a option list"
  a_length :: nat
  a_factor :: nat

definition array_new :: "nat \<Rightarrow> 'a Array res" where
  "array_new elementSize =
     bind_res (c_assert (elementSize \<noteq> 0)) (\<lambda>_.
     Inr \<lparr>a_data = [], a_length = 0, a_factor = factor_default\<rparr>)"

text \<open>\<open>p_realloc\<close> keeps the common prefix of the block.\<close>

definition array_resize :: "'a Array \<Rightarrow> nat \<Rightarrow> 'a Array" where
  "array_resize a newSize =
     (let a = a\<lparr>a_data := take newSize (a_data a) @ replicate (newSize - length (a_data a)) None\<rparr>
      in if a_length a > newSize then a\<lparr>a_length := newSize\<rparr> else a)"

definition array_newWithSize :: "nat \<Rightarrow> nat \<Rightarrow> 'a Array res" where
  "array_newWithSize elementSize sz =
     bind_res (array_new elementSize) (\<lambda>output. Inr (array_resize output sz))"

definition array_setFactor :: "'a Array \<Rightarrow> nat \<Rightarrow> 'a Array" where
  "array_setFactor a factor = a\<lparr>a_factor := factor\<rparr>"

definition array_size :: "'a Array \<Rightarrow> nat" where
  "array_size a = length (a_data a)"

definition array_length :: "'a Array \<Rightarrow> nat" where
  "array_length a = a_length a"

definition array_shrink :: "'a Array \<Rightarrow> 'a Array" where
  "array_shrink a = array_resize a (a_length a)"

text \<open>The assertion guards \<open>length\<close>; a slot outside the allocated block is \<open>OutOfBounds\<close>.\<close>

definition array_setItem :: "'a Array \<Rightarrow> nat \<Rightarrow> 'a \<Rightarrow> 'a Array res" where
  "array_setItem a index data =
     bind_res (c_assert (index < a_length a)) (\<lambda>_.
     if index < length (a_data a) then Inr (a\<lparr>a_data := (a_data a)[index := Some data]\<rparr>)
     else Inl OutOfBounds)"

definition array_append :: "'a Array \<Rightarrow> 'a \<Rightarrow> 'a Array res" where
  "array_append a data =
     (let a = (if array_size a = a_length a
               then array_resize a (grown_size (a_factor a) (array_size a + 1)) else a);
          a = a\<lparr>a_length := a_length a + 1\<rparr>
      in array_setItem a (a_length a - 1) data)"

text \<open>\<open>array_item\<close> returns a pointer to the slot; the callers read the element through it.\<close>

definition array_item :: "'a Array \<Rightarrow> nat \<Rightarrow> 'a res" where
  "array_item a index =
     bind_res (c_assert (index < a_length a)) (\<lambda>_.
     if index < length (a_data a)
     then (case a_data a ! index of None \<Rightarrow> Inl Uninit | Some x \<Rightarrow> Inr x)
     else Inl OutOfBounds)"

text \<open>
  \<open>memcpy\<close> of \<open>n\<close> slots from \<open>src\<close> to \<open>dst\<close> within one block, in ascending order. For
  \<open>array_removeItem\<close> the regions overlap as soon as two elements follow the removed one, which
  ISO C leaves undefined; an ascending copy is what the code relies on.
\<close>

fun memcpy_slots :: "'a option list \<Rightarrow> nat \<Rightarrow> nat \<Rightarrow> nat \<Rightarrow> 'a option list res" where
  "memcpy_slots d dst src 0 = Inr d"
| "memcpy_slots d dst src (Suc n) =
     (if src < length d \<and> dst < length d
      then memcpy_slots (d[dst := d ! src]) (Suc dst) (Suc src) n
      else Inl OutOfBounds)"

definition array_removeItem :: "'a Array \<Rightarrow> nat \<Rightarrow> 'a Array res" where
  "array_removeItem a index =
     bind_res (c_assert (index < a_length a)) (\<lambda>_.
     bind_res (memcpy_slots (a_data a) index (index + 1) (a_length a - 1 - index)) (\<lambda>d.
     Inr (a\<lparr>a_data := d\<rparr>)))"

definition array_empty :: "'a Array \<Rightarrow> 'a Array" where
  "array_empty a = a\<lparr>a_length := 0\<rparr>"

section \<open>The elements of an array\<close>

definition array_wf :: "'a Array \<Rightarrow> bool" where
  "array_wf a \<longleftrightarrow> a_length a \<le> length (a_data a) \<and> None \<notin> set (take (a_length a) (a_data a)) \<and>
     factor_default \<le> a_factor a"

definition array_list :: "'a Array \<Rightarrow> 'a list" where
  "array_list a = map the (take (a_length a) (a_data a))"

lemma length_array_list [simp]: "array_wf a \<Longrightarrow> length (array_list a) = a_length a"
  by (simp add: array_list_def array_wf_def)

lemma array_new_refines [refine_rules]:
  "elementSize \<noteq> 0 \<Longrightarrow> \<exists>a. array_newWithSize elementSize n = Inr a \<and> array_wf a \<and> array_list a = []"
  by (simp add: array_newWithSize_def array_new_def array_resize_def array_wf_def array_list_def)

lemma array_resize_refines [refine_rules]:
  "array_wf a \<Longrightarrow> array_wf (array_resize a n) \<and> array_list (array_resize a n) = take n (array_list a) \<and>
     array_size (array_resize a n) = n \<and> a_length (array_resize a n) = min n (a_length a)"
  using set_take_subset_set_take [of n "a_length a" "a_data a"]
  by (auto simp: array_resize_def array_wf_def array_list_def array_size_def Let_def take_map min_def)

lemma array_shrink_refines [refine_rules]:
  "array_wf a \<Longrightarrow> array_wf (array_shrink a) \<and> array_list (array_shrink a) = array_list a \<and>
     array_size (array_shrink a) = array_length a"
  using array_resize_refines [of a "a_length a"] by (simp add: array_shrink_def array_length_def)

lemma array_item_refines [refine_rules]:
  assumes "array_wf a"
  shows "array_item a i = (if i < array_length a then Inr (array_list a ! i) else Inl Abort)"
proof (cases "i < a_length a")
  case True
  with assms have "a_data a ! i \<in> set (take (a_length a) (a_data a))"
    by (auto simp: array_wf_def in_set_conv_nth intro!: exI [of _ i])
  with assms have "a_data a ! i \<noteq> None" by (metis array_wf_def)
  with True assms show ?thesis
    by (auto simp: array_item_def array_list_def array_length_def array_wf_def)
qed (simp add: array_item_def array_length_def c_assert_def)

lemma array_setItem_refines [refine_rules]:
  assumes "array_wf a" and "i < array_length a"
  shows "\<exists>a'. array_setItem a i x = Inr a' \<and> array_wf a' \<and> array_list a' = (array_list a)[i := x] \<and>
           array_size a' = array_size a"
  using assms
  by (auto simp: array_setItem_def array_wf_def array_list_def array_length_def array_size_def
      take_update_swap map_update set_update_subsetI dest!: subsetD [OF set_update_subset_insert])

lemma array_append_refines [refine_rules]:
  assumes wf: "array_wf a"
  shows "\<exists>a'. array_append a x = Inr a' \<and> array_wf a' \<and> array_list a' = array_list a @ [x] \<and>
           array_size a \<le> array_size a'"
proof -
  let ?n = "grown_size (a_factor a) (array_size a + 1)"
  define b where "b = (if array_size a = a_length a then array_resize a ?n else a)"
  have n: "array_size a + 1 \<le> ?n" using wf by (intro grown_size_ge) (simp add: array_wf_def)
  have b: "array_wf b" "array_list b = array_list a" "a_length b = a_length a" "a_length b < length (a_data b)"
    "array_size a \<le> array_size b"
    using wf array_resize_refines [OF wf, of ?n] n unfolding b_def by (auto simp: array_size_def array_wf_def min_def)
  have "take (Suc (a_length b)) ((a_data b)[a_length b := Some x]) = take (a_length b) (a_data b) @ [Some x]"
    using b(4) by (simp add: take_Suc_conv_app_nth)
  moreover have "array_append a x = array_setItem (b\<lparr>a_length := a_length b + 1\<rparr>) (a_length b) x"
    by (simp add: array_append_def Let_def b_def)
  ultimately show ?thesis
    using b by (auto simp: array_setItem_def array_wf_def array_list_def array_size_def)
qed

lemma memcpy_slots_shift:
  "m + n < length d \<Longrightarrow>
   memcpy_slots d m (Suc m) n = Inr (take m d @ take n (drop (Suc m) d) @ drop (m + n) d)"
proof (induction n arbitrary: d m)
  case 0
  then show ?case by simp
next
  case (Suc n)
  have "take (Suc m) (d[m := d ! Suc m]) = take m d @ [d ! Suc m]"
    using Suc.prems by (simp add: take_Suc_conv_app_nth)
  moreover have "take (Suc n) (drop (Suc m) d) = d ! Suc m # take n (drop (Suc (Suc m)) d)"
    using Suc.prems by (simp add: Cons_nth_drop_Suc [symmetric])
  ultimately show ?case
    using Suc.IH [of "Suc m" "d[m := d ! Suc m]"] Suc.prems by simp
qed

lemma array_removeItem_run:
  assumes wf: "array_wf a" and i: "i < array_length a"
  shows "\<exists>a'. array_removeItem a i = Inr a' \<and> array_wf a' \<and> array_length a' = array_length a \<and>
     array_list a' = take i (array_list a) @ drop (Suc i) (array_list a) @ [last (array_list a)]"
proof -
  let ?d = "a_data a" and ?n = "a_length a - 1 - i"
  let ?d' = "take i ?d @ take ?n (drop (Suc i) ?d) @ drop (i + ?n) ?d"
  have len: "i < a_length a" "a_length a \<le> length ?d" using wf i by (auto simp: array_wf_def array_length_def)
  have run: "array_removeItem a i = Inr (a\<lparr>a_data := ?d'\<rparr>)"
    using memcpy_slots_shift [of i ?n ?d] len by (simp add: array_removeItem_def)
  have eq: "take (a_length a) ?d' = take i (take (a_length a) ?d) @ drop (Suc i) (take (a_length a) ?d) @ [last (take (a_length a) ?d)]"
  proof -
    have "take 1 (drop (a_length a - 1) ?d) = [?d ! (a_length a - 1)]"
      using len by (cases "drop (a_length a - 1) ?d") (auto simp: hd_drop_conv_nth [symmetric])
    moreover have "last (take (a_length a) ?d) = ?d ! (a_length a - 1)"
      using len by (subst last_conv_nth) auto
    moreover have "take i ?d @ take ?n (drop (Suc i) ?d) @ take 1 (drop (a_length a - 1) ?d) = take (a_length a) ?d'"
    proof -
      have "length (take i ?d @ take ?n (drop (Suc i) ?d)) = a_length a - 1" "i + ?n = a_length a - 1"
        using len by auto
      moreover have "a_length a - (a_length a - 1) = 1" using len by simp
      ultimately show ?thesis using len
        by (metis (no_types, opaque_lifting) append_assoc diff_le_self take_append take_all_iff)
    qed
    ultimately show ?thesis using len by (simp add: drop_take min_def del: take_append)
  qed
  have ne: "take (a_length a) ?d \<noteq> []" using len by auto
  have "set (take (a_length a) ?d') \<subseteq> set (take (a_length a) ?d)"
    unfolding eq using set_take_subset [of i "take (a_length a) ?d"] last_in_set [OF ne]
      set_drop_subset [of "Suc i" "take (a_length a) ?d"] by (simp only: set_append list.set) blast
  moreover have "a_length a \<le> length ?d'" using len by simp
  ultimately have "array_wf (a\<lparr>a_data := ?d'\<rparr>)"
    using wf unfolding array_wf_def by (simp del: take_append length_append) blast
  moreover have sel: "a_length (a\<lparr>a_data := ?d'\<rparr>) = a_length a" "a_data (a\<lparr>a_data := ?d'\<rparr>) = ?d'" by simp_all
  moreover have "array_list (a\<lparr>a_data := ?d'\<rparr>) =
      take i (array_list a) @ drop (Suc i) (array_list a) @ [last (array_list a)]"
    by (simp only: array_list_def sel eq map_append take_map drop_map last_map [OF ne] list.map)
  ultimately show ?thesis using run by (simp add: array_length_def)
qed

section \<open>The contract of an indexed sequence\<close>

text \<open>
  What the render queue relies on: an array abstracts to a list, appending extends it, reading
  below the length returns the element and reading beyond it is caught.
\<close>

locale indexed_seq =
  fixes ok :: "'arr \<Rightarrow> bool"
    and elems :: "'arr \<Rightarrow> 'a list"
    and push :: "'arr \<Rightarrow> 'a \<Rightarrow> 'arr res"
    and item :: "'arr \<Rightarrow> nat \<Rightarrow> 'a res"
    and len :: "'arr \<Rightarrow> nat"
    and wipe :: "'arr \<Rightarrow> 'arr"
  assumes push_ok: "ok a \<Longrightarrow> \<exists>a'. push a x = Inr a' \<and> ok a' \<and> elems a' = elems a @ [x]"
    and item_ok: "ok a \<Longrightarrow> item a i = (if i < len a then Inr (elems a ! i) else Inl Abort)"
    and len_ok: "ok a \<Longrightarrow> len a = length (elems a)"
    and wipe_ok: "ok a \<Longrightarrow> ok (wipe a) \<and> elems (wipe a) = []"
begin

text \<open>The linear search \<open>for (i = 0; i < len; ++i) if (x == item(i)) ...\<close> of the clients.\<close>

fun scan :: "'arr \<Rightarrow> 'a \<Rightarrow> nat \<Rightarrow> nat \<Rightarrow> nat option res" where
  "scan a x i 0 = Inr None"
| "scan a x i (Suc n) =
     bind_res (item a i) (\<lambda>y. if x = y then Inr (Some i) else scan a x (Suc i) n)"

fun push_all :: "'arr \<Rightarrow> 'a list \<Rightarrow> 'arr res" where
  "push_all a [] = Inr a"
| "push_all a (x # xs) = bind_res (push a x) (\<lambda>a. push_all a xs)"

lemma push_all_ok: "ok a \<Longrightarrow> \<exists>a'. push_all a xs = Inr a' \<and> ok a' \<and> elems a' = elems a @ xs"
proof (induction xs arbitrary: a)
  case (Cons x xs)
  from push_ok [OF Cons.prems, of x] obtain b where b: "push a x = Inr b" "ok b" "elems b = elems a @ [x]" by blast
  from Cons.IH [OF b(2)] b show ?case by auto
qed simp

lemma push_all_item:
  assumes "ok a"
  shows "\<exists>a'. push_all a xs = Inr a' \<and> len a' = length (elems a) + length xs \<and>
     (\<forall>i. item a' i = (if i < len a' then Inr ((elems a @ xs) ! i) else Inl Abort))"
  using push_all_ok [OF assms, of xs] item_ok len_ok by fastforce

end

interpretation arr: indexed_seq array_wf array_list array_append array_item array_length array_empty
proof unfold_locales
  fix a :: "'a Array" and x :: 'a and i :: nat
  assume wf: "array_wf a"
  show "\<exists>a'. array_append a x = Inr a' \<and> array_wf a' \<and> array_list a' = array_list a @ [x]"
    using array_append_refines [OF wf] by blast
  show "array_item a i = (if i < array_length a then Inr (array_list a ! i) else Inl Abort)"
    by (rule array_item_refines [OF wf])
  show "array_length a = length (array_list a)" using wf by (simp add: array_length_def)
  show "array_wf (array_empty a) \<and> array_list (array_empty a) = []"
    using wf by (simp add: array_empty_def array_wf_def array_list_def)
qed

section \<open>Properties\<close>

fun array_append_all :: "'a Array \<Rightarrow> 'a list \<Rightarrow> 'a Array res" where
  "array_append_all a [] = Inr a"
| "array_append_all a (x # xs) = bind_res (array_append a x) (\<lambda>a. array_append_all a xs)"

lemma array_append_all_push: "array_append_all a xs = arr.push_all a xs"
  by (induction xs arbitrary: a) (auto intro!: arg_cong2 [where f = bind_res])

text \<open>
  appending any sequence of elements to a new array of any initial size never writes outside
  the allocated block, whatever reallocations the growth factor \<open>2.2f\<close> leads to, and
  \<open>array_item\<close> returns the elements in order and asserts beyond the length.
\<close>

theorem array_append_sequence:
  fixes xs :: "'a list"
  shows "\<exists>a a'. array_newWithSize 4 n = Inr a \<and> array_append_all a xs = Inr a' \<and>
     array_length a' = length xs \<and>
     (\<forall>i. array_item a' i = (if i < length xs then Inr (xs ! i) else Inl Abort))"
proof -
  obtain a :: "'a Array" where a: "array_newWithSize 4 n = Inr a" "array_wf a" "array_list a = []"
    using array_new_refines [of 4 n] by auto
  from arr.push_all_item [OF a(2), of xs] a show ?thesis by (auto simp: array_append_all_push)
qed



text \<open>
  \<open>array_removeItem\<close> shifts the following elements down but does not decrement \<open>length\<close>: the
  array keeps its length and its last element appears twice (at the end of the array the call
  changes nothing at all).
\<close>

theorem array_removeItem_keeps_length:
  assumes "array_wf a" and "i < array_length a"
  shows "\<exists>a'. array_removeItem a i = Inr a' \<and> array_length a' = array_length a \<and>
     array_list a' = take i (array_list a) @ drop (Suc i) (array_list a) @ [last (array_list a)]"
  using array_removeItem_run [OF assms] by blast

theorem array_removeItem_keeps_length_witness:
  "\<exists>a'. array_removeItem \<lparr>a_data = [Some 1, Some (2::nat), None], a_length = 2, a_factor = factor_default\<rparr> 0 = Inr a' \<and>
     array_length a' = 2 \<and> array_list a' = [2, 2]"
  using array_removeItem_keeps_length [of "\<lparr>a_data = [Some 1, Some (2::nat), None], a_length = 2, a_factor = factor_default\<rparr>" 0]
  by (auto simp: array_wf_def array_length_def array_list_def)

end
