(* ===== verification/Render_Queue.thy ===== *)
theory Render_Queue
  imports Dyn_Array
begin

text \<open>
  The redraw queue of \<open>RenderManager.c\<close>: the widgets to redraw, each at most once, kept in an
  \<open>Array\<close> of pointers, and the flags that force a layout or a complete redraw.

  The static \<open>renderman\<close> is passed by value. The linear searches go through \<open>array_item\<close> and inherit
  its assertion; their lemmas are those of the array's contract (interpretation \<open>arr\<close>). What
  \<open>renderman_flush\<close> draws is in the theory of the widgets; its clean-up is \<open>renderman_cleanup\<close>.
\<close>

unbundle bit_operations_syntax

record RenderManager =
  rm_queue :: "nat Array"
  rm_flags :: "32 word"

definition RM_NEEDS_RELAYOUT :: "32 word" where "RM_NEEDS_RELAYOUT = 0x01"
definition RM_COMPLETE_REDRAW :: "32 word" where "RM_COMPLETE_REDRAW = 0x02"

text \<open>Pointers have four bytes on the device.\<close>

definition renderman_init :: "RenderManager option \<Rightarrow> RenderManager res" where
  "renderman_init rm =
     (case rm of
        Some r \<Rightarrow> Inr r
      | None \<Rightarrow> bind_res (array_newWithSize 4 10) (\<lambda>q. Inr \<lparr>rm_queue = q, rm_flags = 0\<rparr>))"

text \<open>\<open>for (i = 0; i < len; ++i) if (widget == *array_item(queue, i)) ...\<close>: the index found.\<close>

fun queue_search :: "nat Array \<Rightarrow> nat \<Rightarrow> nat \<Rightarrow> nat \<Rightarrow> nat option res" where
  "queue_search q widget i 0 = Inr None"
| "queue_search q widget i (Suc n) =
     bind_res (array_item q i) (\<lambda>y. if widget = y then Inr (Some i) else queue_search q widget (Suc i) n)"

definition renderman_queue :: "nat \<Rightarrow> RenderManager \<Rightarrow> RenderManager res" where
  "renderman_queue widget rm =
     (if rm_flags rm AND RM_COMPLETE_REDRAW \<noteq> 0 then Inr rm
      else
        bind_res (queue_search (rm_queue rm) widget 0 (array_length (rm_queue rm))) (\<lambda>found.
        case found of
          Some i \<Rightarrow> Inr rm
        | None \<Rightarrow> bind_res (array_append (rm_queue rm) widget) (\<lambda>q. Inr (rm\<lparr>rm_queue := q\<rparr>))))"

definition renderman_dequeue :: "nat \<Rightarrow> RenderManager \<Rightarrow> RenderManager res" where
  "renderman_dequeue widget rm =
     (if rm_flags rm AND RM_COMPLETE_REDRAW \<noteq> 0 then Inr rm
      else
        bind_res (queue_search (rm_queue rm) widget 0 (array_length (rm_queue rm))) (\<lambda>found.
        case found of
          None \<Rightarrow> Inr rm
        | Some i \<Rightarrow> bind_res (array_removeItem (rm_queue rm) i) (\<lambda>q. Inr (rm\<lparr>rm_queue := q\<rparr>))))"

definition renderman_markLayoutChanged :: "RenderManager \<Rightarrow> RenderManager" where
  "renderman_markLayoutChanged rm = rm\<lparr>rm_flags := rm_flags rm OR RM_NEEDS_RELAYOUT\<rparr>"

definition renderman_clearQueue :: "RenderManager \<Rightarrow> RenderManager" where
  "renderman_clearQueue rm = rm\<lparr>rm_flags := rm_flags rm OR RM_COMPLETE_REDRAW\<rparr>"

text \<open>The label \<open>cleanup_flush\<close> of \<open>renderman_flush\<close>.\<close>

definition renderman_cleanup :: "RenderManager \<Rightarrow> RenderManager" where
  "renderman_cleanup rm = rm\<lparr>rm_queue := array_empty (rm_queue rm), rm_flags := 0\<rparr>"

section \<open>Invariant and lemmas\<close>

definition rm_ok :: "RenderManager \<Rightarrow> bool" where
  "rm_ok rm \<longleftrightarrow> array_wf (rm_queue rm)"

abbreviation queued :: "RenderManager \<Rightarrow> nat list" where
  "queued rm \<equiv> array_list (rm_queue rm)"

lemma queue_search_run:
  assumes "array_wf q" and "i + n = array_length q"
  shows "queue_search q w i n =
     Inr (if w \<in> set (drop i (array_list q)) then Some (i + length (takeWhile (\<lambda>x. x \<noteq> w) (drop i (array_list q)))) else None)"
  using assms(2)
proof (induction n arbitrary: i)
  case 0
  then show ?case using assms(1) arr.len_ok [OF assms(1)] by simp
next
  case (Suc n)
  have i: "i < length (array_list q)" using Suc.prems arr.len_ok [OF assms(1)] by simp
  then have d: "drop i (array_list q) = array_list q ! i # drop (Suc i) (array_list q)"
    by (simp add: Cons_nth_drop_Suc)
  show ?case
    using Suc.IH [of "Suc i"] Suc.prems i arr.item_ok [OF assms(1), of i] arr.len_ok [OF assms(1)] by (simp add: d)
qed

lemma queue_search_all:
  assumes "array_wf q"
  shows "queue_search q w 0 (array_length q) =
     Inr (if w \<in> set (array_list q) then Some (length (takeWhile (\<lambda>x. x \<noteq> w) (array_list q))) else None)"
  using queue_search_run [OF assms, of 0 "array_length q" w] by simp

lemma renderman_queue_run:
  assumes "rm_ok rm"
  shows "\<exists>rm'. renderman_queue w rm = Inr rm' \<and> rm_ok rm' \<and> rm_flags rm' = rm_flags rm \<and>
     queued rm' = (if rm_flags rm AND RM_COMPLETE_REDRAW \<noteq> 0 \<or> w \<in> set (queued rm) then queued rm else queued rm @ [w])"
  using arr.push_ok [of "rm_queue rm" w] assms queue_search_all [of "rm_queue rm" w]
  by (auto simp: renderman_queue_def rm_ok_def)

lemma renderman_dequeue_run:
  assumes "rm_ok rm" and "rm_flags rm AND RM_COMPLETE_REDRAW = 0"
  shows "\<exists>rm'. renderman_dequeue w rm = Inr rm' \<and> rm_ok rm' \<and> rm_flags rm' = rm_flags rm \<and>
     queued rm' = (if w \<in> set (queued rm)
       then takeWhile (\<lambda>x. x \<noteq> w) (queued rm) @ tl (dropWhile (\<lambda>x. x \<noteq> w) (queued rm)) @ [last (queued rm)]
       else queued rm)"
proof (cases "w \<in> set (queued rm)")
  case True
  let ?i = "length (takeWhile (\<lambda>x. x \<noteq> w) (queued rm))"
  have wf: "array_wf (rm_queue rm)" using assms(1) by (simp add: rm_ok_def)
  have "takeWhile (\<lambda>x. x \<noteq> w) (queued rm) \<noteq> queued rm" using True by (auto simp: takeWhile_eq_all_conv)
  then have "?i < length (queued rm)"
    by (metis length_takeWhile_le le_neq_implies_less takeWhile_eq_take take_all_iff order_refl)
  then have i: "?i < array_length (rm_queue rm)" using arr.len_ok [OF wf] by simp
  have "take ?i (queued rm) = takeWhile (\<lambda>x. x \<noteq> w) (queued rm)" by (metis takeWhile_eq_take)
  moreover have "drop (Suc ?i) (queued rm) = tl (dropWhile (\<lambda>x. x \<noteq> w) (queued rm))"
    by (simp add: dropWhile_eq_drop drop_Suc tl_drop)
  ultimately show ?thesis
    using array_removeItem_run [OF wf i] True assms(2) queue_search_all [OF wf, of w]
    by (auto simp: renderman_dequeue_def rm_ok_def)
next
  case False
  then show ?thesis using assms queue_search_all [of "rm_queue rm" w] by (simp add: renderman_dequeue_def rm_ok_def)
qed

lemma renderman_cleanup_run: "rm_ok rm \<Longrightarrow> rm_ok (renderman_cleanup rm) \<and> queued (renderman_cleanup rm) = []"
  using arr.wipe_ok [of "rm_queue rm"] by (simp add: renderman_cleanup_def rm_ok_def)

section \<open>Properties\<close>

fun queue_all :: "nat list \<Rightarrow> RenderManager \<Rightarrow> RenderManager res" where
  "queue_all [] rm = Inr rm"
| "queue_all (w # ws) rm = bind_res (renderman_queue w rm) (queue_all ws)"

text \<open>
  any sequence of \<open>renderman_queue\<close> calls succeeds and, unless a complete redraw is pending,
  queues every requested widget exactly once, in the order of the first requests.
\<close>

theorem renderman_queue_once:
  assumes "rm_ok rm" and "rm_flags rm AND RM_COMPLETE_REDRAW = 0" and "distinct (queued rm)"
  shows "\<exists>rm'. queue_all ws rm = Inr rm' \<and> rm_ok rm' \<and> distinct (queued rm') \<and>
     set (queued rm') = set (queued rm) \<union> set ws \<and> take (length (queued rm)) (queued rm') = queued rm"
  using assms
proof (induction ws arbitrary: rm)
  case (Cons w ws)
  from renderman_queue_run [OF Cons.prems(1), of w] obtain r where
    r: "renderman_queue w rm = Inr r" "rm_ok r" "rm_flags r = rm_flags rm"
      "queued r = (if w \<in> set (queued rm) then queued rm else queued rm @ [w])"
    using Cons.prems(2) by auto
  have "distinct (queued r)" using r(4) Cons.prems(3) by simp
  with Cons.IH [of r] r(2,3) Cons.prems(2) obtain r' where
    "queue_all ws r = Inr r'" "rm_ok r'" "distinct (queued r')" "set (queued r') = set (queued r) \<union> set ws"
      "take (length (queued r)) (queued r') = queued r" by auto
  moreover from this(5) have "take (length (queued rm)) (queued r') = queued rm"
    using r(4) by (metis (no_types, lifting) append_eq_conv_conj take_take length_append min.absorb1 le_add1 append_take_drop_id)
  ultimately show ?case using r by auto
qed simp

theorem renderman_queue_once_witness:
  "\<exists>rm'. queue_all [7, 8, 7] \<lparr>rm_queue = \<lparr>a_data = [], a_length = 0, a_factor = factor_default\<rparr>, rm_flags = 0\<rparr> = Inr rm' \<and>
     distinct (queued rm') \<and> set (queued rm') = {7, 8}"
  using renderman_queue_once [of "\<lparr>rm_queue = \<lparr>a_data = [], a_length = 0, a_factor = factor_default\<rparr>, rm_flags = 0\<rparr>" "[7, 8, 7]"]
  by (auto simp: rm_ok_def array_wf_def array_list_def)

text \<open>
  \<open>renderman_dequeue\<close> does not shorten the queue: a widget that was queued last is still
  queued after it was dequeued.
\<close>

theorem renderman_dequeue_last_stays:
  assumes "rm_ok rm" and "rm_flags rm AND RM_COMPLETE_REDRAW = 0" and "queued rm \<noteq> []" and "w = last (queued rm)"
  shows "\<exists>rm'. renderman_dequeue w rm = Inr rm' \<and> w \<in> set (queued rm') \<and> length (queued rm') = length (queued rm)"
proof -
  have w: "w \<in> set (queued rm)" using assms(3,4) by simp
  then have "dropWhile (\<lambda>x. x \<noteq> w) (queued rm) \<noteq> []" by auto
  moreover have "length (takeWhile (\<lambda>x. x \<noteq> w) (queued rm)) + length (dropWhile (\<lambda>x. x \<noteq> w) (queued rm)) = length (queued rm)"
    by (metis length_append takeWhile_dropWhile_id)
  ultimately show ?thesis
    using renderman_dequeue_run [OF assms(1,2), of w] w assms(4) by (auto simp: Suc_diff_1)
qed

theorem renderman_dequeue_last_stays_witness:
  "\<exists>rm'. renderman_dequeue 8 \<lparr>rm_queue = \<lparr>a_data = [Some 7, Some 8], a_length = 2, a_factor = factor_default\<rparr>, rm_flags = 0\<rparr> = Inr rm' \<and>
     8 \<in> set (queued rm')"
  using renderman_dequeue_last_stays [of "\<lparr>rm_queue = \<lparr>a_data = [Some 7, Some 8], a_length = 2, a_factor = factor_default\<rparr>, rm_flags = 0\<rparr>" 8]
  by (auto simp: rm_ok_def array_wf_def array_list_def)

end
