(* ===== verification/Url.thy ===== *)
theory Url
  imports C_Prelude
begin

text \<open>
  Address handling: \<open>url_parse\<close> of \<open>URL.c\<close>, the table lookup of \<open>StaticList.c\<close> and the
  choice of a transport by scheme of \<open>Transport.c\<close>.

  A \<open>const char *\<close> into the parsed string is an index; \<open>strchr\<close> started behind the
  terminating zero (\<open>p1 += 3\<close> may step over it) is \<open>OutOfBounds\<close>. The lemmas give the fields
  \<open>url_parse\<close> extracts from well-formed addresses, the inputs it rejects and the input on
  which it uses a NULL pointer.
\<close>

unbundle bit_operations_syntax

section \<open>The data\<close>

record URL =
  u_scheme :: "string option"
  u_authority :: "string option"
  u_hostname :: "string option"
  u_port :: "string option"
  u_user :: "string option"
  u_password :: "string option"
  u_path :: "string option"
  u_query :: "string option"
  u_fragment :: "string option"
  u_all :: "string option"

definition URL_SCHEME :: "32 word" where "URL_SCHEME = 0x001"
definition URL_AUTHORITY :: "32 word" where "URL_AUTHORITY = 0x002"
definition URL_HOSTNAME :: "32 word" where "URL_HOSTNAME = 0x004"
definition URL_PORT :: "32 word" where "URL_PORT = 0x008"
definition URL_PATH :: "32 word" where "URL_PATH = 0x080"
definition URL_ALL :: "32 word" where "URL_ALL = 0x3FF"

lemmas url_part_defs = URL_SCHEME_def URL_AUTHORITY_def URL_HOSTNAME_def URL_PORT_def URL_PATH_def URL_ALL_def

definition empty_url :: URL where
  "empty_url = \<lparr>u_scheme = None, u_authority = None, u_hostname = None, u_port = None, u_user = None,
     u_password = None, u_path = None, u_query = None, u_fragment = None, u_all = None\<rparr>"

definition strchr_from :: "string \<Rightarrow> nat \<Rightarrow> char \<Rightarrow> nat option res" where
  "strchr_from s p c =
     (if p \<le> length s then Inr (map_option ((+) p) (strchr_index c (drop p s))) else Inl OutOfBounds)"

text \<open>The characters from \<open>p1\<close> up to but excluding \<open>p2\<close>.\<close>

definition substring :: "string \<Rightarrow> nat \<Rightarrow> nat \<Rightarrow> string" where
  "substring s p1 p2 = take (p2 - p1) (drop p1 s)"

section \<open>url\_parse\<close>

text \<open>The part of \<open>url_parse\<close> after label \<open>process_path\<close>; \<open>p2 = None\<close> is the NULL pointer that
  a failed search for the slash behind the port leaves, on which \<open>p_strdup\<close> asserts.\<close>

definition url_parse_path :: "string \<Rightarrow> 32 word \<Rightarrow> URL \<Rightarrow> nat option \<Rightarrow> URL option res" where
  "url_parse_path url parts output p2 =
     (if parts AND URL_PATH \<noteq> 0 then
        (case p2 of
           None \<Rightarrow> Inl Abort
         | Some p1 \<Rightarrow> Inr (Some (output\<lparr>u_path := Some (drop p1 url)\<rparr>)))
      else Inr (Some output))"

text \<open>From \<open>p1 = p2 + 1\<close> behind the colon to label \<open>process_path\<close>.\<close>

definition url_parse_port :: "string \<Rightarrow> 32 word \<Rightarrow> 32 word \<Rightarrow> URL \<Rightarrow> nat \<Rightarrow> URL option res" where
  "url_parse_port url parts done output p1 =
     bind_res (strchr_from url p1 (CHR ''/'')) (\<lambda>p2.
     if parts AND URL_PORT \<noteq> 0 then
       (case p2 of
          None \<Rightarrow> Inl NullDeref
        | Some q \<Rightarrow>
            (let output = output\<lparr>u_port := Some (substring url p1 q)\<rparr>;
                 done = done OR URL_PORT
             in if done = parts then Inr (Some output) else url_parse_path url parts output p2))
     else url_parse_path url parts output p2)"

text \<open>From label \<open>process_hostname\<close>. \<open>url_delete\<close> before \<open>return NULL\<close> frees what was allocated.\<close>

definition url_parse_hostname :: "string \<Rightarrow> 32 word \<Rightarrow> 32 word \<Rightarrow> URL \<Rightarrow> nat \<Rightarrow> URL option res" where
  "url_parse_hostname url parts done output p1 =
     bind_res (strchr_from url p1 (CHR '':'')) (\<lambda>colon.
     bind_res (case colon of Some q \<Rightarrow> Inr colon | None \<Rightarrow> strchr_from url p1 (CHR ''/'')) (\<lambda>p2.
     case p2 of
       None \<Rightarrow> Inr None
     | Some p2 \<Rightarrow>
         (let (output, done) =
            (if parts AND URL_HOSTNAME \<noteq> 0
             then (output\<lparr>u_hostname := Some (substring url p1 p2)\<rparr>, done OR URL_HOSTNAME)
             else (output, done))
          in if parts AND URL_HOSTNAME \<noteq> 0 \<and> done = parts then Inr (Some output)
             else if url ! p2 = CHR ''/'' then url_parse_path url parts output (Some p2)
             else url_parse_port url parts done output (p2 + 1))))"

definition url_parse :: "string option \<Rightarrow> 32 word \<Rightarrow> URL option res" where
  "url_parse url parts =
     (case url of
        None \<Rightarrow> Inr None
      | Some url \<Rightarrow>
          if parts = 0 then Inr None
          else
            bind_res (strchr_from url 0 (CHR '':'')) (\<lambda>p2.
            case p2 of
              None \<Rightarrow> Inr None
            | Some p2 \<Rightarrow>
                (let output = empty_url\<lparr>u_all := Some url\<rparr>;
                     (output, done) =
                       (if parts AND URL_SCHEME \<noteq> 0
                        then (output\<lparr>u_scheme := Some (substring url 0 p2)\<rparr>, URL_SCHEME) else (output, 0))
                 in if parts AND URL_SCHEME \<noteq> 0 \<and> done = parts then Inr (Some output)
                    else
                      bind_res (strchr_from url (p2 + 3) (CHR ''/'')) (\<lambda>slash.
                      case slash of
                        None \<Rightarrow> Inr None
                      | Some slash \<Rightarrow>
                          (let (output, done) =
                             (if parts AND URL_AUTHORITY \<noteq> 0
                              then (output\<lparr>u_authority := Some (substring url (p2 + 3) slash)\<rparr>, done OR URL_AUTHORITY)
                              else (output, done))
                           in if parts AND URL_AUTHORITY \<noteq> 0 \<and> done = parts then Inr (Some output)
                              else url_parse_hostname url parts done output (p2 + 3))))))"

section \<open>Static tables and transports\<close>

text \<open>A table ends at the entry with a NULL key, so it is the list of the entries before it.\<close>

fun staticlist_find :: "(string \<times> 'd) list \<Rightarrow> string option \<Rightarrow> 'd option" where
  "staticlist_find l None = None"
| "staticlist_find [] (Some key) = None"
| "staticlist_find ((k, d) # l) (Some key) = (if k = key then Some d else staticlist_find l (Some key))"

datatype Transport = TCPTransport

definition transports :: "(string \<times> Transport) list" where
  "transports = [(''tcp'', TCPTransport)]"

definition transport_get :: "string option \<Rightarrow> Transport option res" where
  "transport_get transportStr =
     bind_res (c_assert (transportStr \<noteq> None)) (\<lambda>_. Inr (staticlist_find transports transportStr))"

lemma staticlist_find_map_of [simp]: "staticlist_find l (Some key) = map_of l key"
  by (induction l) auto

section \<open>What the parser extracts\<close>

lemma strchr_from_hit:
  "c \<notin> set b \<Longrightarrow> strchr_from (a @ b @ c # d) (length a) c = Inr (Some (length a + length b))"
  by (simp add: strchr_from_def strchr_index_append)

lemma strchr_from_miss: "c \<notin> set b \<Longrightarrow> strchr_from (a @ b) (length a) c = Inr None"
  by (simp add: strchr_from_def)

lemma substring_mid [simp]: "substring (a @ b @ c) (length a) (length a + length b) = b"
  by (simp add: substring_def)

lemma strchr_from_nth: "strchr_from s p c = Inr (Some q) \<Longrightarrow> p \<le> q \<and> q < length s \<and> s ! q = c"
  using strchr_index_Some_nth [of c "drop p s"] by (fastforce simp: strchr_from_def split: if_splits)

lemma strchr_from_outside: "strchr_from s p c = Inl e \<Longrightarrow> e = OutOfBounds \<and> length s < p"
  by (auto simp: strchr_from_def split: if_splits)

text \<open>A successful parse keeps the whole string.\<close>

lemma url_parse_path_all: "url_parse_path str ps v p = Inr (Some u) \<Longrightarrow> u_all u = u_all v"
  by (auto simp: url_parse_path_def split: if_split_asm option.split_asm)

lemma url_parse_port_all: "url_parse_port str ps dn v p = Inr (Some u) \<Longrightarrow> u_all u = u_all v"
  by (auto simp: url_parse_port_def Let_def split: if_split_asm option.split_asm dest!: url_parse_path_all)

lemma url_parse_hostname_all: "url_parse_hostname str ps dn v p = Inr (Some u) \<Longrightarrow> u_all u = u_all v"
  by (auto simp: url_parse_hostname_def Let_def split: if_split_asm option.split_asm dest!: url_parse_path_all url_parse_port_all)

lemma url_parse_all:
  assumes "url_parse (Some str) ps = Inr (Some u)"
  shows "u_all u = Some str"
proof (cases "strchr_from str 0 (CHR '':'')")
  case (Inr p2)
  show ?thesis
  proof (cases p2)
    case (Some q)
    show ?thesis
    proof (cases "strchr_from str (q + 3) (CHR ''/'')")
      case (Inl e)
      then show ?thesis using assms Inr Some \<open>strchr_from str 0 _ = _\<close> by (auto simp: url_parse_def Let_def split: if_split_asm)
    next
      case (Inr r)
      then show ?thesis using assms Some \<open>strchr_from str 0 _ = _\<close>
        by (cases r) (auto simp: url_parse_def Let_def split: if_split_asm dest!: url_parse_hostname_all)
    qed
  qed (use assms Inr in \<open>auto simp: url_parse_def split: if_split_asm\<close>)
qed (use assms in \<open>auto simp: url_parse_def split: if_split_asm\<close>)

text \<open>The head of the address: scheme and authority.\<close>

lemma url_parse_head:
  assumes s: "CHR '':'' \<notin> set sch" and h: "CHR ''/'' \<notin> set auth"
  shows "url_parse (Some (sch @ ''://'' @ auth @ CHR ''/'' # rest)) URL_ALL =
     url_parse_hostname (sch @ ''://'' @ auth @ CHR ''/'' # rest) URL_ALL (URL_SCHEME OR URL_AUTHORITY)
       (empty_url\<lparr>u_all := Some (sch @ ''://'' @ auth @ CHR ''/'' # rest), u_scheme := Some sch,
                  u_authority := Some auth\<rparr>) (length sch + 3)"
proof -
  define u where "u = sch @ ''://'' @ auth @ CHR ''/'' # rest"
  have 1: "strchr_from u 0 (CHR '':'') = Inr (Some (length sch))"
    using strchr_from_hit [OF s, of "[]" "''//'' @ auth @ CHR ''/'' # rest"] by (simp add: u_def)
  have 2: "strchr_from u (length sch + 3) (CHR ''/'') = Inr (Some (length sch + 3 + length auth))"
    using strchr_from_hit [OF h, of "sch @ ''://''" rest] by (simp add: u_def numeral_3_eq_3 add.commute)
  have 3: "substring u 0 (length sch) = sch" using substring_mid [of "[]" sch] by (simp add: u_def)
  have 4: "substring u (length sch + 3) (length sch + 3 + length auth) = auth"
    using substring_mid [of "sch @ ''://''" auth "CHR ''/'' # rest"] by (simp add: u_def numeral_3_eq_3 add.commute)
  show ?thesis unfolding u_def [symmetric]
    by (simp add: url_parse_def 1 2 3 4 Let_def url_part_defs)
qed

text \<open>The rest of the address, with and without a port.\<close>

lemma url_parse_hostname_port:
  assumes "CHR '':'' \<notin> set host" and "CHR ''/'' \<notin> set port" and "hd path = CHR ''/''" and "path \<noteq> []"
    and u: "u = pre @ host @ CHR '':'' # port @ path" and p: "p = length pre"
    and d: "d = URL_SCHEME OR URL_AUTHORITY"
  shows "url_parse_hostname u URL_ALL d out p =
     Inr (Some (out\<lparr>u_hostname := Some host, u_port := Some port, u_path := Some path\<rparr>))"
proof -
  obtain rest where path: "path = CHR ''/'' # rest" using assms(3,4) by (cases path) auto
  have 1: "strchr_from u p (CHR '':'') = Inr (Some (p + length host))"
    using strchr_from_hit [OF assms(1), of pre "port @ path"] by (simp add: u p)
  have 2: "strchr_from u (Suc (p + length host)) (CHR ''/'') = Inr (Some (Suc (p + length host + length port)))"
    using strchr_from_hit [OF assms(2), of "pre @ host @ [CHR '':'']" rest] by (simp add: u p path)
  have 3: "substring u p (p + length host) = host" by (simp add: u p)
  have 4: "substring u (Suc (p + length host)) (Suc (p + length host + length port)) = port"
    using substring_mid [of "pre @ host @ [CHR '':'']" port path] by (simp add: u p)
  have 5: "u ! (p + length host) = CHR '':''" "drop (Suc (p + length host + length port)) u = path"
    by (simp_all add: u p nth_append)
  show ?thesis
    by (simp add: url_parse_hostname_def url_parse_port_def url_parse_path_def 1 2 3 4 5 Let_def d url_part_defs)
qed

lemma url_parse_hostname_noport:
  assumes "CHR ''/'' \<notin> set host" and "CHR '':'' \<notin> set host" and "CHR '':'' \<notin> set rest"
    and u: "u = pre @ host @ CHR ''/'' # rest" and p: "p = length pre"
    and d: "d = URL_SCHEME OR URL_AUTHORITY"
  shows "url_parse_hostname u URL_ALL d out p =
     Inr (Some (out\<lparr>u_hostname := Some host, u_path := Some (CHR ''/'' # rest)\<rparr>))"
proof -
  have 1: "strchr_from u p (CHR '':'') = Inr None"
    using strchr_from_miss [of "CHR '':''" "host @ CHR ''/'' # rest" pre] assms(2,3) by (simp add: u p)
  have 2: "strchr_from u p (CHR ''/'') = Inr (Some (p + length host))"
    using strchr_from_hit [OF assms(1), of pre rest] by (simp add: u p)
  have 3: "substring u p (p + length host) = host" by (simp add: u p)
  have 5: "u ! (p + length host) = CHR ''/''" "drop (p + length host) u = CHR ''/'' # rest"
    by (simp_all add: u p nth_append)
  show ?thesis
    by (simp add: url_parse_hostname_def url_parse_path_def 1 2 3 5 Let_def d url_part_defs)
qed

section \<open>Properties\<close>

text \<open>
  C26: parsing an address printed from its parts returns these parts. With a port, for any
  scheme without colon, host without colon and slash, port without slash and any path starting
  with a slash; without a port, also the path must not contain a colon.
\<close>

theorem url_parse_print:
  assumes "CHR '':'' \<notin> set sch" and "CHR '':'' \<notin> set host" and "CHR ''/'' \<notin> set host"
    and "CHR ''/'' \<notin> set port"
  shows "url_parse (Some (sch @ ''://'' @ host @ '':'' @ port @ ''/'' @ rest)) URL_ALL =
      Inr (Some (empty_url\<lparr>u_all := Some (sch @ ''://'' @ host @ '':'' @ port @ ''/'' @ rest),
        u_scheme := Some sch, u_authority := Some (host @ '':'' @ port), u_hostname := Some host,
        u_port := Some port, u_path := Some (''/'' @ rest)\<rparr>)) \<and>
    (CHR '':'' \<notin> set rest \<longrightarrow>
     url_parse (Some (sch @ ''://'' @ host @ ''/'' @ rest)) URL_ALL =
      Inr (Some (empty_url\<lparr>u_all := Some (sch @ ''://'' @ host @ ''/'' @ rest),
        u_scheme := Some sch, u_authority := Some host, u_hostname := Some host,
        u_path := Some (''/'' @ rest)\<rparr>)))"
proof -
  let ?pre = "sch @ ''://''"
  have auth: "CHR ''/'' \<notin> set (host @ '':'' @ port)" using assms by simp
  note 1 = url_parse_head [OF assms(1) auth, of rest]
  note 2 = url_parse_hostname_port [OF assms(2,4), of "''/'' @ rest" _ ?pre "length sch + 3"]
  note 3 = url_parse_head [OF assms(1,3), of rest]
  note 4 = url_parse_hostname_noport [OF assms(3,2), of rest _ ?pre "length sch + 3"]
  show ?thesis using 1 2 3 4 by simp
qed

theorem url_parse_print_witness:
  "url_parse (Some ''tcp://10.0.2.2:5533/myspace:login'') URL_ALL =
    Inr (Some \<lparr>u_scheme = Some ''tcp'', u_authority = Some ''10.0.2.2:5533'', u_hostname = Some ''10.0.2.2'',
       u_port = Some ''5533'', u_user = None, u_password = None, u_path = Some ''/myspace:login'', u_query = None,
       u_fragment = None, u_all = Some ''tcp://10.0.2.2:5533/myspace:login''\<rparr>)"
  using url_parse_print [of "''tcp''" "''10.0.2.2''" "''5533''" "''myspace:login''"]
  by (simp add: empty_url_def)

text \<open>
  an address without port whose path contains a colon with no slash behind it makes
  \<open>url_parse\<close> compute with a NULL pointer: the colon search of the host name runs into the
  path and the following search for the slash fails unchecked.
\<close>

theorem url_parse_colon_in_path:
  assumes "CHR '':'' \<notin> set sch" and "CHR '':'' \<notin> set host" and "CHR ''/'' \<notin> set host"
    and "CHR '':'' \<notin> set mid" and "CHR ''/'' \<notin> set rest"
  shows "url_parse (Some (sch @ ''://'' @ host @ ''/'' @ mid @ '':'' @ rest)) URL_ALL = Inl NullDeref"
proof -
  define u where "u = sch @ ''://'' @ host @ ''/'' @ mid @ '':'' @ rest"
  let ?h = "host @ ''/'' @ mid" and ?p = "length sch + 3"
  have c: "CHR '':'' \<notin> set ?h" using assms by simp
  have 1: "strchr_from u ?p (CHR '':'') = Inr (Some (?p + length ?h))"
    using strchr_from_hit [OF c, of "sch @ ''://''" rest] by (simp add: u_def numeral_3_eq_3 add.commute)
  have 2: "strchr_from u (Suc (?p + length ?h)) (CHR ''/'') = Inr None"
    using strchr_from_miss [OF assms(5), of "sch @ ''://'' @ ?h @ '':''"]
    by (simp add: u_def numeral_3_eq_3 add.commute)
  have 3: "u ! (?p + length ?h) = CHR '':''"
    using strchr_from_nth [OF 1] by blast
  have "url_parse_hostname u URL_ALL d out ?p = Inl NullDeref" if "d = URL_SCHEME OR URL_AUTHORITY" for d out
    using 1 2 3 by (simp add: url_parse_hostname_def url_parse_port_def Let_def url_part_defs that)
  with url_parse_head [OF assms(1,3), of "mid @ '':'' @ rest"] show ?thesis by (simp add: u_def)
qed

theorem url_parse_colon_in_path_witness:
  "url_parse (Some ''tcp://host/app:x'') URL_ALL = Inl NullDeref"
  using url_parse_colon_in_path [of "''tcp''" "''host''" "''app''" "''x''"] by simp

end
