(* ===== verification/Object_Store.thy ===== *)
theory Object_Store
  imports Key_Map Emo_Field Int_Text Geometry Render_Queue Url
begin

text \<open>
  Data objects and their fields: the first part of \<open>DataObject.c\<close> (fields, keyed values, stamps,
  flags, the global table, copying) and the reference handling of \<open>Widget.c\<close> it uses.

  Objects and fields live on a heap: \<open>objs\<close> and \<open>flds\<close> map addresses to the structs, an access to
  a freed address is \<open>UseAfterFree\<close>. The two maps of an object are association lists with the
  operations \<open>am_find\<close>, \<open>am_append\<close>, \<open>am_remove\<close>, \<open>am_replace\<close> that \<open>Key_Map\<close> shows the code of
  \<open>Map.c\<close> to implement; its lists are lists of addresses. The field union is the datatype
  \<open>dof_val\<close>. A string is either owned by the field, and freed with it, or a pointer into the table of
  built-in type names. Members that \<open>dataobject_new\<close> leaves uninitialised are options; reading one that was never
  written is \<open>Uninit\<close>. Of the rectangle \<open>childBox\<close> only width and height are ever used, and they are written together.

  The loops that follow \<open>widgetData\<close>, \<open>parent\<close> and the array-source indirections carry fuel: each
  step visits another object or field below \<open>next_addr\<close>, so a longer walk is a cycle.
\<close>

unbundle bit_operations_syntax

section \<open>The data\<close>

datatype dof_string = Owned string | Builtin nat

datatype dof_val =
    DOF_STRING dof_string
  | DOF_DATA "8 word list"
  | DOF_INT "32 word"
  | DOF_UINT "32 word"

record DataObjectField =
  f_val :: dof_val
  f_flags :: "32 word"

definition DOFF_ARRAYSOURCE :: "32 word" where "DOFF_ARRAYSOURCE = 0x01"
definition DOFF_DERIVED :: "32 word" where "DOFF_DERIVED = 0x04"
definition DOFF_CHANGED :: "32 word" where "DOFF_CHANGED = 0x08"

datatype DataObjectState = DOS_INIT | DOS_SYNC | DOS_OK | DOS_ERROR

datatype WidgetPacking = WP_HORIZONTAL | WP_VERTICAL | WP_HGRID | WP_VGRID | WP_FIXED

record DataObject =
  d_data :: "(string \<times> addr) list"
  d_enumData :: "(int \<times> addr) list"
  isLocal :: "bool option"
  state :: DataObjectState
  stampMinor :: "32 word option"
  stampMajor :: "32 word option"
  referenced :: "addr list"
  children :: "addr list"
  arrayChildren :: "addr list"
  parent :: "addr option"
  margin :: Rectangle
  box :: Rectangle
  childBox :: "(int \<times> int) option"
  packing :: WidgetPacking
  widgetData :: "addr option"
  flags1 :: "32 word"
  scriptContext :: "nat option"

definition DO_FLAG_DIRTY :: "32 word" where "DO_FLAG_DIRTY = 0x01"
definition DO_FLAG_LAYOUT_DIRTY_WIDTH :: "32 word" where "DO_FLAG_LAYOUT_DIRTY_WIDTH = 0x02"
definition DO_FLAG_LAYOUT_DIRTY_HEIGHT :: "32 word" where "DO_FLAG_LAYOUT_DIRTY_HEIGHT = 0x04"
definition DO_FLAG_RECORD_TYPE :: "32 word" where "DO_FLAG_RECORD_TYPE = 0x08"
definition DO_FLAG_FORCE_SYNC :: "32 word" where "DO_FLAG_FORCE_SYNC = 0x10"
definition DO_FLAG_CHANGED :: "32 word" where "DO_FLAG_CHANGED = 0x20"

text \<open>
  Applications. They are never freed, so a handle stands for the pointer. The URL is set after the application was loaded; parsing it may
  fail.
\<close>

record Application =
  app_dobj :: addr
  app_screen :: "addr option"
  activeDialog :: "string option"
  currentStyle :: "addr option"
  app_flags :: "32 word"
  app_url :: "URL option option"

record ApplicationManager =
  applications :: "nat list"
  am_focus :: "nat option"
  rootApplication :: "nat option"
  bootApp :: "nat option"
  rootApplicationObj :: "addr option"
  rootApplicationWindow :: "addr option"
  rootApplicationPlaceHolder :: "addr option"
  rootApplicationMenuHolder :: "addr option"
  rootApplicationDialogHolder :: "addr option"
  rootTopBar :: "addr option"
  am_style :: "addr option"

record store =
  objs :: "addr \<Rightarrow> DataObject option"
  flds :: "addr \<Rightarrow> DataObjectField option"
  next_addr :: addr
  globalDObjs :: "(string \<times> addr) list option"
  apps :: "nat \<Rightarrow> Application option"
  next_app :: nat
  appManager :: ApplicationManager
  renderman :: RenderManager

definition get_obj :: "store \<Rightarrow> addr \<Rightarrow> DataObject res" where
  "get_obj s a = (case objs s a of None \<Rightarrow> Inl UseAfterFree | Some d \<Rightarrow> Inr d)"

definition put_obj :: "addr \<Rightarrow> DataObject \<Rightarrow> store \<Rightarrow> store" where
  "put_obj a d s = s\<lparr>objs := (objs s)(a \<mapsto> d)\<rparr>"

definition upd_obj :: "(DataObject \<Rightarrow> DataObject) \<Rightarrow> addr \<Rightarrow> store \<Rightarrow> store res" where
  "upd_obj f a s = bind_res (get_obj s a) (\<lambda>d. Inr (put_obj a (f d) s))"

definition get_fld :: "store \<Rightarrow> addr \<Rightarrow> DataObjectField res" where
  "get_fld s a = (case flds s a of None \<Rightarrow> Inl UseAfterFree | Some f \<Rightarrow> Inr f)"

definition put_fld :: "addr \<Rightarrow> DataObjectField \<Rightarrow> store \<Rightarrow> store" where
  "put_fld a f s = s\<lparr>flds := (flds s)(a \<mapsto> f)\<rparr>"

definition upd_fld :: "(DataObjectField \<Rightarrow> DataObjectField) \<Rightarrow> addr \<Rightarrow> store \<Rightarrow> store res" where
  "upd_fld g a s = bind_res (get_fld s a) (\<lambda>f. Inr (put_fld a (g f) s))"

definition new_fld :: "dof_val \<Rightarrow> store \<Rightarrow> addr \<times> store" where
  "new_fld v s = (next_addr s, (put_fld (next_addr s) \<lparr>f_val = v, f_flags = 0\<rparr> s)\<lparr>next_addr := Suc (next_addr s)\<rparr>)"

definition read_init :: "'a option \<Rightarrow> 'a res" where
  "read_init m = (case m of None \<Rightarrow> Inl Uninit | Some x \<Rightarrow> Inr x)"

definition str_of :: "dof_string \<Rightarrow> string" where
  "str_of str = (case str of Owned s \<Rightarrow> s | Builtin p \<Rightarrow> cstr_at p)"

text \<open>\<open>EMO_TYPE_IS_BUILTIN\<close>.\<close>

definition is_builtin :: "dof_string \<Rightarrow> bool" where
  "is_builtin str = (case str of Owned s \<Rightarrow> False | Builtin p \<Rightarrow> p \<le> EMO_TYPE_NAMES_END)"

text \<open>\<open>EMO_DOF_IS_TYPE\<close> dereferences the field without a NULL check and compares the string pointer; a value of
  another kind is no pointer into the name table.\<close>

definition EMO_DOF_IS_TYPE :: "store \<Rightarrow> addr option \<Rightarrow> nat \<Rightarrow> bool res" where
  "EMO_DOF_IS_TYPE s dof t =
     (case dof of
        None \<Rightarrow> Inl NullDeref
      | Some f \<Rightarrow> bind_res (get_fld s f) (\<lambda>fl. Inr (f_val fl = DOF_STRING (Builtin t))))"

section \<open>Fields\<close>

definition dataobjectfield_string :: "string \<Rightarrow> store \<Rightarrow> addr \<times> store" where
  "dataobjectfield_string str s = new_fld (DOF_STRING (Owned str)) s"

definition dataobjectfield_data :: "8 word list \<Rightarrow> store \<Rightarrow> (addr \<times> store) res" where
  "dataobjectfield_data bytes s = bind_res (c_assert (bytes \<noteq> [])) (\<lambda>_. Inr (new_fld (DOF_DATA bytes) s))"

definition dataobjectfield_int :: "32 word \<Rightarrow> store \<Rightarrow> addr \<times> store" where
  "dataobjectfield_int val s = new_fld (DOF_INT val) s"

definition dataobjectfield_uint :: "32 word \<Rightarrow> store \<Rightarrow> addr \<times> store" where
  "dataobjectfield_uint val s = new_fld (DOF_UINT val) s"

text \<open>The owned string or the data block goes with the field.\<close>

definition dataobjectfield_free :: "addr \<Rightarrow> store \<Rightarrow> store res" where
  "dataobjectfield_free f s = bind_res (get_fld s f) (\<lambda>_. Inr (s\<lparr>flds := (flds s)(f := None)\<rparr>))"

definition dataobjectfield_setIsDerived :: "bool \<Rightarrow> addr \<Rightarrow> store \<Rightarrow> store res" where
  "dataobjectfield_setIsDerived isderived =
     upd_fld (\<lambda>f. if isderived then f\<lparr>f_flags := f_flags f OR DOFF_DERIVED\<rparr>
                  else f\<lparr>f_flags := f_flags f AND NOT DOFF_DERIVED\<rparr>)"

definition dataobjectfield_setIsModified :: "bool \<Rightarrow> addr \<Rightarrow> store \<Rightarrow> store res" where
  "dataobjectfield_setIsModified isModified =
     upd_fld (\<lambda>f. if isModified then f\<lparr>f_flags := f_flags f OR DOFF_CHANGED\<rparr>
                  else f\<lparr>f_flags := f_flags f AND NOT DOFF_CHANGED\<rparr>)"

definition dataobjectfield_isTrue :: "store \<Rightarrow> addr option \<Rightarrow> int res" where
  "dataobjectfield_isTrue s field =
     (case field of
        None \<Rightarrow> Inr 0
      | Some f \<Rightarrow> bind_res (get_fld s f) (\<lambda>fl.
          Inr (case f_val fl of
                 DOF_STRING str \<Rightarrow> if str_of str = ''true'' \<or> str_of str = ''1'' then 1 else 0
               | DOF_INT w \<Rightarrow> sint w
               | DOF_UINT w \<Rightarrow> sint w
               | DOF_DATA _ \<Rightarrow> 0)))"

definition dataobjectfield_setBoolean :: "32 word \<Rightarrow> addr \<Rightarrow> store \<Rightarrow> store res" where
  "dataobjectfield_setBoolean bval f s =
     bind_res (get_fld s f) (\<lambda>fl.
     case f_val fl of
       DOF_STRING str \<Rightarrow>
         bind_res (c_assert (\<not> is_builtin str)) (\<lambda>_.
         Inr (put_fld f (fl\<lparr>f_val := DOF_STRING (Owned (if bval \<noteq> 0 then ''1'' else ''0''))\<rparr>) s))
     | DOF_INT _ \<Rightarrow> Inr (put_fld f (fl\<lparr>f_val := DOF_INT bval\<rparr>) s)
     | DOF_UINT _ \<Rightarrow> Inr (put_fld f (fl\<lparr>f_val := DOF_UINT bval\<rparr>) s)
     | DOF_DATA _ \<Rightarrow> Inr s)"

definition dataobjectfield_setString :: "string \<Rightarrow> addr \<Rightarrow> store \<Rightarrow> store res" where
  "dataobjectfield_setString bval = upd_fld (\<lambda>fl. fl\<lparr>f_val := DOF_STRING (Owned bval)\<rparr>)"

definition dataobjectfield_isString :: "store \<Rightarrow> addr option \<Rightarrow> string \<Rightarrow> bool res" where
  "dataobjectfield_isString s field str =
     (case field of
        None \<Rightarrow> Inr False
      | Some f \<Rightarrow> bind_res (get_fld s f) (\<lambda>fl.
          Inr (case f_val fl of DOF_STRING t \<Rightarrow> str_of t = str | _ \<Rightarrow> False)))"

definition dataobjectfield_copy :: "addr \<Rightarrow> store \<Rightarrow> (addr \<times> store) res" where
  "dataobjectfield_copy field s =
     bind_res (get_fld s field) (\<lambda>fl.
     bind_res
       (case f_val fl of
          DOF_INT w \<Rightarrow> Inr (dataobjectfield_int w s)
        | DOF_UINT w \<Rightarrow> Inr (dataobjectfield_uint w s)
        | DOF_DATA bytes \<Rightarrow> dataobjectfield_data bytes s
        | DOF_STRING str \<Rightarrow> Inr (dataobjectfield_string (str_of str) s))
       (\<lambda>(f, s). bind_res (upd_fld (\<lambda>g. g\<lparr>f_flags := f_flags fl\<rparr>) f s) (\<lambda>s. Inr (f, s))))"

section \<open>Objects\<close>

definition new_obj :: DataObject where
  "new_obj = \<lparr>d_data = [], d_enumData = [], isLocal = None, state = DOS_OK, stampMinor = None, stampMajor = None,
     referenced = [], children = [], arrayChildren = [], parent = None, margin = rectangle_zero, box = rectangle_zero,
     childBox = None, packing = WP_VERTICAL, widgetData = None, flags1 = 0, scriptContext = None\<rparr>"

definition dataobject_new :: "store \<Rightarrow> addr \<times> store" where
  "dataobject_new s = (next_addr s, (put_obj (next_addr s) new_obj s)\<lparr>next_addr := Suc (next_addr s)\<rparr>)"

fun widget_getDataObject_loop :: "nat \<Rightarrow> store \<Rightarrow> addr \<Rightarrow> addr res" where
  "widget_getDataObject_loop 0 s w = Inl Diverge"
| "widget_getDataObject_loop (Suc n) s w =
     bind_res (get_obj s w) (\<lambda>d.
     case widgetData d of None \<Rightarrow> Inr w | Some w' \<Rightarrow> widget_getDataObject_loop n s w')"

definition widget_getDataObject :: "store \<Rightarrow> addr \<Rightarrow> addr res" where
  "widget_getDataObject s w = widget_getDataObject_loop (Suc (next_addr s)) s w"

text \<open>\<open>listIterator_remove\<close> at the first occurrence is \<open>remove1\<close>.\<close>

definition widget_setDataObject :: "addr \<Rightarrow> addr option \<Rightarrow> store \<Rightarrow> store res" where
  "widget_setDataObject w dobj s =
     bind_res (get_obj s w) (\<lambda>d.
     bind_res
       (case widgetData d of
          None \<Rightarrow> Inr s
        | Some old \<Rightarrow> upd_obj (\<lambda>o'. o'\<lparr>referenced := remove1 w (referenced o')\<rparr>) old s) (\<lambda>s.
     bind_res (upd_obj (\<lambda>d. d\<lparr>widgetData := dobj\<rparr>) w s) (\<lambda>s.
     case dobj of
       None \<Rightarrow> Inr s
     | Some new \<Rightarrow> upd_obj (\<lambda>o'. o'\<lparr>referenced := referenced o' @ [w]\<rparr>) new s)))"

definition dataobject_setEnum :: "addr \<Rightarrow> int \<Rightarrow> addr \<Rightarrow> store \<Rightarrow> store res" where
  "dataobject_setEnum dobj enu v s =
     bind_res (c_assert (enu \<noteq> -1)) (\<lambda>_.
     bind_res (get_obj s dobj) (\<lambda>d.
     bind_res (c_assert (enu \<noteq> 0)) (\<lambda>_.
     let old = am_find enu (d_enumData d) in
     if old = Some v then Inr s
     else
       bind_res (case old of None \<Rightarrow> Inr s | Some f \<Rightarrow> dataobjectfield_free f s) (\<lambda>s.
       bind_res
         (if enu = EMO_FIELD_TYPE then
            bind_res (get_fld s v) (\<lambda>fl.
            case f_val fl of
              DOF_STRING str \<Rightarrow>
                if is_builtin str then Inr s
                else (case emo_builtin_type (str_of str) of
                        None \<Rightarrow> Inr s
                      | Some p \<Rightarrow> Inr (put_fld v (fl\<lparr>f_val := DOF_STRING (Builtin p)\<rparr>) s))
            | _ \<Rightarrow> Inl TypeConfusion)
          else Inr s) (\<lambda>s.
       upd_obj (\<lambda>d. d\<lparr>d_enumData :=
         (case old of Some _ \<Rightarrow> am_replace enu v (d_enumData d) | None \<Rightarrow> am_append enu v (d_enumData d))\<rparr>) dobj s)))))"

definition dataobject_setValue :: "addr \<Rightarrow> string \<Rightarrow> addr \<Rightarrow> store \<Rightarrow> store res" where
  "dataobject_setValue dobj key v s =
     bind_res (get_obj s dobj) (\<lambda>d.
     let old = am_find key (d_data d) in
     if old = Some v then Inr s
     else
       bind_res
         (case old of
            None \<Rightarrow> Inr s
          | Some f \<Rightarrow>
              bind_res (upd_obj (\<lambda>d. d\<lparr>d_data := am_remove key (d_data d)\<rparr>) dobj s) (dataobjectfield_free f)) (\<lambda>s.
       bind_res
         (case key of
            c # key' \<Rightarrow>
              if c = CHR ''_''
              then bind_res (upd_fld (\<lambda>fl. fl\<lparr>f_flags := f_flags fl OR DOFF_ARRAYSOURCE\<rparr>) v s) (\<lambda>s. Inr (key', s))
              else Inr (key, s)
          | [] \<Rightarrow> Inr (key, s)) (\<lambda>(key, s).
       upd_obj (\<lambda>d. d\<lparr>d_data := am_append key v (d_data d)\<rparr>) dobj s)))"

definition dataobject_unsetValue :: "addr \<Rightarrow> string \<Rightarrow> store \<Rightarrow> store res" where
  "dataobject_unsetValue dobj key s =
     bind_res (get_obj s dobj) (\<lambda>d.
     case am_find key (d_data d) of
       None \<Rightarrow> Inr s
     | Some f \<Rightarrow>
         bind_res (upd_obj (\<lambda>d. d\<lparr>d_data := am_remove key (d_data d)\<rparr>) dobj s) (dataobjectfield_free f))"

text \<open>A string field flagged \<open>DOFF_ARRAYSOURCE\<close> names the field to read in the object the widget shows.\<close>

fun getValue_loop :: "nat \<Rightarrow> store \<Rightarrow> addr \<Rightarrow> string \<Rightarrow> addr option res" where
  "getValue_loop 0 s dobj key = Inl Diverge"
| "getValue_loop (Suc n) s dobj key =
     bind_res (get_obj s dobj) (\<lambda>d.
     case am_find key (d_data d) of
       None \<Rightarrow> Inr None
     | Some f \<Rightarrow>
         bind_res (get_fld s f) (\<lambda>fl.
         case f_val fl of
           DOF_STRING str \<Rightarrow>
             if f_flags fl AND DOFF_ARRAYSOURCE \<noteq> 0
             then bind_res (widget_getDataObject s dobj) (\<lambda>child. getValue_loop n s child (str_of str))
             else Inr (Some f)
         | _ \<Rightarrow> Inr (Some f)))"

definition dataobject_getValue :: "store \<Rightarrow> addr \<Rightarrow> string \<Rightarrow> addr option res" where
  "dataobject_getValue s dobj key = getValue_loop (Suc (Suc (next_addr s))) s dobj key"

definition dataobject_getEnum :: "store \<Rightarrow> addr \<Rightarrow> int \<Rightarrow> addr option res" where
  "dataobject_getEnum s dobj enu =
     bind_res (c_assert (enu \<noteq> -1)) (\<lambda>_.
     bind_res (get_obj s dobj) (\<lambda>d.
     case am_find enu (d_enumData d) of
       None \<Rightarrow> Inr None
     | Some f \<Rightarrow>
         bind_res (get_fld s f) (\<lambda>fl.
         case f_val fl of
           DOF_STRING str \<Rightarrow>
             if f_flags fl AND DOFF_ARRAYSOURCE \<noteq> 0
             then bind_res (widget_getDataObject s dobj) (\<lambda>child. dataobject_getValue s child (str_of str))
             else Inr (Some f)
         | _ \<Rightarrow> Inr (Some f))))"

definition dataobject_getValueReal :: "store \<Rightarrow> addr \<Rightarrow> string \<Rightarrow> addr option res" where
  "dataobject_getValueReal s dobj key =
     bind_res (dataobject_getValue s dobj key) (\<lambda>output.
     case output of
       Some f \<Rightarrow> Inr output
     | None \<Rightarrow>
         (let enumInt = emo_field_to_int (Some key)
          in if enumInt \<noteq> EMO_FIELD_UNKNOWN_FIELD then dataobject_getEnum s dobj enumInt else Inr None))"

text \<open>The colour and number syntax of an integer field.\<close>

definition color_value :: "string \<Rightarrow> 32 word" where
  "color_value digits =
     (if length digits = 6 then push_bit 8 (strtoul16 digits) OR 0xFF
      else if length digits = 3 then
        (let tmpcol = strtoul16 digits
         in push_bit 20 (tmpcol AND 0xF00) OR push_bit 16 (tmpcol AND 0xF00)
            OR (push_bit 16 (tmpcol AND 0x0F0) OR push_bit 12 (tmpcol AND 0x0F0))
            OR (push_bit 12 (tmpcol AND 0x00F) OR (tmpcol AND 0x00F))
            OR 0xFF)
      else strtoul16 digits)"

text \<open>The common part of \<open>getEnumAsInt\<close> and \<open>getValueAsInt\<close>: a string is replaced by its number
  in place and freed, which must not be a built-in name.\<close>

definition field_to_int :: "addr option \<Rightarrow> store \<Rightarrow> (addr option \<times> store) res" where
  "field_to_int output s =
     (case output of
        None \<Rightarrow> Inr (None, s)
      | Some f \<Rightarrow>
          bind_res (get_fld s f) (\<lambda>fl.
          case f_val fl of
            DOF_INT _ \<Rightarrow> Inr (Some f, s)
          | DOF_UINT _ \<Rightarrow> Inr (Some f, s)
          | DOF_DATA _ \<Rightarrow> Inr (None, s)
          | DOF_STRING str \<Rightarrow>
              (let t = str_of str;
                   v = (case t of c # ds \<Rightarrow> if c = CHR ''#'' then color_value ds else word_of_int (atoi t)
                        | [] \<Rightarrow> word_of_int (atoi t));
                   s = put_fld f (fl\<lparr>f_val := DOF_INT v\<rparr>) s
               in case str of Owned _ \<Rightarrow> Inr (Some f, s) | Builtin _ \<Rightarrow> Inl BadFree)))"

definition dataobject_getEnumAsInt :: "addr \<Rightarrow> int \<Rightarrow> store \<Rightarrow> (addr option \<times> store) res" where
  "dataobject_getEnumAsInt dobj enu s =
     bind_res (dataobject_getEnum s dobj enu) (\<lambda>output. field_to_int output s)"

definition dataobject_getValueAsInt :: "addr \<Rightarrow> string \<Rightarrow> store \<Rightarrow> (addr option \<times> store) res" where
  "dataobject_getValueAsInt dobj key s =
     bind_res (dataobject_getValue s dobj key) (\<lambda>output. field_to_int output s)"

section \<open>Record type, state, stamps, flags\<close>

definition dataobject_setRecordType :: "bool \<Rightarrow> addr \<Rightarrow> store \<Rightarrow> store res" where
  "dataobject_setRecordType isRecord =
     upd_obj (\<lambda>d. if isRecord then d\<lparr>flags1 := flags1 d OR DO_FLAG_RECORD_TYPE\<rparr>
                  else d\<lparr>flags1 := flags1 d AND NOT DO_FLAG_RECORD_TYPE\<rparr>)"

definition dataobject_getRecordType :: "store \<Rightarrow> addr \<Rightarrow> 32 word res" where
  "dataobject_getRecordType s dobj = bind_res (get_obj s dobj) (\<lambda>d. Inr (flags1 d AND DO_FLAG_RECORD_TYPE))"

definition dataobject_appendRecord :: "addr \<Rightarrow> addr \<Rightarrow> store \<Rightarrow> store res" where
  "dataobject_appendRecord dobj robj = upd_obj (\<lambda>d. d\<lparr>children := children d @ [robj]\<rparr>) dobj"

definition dataobject_getChildCount :: "store \<Rightarrow> addr \<Rightarrow> nat res" where
  "dataobject_getChildCount s dobj = bind_res (get_obj s dobj) (\<lambda>d. Inr (length (children d)))"

definition dataobject_isLocal :: "store \<Rightarrow> addr \<Rightarrow> bool res" where
  "dataobject_isLocal s dobj = bind_res (get_obj s dobj) (\<lambda>d. read_init (isLocal d))"

definition dataobject_getState :: "store \<Rightarrow> addr \<Rightarrow> DataObjectState res" where
  "dataobject_getState s dobj = bind_res (get_obj s dobj) (\<lambda>d. Inr (state d))"

definition dataobject_setState :: "DataObjectState \<Rightarrow> addr \<Rightarrow> store \<Rightarrow> store res" where
  "dataobject_setState st = upd_obj (\<lambda>d. d\<lparr>state := st\<rparr>)"

definition dataobject_getStamp :: "store \<Rightarrow> addr \<Rightarrow> (32 word \<times> 32 word) res" where
  "dataobject_getStamp s dobj =
     bind_res (get_obj s dobj) (\<lambda>d.
     bind_res (read_init (stampMinor d)) (\<lambda>mi. bind_res (read_init (stampMajor d)) (\<lambda>ma. Inr (mi, ma))))"

definition dataobject_setStamp :: "32 word \<Rightarrow> 32 word \<Rightarrow> addr \<Rightarrow> store \<Rightarrow> store res" where
  "dataobject_setStamp minor major = upd_obj (\<lambda>d. d\<lparr>stampMinor := Some minor, stampMajor := Some major\<rparr>)"

definition dataobject_isDirty :: "store \<Rightarrow> addr \<Rightarrow> 32 word res" where
  "dataobject_isDirty s dobj = bind_res (get_obj s dobj) (\<lambda>d. Inr (flags1 d AND DO_FLAG_DIRTY))"

definition dataobject_setDirty :: "addr \<Rightarrow> store \<Rightarrow> store res" where
  "dataobject_setDirty = upd_obj (\<lambda>d. d\<lparr>flags1 := flags1 d OR DO_FLAG_DIRTY\<rparr>)"

definition dataobject_setClean :: "addr \<Rightarrow> store \<Rightarrow> store res" where
  "dataobject_setClean = upd_obj (\<lambda>d. d\<lparr>flags1 := flags1 d AND NOT DO_FLAG_DIRTY\<rparr>)"

definition dataobject_isLayoutDirty :: "store \<Rightarrow> addr \<Rightarrow> 32 word \<Rightarrow> 32 word res" where
  "dataobject_isLayoutDirty s dobj wh = bind_res (get_obj s dobj) (\<lambda>d. Inr (flags1 d AND wh))"

definition dataobject_setLayoutDirty :: "32 word \<Rightarrow> addr \<Rightarrow> store \<Rightarrow> store res" where
  "dataobject_setLayoutDirty wh = upd_obj (\<lambda>d. d\<lparr>flags1 := flags1 d OR wh\<rparr>)"

definition dataobject_setLayoutClean :: "32 word \<Rightarrow> addr \<Rightarrow> store \<Rightarrow> store res" where
  "dataobject_setLayoutClean wh = upd_obj (\<lambda>d. d\<lparr>flags1 := flags1 d AND NOT wh\<rparr>)"

definition dataobject_forceSyncFlag :: "bool \<Rightarrow> addr \<Rightarrow> store \<Rightarrow> store res" where
  "dataobject_forceSyncFlag isFlag =
     upd_obj (\<lambda>d. if isFlag then d\<lparr>flags1 := flags1 d OR DO_FLAG_FORCE_SYNC\<rparr>
                  else d\<lparr>flags1 := flags1 d AND NOT DO_FLAG_FORCE_SYNC\<rparr>)"

definition dataobject_setScriptContext :: "nat option \<Rightarrow> addr \<Rightarrow> store \<Rightarrow> store res" where
  "dataobject_setScriptContext ctx = upd_obj (\<lambda>d. d\<lparr>scriptContext := ctx\<rparr>)"

definition dataobject_getScriptContext :: "store \<Rightarrow> addr \<Rightarrow> nat option res" where
  "dataobject_getScriptContext s dobj = bind_res (get_obj s dobj) (\<lambda>d. Inr (scriptContext d))"

section \<open>Iteration over fields and children\<close>

text \<open>An iterator is the list of the items it will visit.\<close>

definition dataobject_fieldIterator :: "store \<Rightarrow> addr \<Rightarrow> (string \<times> addr) list res" where
  "dataobject_fieldIterator s dobj = bind_res (get_obj s dobj) (\<lambda>d. Inr (d_data d))"

definition dataobject_childIterator :: "store \<Rightarrow> addr \<Rightarrow> addr list res" where
  "dataobject_childIterator s dobj =
     bind_res (get_obj s dobj) (\<lambda>d.
     case children d of
       [] \<Rightarrow> Inr []
     | item # rest \<Rightarrow>
         bind_res (dataobject_getEnum s item EMO_FIELD_TYPE) (\<lambda>type.
         bind_res (EMO_DOF_IS_TYPE s type EMO_TYPE_ARRAY) (\<lambda>isarr.
         if isarr then bind_res (get_obj s item) (\<lambda>i. Inr (arrayChildren i)) else Inr (children d))))"

definition dataobject_rchildIterator :: "store \<Rightarrow> addr \<Rightarrow> addr list res" where
  "dataobject_rchildIterator s dobj =
     bind_res (get_obj s dobj) (\<lambda>d.
     case rev (children d) of
       [] \<Rightarrow> Inr []
     | item # rest \<Rightarrow>
         bind_res (get_obj s item) (\<lambda>i.
         if arrayChildren i \<noteq> [] then Inr (rev (arrayChildren i)) else Inr (rev (children d))))"

section \<open>The global table of objects\<close>

text \<open>
  The table is an uthash table with string keys; \<open>HASH_ADD_KEYPTR\<close> puts the new entry in front of
  its bucket, so a search finds the entry added last under a key.
\<close>

definition hashtable_append :: "(string \<times> 'v) list \<Rightarrow> string option \<Rightarrow> 'v \<Rightarrow> (string \<times> 'v) list res" where
  "hashtable_append ht key data =
     (case key of None \<Rightarrow> Inl Abort | Some k \<Rightarrow> Inr ((k, data) # ht))"

definition hashtable_find :: "(string \<times> 'v) list \<Rightarrow> string option \<Rightarrow> 'v option res" where
  "hashtable_find ht key = (case key of None \<Rightarrow> Inl Abort | Some k \<Rightarrow> Inr (map_of ht k))"

definition dataobject_platformInit :: "store \<Rightarrow> store" where
  "dataobject_platformInit s = (case globalDObjs s of Some _ \<Rightarrow> s | None \<Rightarrow> s\<lparr>globalDObjs := Some []\<rparr>)"

definition dataobject_locateStr :: "string option \<Rightarrow> store \<Rightarrow> (addr option \<times> store) res" where
  "dataobject_locateStr str s =
     bind_res (c_assert (str \<noteq> None)) (\<lambda>_.
     let s = dataobject_platformInit s in
     case globalDObjs s of
       None \<Rightarrow> Inl Abort
     | Some ht \<Rightarrow> bind_res (hashtable_find ht str) (\<lambda>o'. Inr (o', s)))"

definition dataobject_locate :: "URL \<Rightarrow> store \<Rightarrow> (addr option \<times> store) res" where
  "dataobject_locate url s =
     bind_res (dataobject_locateStr (u_all url) s) (\<lambda>(output, s).
     case output of Some _ \<Rightarrow> Inr (output, s) | None \<Rightarrow> dataobject_locateStr (u_path url) s)"

definition dataobject_exportGlobal :: "addr \<Rightarrow> URL \<Rightarrow> bool \<Rightarrow> store \<Rightarrow> store res" where
  "dataobject_exportGlobal output url loc s =
     bind_res (upd_obj (\<lambda>d. d\<lparr>isLocal := Some loc\<rparr>) output s) (\<lambda>s.
     case globalDObjs s of
       None \<Rightarrow> Inl Abort
     | Some ht \<Rightarrow>
         bind_res (hashtable_append ht (if loc then u_path url else u_all url) output) (\<lambda>ht.
         Inr (s\<lparr>globalDObjs := Some ht\<rparr>)))"

definition dataobject_construct :: "URL \<Rightarrow> bool \<Rightarrow> store \<Rightarrow> (addr \<times> store) res" where
  "dataobject_construct url loc s =
     (let (output, s) = dataobject_new s
      in bind_res (dataobject_exportGlobal output url loc s) (\<lambda>s. Inr (output, s)))"

section \<open>Copying an object\<close>

text \<open>The two loops of \<open>dataobject_copy\<close> over the maps of the source.\<close>

fun copy_fields :: "('k \<Rightarrow> addr \<Rightarrow> store \<Rightarrow> store res) \<Rightarrow> ('k \<times> addr) list \<Rightarrow> store \<Rightarrow> store res" where
  "copy_fields setf [] s = Inr s"
| "copy_fields setf ((key, f) # fs) s =
     bind_res (dataobjectfield_copy f s) (\<lambda>(field, s).
     bind_res (setf key field s) (copy_fields setf fs))"

text \<open>The uninitialised members are copied as they are.\<close>

definition dataobject_copy :: "addr \<Rightarrow> store \<Rightarrow> (addr \<times> store) res" where
  "dataobject_copy dobj s =
     bind_res (get_obj s dobj) (\<lambda>d.
     let (output, s) = dataobject_new s in
     bind_res
       (upd_obj (\<lambda>o'. o'\<lparr>box := box d, flags1 := 0, isLocal := isLocal d, margin := margin d, packing := packing d,
           scriptContext := scriptContext d, stampMajor := stampMajor d, stampMinor := stampMinor d, state := state d,
           widgetData := widgetData d\<rparr>) output s) (\<lambda>s.
     bind_res (copy_fields (dataobject_setValue output) (d_data d) s) (\<lambda>s.
     bind_res (copy_fields (dataobject_setEnum output) (d_enumData d) s) (\<lambda>s.
     Inr (output, s)))))"

definition widget_pack :: "addr \<Rightarrow> addr \<Rightarrow> store \<Rightarrow> store res" where
  "widget_pack w par s =
     bind_res (upd_obj (\<lambda>d. d\<lparr>parent := Some par\<rparr>) w s)
       (upd_obj (\<lambda>d. d\<lparr>children := children d @ [w]\<rparr>) par)"

text \<open>The loop of \<open>dataobject_copyTree\<close> over the children; the recursion is on the depth of the tree.\<close>

fun pack_copies :: "(addr \<Rightarrow> store \<Rightarrow> (addr \<times> store) res) \<Rightarrow> addr list \<Rightarrow> addr \<Rightarrow> store \<Rightarrow> store res" where
  "pack_copies copy [] output s = Inr s"
| "pack_copies copy (c # cs) output s =
     bind_res (copy c s) (\<lambda>(c', s). bind_res (widget_pack c' output s) (pack_copies copy cs output))"

fun copyTree_loop :: "nat \<Rightarrow> addr \<Rightarrow> store \<Rightarrow> (addr \<times> store) res" where
  "copyTree_loop 0 dobj s = Inl Diverge"
| "copyTree_loop (Suc n) dobj s =
     bind_res (get_obj s dobj) (\<lambda>d.
     bind_res (dataobject_copy dobj s) (\<lambda>(output, s).
     bind_res (pack_copies (copyTree_loop n) (children d) output s) (\<lambda>s. Inr (output, s))))"

definition dataobject_copyTree :: "addr \<Rightarrow> store \<Rightarrow> (addr \<times> store) res" where
  "dataobject_copyTree dobj s = copyTree_loop (Suc (next_addr s)) dobj s"

section \<open>Ownership of fields\<close>

definition owned_fields :: "DataObject \<Rightarrow> addr list" where
  "owned_fields d = map snd (d_data d) @ map snd (d_enumData d)"

definition obj_ok :: "DataObject \<Rightarrow> bool" where
  "obj_ok d \<longleftrightarrow> distinct (map fst (d_data d)) \<and> distinct (map fst (d_enumData d)) \<and> distinct (owned_fields d)"

definition owns :: "store \<Rightarrow> addr \<Rightarrow> addr \<Rightarrow> bool" where
  "owns s a f \<longleftrightarrow> (\<exists>d. objs s a = Some d \<and> f \<in> set (owned_fields d))"

text \<open>Every field of an object is allocated and belongs to one entry of one object only.\<close>

definition store_ok :: "store \<Rightarrow> bool" where
  "store_ok s \<longleftrightarrow>
     (\<forall>a d. objs s a = Some d \<longrightarrow> obj_ok d \<and> a < next_addr s) \<and>
     (\<forall>a f. owns s a f \<longrightarrow> flds s f \<noteq> None) \<and>
     (\<forall>a b f. owns s a f \<and> owns s b f \<longrightarrow> a = b) \<and>
     (\<forall>f. flds s f \<noteq> None \<longrightarrow> f < next_addr s)"

definition unowned :: "store \<Rightarrow> addr \<Rightarrow> bool" where
  "unowned s f \<longleftrightarrow> flds s f \<noteq> None \<and> (\<forall>a. \<not> owns s a f)"

lemmas heap_defs = get_obj_def put_obj_def upd_obj_def get_fld_def put_fld_def upd_fld_def

lemma store_ok_update:
  assumes ok: "store_ok s" and a: "objs s a = Some d" and d': "obj_ok d'"
    and o': "objs s' = (objs s)(a \<mapsto> d')" and n: "next_addr s' = next_addr s"
    and own: "\<And>f. f \<in> set (owned_fields d') \<Longrightarrow> flds s' f \<noteq> None"
    and others: "\<And>b f. b \<noteq> a \<Longrightarrow> owns s b f \<Longrightarrow> flds s' f \<noteq> None \<and> f \<notin> set (owned_fields d')"
    and dom: "\<And>f. flds s' f \<noteq> None \<Longrightarrow> flds s f \<noteq> None"
  shows "store_ok s'"
proof -
  have owns': "owns s' b f \<longleftrightarrow> (if b = a then f \<in> set (owned_fields d') else owns s b f)" for b f
    by (auto simp: owns_def o')
  show ?thesis
    unfolding store_ok_def owns'
  proof (intro conjI allI impI)
    fix b e assume "objs s' b = Some e"
    then show "obj_ok e" "b < next_addr s'"
      using ok a d' n by (auto simp: store_ok_def o' split: if_splits)
  next
    fix b f assume "if b = a then f \<in> set (owned_fields d') else owns s b f"
    then show "flds s' f \<noteq> None" using own others by (auto split: if_splits)
  next
    fix b c f assume "(if b = a then f \<in> set (owned_fields d') else owns s b f) \<and>
        (if c = a then f \<in> set (owned_fields d') else owns s c f)"
    then show "b = c" using others ok unfolding store_ok_def by (cases "b = a"; cases "c = a") (simp_all, blast+)
  next
    fix f assume "flds s' f \<noteq> None"
    then show "f < next_addr s'" using dom ok n by (auto simp: store_ok_def)
  qed
qed

lemma am_find_set: "am_find k al = Some v \<Longrightarrow> (k, v) \<in> set al"
  by (simp add: am_find_def map_of_SomeD)

lemma snd_am_append: "snd ` set (am_append k v al) = insert v (snd ` set (am_remove k al))"
  by (auto simp: am_append_def)

lemma distinct_snd_remove: "distinct (map snd al) \<Longrightarrow> distinct (map snd (am_remove k al))"
  by (auto simp: am_remove_def)

lemma snd_am_remove_subset: "snd ` set (am_remove k al) \<subseteq> snd ` set al"
  by (auto simp: am_remove_def)

lemma am_remove_drops_value:
  "distinct (map fst al) \<Longrightarrow> distinct (map snd al) \<Longrightarrow> am_find k al = Some f \<Longrightarrow> f \<notin> snd ` set (am_remove k al)"
  by (induction al) (force simp: am_find_def am_remove_def dest: map_of_SomeD split: if_splits)+

lemma am_replace_values:
  assumes "distinct (map fst al)" and "distinct (map snd al)" and "am_find k al = Some f" and "v \<notin> snd ` set al"
  shows "set (map snd (am_replace k v al)) = insert v (snd ` set al - {f}) \<and> distinct (map snd (am_replace k v al))"
  using assms
proof (induction al)
  case (Cons p al)
  obtain k' v' where p: "p = (k', v')" by fastforce
  show ?case
  proof (cases "k' = k")
    case True
    with Cons.prems show ?thesis by (auto simp: p am_find_def)
  next
    case False
    with Cons.prems have f: "am_find k al = Some f" by (simp add: p am_find_def)
    then have "f \<in> snd ` set al" using am_find_set by force
    with False Cons.IH [OF _ _ f] Cons.prems show ?thesis by (auto simp: p)
  qed
qed (simp add: am_find_def)

subsection \<open>Setting a numbered field\<close>

text \<open>The effect of storing a field under the type number: its name is replaced by the pointer into the
  table of built-in types.\<close>

definition intern_type :: "int \<Rightarrow> DataObjectField \<Rightarrow> DataObjectField" where
  "intern_type enu fl =
     (if enu = EMO_FIELD_TYPE then
        (case f_val fl of
           DOF_STRING str \<Rightarrow>
             if is_builtin str then fl
             else (case emo_builtin_type (str_of str) of None \<Rightarrow> fl | Some p \<Rightarrow> fl\<lparr>f_val := DOF_STRING (Builtin p)\<rparr>)
         | _ \<Rightarrow> fl)
      else fl)"

definition set_entry :: "int \<Rightarrow> addr \<Rightarrow> (int \<times> addr) list \<Rightarrow> (int \<times> addr) list" where
  "set_entry k v al = (case am_find k al of Some _ \<Rightarrow> am_replace k v al | None \<Rightarrow> am_append k v al)"

lemma am_find_set_entry [simp]: "am_find k (set_entry k' v al) = (if k = k' then Some v else am_find k al)"
  by (auto simp: set_entry_def split: option.splits)

lemma setEnum_run:
  assumes a: "objs s a = Some d" and v: "flds s v = Some fl" and e: "enu \<noteq> -1" "enu \<noteq> 0"
    and nv: "am_find enu (d_enumData d) \<noteq> Some v"
    and old: "\<And>f. am_find enu (d_enumData d) = Some f \<Longrightarrow> flds s f \<noteq> None"
    and ty: "enu = EMO_FIELD_TYPE \<Longrightarrow> \<exists>str. f_val fl = DOF_STRING str"
  shows "dataobject_setEnum a enu v s =
     Inr (s\<lparr>flds := (case am_find enu (d_enumData d) of None \<Rightarrow> flds s | Some f \<Rightarrow> (flds s)(f := None))(v \<mapsto> intern_type enu fl),
            objs := (objs s)(a \<mapsto> d\<lparr>d_enumData := set_entry enu v (d_enumData d)\<rparr>)\<rparr>)"
proof -
  define s1 where "s1 = (case am_find enu (d_enumData d) of None \<Rightarrow> s | Some f \<Rightarrow> s\<lparr>flds := (flds s)(f := None)\<rparr>)"
  have s1: "(case am_find enu (d_enumData d) of None \<Rightarrow> Inr s | Some f \<Rightarrow> dataobjectfield_free f s) = Inr s1"
    using old by (auto simp: s1_def dataobjectfield_free_def get_fld_def split: option.splits)
  have v1: "flds s1 v = Some fl" "objs s1 a = Some d"
    using v nv a by (auto simp: s1_def split: option.splits)
  define s2 where "s2 = s1\<lparr>flds := (flds s1)(v \<mapsto> intern_type enu fl)\<rparr>"
  have s2: "(if enu = EMO_FIELD_TYPE then
            bind_res (get_fld s1 v) (\<lambda>fl.
            case f_val fl of
              DOF_STRING str \<Rightarrow>
                if is_builtin str then Inr s1
                else (case emo_builtin_type (str_of str) of
                        None \<Rightarrow> Inr s1
                      | Some p \<Rightarrow> Inr (put_fld v (fl\<lparr>f_val := DOF_STRING (Builtin p)\<rparr>) s1))
            | _ \<Rightarrow> Inl TypeConfusion)
          else Inr s1) = Inr s2"
    using v1 ty by (auto simp: s2_def intern_type_def get_fld_def put_fld_def fun_upd_idem split: option.splits)
  have "dataobject_setEnum a enu v s = upd_obj (\<lambda>d'. d'\<lparr>d_enumData :=
         (case am_find enu (d_enumData d) of Some _ \<Rightarrow> am_replace enu v (d_enumData d') | None \<Rightarrow> am_append enu v (d_enumData d'))\<rparr>) a s2"
    using a e nv by (simp add: dataobject_setEnum_def get_obj_def s1 s2)
  also have "\<dots> = Inr (put_obj a (d\<lparr>d_enumData := set_entry enu v (d_enumData d)\<rparr>) s2)"
    using v1 by (simp add: upd_obj_def get_obj_def s2_def set_entry_def)
  also have "put_obj a (d\<lparr>d_enumData := set_entry enu v (d_enumData d)\<rparr>) s2 =
     s\<lparr>flds := (case am_find enu (d_enumData d) of None \<Rightarrow> flds s | Some f \<Rightarrow> (flds s)(f := None))(v \<mapsto> intern_type enu fl),
            objs := (objs s)(a \<mapsto> d\<lparr>d_enumData := set_entry enu v (d_enumData d)\<rparr>)\<rparr>"
    by (auto simp: put_obj_def s2_def s1_def split: option.splits)
  finally show ?thesis .
qed

lemma store_okD:
  assumes "store_ok s" and "objs s a = Some d"
  shows "obj_ok d" "a < next_addr s" "\<And>f. f \<in> set (owned_fields d) \<Longrightarrow> flds s f \<noteq> None"
    "\<And>b f. f \<in> set (owned_fields d) \<Longrightarrow> owns s b f \<Longrightarrow> b = a"
  using assms unfolding store_ok_def owns_def by blast+

lemma setEnum_ok:
  assumes ok: "store_ok s" and a: "objs s a = Some d" and v: "unowned s v" "flds s v = Some fl" and e: "enu \<noteq> -1" "enu \<noteq> 0"
    and ty: "enu = EMO_FIELD_TYPE \<Longrightarrow> \<exists>str. f_val fl = DOF_STRING str"
  shows "\<exists>s'. dataobject_setEnum a enu v s = Inr s' \<and> store_ok s' \<and>
     objs s' a = Some (d\<lparr>d_enumData := set_entry enu v (d_enumData d)\<rparr>) \<and>
     (\<forall>b. b \<noteq> a \<longrightarrow> objs s' b = objs s b) \<and> flds s' v = Some (intern_type enu fl) \<and>
     (\<forall>f. am_find enu (d_enumData d) = Some f \<longrightarrow> flds s' f = None) \<and> next_addr s' = next_addr s \<and>
     (\<forall>f. f \<noteq> v \<longrightarrow> am_find enu (d_enumData d) \<noteq> Some f \<longrightarrow> flds s' f = flds s f)"
proof -
  note D = store_okD [OF ok a]
  let ?al = "d_enumData d" and ?d' = "d\<lparr>d_enumData := set_entry enu v (d_enumData d)\<rparr>"
  have nv: "v \<notin> set (owned_fields d)" using v(1) a by (auto simp: unowned_def owns_def)
  have al: "distinct (map fst ?al)" "distinct (map snd ?al)" "set (map snd ?al) \<subseteq> set (owned_fields d)"
    "v \<notin> snd ` set ?al" using D(1) nv by (auto simp: obj_ok_def owned_fields_def)
  have old: "f \<in> set (owned_fields d)" if "am_find enu ?al = Some f" for f
    using am_find_set [OF that] by (force simp: owned_fields_def)
  then have nvo: "am_find enu ?al \<noteq> Some v" using nv by blast
  let ?fl = "case am_find enu ?al of None \<Rightarrow> flds s | Some f \<Rightarrow> (flds s)(f := None)"
  let ?s = "s\<lparr>flds := ?fl(v \<mapsto> intern_type enu fl), objs := (objs s)(a \<mapsto> ?d')\<rparr>"
  have run: "dataobject_setEnum a enu v s = Inr ?s"
    using old D(3) ty by (intro setEnum_run [OF a v(2) e nvo]) auto
  have vals: "set (map snd (set_entry enu v ?al)) = insert v (snd ` set ?al - {f. am_find enu ?al = Some f}) \<and>
      distinct (map snd (set_entry enu v ?al)) \<and> distinct (map fst (set_entry enu v ?al))"
  proof (cases "am_find enu ?al")
    case None
    then have "am_remove enu ?al = ?al" by (intro am_remove_id) (simp add: am_find_None_iff)
    moreover from None have "enu \<notin> fst ` set ?al" by (simp add: am_find_None_iff)
    ultimately show ?thesis using al by (simp add: set_entry_def None am_append_def image_image)
  next
    case (Some f)
    show ?thesis using am_replace_values [OF al(1,2) Some al(4)] al(1) Some by (auto simp: set_entry_def)
  qed
  have own': "set (owned_fields ?d') = insert v (set (owned_fields d) - {f. am_find enu ?al = Some f})"
  proof -
    have "snd ` set (d_data d) \<inter> snd ` set ?al = {}" using D(1) by (auto simp: obj_ok_def owned_fields_def)
    moreover have "{f. am_find enu ?al = Some f} \<subseteq> snd ` set ?al" using am_find_set by force
    ultimately show ?thesis using vals by (auto simp: owned_fields_def)
  qed
  have "obj_ok ?d'"
    using D(1) vals nv by (auto simp: obj_ok_def owned_fields_def)
  moreover have "flds ?s f \<noteq> None" if "f \<in> set (owned_fields ?d')" for f
    using that D(3) own' by (auto split: option.splits)
  moreover have "flds ?s f \<noteq> None \<and> f \<notin> set (owned_fields ?d')" if b: "b \<noteq> a" "owns s b f" for b f
  proof -
    have "f \<notin> set (owned_fields d)" using D(4) b by blast
    moreover have "f \<noteq> v" using v(1) b by (auto simp: unowned_def)
    moreover have "flds s f \<noteq> None" using ok b by (auto simp: store_ok_def)
    ultimately show ?thesis using old unfolding own' by (auto split: option.splits)
  qed
  moreover have "flds s f \<noteq> None" if "flds ?s f \<noteq> None" for f
    using that v(2) by (auto split: if_splits option.splits)
  ultimately have "store_ok ?s"
    by (intro store_ok_update [OF ok a, of ?d']) auto
  with run nvo show ?thesis by (auto split: option.splits)
qed

subsection \<open>Setting a named value\<close>

lemma am_append_remove: "am_append k v (am_remove k al) = am_append k v al"
  by (simp add: am_append_def am_remove_def)

lemma setValue_run:
  assumes a: "objs s a = Some d" and v: "flds s v = Some fl" and nv: "am_find key (d_data d) \<noteq> Some v"
    and old: "\<And>f. am_find key (d_data d) = Some f \<Longrightarrow> flds s f \<noteq> None"
    and k: "key = [] \<or> hd key \<noteq> CHR ''_''"
  shows "dataobject_setValue a key v s =
     Inr (s\<lparr>flds := (case am_find key (d_data d) of None \<Rightarrow> flds s | Some f \<Rightarrow> (flds s)(f := None)),
            objs := (objs s)(a \<mapsto> d\<lparr>d_data := am_append key v (d_data d)\<rparr>)\<rparr>)"
proof (cases "am_find key (d_data d)")
  case None
  then show ?thesis using a k by (cases key) (auto simp: dataobject_setValue_def heap_defs)
next
  case (Some f)
  with old obtain g where g: "flds s f = Some g" by blast
  show ?thesis using a k Some nv g
    by (cases key) (auto simp: dataobject_setValue_def heap_defs dataobjectfield_free_def am_append_remove)
qed

lemma setValue_ok:
  assumes ok: "store_ok s" and a: "objs s a = Some d" and v: "unowned s v" "flds s v = Some fl"
    and k: "key = [] \<or> hd key \<noteq> CHR ''_''"
  shows "\<exists>s'. dataobject_setValue a key v s = Inr s' \<and> store_ok s' \<and>
     objs s' a = Some (d\<lparr>d_data := am_append key v (d_data d)\<rparr>) \<and>
     (\<forall>b. b \<noteq> a \<longrightarrow> objs s' b = objs s b) \<and> flds s' v = Some fl \<and>
     (\<forall>f. am_find key (d_data d) = Some f \<longrightarrow> flds s' f = None) \<and> next_addr s' = next_addr s \<and>
     (\<forall>f. f \<noteq> v \<longrightarrow> am_find key (d_data d) \<noteq> Some f \<longrightarrow> flds s' f = flds s f)"
proof -
  note D = store_okD [OF ok a]
  let ?al = "d_data d" and ?d' = "d\<lparr>d_data := am_append key v (d_data d)\<rparr>"
  have nv: "v \<notin> set (owned_fields d)" using v(1) a by (auto simp: unowned_def owns_def)
  have al: "distinct (map fst ?al)" "distinct (map snd ?al)" "set (map snd ?al) \<subseteq> set (owned_fields d)"
    "v \<notin> snd ` set ?al" using D(1) nv by (auto simp: obj_ok_def owned_fields_def)
  have old: "f \<in> set (owned_fields d)" if "am_find key ?al = Some f" for f
    using am_find_set [OF that] by (force simp: owned_fields_def)
  then have nvo: "am_find key ?al \<noteq> Some v" using nv by blast
  let ?fl = "case am_find key ?al of None \<Rightarrow> flds s | Some f \<Rightarrow> (flds s)(f := None)"
  let ?s = "s\<lparr>flds := ?fl, objs := (objs s)(a \<mapsto> ?d')\<rparr>"
  have run: "dataobject_setValue a key v s = Inr ?s"
    using old D(3) by (intro setValue_run [OF a v(2) nvo _ k]) auto
  have gone: "f \<notin> snd ` set (am_remove key ?al)" if "am_find key ?al = Some f" for f
    by (rule am_remove_drops_value [OF al(1,2) that])
  have disj: "snd ` set ?al \<inter> snd ` set (d_enumData d) = {}" using D(1) by (auto simp: obj_ok_def owned_fields_def)
  have own': "set (owned_fields ?d') \<subseteq> insert v (set (owned_fields d) - {f. am_find key ?al = Some f})"
  proof -
    have "snd ` set (am_remove key ?al) \<subseteq> snd ` set ?al - {f. am_find key ?al = Some f}"
      using gone snd_am_remove_subset [of key ?al] by blast
    moreover have "{f. am_find key ?al = Some f} \<subseteq> snd ` set ?al" using am_find_set by force
    ultimately show ?thesis using disj by (auto simp: owned_fields_def snd_am_append)
  qed
  have "obj_ok ?d'"
  proof -
    have "distinct (map snd (am_append key v ?al))"
      using al(4) snd_am_remove_subset [of key ?al] distinct_snd_remove [OF al(2)] by (auto simp: am_append_def)
    moreover have "snd ` set (am_append key v ?al) \<inter> snd ` set (d_enumData d) = {}"
    proof -
      have "v \<notin> snd ` set (d_enumData d)" using nv by (auto simp: owned_fields_def)
      with disj snd_am_remove_subset [of key ?al] show ?thesis unfolding snd_am_append by blast
    qed
    ultimately show ?thesis using D(1) by (auto simp: obj_ok_def owned_fields_def)
  qed
  moreover have "flds ?s f \<noteq> None" if "f \<in> set (owned_fields ?d')" for f
    using that D(3) own' v(2) nvo by (fastforce split: option.splits)
  moreover have "flds ?s f \<noteq> None \<and> f \<notin> set (owned_fields ?d')" if b: "b \<noteq> a" "owns s b f" for b f
  proof -
    have "f \<notin> set (owned_fields d)" using D(4) b by blast
    moreover have "f \<noteq> v" using v(1) b by (auto simp: unowned_def)
    moreover have "flds s f \<noteq> None" using ok b by (auto simp: store_ok_def)
    ultimately show ?thesis using old own' by (auto split: option.splits)
  qed
  moreover have "flds s f \<noteq> None" if "flds ?s f \<noteq> None" for f
    using that by (auto split: if_splits option.splits)
  ultimately have "store_ok ?s"
    by (intro store_ok_update [OF ok a, of ?d']) auto
  with run nvo v(2) show ?thesis by (auto split: option.splits)
qed

text \<open>A field that is no array source is read back as stored.\<close>

lemma getEnum_plain:
  assumes "objs s a = Some d" and "enu \<noteq> -1" and "am_find enu (d_enumData d) = Some f" and "flds s f = Some fl"
    and "f_flags fl AND DOFF_ARRAYSOURCE = 0"
  shows "dataobject_getEnum s a enu = Inr (Some f)"
  using assms by (auto simp: dataobject_getEnum_def heap_defs split: dof_val.splits)

lemma getValue_plain:
  assumes "objs s a = Some d" and "am_find key (d_data d) = Some f" and "flds s f = Some fl"
    and "f_flags fl AND DOFF_ARRAYSOURCE = 0"
  shows "dataobject_getValue s a key = Inr (Some f)"
  using assms by (auto simp: dataobject_getValue_def heap_defs split: dof_val.splits)

lemma intern_type_flags [simp]: "f_flags (intern_type enu fl) = f_flags fl"
  by (auto simp: intern_type_def split: dof_val.splits option.splits)

section \<open>Properties\<close>

text \<open>A store with one object that has one named and one numbered field, and a spare field.\<close>

definition demo_store :: store where
  "demo_store = \<lparr>
     objs = [0 \<mapsto> new_obj\<lparr>d_data := [(''title'', 1)], d_enumData := [(EMO_FIELD_NAME, 2)]\<rparr>],
     flds = [1 \<mapsto> \<lparr>f_val = DOF_STRING (Owned ''Inbox''), f_flags = 0\<rparr>,
             2 \<mapsto> \<lparr>f_val = DOF_STRING (Owned ''main''), f_flags = 0\<rparr>,
             3 \<mapsto> \<lparr>f_val = DOF_STRING (Owned ''array''), f_flags = 0\<rparr>],
     next_addr = 4, globalDObjs = None, apps = (\<lambda>_. None), next_app = 0,
     appManager = \<lparr>applications = [], am_focus = None, rootApplication = None, bootApp = None, rootApplicationObj = None,
       rootApplicationWindow = None, rootApplicationPlaceHolder = None, rootApplicationMenuHolder = None,
       rootApplicationDialogHolder = None, rootTopBar = None, am_style = None\<rparr>,
     renderman = \<lparr>rm_queue = \<lparr>a_data = [], a_length = 0, a_factor = factor_default\<rparr>, rm_flags = 0\<rparr>\<rparr>"

lemma demo_store_ok: "store_ok demo_store" "unowned demo_store 3"
    "objs demo_store 0 = Some (new_obj\<lparr>d_data := [(''title'', 1)], d_enumData := [(EMO_FIELD_NAME, 2)]\<rparr>)"
    "flds demo_store 3 = Some \<lparr>f_val = DOF_STRING (Owned ''array''), f_flags = 0\<rparr>"
proof -
  have o0: "objs demo_store a = Some d \<longleftrightarrow> a = 0 \<and> d = new_obj\<lparr>d_data := [(''title'', 1)], d_enumData := [(EMO_FIELD_NAME, 2)]\<rparr>" for a d
    by (auto simp: demo_store_def)
  have own: "owns demo_store a f \<longleftrightarrow> a = 0 \<and> (f = 1 \<or> f = 2)" for a f
    unfolding owns_def o0 by (auto simp: owned_fields_def)
  have ok: "obj_ok (new_obj\<lparr>d_data := [(''title'', 1)], d_enumData := [(EMO_FIELD_NAME, 2)]\<rparr>)"
    by (simp add: obj_ok_def owned_fields_def)
  show "store_ok demo_store" unfolding store_ok_def own o0 using ok by (auto simp: demo_store_def)
  show "unowned demo_store 3" unfolding unowned_def own by (simp add: demo_store_def)
qed (simp_all add: demo_store_def)

text \<open>
  C1: storing an unused field under a field number of an object of a well-formed store succeeds,
  keeps the ownership invariant, frees the field it replaces and no other, makes exactly this number
  return the new field, and leaves all other objects alone.
\<close>

theorem dataobject_setEnum_getEnum:
  assumes "store_ok s" and "objs s a = Some d" and "unowned s v" and "flds s v = Some fl" and "enu \<noteq> -1" and "enu \<noteq> 0"
    and "enu = EMO_FIELD_TYPE \<longrightarrow> (\<exists>str. f_val fl = DOF_STRING str)" and "f_flags fl AND DOFF_ARRAYSOURCE = 0"
  shows "\<exists>s' d'. dataobject_setEnum a enu v s = Inr s' \<and> store_ok s' \<and> objs s' a = Some d' \<and>
     dataobject_getEnum s' a enu = Inr (Some v) \<and>
     (\<forall>k. k \<noteq> enu \<longrightarrow> am_find k (d_enumData d') = am_find k (d_enumData d)) \<and> d_data d' = d_data d \<and>
     (\<forall>f. am_find enu (d_enumData d) = Some f \<longrightarrow> flds s' f = None) \<and>
     (\<forall>f. f \<noteq> v \<longrightarrow> am_find enu (d_enumData d) \<noteq> Some f \<longrightarrow> flds s' f = flds s f) \<and>
     (\<forall>b. b \<noteq> a \<longrightarrow> objs s' b = objs s b)"
proof -
  from setEnum_ok [OF assms(1-6)] assms(7) obtain s' where s': "dataobject_setEnum a enu v s = Inr s'" "store_ok s'"
      "objs s' a = Some (d\<lparr>d_enumData := set_entry enu v (d_enumData d)\<rparr>)" "\<forall>b. b \<noteq> a \<longrightarrow> objs s' b = objs s b"
      "flds s' v = Some (intern_type enu fl)" "\<forall>f. am_find enu (d_enumData d) = Some f \<longrightarrow> flds s' f = None"
      "\<forall>f. f \<noteq> v \<longrightarrow> am_find enu (d_enumData d) \<noteq> Some f \<longrightarrow> flds s' f = flds s f"
    by blast
  have "dataobject_getEnum s' a enu = Inr (Some v)"
    by (rule getEnum_plain [OF s'(3) assms(5) _ s'(5)]) (use assms(8) in simp_all)
  with s' show ?thesis by auto
qed

theorem dataobject_setEnum_getEnum_witness:
  "\<exists>s'. dataobject_setEnum 0 EMO_FIELD_TYPE 3 demo_store = Inr s' \<and> store_ok s' \<and>
     dataobject_getEnum s' 0 EMO_FIELD_TYPE = Inr (Some 3)"
  using dataobject_setEnum_getEnum [OF demo_store_ok(1,3,2,4), of EMO_FIELD_TYPE]
  by (auto simp: EMO_FIELD_TYPE_def)

text \<open>
  after the type of an object is set to one of the built-in type names, the pointer comparison of
  \<open>EMO_DOF_IS_TYPE\<close> answers whether the name is the one of the type asked for.
\<close>

theorem setEnum_type_test:
  assumes "store_ok s" and "objs s a = Some d" and "unowned s v"
    and "flds s v = Some \<lparr>f_val = DOF_STRING (Owned name), f_flags = 0\<rparr>" and "emo_builtin_type name = Some p"
  shows "\<exists>s'. dataobject_setEnum a EMO_FIELD_TYPE v s = Inr s' \<and>
     dataobject_getEnum s' a EMO_FIELD_TYPE = Inr (Some v) \<and>
     (\<forall>t other. emo_builtin_type other = Some t \<longrightarrow> EMO_DOF_IS_TYPE s' (Some v) t = Inr (name = other))"
proof -
  have e: "EMO_FIELD_TYPE \<noteq> -1" "EMO_FIELD_TYPE \<noteq> 0" by (simp_all add: EMO_FIELD_TYPE_def)
  from setEnum_ok [OF assms(1-4) e] obtain s' where s': "dataobject_setEnum a EMO_FIELD_TYPE v s = Inr s'"
      "objs s' a = Some (d\<lparr>d_enumData := set_entry EMO_FIELD_TYPE v (d_enumData d)\<rparr>)"
      "flds s' v = Some (intern_type EMO_FIELD_TYPE \<lparr>f_val = DOF_STRING (Owned name), f_flags = 0\<rparr>)" by auto
  have fl: "flds s' v = Some \<lparr>f_val = DOF_STRING (Builtin p), f_flags = 0\<rparr>"
    using s'(3) assms(5) by (simp add: intern_type_def is_builtin_def str_of_def)
  have "dataobject_getEnum s' a EMO_FIELD_TYPE = Inr (Some v)"
    by (rule getEnum_plain [OF s'(2) e(1) _ fl]) simp_all
  moreover have "EMO_DOF_IS_TYPE s' (Some v) t = Inr (name = other)" if "emo_builtin_type other = Some t" for t other
  proof -
    have "(p = t) = (name = other)" using that assms(5) emo_builtin_type_cstr by (metis option.inject)
    then show ?thesis using fl by (simp add: EMO_DOF_IS_TYPE_def get_fld_def)
  qed
  ultimately show ?thesis using s'(1) by blast
qed

theorem setEnum_type_test_witness:
  "\<exists>s'. dataobject_setEnum 0 EMO_FIELD_TYPE 3 demo_store = Inr s' \<and> EMO_DOF_IS_TYPE s' (Some 3) EMO_TYPE_ARRAY = Inr True"
proof -
  have b: "emo_builtin_type ''array'' = Some EMO_TYPE_ARRAY"
    by (simp add: emo_builtin_type_offset builtin_names_def emo_type_defs)
  from setEnum_type_test [OF demo_store_ok(1,3,2,4) b] obtain s' where
    "dataobject_setEnum 0 EMO_FIELD_TYPE 3 demo_store = Inr s'"
    "\<forall>t other. emo_builtin_type other = Some t \<longrightarrow> EMO_DOF_IS_TYPE s' (Some 3) t = Inr (''array'' = other)" by blast
  with b have "EMO_DOF_IS_TYPE s' (Some 3) EMO_TYPE_ARRAY = Inr True" by simp
  with \<open>dataobject_setEnum 0 EMO_FIELD_TYPE 3 demo_store = Inr s'\<close> show ?thesis by blast
qed

text \<open>
  storing an unused field under a name that does not start with an underscore succeeds, keeps the
  ownership invariant, frees the replaced field, makes exactly this name return the new field, and
  \<open>dataobject_unsetValue\<close> then frees it and removes the name.
\<close>

theorem dataobject_setValue_getValue:
  assumes "store_ok s" and "objs s a = Some d" and "unowned s v" and "flds s v = Some fl"
    and "key = [] \<or> hd key \<noteq> CHR ''_''" and "f_flags fl AND DOFF_ARRAYSOURCE = 0"
  shows "\<exists>s' d' s''. dataobject_setValue a key v s = Inr s' \<and> store_ok s' \<and> objs s' a = Some d' \<and>
     dataobject_getValue s' a key = Inr (Some v) \<and>
     (\<forall>k. k \<noteq> key \<longrightarrow> am_find k (d_data d') = am_find k (d_data d)) \<and>
     (\<forall>f. am_find key (d_data d) = Some f \<longrightarrow> flds s' f = None) \<and>
     dataobject_unsetValue a key s' = Inr s'' \<and> dataobject_getValue s'' a key = Inr None \<and> flds s'' v = None"
proof -
  from setValue_ok [OF assms(1-5)] obtain s' where s': "dataobject_setValue a key v s = Inr s'" "store_ok s'"
      "objs s' a = Some (d\<lparr>d_data := am_append key v (d_data d)\<rparr>)" "flds s' v = Some fl"
      "\<forall>f. am_find key (d_data d) = Some f \<longrightarrow> flds s' f = None" by blast
  have "dataobject_getValue s' a key = Inr (Some v)"
    by (rule getValue_plain [OF s'(3) _ s'(4) assms(6)]) simp
  moreover have "\<exists>s''. dataobject_unsetValue a key s' = Inr s'' \<and> dataobject_getValue s'' a key = Inr None \<and> flds s'' v = None"
    using s'(3,4) by (simp add: dataobject_unsetValue_def heap_defs dataobjectfield_free_def dataobject_getValue_def)
  ultimately show ?thesis using s' by auto
qed

theorem dataobject_setValue_getValue_witness:
  "\<exists>s'. dataobject_setValue 0 ''title'' 3 demo_store = Inr s' \<and> dataobject_getValue s' 0 ''title'' = Inr (Some 3) \<and>
     flds s' 1 = None"
proof -
  have "am_find ''title'' (d_data (new_obj\<lparr>d_data := [(''title'', 1)], d_enumData := [(EMO_FIELD_NAME, 2)]\<rparr>)) = Some 1"
    by (simp add: am_find_def)
  with dataobject_setValue_getValue [OF demo_store_ok(1,3,2,4), of "''title''"] show ?thesis by fastforce
qed

text \<open>
  \<open>dataobject_setValue\<close> looks the old field up under the name with the underscore and stores under
  the name without it: setting \<open>_k\<close> on an object that has a field \<open>k\<close> leaves the old field allocated
  although no object owns it any more.
\<close>

theorem setValue_underscore_leaks:
  assumes "store_ok s" and "objs s a = Some d" and "unowned s v" and "flds s v = Some fl"
    and "am_find (CHR ''_'' # k) (d_data d) = None" and "am_find k (d_data d) = Some f"
  shows "\<exists>s'. dataobject_setValue a (CHR ''_'' # k) v s = Inr s' \<and> unowned s' f"
proof -
  note D = store_okD [OF assms(1,2)]
  let ?d = "d\<lparr>d_data := am_append k v (d_data d)\<rparr>"
  let ?s = "s\<lparr>flds := (flds s)(v \<mapsto> fl\<lparr>f_flags := f_flags fl OR DOFF_ARRAYSOURCE\<rparr>), objs := (objs s)(a \<mapsto> ?d)\<rparr>"
  have run: "dataobject_setValue a (CHR ''_'' # k) v s = Inr ?s"
    using assms by (simp add: dataobject_setValue_def heap_defs)
  have f: "f \<in> snd ` set (d_data d)" using am_find_set [OF assms(6)] by force
  then have own: "f \<in> set (owned_fields d)" by (auto simp: owned_fields_def)
  have vf: "v \<noteq> f" using assms(2,3) own by (auto simp: unowned_def owns_def)
  have "f \<notin> snd ` set (am_append k v (d_data d))"
    using am_remove_drops_value [OF _ _ assms(6)] D(1) vf by (auto simp: snd_am_append obj_ok_def owned_fields_def)
  moreover have "f \<notin> snd ` set (d_enumData d)" using D(1) f by (auto simp: obj_ok_def owned_fields_def)
  ultimately have "f \<notin> set (owned_fields ?d)" by (auto simp: owned_fields_def)
  moreover have "\<not> owns s b f" if "b \<noteq> a" for b using D(4) [OF own] that by blast
  ultimately have "\<not> owns ?s b f" for b by (auto simp: owns_def split: if_splits)
  moreover have "flds ?s f \<noteq> None" using D(3) [OF own] by simp
  ultimately show ?thesis using run by (auto simp: unowned_def)
qed

theorem setValue_underscore_leaks_witness:
  "\<exists>s'. dataobject_setValue 0 ''_title'' 3 demo_store = Inr s' \<and> unowned s' 1"
  using setValue_underscore_leaks [OF demo_store_ok(1,3,2,4), of "''title''" 1]
  by (simp add: am_find_def)

lemma read_digits_bound:
  assumes "\<forall>c \<in> set ds. digit_value c < 16"
  shows "0 \<le> acc \<Longrightarrow> 0 \<le> read_digits 16 acc ds \<and> read_digits 16 acc ds < (acc + 1) * 16 ^ length ds"
  using assms
proof (induction ds arbitrary: acc)
  case (Cons c ds)
  have c: "0 \<le> digit_value c" "digit_value c < 16" using Cons.prems by (auto simp: digit_value_def Let_def)
  have IH: "0 \<le> read_digits 16 (acc * 16 + digit_value c) ds \<and>
      read_digits 16 (acc * 16 + digit_value c) ds < (acc * 16 + digit_value c + 1) * 16 ^ length ds"
    using Cons c by (intro Cons.IH) auto
  have "(acc * 16 + digit_value c + 1) * 16 ^ length ds \<le> (acc * 16 + 16) * 16 ^ length ds"
    using c by (intro mult_right_mono) auto
  also have "\<dots> = (acc + 1) * 16 ^ length (c # ds)" by (simp add: algebra_simps)
  finally show ?case using IH c(2) by (simp del: power_Suc)
qed simp

lemma strtoul16_hex:
  assumes hex: "\<forall>c \<in> set ds. digit_value c < 16" and len: "length ds \<le> 8"
  shows "strtoul16 ds = word_of_int (read_digits 16 0 ds)"
proof -
  have ns: "\<not> c_isspace c \<and> c \<noteq> CHR ''-'' \<and> c \<noteq> CHR ''+'' \<and> c \<noteq> CHR ''x'' \<and> c \<noteq> CHR ''X''"
    if "digit_value c < 16" for c
    using that by (auto simp: digit_value_def c_isspace_def Let_def)
  have sign: "read_sign (dropWhile c_isspace ds) = (1, ds)" using hex ns by (cases ds) auto
  have prefix: "(case ds of z # x # h # r \<Rightarrow>
       if z = CHR ''0'' \<and> (x = CHR ''x'' \<or> x = CHR ''X'') \<and> digit_value h < 16 then h # r else ds | _ \<Rightarrow> ds) = ds"
    using hex ns by (auto split: list.splits)
  have "read_digits 16 0 ds < 16 ^ length ds" using read_digits_bound [OF hex, of 0] by simp
  also have "\<dots> \<le> 16 ^ 8" using len by (intro power_increasing) auto
  finally have "read_digits 16 0 ds < 2 ^ 32" by simp
  then show ?thesis by (simp only: strtoul16_def sign prod.case Let_def prefix) simp
qed

text \<open>
  The colour syntax. Six hexadecimal digits are read as red, green and blue with full opacity,
  eight as all four channels; but with three digits the low half of the blue channel is lost whatever
  the digits are, so that \<open>#00F\<close> is not the blue of \<open>#0000FF\<close>.
\<close>

theorem color_value_syntax:
  assumes "\<forall>c \<in> set ds. digit_value c < 16"
  shows "(length ds = 6 \<longrightarrow> color_value ds = push_bit 8 (word_of_int (read_digits 16 0 ds)) OR 0xFF) \<and>
    (length ds = 8 \<longrightarrow> color_value ds = word_of_int (read_digits 16 0 ds)) \<and>
    (length ds = 3 \<longrightarrow> color_value ds AND 0xF00 = 0)"
  using strtoul16_hex [OF assms]
  by (auto simp: color_value_def Let_def bit.conj_disj_distrib2 push_bit_and and.assoc)

theorem color_value_syntax_witness:
  "color_value ''0000FF'' = 0x0000FFFF \<and> color_value ''00F'' AND 0xF00 = 0"
proof -
  have hex: "\<forall>c \<in> set ''0000FF''. digit_value c < 16" "\<forall>c \<in> set ''00F''. digit_value c < 16"
    by (simp_all add: digit_value_def)
  have "read_digits 16 0 ''0000FF'' = 0xFF" by (simp add: digit_value_def)
  then show ?thesis using color_value_syntax [OF hex(1)] color_value_syntax [OF hex(2)] by simp
qed

text \<open>Every object lists exactly the widgets that show it, each once.\<close>

definition refs_ok :: "store \<Rightarrow> bool" where
  "refs_ok s \<longleftrightarrow>
     (\<forall>a d. objs s a = Some d \<longrightarrow> distinct (referenced d) \<and>
        (\<forall>w. w \<in> set (referenced d) \<longleftrightarrow> (\<exists>e. objs s w = Some e \<and> widgetData e = Some a))) \<and>
     (\<forall>w e a. objs s w = Some e \<longrightarrow> widgetData e = Some a \<longrightarrow> objs s a \<noteq> None)"

definition shows_obj :: "store \<Rightarrow> addr \<Rightarrow> addr option" where
  "shows_obj s w = (case objs s w of None \<Rightarrow> None | Some e \<Rightarrow> widgetData e)"

definition refs_of :: "store \<Rightarrow> addr \<Rightarrow> addr list" where
  "refs_of s a = (case objs s a of None \<Rightarrow> [] | Some e \<Rightarrow> referenced e)"

lemma refs_ok_alt:
  "refs_ok s \<longleftrightarrow> (\<forall>a. objs s a \<noteq> None \<longrightarrow> distinct (refs_of s a) \<and> (\<forall>w. w \<in> set (refs_of s a) \<longleftrightarrow> shows_obj s w = Some a)) \<and>
     (\<forall>w a. shows_obj s w = Some a \<longrightarrow> objs s a \<noteq> None)"
  unfolding refs_ok_def shows_obj_def refs_of_def by (fastforce split: option.splits)

lemma upd_obj_refs:
  assumes "objs s a = Some d"
  shows "\<exists>s'. upd_obj f a s = Inr s' \<and> (\<forall>b. objs s' b \<noteq> None \<longleftrightarrow> objs s b \<noteq> None) \<and> objs s' a = Some (f d) \<and>
     (\<forall>b. b \<noteq> a \<longrightarrow> objs s' b = objs s b)"
  using assms by (simp add: heap_defs)

lemma setDataObject_effect:
  assumes ok: "refs_ok s" and w: "objs s w = Some d" and new: "\<And>a. dobj = Some a \<Longrightarrow> objs s a \<noteq> None"
  shows "\<exists>s'. widget_setDataObject w dobj s = Inr s' \<and> (\<forall>b. objs s' b \<noteq> None \<longleftrightarrow> objs s b \<noteq> None) \<and>
     (\<forall>v. shows_obj s' v = (if v = w then dobj else shows_obj s v)) \<and>
     (\<forall>a. refs_of s' a = (if widgetData d = Some a then remove1 w (refs_of s a) else refs_of s a) @
        (if dobj = Some a then [w] else []))"
proof -
  define s1 where "s1 = (case widgetData d of None \<Rightarrow> s
     | Some old \<Rightarrow> put_obj old ((\<lambda>o'. o'\<lparr>referenced := remove1 w (referenced o')\<rparr>) (the (objs s old))) s)"
  have old: "objs s a \<noteq> None" if "widgetData d = Some a" for a using ok w that by (auto simp: refs_ok_def)
  have 1: "(case widgetData d of None \<Rightarrow> Inr s
     | Some old \<Rightarrow> upd_obj (\<lambda>o'. o'\<lparr>referenced := remove1 w (referenced o')\<rparr>) old s) = Inr s1"
    using old by (auto simp: s1_def upd_obj_def get_obj_def split: option.splits)
  have d1: "objs s1 b \<noteq> None \<longleftrightarrow> objs s b \<noteq> None" "shows_obj s1 b = shows_obj s b"
    "refs_of s1 b = (if widgetData d = Some b then remove1 w (refs_of s b) else refs_of s b)" for b
    using old by (auto simp: s1_def put_obj_def shows_obj_def refs_of_def split: option.splits)
  obtain e1 where e1: "objs s1 w = Some e1" using d1(1) [of w] w by auto
  define s2 where "s2 = put_obj w (e1\<lparr>widgetData := dobj\<rparr>) s1"
  have 2: "upd_obj (\<lambda>d. d\<lparr>widgetData := dobj\<rparr>) w s1 = Inr s2" by (simp add: upd_obj_def get_obj_def e1 s2_def)
  have d2: "objs s2 b \<noteq> None \<longleftrightarrow> objs s1 b \<noteq> None" "shows_obj s2 b = (if b = w then dobj else shows_obj s1 b)"
    "refs_of s2 b = refs_of s1 b" for b
    using e1 by (auto simp: s2_def put_obj_def shows_obj_def refs_of_def split: option.splits)
  have run: "widget_setDataObject w dobj s =
      (case dobj of None \<Rightarrow> Inr s2 | Some new \<Rightarrow> upd_obj (\<lambda>o'. o'\<lparr>referenced := referenced o' @ [w]\<rparr>) new s2)"
    by (simp add: widget_setDataObject_def get_obj_def w 1 2)
  show ?thesis
  proof (cases dobj)
    case None
    then show ?thesis using run d1 d2 by simp
  next
    case (Some a)
    obtain e2 where e2: "objs s2 a = Some e2" using new [OF Some] d1(1) [of a] d2(1) [of a] by blast
    define s3 where "s3 = put_obj a (e2\<lparr>referenced := referenced e2 @ [w]\<rparr>) s2"
    have 3: "widget_setDataObject w dobj s = Inr s3" unfolding run by (simp add: Some upd_obj_def get_obj_def e2 s3_def)
    have "objs s3 b \<noteq> None \<longleftrightarrow> objs s2 b \<noteq> None" "shows_obj s3 b = shows_obj s2 b"
      "refs_of s3 b = refs_of s2 b @ (if b = a then [w] else [])" for b
      using e2 by (auto simp: s3_def put_obj_def shows_obj_def refs_of_def split: option.splits)
    then show ?thesis using 3 d1 d2 Some by auto
  qed
qed

text \<open>
  C17: \<open>widget_setDataObject\<close> keeps the references of objects symmetric: if every object lists exactly
  the widgets that show it, each once, this still holds after a widget was given another object or
  none, and the widget then shows that object.
\<close>

theorem widget_setDataObject_symmetric:
  assumes "refs_ok s" and "objs s w = Some d" and "\<forall>a. dobj = Some a \<longrightarrow> objs s a \<noteq> None"
  shows "\<exists>s'. widget_setDataObject w dobj s = Inr s' \<and> refs_ok s' \<and> shows_obj s' w = dobj"
proof -
  from setDataObject_effect [OF assms(1,2)] assms(3) obtain s' where s': "widget_setDataObject w dobj s = Inr s'"
      "\<And>b. objs s' b \<noteq> None \<longleftrightarrow> objs s b \<noteq> None" "\<And>v. shows_obj s' v = (if v = w then dobj else shows_obj s v)"
      "\<And>a. refs_of s' a = (if widgetData d = Some a then remove1 w (refs_of s a) else refs_of s a) @
        (if dobj = Some a then [w] else [])" by blast
  have wd: "shows_obj s w = widgetData d" using assms(2) by (simp add: shows_obj_def)
  have r: "distinct (refs_of s a)" "v \<in> set (refs_of s a) \<longleftrightarrow> shows_obj s v = Some a" if "objs s a \<noteq> None" for a v
    using assms(1) that unfolding refs_ok_alt by blast+
  have "refs_ok s'" unfolding refs_ok_alt
  proof (intro conjI allI impI)
    fix a v assume "objs s' a \<noteq> None"
    then have a: "objs s a \<noteq> None" using s'(2) by blast
    show "distinct (refs_of s' a)" using r [OF a] wd unfolding s'(4) by (auto simp: distinct_remove1)
    show "(v \<in> set (refs_of s' a)) = (shows_obj s' v = Some a)"
      using r [OF a] wd unfolding s'(3,4) by auto
  next
    fix v a assume "shows_obj s' v = Some a"
    then show "objs s' a \<noteq> None" using assms(1,3) s'(2) unfolding s'(3) refs_ok_alt by (auto split: if_splits)
  qed
  with s'(1,3) show ?thesis by auto
qed

theorem widget_setDataObject_symmetric_witness:
  "\<exists>s'. widget_setDataObject 0 (Some 0) demo_store = Inr s' \<and> refs_ok s' \<and> shows_obj s' 0 = Some 0"
proof -
  have "refs_ok demo_store" by (auto simp: refs_ok_def demo_store_def new_obj_def)
  from widget_setDataObject_symmetric [OF this demo_store_ok(3), of "Some 0"] show ?thesis
    using demo_store_ok(3) by simp
qed

end
