(* ===== verification/Object_Tree.thy ===== *)
theory Object_Tree
  imports Object_Store "HOL-Library.Multiset"
begin

text \<open>
  The tree of objects: the functions of \<open>DataObject.c\<close> that walk \<open>children\<close> and \<open>parent\<close>.

  The synchronisation addresses the nodes of an object tree by their number in depth-first order
  (\<open>dataobject_getTree\<close>, \<open>dataobject_treeIndex\<close>). The abstract counterpart is the datatype \<open>otree\<close>;
  \<open>is_tree s t\<close> says that the heap holds the tree \<open>t\<close>: the children lists and parent pointers agree with it and no
  object occurs twice. On such heaps the walks terminate, number the nodes as \<open>preorder\<close> does, and
  are inverse to each other.

  Recursive functions carry the recursion depth as fuel: a deeper recursion than there are
  addresses meets an object a second time on the way down and never ends.
\<close>

unbundle bit_operations_syntax

section \<open>The operations\<close>

definition dataobject_pack :: "addr \<Rightarrow> addr \<Rightarrow> store \<Rightarrow> store res" where
  "dataobject_pack par child s =
     bind_res (upd_obj (\<lambda>d. d\<lparr>parent := Some par\<rparr>) child s)
       (upd_obj (\<lambda>d. d\<lparr>children := children d @ [child]\<rparr>) par)"

definition dataobject_packStart :: "addr \<Rightarrow> addr \<Rightarrow> store \<Rightarrow> store res" where
  "dataobject_packStart par child s =
     bind_res (upd_obj (\<lambda>d. d\<lparr>parent := Some par\<rparr>) child s)
       (upd_obj (\<lambda>d. d\<lparr>children := child # children d\<rparr>) par)"

definition dataobject_parent :: "store \<Rightarrow> addr \<Rightarrow> addr option res" where
  "dataobject_parent s dobj = bind_res (get_obj s dobj) (\<lambda>d. Inr (parent d))"

text \<open>The assignment of \<open>dataobject_setParent\<close> is \<open>dobj->parent = dobj\<close>.\<close>

definition dataobject_setParent :: "addr \<Rightarrow> addr \<Rightarrow> store \<Rightarrow> store res" where
  "dataobject_setParent dobj par = upd_obj (\<lambda>d. d\<lparr>parent := Some dobj\<rparr>) dobj"

fun superparent_loop :: "nat \<Rightarrow> store \<Rightarrow> addr \<Rightarrow> addr res" where
  "superparent_loop 0 s dobj = Inl Diverge"
| "superparent_loop (Suc n) s dobj =
     bind_res (get_obj s dobj) (\<lambda>d. case parent d of None \<Rightarrow> Inr dobj | Some p \<Rightarrow> superparent_loop n s p)"

definition dataobject_superparent :: "store \<Rightarrow> addr \<Rightarrow> addr res" where
  "dataobject_superparent s dobj = superparent_loop (Suc (next_addr s)) s dobj"

definition dataobject_findScriptContext :: "store \<Rightarrow> addr \<Rightarrow> nat option res" where
  "dataobject_findScriptContext s dobj = bind_res (dataobject_superparent s dobj) (dataobject_getScriptContext s)"

fun findFieldParent_loop :: "nat \<Rightarrow> store \<Rightarrow> addr \<Rightarrow> string \<Rightarrow> addr option res" where
  "findFieldParent_loop 0 s dobj str = Inl Diverge"
| "findFieldParent_loop (Suc n) s dobj str =
     bind_res (dataobject_getValue s dobj str) (\<lambda>field.
     case field of
       Some _ \<Rightarrow> Inr (Some dobj)
     | None \<Rightarrow>
         bind_res (get_obj s dobj) (\<lambda>d.
         case parent d of None \<Rightarrow> Inr None | Some p \<Rightarrow> findFieldParent_loop n s p str))"

definition dataobject_findFieldParent :: "store \<Rightarrow> addr \<Rightarrow> string \<Rightarrow> addr option res" where
  "dataobject_findFieldParent s dobj str = findFieldParent_loop (Suc (next_addr s)) s dobj str"

text \<open>The loop over the children that the searches share: \<open>f\<close> visits a child with the running index
  and the loop stops at the first success.\<close>

fun search_children :: "(addr \<Rightarrow> int \<Rightarrow> ('r option \<times> int) res) \<Rightarrow> int \<Rightarrow> addr list \<Rightarrow> int \<Rightarrow> ('r option \<times> int) res" where
  "search_children f step [] idx = Inr (None, idx)"
| "search_children f step (c # cs) idx =
     bind_res (f c (idx + step)) (\<lambda>(output, idx).
     case output of Some r \<Rightarrow> Inr (Some r, idx) | None \<Rightarrow> search_children f step cs idx)"

fun getTreeR :: "nat \<Rightarrow> store \<Rightarrow> addr \<Rightarrow> int \<Rightarrow> (addr option \<times> int) res" where
  "getTreeR 0 s dobj idx = Inl Diverge"
| "getTreeR (Suc n) s dobj idx =
     (if idx = 0 then Inr (Some dobj, idx)
      else bind_res (get_obj s dobj) (\<lambda>d. search_children (getTreeR n s) (-1) (children d) idx))"

definition dataobject_getTree :: "store \<Rightarrow> addr \<Rightarrow> int \<Rightarrow> addr option res" where
  "dataobject_getTree s dobj index =
     bind_res (getTreeR (Suc (next_addr s)) s dobj index) (\<lambda>(output, idx). Inr output)"

fun getForcedObject_loop :: "nat \<Rightarrow> store \<Rightarrow> addr \<Rightarrow> int \<Rightarrow> (addr option \<times> int) res" where
  "getForcedObject_loop 0 s dobj idx = Inl Diverge"
| "getForcedObject_loop (Suc n) s dobj idx =
     bind_res (get_obj s dobj) (\<lambda>d.
     if flags1 d AND DO_FLAG_FORCE_SYNC \<noteq> 0 then Inr (Some dobj, idx)
     else search_children (getForcedObject_loop n s) 1 (children d) idx)"

definition dataobject_getForcedObject :: "store \<Rightarrow> addr \<Rightarrow> int \<Rightarrow> (addr option \<times> int) res" where
  "dataobject_getForcedObject s dobj index = getForcedObject_loop (Suc (next_addr s)) s dobj index"

text \<open>\<open>-1\<close> (not found) is \<open>None\<close>.\<close>

fun treeIndexR :: "nat \<Rightarrow> store \<Rightarrow> addr \<Rightarrow> addr \<Rightarrow> int \<Rightarrow> (int option \<times> int) res" where
  "treeIndexR 0 s dobj par idx = Inl Diverge"
| "treeIndexR (Suc n) s dobj par idx =
     (if par = dobj then Inr (Some idx, idx)
      else bind_res (get_obj s par) (\<lambda>d. search_children (treeIndexR n s dobj) 1 (children d) idx))"

definition dataobject_treeIndex :: "store \<Rightarrow> addr \<Rightarrow> int res" where
  "dataobject_treeIndex s dobj =
     bind_res (dataobject_superparent s dobj) (\<lambda>super.
     if super = dobj then Inr 0
     else bind_res (treeIndexR (Suc (next_addr s)) s dobj super 0) (\<lambda>(output, idx).
          Inr (case output of Some i \<Rightarrow> i | None \<Rightarrow> -1)))"

text \<open>
  \<open>dataobject_getTreeNextOp\<close>: the result and, when it is 1, the value stored in \<open>ischild\<close>. The loop from
  label \<open>next_iteration\<close> climbs until \<open>last\<close> has a next sibling.
\<close>

fun nextOp_loop :: "nat \<Rightarrow> store \<Rightarrow> addr \<Rightarrow> addr \<Rightarrow> (int \<times> int option) res" where
  "nextOp_loop 0 s par lst = Inl Diverge"
| "nextOp_loop (Suc n) s par lst =
     bind_res (get_obj s par) (\<lambda>p.
     case dropWhile (\<lambda>c. c \<noteq> lst) (children p) of
       [] \<Rightarrow> Inr (0, None)
     | [_] \<Rightarrow>
         bind_res (get_obj s lst) (\<lambda>l.
         case parent p of
           None \<Rightarrow> Inr (0, None)
         | Some pp \<Rightarrow> (case parent l of None \<Rightarrow> Inl NullDeref | Some lp \<Rightarrow> nextOp_loop n s pp lp))
     | _ # _ # _ \<Rightarrow> bind_res (dataobject_treeIndex s par) (\<lambda>i. Inr (1, Some i)))"

definition dataobject_getTreeNextOp :: "store \<Rightarrow> addr \<Rightarrow> (int \<times> int option) res" where
  "dataobject_getTreeNextOp s dobj =
     bind_res (get_obj s dobj) (\<lambda>d.
     if children d \<noteq> [] then Inr (1, Some (-1))
     else (case parent d of
             None \<Rightarrow> Inr (0, None)
           | Some p \<Rightarrow> nextOp_loop (Suc (next_addr s)) s p dobj))"

definition manager_applicationForDataObject :: "store \<Rightarrow> addr \<Rightarrow> Application option" where
  "manager_applicationForDataObject s dobj = List.find (\<lambda>app. app_dobj app = dobj) (List.map_filter (apps s) (applications (appManager s)))"

fun first_some :: "(addr \<Rightarrow> 'r option res) \<Rightarrow> addr list \<Rightarrow> 'r option res" where
  "first_some f [] = Inr None"
| "first_some f (c # cs) = bind_res (f c) (\<lambda>r. case r of Some x \<Rightarrow> Inr (Some x) | None \<Rightarrow> first_some f cs)"

fun findByName_loop :: "nat \<Rightarrow> store \<Rightarrow> string \<Rightarrow> addr \<Rightarrow> addr option res" where
  "findByName_loop 0 s name dobj = Inl Diverge"
| "findByName_loop (Suc n) s name dobj =
     bind_res (dataobject_getEnum s dobj EMO_FIELD_NAME) (\<lambda>field.
     bind_res (dataobjectfield_isString s field name) (\<lambda>found.
     if found then Inr (Some dobj)
     else
       bind_res (dataobject_getEnum s dobj EMO_FIELD_TYPE) (\<lambda>dtype.
       bind_res (EMO_DOF_IS_TYPE s dtype EMO_TYPE_FRAME) (\<lambda>isframe.
       bind_res (EMO_DOF_IS_TYPE s dtype EMO_TYPE_REFERENCE) (\<lambda>isref.
       bind_res
         (if isframe then
            bind_res (widget_getDataObject s dobj) (\<lambda>child.
            case manager_applicationForDataObject s child of
              None \<Rightarrow> Inr None
            | Some app \<Rightarrow> findByName_loop n s name (app_dobj app))
          else if isref then
            bind_res (widget_getDataObject s dobj) (\<lambda>child.
            if child \<noteq> dobj then findByName_loop n s name child else Inr None)
          else Inr None) (\<lambda>sub.
       case sub of
         Some c \<Rightarrow> Inr (Some c)
       | None \<Rightarrow> bind_res (get_obj s dobj) (\<lambda>d. first_some (findByName_loop n s name) (children d))))))))"

definition dataobject_findByName :: "store \<Rightarrow> addr \<Rightarrow> string \<Rightarrow> addr option res" where
  "dataobject_findByName s dobj name = findByName_loop (Suc (next_addr s)) s name dobj"

text \<open>The loop of \<open>setLayoutDirtyAll\<close> over the items of an iterator.\<close>

fun each :: "(addr \<Rightarrow> 's \<Rightarrow> 's res) \<Rightarrow> addr list \<Rightarrow> 's \<Rightarrow> 's res" where
  "each f [] s = Inr s"
| "each f (c # cs) s = bind_res (f c s) (each f cs)"

fun setLayoutDirtyAll_loop :: "nat \<Rightarrow> addr \<Rightarrow> store \<Rightarrow> store res" where
  "setLayoutDirtyAll_loop 0 dobj s = Inl Diverge"
| "setLayoutDirtyAll_loop (Suc n) dobj s =
     bind_res (upd_obj (\<lambda>d. d\<lparr>flags1 := flags1 d OR DO_FLAG_LAYOUT_DIRTY_WIDTH OR DO_FLAG_LAYOUT_DIRTY_HEIGHT\<rparr>) dobj s) (\<lambda>s.
     bind_res (dataobject_getEnum s dobj EMO_FIELD_TYPE) (\<lambda>type.
     bind_res (EMO_DOF_IS_TYPE s type EMO_TYPE_FRAME) (\<lambda>isframe.
     bind_res (EMO_DOF_IS_TYPE s type EMO_TYPE_REFERENCE) (\<lambda>isref.
     if isframe then
       bind_res (widget_getDataObject s dobj) (\<lambda>child.
       if child = dobj then Inr s
       else (case manager_applicationForDataObject s child of
               None \<Rightarrow> Inr s
             | Some app \<Rightarrow> (case app_screen app of None \<Rightarrow> Inr s | Some scr \<Rightarrow> setLayoutDirtyAll_loop n scr s)))
     else if isref then
       bind_res (widget_getDataObject s dobj) (\<lambda>child.
       if child = dobj then Inr s else setLayoutDirtyAll_loop n child s)
     else
       bind_res (dataobject_childIterator s dobj) (\<lambda>cs. each (setLayoutDirtyAll_loop n) cs s)))))"

definition dataobject_setLayoutDirtyAll :: "addr \<Rightarrow> store \<Rightarrow> store res" where
  "dataobject_setLayoutDirtyAll dobj s = setLayoutDirtyAll_loop (Suc (next_addr s)) dobj s"

section \<open>Abstract trees\<close>

datatype otree = Node (root: addr) (subs: "otree list")

fun preorder :: "otree \<Rightarrow> addr list" where
  "preorder (Node a ts) = a # concat (map preorder ts)"

fun height :: "otree \<Rightarrow> nat" where
  "height (Node a ts) = Suc (foldr max (map height ts) 0)"

text \<open>The children lists follow the tree, and every node below the root points to its parent.\<close>

fun tree_links :: "store \<Rightarrow> otree \<Rightarrow> bool" where
  "tree_links s (Node a ts) \<longleftrightarrow>
     (\<exists>d. objs s a = Some d \<and> children d = map root ts) \<and>
     (\<forall>t \<in> set ts. (\<exists>d. objs s (root t) = Some d \<and> parent d = Some a) \<and> tree_links s t)"

definition is_tree :: "store \<Rightarrow> otree \<Rightarrow> bool" where
  "is_tree s t \<longleftrightarrow> tree_links s t \<and> distinct (preorder t) \<and> (\<forall>a \<in> set (preorder t). a < next_addr s) \<and>
     (\<exists>d. objs s (root t) = Some d \<and> parent d = None)"

lemma preorder_hd: "preorder t = root t # concat (map preorder (subs t))"
  by (cases t) simp

lemma root_in [simp]: "root t \<in> set (preorder t)"
  by (cases t) simp

lemma height_sub: "t \<in> set ts \<Longrightarrow> height t \<le> foldr max (map height ts) 0"
  by (induction ts) auto

lemma height_le_size: "height t \<le> length (preorder t)"
proof (induction t)
  case (Node a ts)
  have "foldr max (map height ts) 0 \<le> length (concat (map preorder ts))"
    using Node
  proof (induction ts)
    case (Cons t ts)
    then have "height t \<le> length (preorder t)" "foldr max (map height ts) 0 \<le> length (concat (map preorder ts))" by auto
    then show ?case by simp
  qed simp
  then show ?case by simp
qed

lemma is_tree_height: "is_tree s t \<Longrightarrow> height t \<le> next_addr s"
proof -
  assume t: "is_tree s t"
  have "length (preorder t) = card (set (preorder t))"
    using t by (simp add: is_tree_def distinct_card)
  also have "\<dots> \<le> card {..<next_addr s}" using t by (intro card_mono) (auto simp: is_tree_def)
  finally show ?thesis using height_le_size [of t] by simp
qed

text \<open>Counting down in depth-first order.\<close>

lemma getTreeR_run:
  "tree_links s t \<Longrightarrow> height t \<le> n \<Longrightarrow> 0 \<le> idx \<Longrightarrow>
   getTreeR n s (root t) idx =
     Inr (if idx < int (length (preorder t)) then (Some (preorder t ! nat idx), 0)
          else (None, idx - int (length (preorder t)) + 1))"
proof (induction t arbitrary: n idx)
  case (Node a ts)
  obtain m where n: "n = Suc m" using Node.prems(2) by (cases n) auto
  obtain d where d: "objs s a = Some d" "children d = map root ts" using Node.prems(1) by auto
  have kids: "search_children (getTreeR m s) (-1) (map root us) idx' =
     Inr (if idx' \<le> int (length (concat (map preorder us))) then (Some (concat (map preorder us) ! nat (idx' - 1)), 0)
          else (None, idx' - int (length (concat (map preorder us)))))"
    if "set us \<subseteq> set ts" "1 \<le> idx'" for us idx'
    using that
  proof (induction us arbitrary: idx')
    case (Cons u us)
    have u: "tree_links s u" "height u \<le> m"
      using Cons.prems(1) Node.prems height_sub [of u ts] n by auto
    have len: "1 \<le> length (preorder u)" by (cases u) simp
    have IHu: "getTreeR m s (root u) (idx' - 1) =
      Inr (if idx' - 1 < int (length (preorder u)) then (Some (preorder u ! nat (idx' - 1)), 0)
          else (None, idx' - 1 - int (length (preorder u)) + 1))"
      using Cons.prems u by (intro Node.IH) auto
    show ?case
    proof (cases "idx' - 1 < int (length (preorder u))")
      case True
      then show ?thesis using IHu Cons.prems(2) by (auto simp: nth_append)
    next
      case False
      then have rest: "search_children (getTreeR m s) (-1) (map root us) (idx' - int (length (preorder u))) =
        Inr (if idx' - int (length (preorder u)) \<le> int (length (concat (map preorder us)))
             then (Some (concat (map preorder us) ! nat (idx' - int (length (preorder u)) - 1)), 0)
             else (None, idx' - int (length (preorder u)) - int (length (concat (map preorder us)))))"
        using Cons.prems by (intro Cons.IH) auto
      have nth: "(preorder u @ xs) ! nat (idx' - 1) = xs ! nat (idx' - int (length (preorder u)) - 1)" for xs
      proof -
        have "nat (idx' - 1) = length (preorder u) + nat (idx' - int (length (preorder u)) - 1)" using False by simp
        then show ?thesis by (simp only: nth_append_length_plus)
      qed
      show ?thesis using IHu rest False nth by (simp add: algebra_simps)
    qed
  qed simp
  show ?case
  proof (cases "idx = 0")
    case True
    then show ?thesis by (simp add: n)
  next
    case False
    then have "1 \<le> idx" using Node.prems(3) by simp
    with kids [of ts idx] False d show ?thesis
      by (auto simp: n get_obj_def nth_Cons' nat_diff_distrib')
  qed
qed

text \<open>Counting up until a node is met.\<close>

definition pos_in :: "'a \<Rightarrow> 'a list \<Rightarrow> nat" where
  "pos_in x xs = length (takeWhile (\<lambda>y. y \<noteq> x) xs)"

lemma pos_in_simps [simp]:
  "pos_in x (y # ys) = (if y = x then 0 else Suc (pos_in x ys))"
  "x \<notin> set xs \<Longrightarrow> pos_in x (xs @ ys) = length xs + pos_in x ys"
  "x \<in> set xs \<Longrightarrow> pos_in x (xs @ ys) = pos_in x xs"
proof -
  show "pos_in x (xs @ ys) = length xs + pos_in x ys" if "x \<notin> set xs"
    using that by (induction xs) (auto simp: pos_in_def)
  show "pos_in x (xs @ ys) = pos_in x xs" if "x \<in> set xs"
    using that by (simp add: pos_in_def takeWhile_append1)
qed (simp add: pos_in_def)

lemma pos_in_nth: "x \<in> set xs \<Longrightarrow> pos_in x xs < length xs \<and> xs ! pos_in x xs = x"
  by (induction xs) (auto simp: pos_in_def)

lemma treeIndexR_run:
  "tree_links s t \<Longrightarrow> height t \<le> n \<Longrightarrow>
   treeIndexR n s x (root t) idx =
     Inr (if x \<in> set (preorder t) then (Some (idx + int (pos_in x (preorder t))), idx + int (pos_in x (preorder t)))
          else (None, idx + int (length (preorder t)) - 1))"
proof (induction t arbitrary: n idx)
  case (Node a ts)
  obtain m where n: "n = Suc m" using Node.prems(2) by (cases n) auto
  obtain d where d: "objs s a = Some d" "children d = map root ts" using Node.prems(1) by auto
  have kids: "search_children (treeIndexR m s x) 1 (map root us) i =
     Inr (let ns = concat (map preorder us) in
          if x \<in> set ns then (Some (i + 1 + int (pos_in x ns)), i + 1 + int (pos_in x ns)) else (None, i + int (length ns)))"
    if "set us \<subseteq> set ts" for us i
    using that
  proof (induction us arbitrary: i)
    case (Cons u us)
    have u: "tree_links s u" "height u \<le> m"
      using Cons.prems Node.prems height_sub [of u ts] n by auto
    have IHu: "treeIndexR m s x (root u) (i + 1) =
      Inr (if x \<in> set (preorder u) then (Some (i + 1 + int (pos_in x (preorder u))), i + 1 + int (pos_in x (preorder u)))
          else (None, i + 1 + int (length (preorder u)) - 1))"
      using Cons.prems u by (intro Node.IH) auto
    then show ?case
    proof (cases "x \<in> set (preorder u)")
      case False
      have IH: "search_children (treeIndexR m s x) 1 (map root us) (i + int (length (preorder u))) =
         Inr (let ns = concat (map preorder us) in
          if x \<in> set ns then (Some (i + int (length (preorder u)) + 1 + int (pos_in x ns)), i + int (length (preorder u)) + 1 + int (pos_in x ns))
          else (None, i + int (length (preorder u)) + int (length ns)))"
        using Cons.prems by (intro Cons.IH) auto
      show ?thesis using IHu IH False by (simp add: Let_def algebra_simps)
    qed (simp add: Let_def)
  qed simp
  show ?case
  proof (cases "x = a")
    case False
    then show ?thesis using kids [of ts idx] d by (auto simp: n get_obj_def Let_def)
  qed (simp add: n)
qed

text \<open>Climbing to the root.\<close>

lemma superparent_climb:
  "tree_links s t \<Longrightarrow> x \<in> set (preorder t) \<Longrightarrow>
   \<exists>k < height t. \<forall>n. superparent_loop (Suc n + k) s x = superparent_loop (Suc n) s (root t)"
proof (induction t)
  case (Node a ts)
  show ?case
  proof (cases "x = a")
    case True
    then show ?thesis by (intro exI [of _ 0]) auto
  next
    case False
    with Node.prems obtain u where u: "u \<in> set ts" "x \<in> set (preorder u)" by auto
    with Node.prems have l: "tree_links s u" "\<exists>d. objs s (root u) = Some d \<and> parent d = Some a" by auto
    from Node.IH [OF u(1) l(1) u(2)] obtain k where k: "k < height u"
      "\<And>n. superparent_loop (Suc n + k) s x = superparent_loop (Suc n) s (root u)" by blast
    have "superparent_loop (Suc n + Suc k) s x = superparent_loop (Suc n) s a" for n
      using k(2) [of "Suc n"] l(2) by (auto simp: get_obj_def)
    moreover have "Suc k < height (Node a ts)" using k(1) height_sub [OF u(1)] by simp
    ultimately show ?thesis by (metis otree.sel(1))
  qed
qed

lemma superparent_run:
  assumes "is_tree s t" and "x \<in> set (preorder t)"
  shows "dataobject_superparent s x = Inr (root t)"
proof -
  from superparent_climb [of s t x] assms obtain k where k: "k < height t"
    "\<And>n. superparent_loop (Suc n + k) s x = superparent_loop (Suc n) s (root t)" by (auto simp: is_tree_def)
  have "Suc (next_addr s) = Suc (next_addr s - k) + k" using k(1) is_tree_height [OF assms(1)] by simp
  then have "dataobject_superparent s x = superparent_loop (Suc (next_addr s - k)) s (root t)"
    unfolding dataobject_superparent_def using k(2) by metis
  also have "\<dots> = Inr (root t)" using assms(1) by (auto simp: is_tree_def get_obj_def)
  finally show ?thesis .
qed

lemma treeIndex_run:
  assumes t: "is_tree s t" and x: "x \<in> set (preorder t)"
  shows "dataobject_treeIndex s x = Inr (int (pos_in x (preorder t)))"
proof -
  have "treeIndexR (Suc (next_addr s)) s x (root t) 0 = Inr (Some (int (pos_in x (preorder t))), int (pos_in x (preorder t)))"
    using treeIndexR_run [of s t "Suc (next_addr s)" x 0] t x is_tree_height [OF t] by (simp add: is_tree_def)
  moreover have "pos_in (root t) (preorder t) = 0" by (cases t) simp
  ultimately show ?thesis using superparent_run [OF t x] by (auto simp: dataobject_treeIndex_def)
qed

lemma getTree_run:
  assumes t: "is_tree s t" and i: "0 \<le> i"
  shows "dataobject_getTree s (root t) i = Inr (if i < int (length (preorder t)) then Some (preorder t ! nat i) else None)"
  using getTreeR_run [of s t "Suc (next_addr s)" i] t i is_tree_height [OF t]
  by (simp add: dataobject_getTree_def is_tree_def)

section \<open>Packing\<close>

text \<open>Attaching the tree \<open>u\<close> as the last child of node \<open>a\<close>.\<close>

fun graft :: "addr \<Rightarrow> otree \<Rightarrow> otree \<Rightarrow> otree" where
  "graft a u (Node x ts) = Node x (map (graft a u) ts @ (if x = a then [u] else []))"

lemma root_graft [simp]: "root (graft a u t) = root t"
  by (cases t) simp

lemma mset_graft:
  "mset (preorder (graft a u t)) = mset (preorder t) + repeat_mset (count (mset (preorder t)) a) (mset (preorder u))"
proof (induction t)
  case (Node x ts)
  have "mset (concat (map (preorder \<circ> graft a u) ts)) =
      mset (concat (map preorder ts)) + repeat_mset (count (mset (concat (map preorder ts))) a) (mset (preorder u))"
    using Node by (induction ts) (auto simp: repeat_mset_distrib ac_simps)
  then show ?case by (simp add: comp_def ac_simps)
qed

lemma preorder_graft:
  assumes "distinct (preorder t)" and "distinct (preorder u)" and "set (preorder t) \<inter> set (preorder u) = {}"
    and "a \<in> set (preorder t)"
  shows "distinct (preorder (graft a u t)) \<and> set (preorder (graft a u t)) = set (preorder t) \<union> set (preorder u)"
proof -
  have "count (mset (preorder t)) a = 1" using assms(1,4) by (simp add: distinct_count_atmost_1)
  then have m: "mset (preorder (graft a u t)) = mset (preorder t @ preorder u)" by (simp add: mset_graft)
  then have "distinct (preorder (graft a u t)) = distinct (preorder t @ preorder u)" by (metis mset_eq_imp_distinct_iff)
  moreover have "set (preorder (graft a u t)) = set (preorder t @ preorder u)" using m by (metis set_mset_mset)
  ultimately show ?thesis using assms by simp
qed

text \<open>What a walk sees of an object.\<close>

definition kids_of :: "store \<Rightarrow> addr \<Rightarrow> addr list option" where
  "kids_of s a = map_option children (objs s a)"

definition parent_of :: "store \<Rightarrow> addr \<Rightarrow> addr option option" where
  "parent_of s a = map_option parent (objs s a)"

lemma tree_links_alt:
  "tree_links s (Node a ts) \<longleftrightarrow> kids_of s a = Some (map root ts) \<and>
     (\<forall>t \<in> set ts. parent_of s (root t) = Some (Some a) \<and> tree_links s t)"
  by (auto simp: kids_of_def parent_of_def)

declare tree_links.simps [simp del]

lemma tree_links_cong:
  "tree_links s t \<Longrightarrow> (\<And>x. x \<in> set (preorder t) \<Longrightarrow> kids_of s' x = kids_of s x) \<Longrightarrow>
   (\<And>x. x \<in> set (preorder t) \<Longrightarrow> x \<noteq> root t \<Longrightarrow> parent_of s' x = parent_of s x) \<Longrightarrow> distinct (preorder t) \<Longrightarrow>
   tree_links s' t"
proof (induction t)
  case (Node a ts)
  have "tree_links s' u \<and> parent_of s' (root u) = Some (Some a)" if u: "u \<in> set ts" for u
  proof -
    have ua: "a \<notin> set (preorder u)" "distinct (preorder u)" using Node.prems(4) u by (auto simp: distinct_concat_iff)
    have "tree_links s' u"
      using Node.prems(1-3) ua u by (intro Node.IH [OF u]) (auto simp: tree_links_alt)
    moreover have "parent_of s' (root u) = parent_of s (root u)"
    proof (rule Node.prems(3))
      show "root u \<in> set (preorder (Node a ts))" using u by (auto intro!: bexI [of _ u])
      show "root u \<noteq> root (Node a ts)" using ua(1) root_in [of u] by (metis otree.sel(1))
    qed
    ultimately show ?thesis using Node.prems(1) u by (simp add: tree_links_alt)
  qed
  then show ?case using Node.prems(1,2) by (simp add: tree_links_alt)
qed

lemma graft_links:
  assumes "tree_links s t" and "distinct (preorder t)"
    and k: "\<And>x. x \<in> set (preorder t) \<Longrightarrow> kids_of s' x = map_option (\<lambda>cs. if x = a then cs @ [root u] else cs) (kids_of s x)"
    and p: "\<And>x. x \<in> set (preorder t) \<Longrightarrow> parent_of s' x = parent_of s x"
    and u: "tree_links s' u" "parent_of s' (root u) = Some (Some a)"
  shows "tree_links s' (graft a u t)"
  using assms(1-4)
proof (induction t)
  case (Node x ts)
  have sub: "tree_links s' (graft a u v) \<and> parent_of s' (root v) = Some (Some x)" if v: "v \<in> set ts" for v
  proof -
    have in_ts: "y \<in> set (preorder (Node x ts))" if "y \<in> set (preorder v)" for y using that v by auto
    have "tree_links s' (graft a u v)"
      using Node.prems v in_ts by (intro Node.IH [OF v]) (auto simp: tree_links_alt distinct_concat_iff)
    moreover have "parent_of s' (root v) = parent_of s (root v)" by (rule Node.prems(4) [OF in_ts]) simp
    ultimately show ?thesis using Node.prems(1) v by (simp add: tree_links_alt)
  qed
  have "kids_of s' x = Some (map root ts @ (if x = a then [root u] else []))"
    using Node.prems(1) Node.prems(3) [of x] by (simp add: tree_links_alt)
  then show ?case using sub u by (auto simp: tree_links_alt comp_def)
qed

lemma pack_effect:
  assumes "objs s c = Some e" and "objs s a = Some d" and "a \<noteq> c"
  shows "\<exists>s'. dataobject_pack a c s = Inr s' \<and> next_addr s' = next_addr s \<and>
     (\<forall>x. kids_of s' x = map_option (\<lambda>cs. if x = a then cs @ [c] else cs) (kids_of s x)) \<and>
     (\<forall>x. x \<noteq> c \<longrightarrow> parent_of s' x = parent_of s x) \<and> parent_of s' c = Some (Some a)"
  using assms by (auto simp: dataobject_pack_def heap_defs kids_of_def parent_of_def option.map_comp comp_def map_option_case
      split: option.splits)

lemma is_tree_alt:
  "is_tree s t \<longleftrightarrow> tree_links s t \<and> distinct (preorder t) \<and> (\<forall>a \<in> set (preorder t). a < next_addr s) \<and>
     parent_of s (root t) = Some None"
  by (auto simp: is_tree_def parent_of_def)

lemma tree_links_alloc: "tree_links s t \<Longrightarrow> x \<in> set (preorder t) \<Longrightarrow> objs s x \<noteq> None"
  by (induction t) (auto simp: tree_links_alt kids_of_def)

section \<open>Properties\<close>

text \<open>
  C2: on every object tree \<open>dataobject_getTree\<close> and \<open>dataobject_treeIndex\<close> are inverse to each other:
  they terminate, number the nodes from 0 in depth-first order without gaps, and a number beyond the last
  node gives NULL.
\<close>

theorem getTree_treeIndex_inverse:
  assumes "is_tree s t"
  shows "(\<forall>a \<in> set (preorder t). \<exists>i. dataobject_treeIndex s a = Inr i \<and> 0 \<le> i \<and>
        dataobject_getTree s (root t) i = Inr (Some a)) \<and>
     (\<forall>i. 0 \<le> i \<and> i < int (length (preorder t)) \<longrightarrow>
        (\<exists>a. dataobject_getTree s (root t) i = Inr (Some a) \<and> dataobject_treeIndex s a = Inr i)) \<and>
     (\<forall>i. int (length (preorder t)) \<le> i \<longrightarrow> dataobject_getTree s (root t) i = Inr None)"
proof (intro conjI ballI allI impI)
  fix a assume a: "a \<in> set (preorder t)"
  then show "\<exists>i. dataobject_treeIndex s a = Inr i \<and> 0 \<le> i \<and> dataobject_getTree s (root t) i = Inr (Some a)"
    using treeIndex_run [OF assms a] getTree_run [OF assms, of "int (pos_in a (preorder t))"] pos_in_nth [OF a] by auto
next
  fix i :: int assume i: "0 \<le> i \<and> i < int (length (preorder t))"
  let ?a = "preorder t ! nat i"
  have in_t: "?a \<in> set (preorder t)" using i by (intro nth_mem) auto
  have "pos_in ?a (preorder t) = nat i"
  proof -
    have "nat i < length (preorder t)" "distinct (preorder t)" using i assms by (auto simp: is_tree_def)
    then show ?thesis using pos_in_nth [OF in_t] nth_eq_iff_index_eq by blast
  qed
  then show "\<exists>a. dataobject_getTree s (root t) i = Inr (Some a) \<and> dataobject_treeIndex s a = Inr i"
    using getTree_run [OF assms, of i] treeIndex_run [OF assms in_t] i by simp
next
  fix i :: int assume "int (length (preorder t)) \<le> i"
  then show "dataobject_getTree s (root t) i = Inr None" using getTree_run [OF assms, of i] by simp
qed

text \<open>A root with two children, the first of which has one child.\<close>

definition tree_store :: store where
  "tree_store = demo_store\<lparr>objs := [0 \<mapsto> new_obj\<lparr>children := [1, 3]\<rparr>, 1 \<mapsto> new_obj\<lparr>children := [2], parent := Some 0\<rparr>,
     2 \<mapsto> new_obj\<lparr>parent := Some 1\<rparr>, 3 \<mapsto> new_obj\<lparr>parent := Some 0\<rparr>, 4 \<mapsto> new_obj], next_addr := 5\<rparr>"

definition demo_tree :: otree where
  "demo_tree = Node 0 [Node 1 [Node 2 []], Node 3 []]"

lemma demo_tree_ok: "is_tree tree_store demo_tree" "is_tree tree_store (Node 4 [])"
  by (auto simp: is_tree_alt demo_tree_def tree_store_def tree_links_alt kids_of_def parent_of_def new_obj_def)

theorem getTree_treeIndex_inverse_witness:
  "\<exists>i. dataobject_treeIndex tree_store 3 = Inr i \<and> dataobject_getTree tree_store 0 i = Inr (Some 3)"
  using getTree_treeIndex_inverse [OF demo_tree_ok(1)] by (auto simp: demo_tree_def)

lemma pack_grafts:
  assumes "is_tree s t" and "is_tree s u" and "set (preorder t) \<inter> set (preorder u) = {}" and "a \<in> set (preorder t)"
  shows "\<exists>s'. dataobject_pack a (root u) s = Inr s' \<and> is_tree s' (graft a u t) \<and>
     (\<forall>x \<in> set (preorder t) \<union> set (preorder u). dataobject_superparent s' x = Inr (root t))"
proof -
  have ne: "a \<noteq> root u" using assms(3,4) root_in [of u] by blast
  obtain e d where "objs s (root u) = Some e" "objs s a = Some d"
    using tree_links_alloc [of s u "root u"] tree_links_alloc [of s t a] assms by (auto simp: is_tree_def)
  from pack_effect [OF this ne] obtain s' where s': "dataobject_pack a (root u) s = Inr s'" "next_addr s' = next_addr s"
    "\<And>x. kids_of s' x = map_option (\<lambda>cs. if x = a then cs @ [root u] else cs) (kids_of s x)"
    "\<And>x. x \<noteq> root u \<Longrightarrow> parent_of s' x = parent_of s x" "parent_of s' (root u) = Some (Some a)" by blast
  have nt: "root u \<notin> set (preorder t)" and au: "a \<notin> set (preorder u)" using assms(3,4) root_in [of u] by blast+
  have lu: "tree_links s' u"
  proof (rule tree_links_cong)
    show "tree_links s u" "distinct (preorder u)" using assms(2) by (auto simp: is_tree_def)
    show "kids_of s' x = kids_of s x" if "x \<in> set (preorder u)" for x
      using s'(3) [of x] that au by (cases "kids_of s x") auto
    show "parent_of s' x = parent_of s x" if "x \<noteq> root u" for x using s'(4) that by blast
  qed
  have "tree_links s' (graft a u t)"
  proof (rule graft_links [OF _ _ _ _ lu s'(5)])
    show "tree_links s t" "distinct (preorder t)" using assms(1) by (auto simp: is_tree_def)
    show "kids_of s' x = map_option (\<lambda>cs. if x = a then cs @ [root u] else cs) (kids_of s x)" for x by (rule s'(3))
    show "parent_of s' x = parent_of s x" if "x \<in> set (preorder t)" for x using s'(4) that nt by metis
  qed
  moreover have pre: "distinct (preorder (graft a u t)) \<and> set (preorder (graft a u t)) = set (preorder t) \<union> set (preorder u)"
    using assms by (intro preorder_graft) (auto simp: is_tree_def)
  moreover have "parent_of s' (root t) = Some None"
    using s'(4) [of "root t"] nt root_in [of t] assms(1) by (metis is_tree_alt)
  ultimately have "is_tree s' (graft a u t)"
    using assms(1,2) s'(2) by (auto simp: is_tree_alt)
  with s'(1) pre superparent_run [of s' "graft a u t"] show ?thesis by auto
qed

text \<open>
  C16: packing the root of one tree under any node of another, disjoint one succeeds and yields
  the tree with the new subtree as the last child of that node, so that all walks stay
  well-behaved; the root of every node is afterwards the root of the large tree.
\<close>

theorem dataobject_pack_grafts:
  assumes "is_tree s t" and "is_tree s u" and "set (preorder t) \<inter> set (preorder u) = {}" and "a \<in> set (preorder t)"
  shows "\<exists>s'. dataobject_pack a (root u) s = Inr s' \<and> is_tree s' (graft a u t) \<and>
     (\<forall>x \<in> set (preorder t) \<union> set (preorder u). dataobject_superparent s' x = Inr (root t))"
  by (rule pack_grafts [OF assms])

theorem dataobject_pack_grafts_witness:
  "\<exists>s'. dataobject_pack 1 4 tree_store = Inr s' \<and> is_tree s' (Node 0 [Node 1 [Node 2 [], Node 4 []], Node 3 []]) \<and>
     dataobject_superparent s' 4 = Inr 0"
  using dataobject_pack_grafts [OF demo_tree_ok, of 1] by (auto simp: demo_tree_def)

lemma superparent_self: "objs s a = Some d \<Longrightarrow> parent d = Some a \<Longrightarrow> superparent_loop n s a = Inl Diverge"
  by (induction n) (auto simp: get_obj_def)

text \<open>
  C31: \<open>dataobject_setParent\<close> makes an object its own parent whatever parent is passed, after which
  \<open>dataobject_superparent\<close>, and with it \<open>dataobject_treeIndex\<close> and \<open>dataobject_findScriptContext\<close>, do not
  return.
\<close>

theorem dataobject_setParent_cycle:
  assumes "objs s a = Some d"
  shows "\<exists>s'. dataobject_setParent a p s = Inr s' \<and> dataobject_parent s' a = Inr (Some a) \<and>
     dataobject_superparent s' a = Inl Diverge \<and> dataobject_treeIndex s' a = Inl Diverge \<and>
     dataobject_findScriptContext s' a = Inl Diverge"
proof -
  let ?s = "put_obj a (d\<lparr>parent := Some a\<rparr>) s"
  have "dataobject_setParent a p s = Inr ?s" using assms by (simp add: dataobject_setParent_def upd_obj_def get_obj_def)
  moreover have o': "objs ?s a = Some (d\<lparr>parent := Some a\<rparr>)" by (simp add: put_obj_def)
  moreover have sp: "dataobject_superparent ?s a = Inl Diverge"
    unfolding dataobject_superparent_def by (rule superparent_self [OF o']) simp
  ultimately show ?thesis
    by (simp add: dataobject_treeIndex_def dataobject_findScriptContext_def dataobject_parent_def get_obj_def)
qed

theorem dataobject_setParent_cycle_witness:
  "\<exists>s'. dataobject_setParent 4 0 tree_store = Inr s' \<and> dataobject_superparent s' 4 = Inl Diverge"
  using dataobject_setParent_cycle [of tree_store 4 new_obj 0] by (auto simp: tree_store_def)

end
