(* ===== verification/Object_Update.thy ===== *)
theory Object_Update
  imports Object_Tree
begin

text \<open>
  Marking, deleting and expanding objects: \<open>dataobject_delete\<close>, \<open>dataobject_setIsModified\<close> and
  \<open>dataobject_setIsModifiedTree\<close> of \<open>DataObject.c\<close>, the dirty marks and the searches of \<open>Widget.c\<close>
  and \<open>array_expand\<close> of \<open>ArrayWidget.c\<close>.

  The three functions \<open>dataobject_setIsModified\<close>, \<open>array_expand\<close> and \<open>dataobject_delete\<close> call each other.
  The last two take the first as an argument, and \<open>setIsModified_loop\<close> closes the circle with fuel. A chain
  of such calls without repetition has at most every object and every copy of one in it, which is what the fuel of
  \<open>dataobject_setIsModified\<close> allows; a longer chain has come back to an object that is still being processed.
\<close>

section \<open>Dirty marks\<close>

fun markDirtyChild_loop :: "nat \<Rightarrow> addr \<Rightarrow> store \<Rightarrow> store res" where
  "markDirtyChild_loop 0 w s = Inl Diverge"
| "markDirtyChild_loop (Suc n) w s =
     bind_res (dataobject_setDirty w s) (\<lambda>s.
     bind_res (dataobject_getEnum s w EMO_FIELD_TYPE) (\<lambda>type.
     bind_res (EMO_DOF_IS_TYPE s type EMO_TYPE_FRAME) (\<lambda>isframe.
     bind_res (EMO_DOF_IS_TYPE s type EMO_TYPE_REFERENCE) (\<lambda>isref.
     if isframe then
       bind_res (widget_getDataObject s w) (\<lambda>child.
       if child = w then Inr s
       else (case manager_applicationForDataObject s child of
               None \<Rightarrow> Inr s
             | Some app \<Rightarrow> (case app_screen app of None \<Rightarrow> Inr s | Some scr \<Rightarrow> markDirtyChild_loop n scr s)))
     else if isref then
       bind_res (widget_getDataObject s w) (\<lambda>child.
       if child = w then Inr s else markDirtyChild_loop n child s)
     else
       bind_res (dataobject_childIterator s w) (\<lambda>cs. each (markDirtyChild_loop n) cs s)))))"

definition widget_markDirtyChild :: "addr \<Rightarrow> store \<Rightarrow> store res" where
  "widget_markDirtyChild w s = markDirtyChild_loop (Suc (next_addr s)) w s"

fun markDirtyUp_loop :: "nat \<Rightarrow> addr \<Rightarrow> store \<Rightarrow> store res" where
  "markDirtyUp_loop 0 w s = Inl Diverge"
| "markDirtyUp_loop (Suc n) w s =
     bind_res (get_obj s w) (\<lambda>d.
     case parent d of
       None \<Rightarrow> Inr s
     | Some p \<Rightarrow> bind_res (dataobject_setDirty p s) (markDirtyUp_loop n p))"

definition widget_markDirty :: "addr \<Rightarrow> store \<Rightarrow> store res" where
  "widget_markDirty w s =
     bind_res (widget_markDirtyChild w s) (\<lambda>s. markDirtyUp_loop (Suc (next_addr s)) w s)"

section \<open>Searching a field value\<close>

fun findStringField_loop :: "nat \<Rightarrow> store \<Rightarrow> int \<Rightarrow> string \<Rightarrow> addr \<Rightarrow> addr option res" where
  "findStringField_loop 0 s key val w = Inl Diverge"
| "findStringField_loop (Suc n) s key val w =
     bind_res (dataobject_getEnum s w key) (\<lambda>field.
     bind_res (dataobjectfield_isString s field val) (\<lambda>found.
     if found then Inr (Some w)
     else
       bind_res (dataobject_getEnum s w EMO_FIELD_TYPE) (\<lambda>type.
       bind_res (EMO_DOF_IS_TYPE s type EMO_TYPE_FRAME) (\<lambda>isframe.
       bind_res (EMO_DOF_IS_TYPE s type EMO_TYPE_REFERENCE) (\<lambda>isref.
       if isframe then
         bind_res (widget_getDataObject s w) (\<lambda>child.
         if child = w then Inr None
         else (case manager_applicationForDataObject s child of
                 None \<Rightarrow> Inr None
               | Some app \<Rightarrow>
                   (case app_screen app of None \<Rightarrow> Inr None | Some scr \<Rightarrow> findStringField_loop n s key val scr)))
       else if isref then
         bind_res (widget_getDataObject s w) (\<lambda>child.
         if child = w then Inr None else findStringField_loop n s key val child)
       else
         bind_res (dataobject_childIterator s w) (first_some (findStringField_loop n s key val)))))))"

definition widget_findStringField :: "store \<Rightarrow> addr \<Rightarrow> int \<Rightarrow> string \<Rightarrow> addr option res" where
  "widget_findStringField s w key val = findStringField_loop (Suc (next_addr s)) s key val w"

text \<open>The value is a string of the caller or a pointer into the table of type names.\<close>

fun findStringFieldParent_loop :: "nat \<Rightarrow> store \<Rightarrow> int \<Rightarrow> dof_string \<Rightarrow> addr \<Rightarrow> addr option res" where
  "findStringFieldParent_loop 0 s key val w = Inl Diverge"
| "findStringFieldParent_loop (Suc n) s key val w =
     bind_res (dataobject_getEnum s w key) (\<lambda>field.
     bind_res
       (case val of
          Builtin p \<Rightarrow>
            if key = EMO_FIELD_TYPE \<and> is_builtin val then EMO_DOF_IS_TYPE s field p
            else dataobjectfield_isString s field (str_of val)
        | Owned str \<Rightarrow> dataobjectfield_isString s field str) (\<lambda>found.
     if found then Inr (Some w)
     else
       bind_res (get_obj s w) (\<lambda>d.
       case parent d of None \<Rightarrow> Inr None | Some p \<Rightarrow> findStringFieldParent_loop n s key val p)))"

definition widget_findStringFieldParent :: "store \<Rightarrow> addr \<Rightarrow> int \<Rightarrow> dof_string \<Rightarrow> addr option res" where
  "widget_findStringFieldParent s w key val = findStringFieldParent_loop (Suc (next_addr s)) s key val w"

section \<open>Array widgets\<close>

definition widget_isArraySource :: "store \<Rightarrow> addr \<Rightarrow> int res" where
  "widget_isArraySource s w =
     bind_res (dataobject_getEnum s w EMO_FIELD_ARRAYSOURCE) (dataobjectfield_isTrue s)"

fun setDataObjectArray_loop :: "nat \<Rightarrow> addr \<Rightarrow> addr \<Rightarrow> store \<Rightarrow> store res" where
  "setDataObjectArray_loop 0 dobj w s = Inl Diverge"
| "setDataObjectArray_loop (Suc n) dobj w s =
     bind_res (widget_isArraySource s w) (\<lambda>src.
     bind_res (if src \<noteq> 0 then widget_setDataObject w (Some dobj) s else Inr s) (\<lambda>s.
     bind_res (dataobject_childIterator s w) (\<lambda>cs. each (setDataObjectArray_loop n dobj) cs s)))"

definition widget_setDataObjectArray :: "addr \<Rightarrow> addr \<Rightarrow> store \<Rightarrow> store res" where
  "widget_setDataObjectArray w dobj s = setDataObjectArray_loop (Suc (next_addr s)) dobj w s"

text \<open>
  The loop over the list of referencing widgets reads the list again after each item, since
  processing an item may append to it; \<open>i\<close> is the position of the iterator.
\<close>

fun each_reference :: "nat \<Rightarrow> (addr \<Rightarrow> store \<Rightarrow> store res) \<Rightarrow> addr \<Rightarrow> nat \<Rightarrow> store \<Rightarrow> store res" where
  "each_reference 0 f dobj i s = Inl Diverge"
| "each_reference (Suc n) f dobj i s =
     bind_res (get_obj s dobj) (\<lambda>d.
     if i < length (referenced d)
     then bind_res (f (referenced d ! i) s) (each_reference n f dobj (Suc i))
     else Inr s)"

fun free_fields :: "addr list \<Rightarrow> store \<Rightarrow> store res" where
  "free_fields [] s = Inr s"
| "free_fields (f # fs) s = bind_res (dataobjectfield_free f s) (free_fields fs)"

text \<open>
  \<open>dataobject_delete\<close>. The entries of the string map are removed one by one; the first removal from the
  map of numbered fields passes the number to \<open>p_free\<close>, as \<open>Key_Map\<close> shows for \<open>mapIterator_remove\<close>.
\<close>

definition dataobject_delete_with :: "(addr \<Rightarrow> store \<Rightarrow> store res) \<Rightarrow> addr \<Rightarrow> store \<Rightarrow> store res" where
  "dataobject_delete_with modified dobj s =
     bind_res (get_obj s dobj) (\<lambda>d.
     bind_res (free_fields (map snd (d_data d)) s) (\<lambda>s.
     bind_res (upd_obj (\<lambda>d. d\<lparr>d_data := []\<rparr>) dobj s) (\<lambda>s.
     bind_res
       (case d_enumData d of
          [] \<Rightarrow> Inr s
        | (key, item) # rest \<Rightarrow> bind_res (dataobjectfield_free item s) (\<lambda>s. Inl BadFree)) (\<lambda>s.
     bind_res
       (each_reference (Suc (2 * next_addr s))
          (\<lambda>cw s. bind_res (upd_obj (\<lambda>c. c\<lparr>widgetData := None\<rparr>) cw s) (modified cw)) dobj 0 s) (\<lambda>s.
     bind_res (get_obj s dobj) (\<lambda>_. Inr (s\<lparr>objs := (objs s)(dobj := None)\<rparr>)))))))"

text \<open>
  \<open>list_clear\<close> frees the nodes of the list of copies and leaves the list head as it was, so the list
  keeps naming the deleted copies and the next \<open>list_append\<close> writes to a freed node: \<open>stale\<close> is the
  list being non-empty when it is cleared.
\<close>

fun expand_records ::
  "(addr \<Rightarrow> store \<Rightarrow> store res) \<Rightarrow> addr \<Rightarrow> addr \<Rightarrow> addr option \<Rightarrow> addr option \<Rightarrow> bool \<Rightarrow> int \<Rightarrow> int \<Rightarrow>
   addr list \<Rightarrow> store \<Rightarrow> store res" where
  "expand_records modified w template filterfield filtervalue stale startNumber recordIdx [] s = Inr s"
| "expand_records modified w template filterfield filtervalue stale startNumber recordIdx (rec # recs) s =
     bind_res
       (case filterfield of
          None \<Rightarrow> Inr True
        | Some ff \<Rightarrow>
            bind_res (get_fld s ff) (\<lambda>fl.
            bind_res
              (case f_val fl of
                 DOF_STRING str \<Rightarrow> dataobject_getValue s rec (str_of str)
               | DOF_INT i \<Rightarrow> dataobject_getEnum s rec (sint i)
               | _ \<Rightarrow> Inl Abort) (\<lambda>filteredObj.
            case filtervalue of
              None \<Rightarrow> Inl NullDeref
            | Some fv \<Rightarrow>
                bind_res (get_fld s fv) (\<lambda>v.
                case f_val v of
                  DOF_STRING str \<Rightarrow> dataobjectfield_isString s filteredObj (str_of str)
                | _ \<Rightarrow> Inl TypeConfusion)))) (\<lambda>pass.
     bind_res
       (if pass then
          bind_res (dataobject_copyTree template s) (\<lambda>(shim, s).
          bind_res (widget_setDataObjectArray shim rec s) (\<lambda>s.
          if stale then Inl UseAfterFree
          else
            bind_res (upd_obj (\<lambda>d. d\<lparr>arrayChildren := arrayChildren d @ [shim]\<rparr>) w s) (\<lambda>s.
            bind_res (get_obj s w) (\<lambda>d.
            bind_res (upd_obj (\<lambda>c. c\<lparr>parent := parent d\<rparr>) shim s) (\<lambda>s.
            bind_res (modified shim s) (widget_markDirty shim))))))
        else Inr s) (\<lambda>s.
     if recordIdx + 1 \<ge> startNumber then Inr s
     else expand_records modified w template filterfield filtervalue stale startNumber (recordIdx + 1) recs s))"

definition array_expand_with :: "(addr \<Rightarrow> store \<Rightarrow> store res) \<Rightarrow> addr \<Rightarrow> store \<Rightarrow> store res" where
  "array_expand_with modified w s =
     bind_res (dataobject_getChildCount s w) (\<lambda>childCount.
     if childCount \<noteq> 1 then Inr s
     else
       bind_res (widget_getDataObject s w) (\<lambda>dobj.
       if dobj = w then Inr s
       else
         bind_res (dataobject_getEnum s w EMO_FIELD_FILTERFIELD) (\<lambda>filterfield.
         bind_res (dataobject_getEnum s w EMO_FIELD_FILTERVALUE) (\<lambda>filtervalue.
         bind_res
           (case filtervalue of
              None \<Rightarrow> Inr None
            | Some fv \<Rightarrow>
                bind_res (get_fld s fv) (\<lambda>fl.
                Inr (case f_val fl of DOF_STRING _ \<Rightarrow> filterfield | _ \<Rightarrow> None))) (\<lambda>filterfield.
         bind_res (get_obj s w) (\<lambda>d.
         bind_res (each (dataobject_delete_with modified) (arrayChildren d) s) (\<lambda>s.
         bind_res (get_obj s w) (\<lambda>d.
         let stale = (arrayChildren d \<noteq> []); template = hd (children d) in
         bind_res (dataobject_getEnum s w EMO_FIELD_DIRECTION) (\<lambda>direction.
         bind_res (dataobject_getEnumAsInt w EMO_FIELD_STARTCOUNT s) (\<lambda>(startfield, s).
         bind_res
           (case startfield of
              None \<Rightarrow> Inr 30
            | Some f \<Rightarrow>
                bind_res (get_fld s f) (\<lambda>fl. Inr (case f_val fl of DOF_INT i \<Rightarrow> sint i | _ \<Rightarrow> 30))) (\<lambda>startNumber.
         bind_res (dataobjectfield_isString s direction ''prepend'') (\<lambda>prepend.
         bind_res (get_obj s dobj) (\<lambda>o'.
         expand_records modified w template filterfield filtervalue stale startNumber 0
           (if prepend then rev (children o') else children o') s)))))))))))))"

section \<open>Modification marks\<close>

definition upd_renderman :: "(RenderManager \<Rightarrow> RenderManager res) \<Rightarrow> store \<Rightarrow> store res" where
  "upd_renderman f s = bind_res (f (renderman s)) (\<lambda>r. Inr (s\<lparr>renderman := r\<rparr>))"

fun setIsModified_loop :: "nat \<Rightarrow> bool \<Rightarrow> addr \<Rightarrow> store \<Rightarrow> store res" where
  "setIsModified_loop 0 isModified dobj s = Inl Diverge"
| "setIsModified_loop (Suc n) isModified dobj s =
     bind_res (get_obj s dobj) (\<lambda>d.
     if state d \<noteq> DOS_OK then Inr s
     else
       bind_res
         (if isModified then
            bind_res (upd_renderman (renderman_queue dobj) s)
              (upd_obj (\<lambda>d. d\<lparr>flags1 := flags1 d OR DO_FLAG_CHANGED\<rparr>) dobj)
          else
            bind_res (upd_renderman (renderman_dequeue dobj) s)
              (upd_obj (\<lambda>d. d\<lparr>flags1 := flags1 d AND NOT DO_FLAG_CHANGED\<rparr>) dobj)) (\<lambda>s.
       bind_res (dataobject_getEnum s dobj EMO_FIELD_TYPE) (\<lambda>type.
       bind_res (EMO_DOF_IS_TYPE s type EMO_TYPE_ARRAY) (\<lambda>isarr.
       bind_res
         (if isarr then
            bind_res (array_expand_with (setIsModified_loop n True) dobj s) (\<lambda>s.
            let s = s\<lparr>renderman := renderman_clearQueue (renderman s)\<rparr> in
            bind_res (dataobject_superparent s dobj) (\<lambda>top. widget_markDirty top s))
          else Inr s) (\<lambda>s.
       each_reference (Suc (2 * next_addr s)) (setIsModified_loop n isModified) dobj 0 s)))))"

definition dataobject_setIsModified :: "bool \<Rightarrow> addr \<Rightarrow> store \<Rightarrow> store res" where
  "dataobject_setIsModified isModified dobj s = setIsModified_loop (Suc (2 * next_addr s)) isModified dobj s"

definition array_expand :: "addr \<Rightarrow> store \<Rightarrow> store res" where
  "array_expand = array_expand_with (dataobject_setIsModified True)"

definition dataobject_delete :: "addr \<Rightarrow> store \<Rightarrow> store res" where
  "dataobject_delete = dataobject_delete_with (dataobject_setIsModified True)"

fun setIsModifiedTree_loop :: "nat \<Rightarrow> bool \<Rightarrow> addr \<Rightarrow> store \<Rightarrow> store res" where
  "setIsModifiedTree_loop 0 isModified dobj s = Inl Diverge"
| "setIsModifiedTree_loop (Suc n) isModified dobj s =
     bind_res (dataobject_setIsModified isModified dobj s) (\<lambda>s.
     bind_res (get_obj s dobj) (\<lambda>d. each (setIsModifiedTree_loop n isModified) (children d) s))"

definition dataobject_setIsModifiedTree :: "bool \<Rightarrow> addr \<Rightarrow> store \<Rightarrow> store res" where
  "dataobject_setIsModifiedTree isModified dobj s = setIsModifiedTree_loop (Suc (next_addr s)) isModified dobj s"

section \<open>Dirty marks on a tree\<close>

text \<open>A widget that lays out its own children: its type is neither frame, reference nor array.\<close>

definition container :: "store \<Rightarrow> addr \<Rightarrow> bool" where
  "container s a \<longleftrightarrow> (\<exists>d f fl p. objs s a = Some d \<and> am_find EMO_FIELD_TYPE (d_enumData d) = Some f \<and> flds s f = Some fl \<and>
     f_val fl = DOF_STRING (Builtin p) \<and> p \<notin> {EMO_TYPE_FRAME, EMO_TYPE_REFERENCE, EMO_TYPE_ARRAY} \<and> f_flags fl AND DOFF_ARRAYSOURCE = 0)"

text \<open>The store with the dirty flag set at the objects \<open>A\<close> and nothing else changed.\<close>

definition dirty_at :: "addr set \<Rightarrow> store \<Rightarrow> store" where
  "dirty_at A s = s\<lparr>objs := (\<lambda>a. if a \<in> A then map_option (\<lambda>d. d\<lparr>flags1 := flags1 d OR DO_FLAG_DIRTY\<rparr>) (objs s a) else objs s a)\<rparr>"

fun below :: "addr \<Rightarrow> otree \<Rightarrow> addr set" where
  "below x (Node a ts) = (if a = x then set (preorder (Node a ts)) else \<Union> (below x ` set ts))"

fun ancestors :: "addr \<Rightarrow> otree \<Rightarrow> addr set" where
  "ancestors x (Node a ts) = (if x \<in> set (concat (map preorder ts)) then insert a (\<Union> (ancestors x ` set ts)) else {})"

lemma dirty_at_simps [simp]:
  "flds (dirty_at A s) = flds s" "next_addr (dirty_at A s) = next_addr s" "kids_of (dirty_at A s) = kids_of s"
  "parent_of (dirty_at A s) = parent_of s" "dirty_at {} s = s"
  by (auto simp: dirty_at_def kids_of_def parent_of_def fun_eq_iff option.map_comp comp_def)

lemma dirty_at_twice [simp]: "dirty_at A (dirty_at B s) = dirty_at (A \<union> B) s"
proof -
  have "(f OR DO_FLAG_DIRTY) OR DO_FLAG_DIRTY = f OR DO_FLAG_DIRTY" for f :: "32 word" by (simp add: or.assoc)
  then show ?thesis by (auto simp: dirty_at_def fun_eq_iff option.map_comp comp_def intro!: option.map_cong)
qed

lemma container_dirty_at [simp]: "container (dirty_at A s) a = container s a"
  by (auto simp: container_def dirty_at_def)

lemma tree_links_dirty_at [simp]: "tree_links (dirty_at A s) t = tree_links s t"
  by (induction t) (simp add: tree_links_alt)

lemma setDirty_run: "objs s a = Some d \<Longrightarrow> dataobject_setDirty a s = Inr (dirty_at {a} s)"
  by (auto simp: dataobject_setDirty_def heap_defs dirty_at_def fun_eq_iff)

lemma container_type:
  assumes "container s a"
  shows "\<exists>f. dataobject_getEnum s a EMO_FIELD_TYPE = Inr (Some f) \<and> EMO_DOF_IS_TYPE s (Some f) EMO_TYPE_FRAME = Inr False \<and>
     EMO_DOF_IS_TYPE s (Some f) EMO_TYPE_REFERENCE = Inr False \<and> EMO_DOF_IS_TYPE s (Some f) EMO_TYPE_ARRAY = Inr False"
  using assms by (auto simp: container_def dataobject_getEnum_def EMO_DOF_IS_TYPE_def heap_defs c_assert_def EMO_FIELD_TYPE_def)

lemma container_children:
  assumes "kids_of s a = Some (map root ts)" and "\<forall>t \<in> set ts. container s (root t)"
  shows "dataobject_childIterator s a = Inr (map root ts)"
proof (cases ts)
  case Nil
  with assms(1) show ?thesis by (auto simp: dataobject_childIterator_def kids_of_def heap_defs)
next
  case (Cons t us)
  with container_type [of s "root t"] assms show ?thesis by (auto simp: dataobject_childIterator_def kids_of_def heap_defs)
qed

lemma each_dirty:
  assumes "\<And>t s'. t \<in> set ts \<Longrightarrow> P s' \<Longrightarrow> f (root t) s' = Inr (dirty_at (set (preorder t)) s')"
    and "\<And>A s'. P (dirty_at A s') = P s'" and "P s"
  shows "each f (map root ts) s = Inr (dirty_at (set (concat (map preorder ts))) s)"
  using assms(1,3)
proof (induction ts arbitrary: s)
  case (Cons t ts)
  have "f (root t) s = Inr (dirty_at (set (preorder t)) s)" by (rule Cons.prems(1)) (auto simp: Cons.prems(2))
  moreover have "each f (map root ts) (dirty_at (set (preorder t)) s) =
      Inr (dirty_at (set (concat (map preorder ts))) (dirty_at (set (preorder t)) s))"
    by (rule Cons.IH) (auto simp: Cons.prems assms(2))
  ultimately show ?case by (simp add: Un_commute)
qed simp

lemma markDirtyChild_run:
  "tree_links s t \<Longrightarrow> \<forall>a \<in> set (preorder t). container s a \<Longrightarrow> height t \<le> n \<Longrightarrow>
   markDirtyChild_loop n (root t) s = Inr (dirty_at (set (preorder t)) s)"
proof (induction t arbitrary: s n)
  case (Node a ts)
  then obtain m where n: "n = Suc m" by (cases n) auto
  let ?s = "dirty_at {a} s" and ?P = "\<lambda>s. tree_links s (Node a ts) \<and> (\<forall>b \<in> set (preorder (Node a ts)). container s b)"
  have kids: "kids_of s a = Some (map root ts)" using Node.prems(1) by (simp add: tree_links_alt)
  then obtain d where d: "objs s a = Some d" by (auto simp: kids_of_def)
  obtain f where f: "dataobject_getEnum ?s a EMO_FIELD_TYPE = Inr (Some f)" "EMO_DOF_IS_TYPE ?s (Some f) EMO_TYPE_FRAME = Inr False"
      "EMO_DOF_IS_TYPE ?s (Some f) EMO_TYPE_REFERENCE = Inr False"
    using container_type [of ?s a] Node.prems(2) by auto
  have it: "dataobject_childIterator ?s a = Inr (map root ts)"
    by (rule container_children) (use kids Node.prems(2) in \<open>auto\<close>)
  have "each (markDirtyChild_loop m) (map root ts) ?s = Inr (dirty_at (set (concat (map preorder ts))) ?s)"
  proof (rule each_dirty [where P = ?P])
    fix t s'
    assume t: "t \<in> set ts" and P: "?P s'"
    have "height t \<le> m" using Node.prems(3) n height_sub [OF t] by simp
    moreover have "tree_links s' t" "\<forall>b \<in> set (preorder t). container s' b" using P t by (auto simp: tree_links_alt)
    ultimately show "markDirtyChild_loop m (root t) s' = Inr (dirty_at (set (preorder t)) s')" using Node.IH [OF t] by blast
  next
    show "?P (dirty_at A s') = ?P s'" for A s' by (simp only: tree_links_dirty_at container_dirty_at)
    show "?P ?s" using Node.prems by (simp only: tree_links_dirty_at container_dirty_at)
  qed
  with setDirty_run [OF d] f it show ?case by (simp add: n)
qed

lemma outside_below: "x \<notin> set (preorder t) \<Longrightarrow> below x t = {} \<and> ancestors x t = {}"
  by (induction t) auto

lemma only_below:
  assumes "distinct (concat (map preorder ts))" and "t \<in> set ts" and "x \<in> set (preorder t)"
  shows "\<Union> (below x ` set ts) = below x t \<and> \<Union> (ancestors x ` set ts) = ancestors x t"
proof -
  from assms(2) obtain us vs where ts: "ts = us @ t # vs" by (meson split_list)
  with assms(1,3) have "\<forall>t' \<in> set us \<union> set vs. x \<notin> set (preorder t')" by auto
  then have "\<forall>t' \<in> set us \<union> set vs. below x t' = {} \<and> ancestors x t' = {}" using outside_below by blast
  then show ?thesis using ts by auto
qed

lemma below_subtree:
  "tree_links s t \<Longrightarrow> distinct (preorder t) \<Longrightarrow> x \<in> set (preorder t) \<Longrightarrow>
   \<exists>u. root u = x \<and> tree_links s u \<and> height u \<le> height t \<and> set (preorder u) = below x t \<and> below x t \<subseteq> set (preorder t)"
proof (induction t)
  case (Node a ts)
  show ?case
  proof (cases "x = a")
    case False
    with Node.prems(3) obtain t where t: "t \<in> set ts" "x \<in> set (preorder t)" by auto
    from Node.prems(2) t(1) have "distinct (preorder t)" by (auto simp: distinct_concat_iff)
    moreover have "tree_links s t" using Node.prems(1) t(1) by (simp add: tree_links_alt)
    ultimately obtain u where u: "root u = x" "tree_links s u" "height u \<le> height t" "set (preorder u) = below x t"
        "below x t \<subseteq> set (preorder t)" using Node.IH [OF t(1)] t(2) by blast
    moreover have "below x (Node a ts) = below x t" using only_below [OF _ t] Node.prems(2) False by simp
    moreover have "height t \<le> height (Node a ts)" using height_sub [OF t(1)] by simp
    ultimately show ?thesis using t(1) by (intro exI [of _ u]) auto
  qed (use Node.prems in \<open>auto intro!: exI [of _ "Node a ts"]\<close>)
qed

lemma markDirtyUp_climb:
  "tree_links s t \<Longrightarrow> distinct (preorder t) \<Longrightarrow> x \<in> set (preorder t) \<Longrightarrow>
   \<exists>k < height t. \<forall>n A. markDirtyUp_loop (Suc n + k) x (dirty_at A s) = markDirtyUp_loop (Suc n) (root t) (dirty_at (A \<union> ancestors x t) s)"
proof (induction t)
  case (Node a ts)
  show ?case
  proof (cases "x = a")
    case True
    with Node.prems(2) show ?thesis by (intro exI [of _ 0]) auto
  next
    case False
    with Node.prems(3) obtain t where t: "t \<in> set ts" "x \<in> set (preorder t)" by auto
    from Node.prems(2) t(1) have "distinct (preorder t)" by (auto simp: distinct_concat_iff)
    moreover have l: "tree_links s t" "parent_of s (root t) = Some (Some a)" using Node.prems(1) t(1) by (simp_all add: tree_links_alt)
    ultimately obtain k where k: "k < height t"
      "\<And>n A. markDirtyUp_loop (Suc n + k) x (dirty_at A s) = markDirtyUp_loop (Suc n) (root t) (dirty_at (A \<union> ancestors x t) s)"
      using Node.IH [OF t(1)] t(2) by blast
    have up: "ancestors x (Node a ts) = insert a (ancestors x t)" using only_below [OF _ t] Node.prems(2) t by auto
    have step: "markDirtyUp_loop (Suc (Suc n)) (root t) (dirty_at B s) = markDirtyUp_loop (Suc n) a (dirty_at (insert a B) s)" for n B
    proof -
      have "parent_of (dirty_at B s) (root t) = Some (Some a)" using l(2) by simp
      then obtain d where d: "objs (dirty_at B s) (root t) = Some d" "parent d = Some a"
        unfolding parent_of_def by (auto simp del: dirty_at_simps)
      have "kids_of (dirty_at B s) a \<noteq> None" using Node.prems(1) by (simp add: tree_links_alt)
      then obtain e where "objs (dirty_at B s) a = Some e" unfolding kids_of_def by (auto simp del: dirty_at_simps)
      from setDirty_run [OF this] d show ?thesis by (simp add: get_obj_def)
    qed
    have "markDirtyUp_loop (Suc n + Suc k) x (dirty_at A s) = markDirtyUp_loop (Suc n) a (dirty_at (A \<union> ancestors x (Node a ts)) s)" for n A
      using k(2) [of "Suc n" A] unfolding step up by simp
    moreover have "Suc k < height (Node a ts)" using k(1) height_sub [OF t(1)] by simp
    ultimately show ?thesis by (metis otree.sel(1))
  qed
qed

text \<open>
  C20: Marking a widget dirty reaches exactly what has to be drawn again. In a tree of container widgets \<open>widget_markDirty\<close> ends, sets the
  dirty flag of the widget, of everything below it and of all its ancestors, and changes nothing else of the store: no other object, no other
  flag, no field.
\<close>

theorem widget_markDirty_exact:
  assumes "is_tree s t" and "\<forall>a \<in> set (preorder t). container s a" and "x \<in> set (preorder t)"
  shows "widget_markDirty x s = Inr (dirty_at (below x t \<union> ancestors x t) s)"
proof -
  have l: "tree_links s t" "distinct (preorder t)" and r: "parent_of s (root t) = Some None" using assms(1) by (simp_all add: is_tree_alt)
  from below_subtree [OF l assms(3)] obtain u where u: "root u = x" "tree_links s u" "height u \<le> height t"
    "set (preorder u) = below x t" "below x t \<subseteq> set (preorder t)" by blast
  have "markDirtyChild_loop (Suc (next_addr s)) (root u) s = Inr (dirty_at (set (preorder u)) s)"
    by (rule markDirtyChild_run) (use u assms(2) is_tree_height [OF assms(1)] in auto)
  then have down: "widget_markDirtyChild x s = Inr (dirty_at (below x t) s)" using u by (simp add: widget_markDirtyChild_def)
  from markDirtyUp_climb [OF l assms(3)] obtain k where k: "k < height t"
    "\<And>n A. markDirtyUp_loop (Suc n + k) x (dirty_at A s) = markDirtyUp_loop (Suc n) (root t) (dirty_at (A \<union> ancestors x t) s)" by blast
  have "Suc (next_addr s) = Suc (next_addr s - k) + k" using k(1) is_tree_height [OF assms(1)] by simp
  then have "markDirtyUp_loop (Suc (next_addr s)) x (dirty_at (below x t) s) =
      markDirtyUp_loop (Suc (next_addr s - k)) (root t) (dirty_at (below x t \<union> ancestors x t) s)" using k(2) by metis
  also have "\<dots> = Inr (dirty_at (below x t \<union> ancestors x t) s)"
  proof -
    have "parent_of (dirty_at (below x t \<union> ancestors x t) s) (root t) = Some None" using r by simp
    then obtain d where "objs (dirty_at (below x t \<union> ancestors x t) s) (root t) = Some d" "parent d = None"
      unfolding parent_of_def by (auto simp del: dirty_at_simps)
    then show ?thesis by (simp add: get_obj_def)
  qed
  finally show ?thesis unfolding widget_markDirty_def down bind_res_simps dirty_at_simps .
qed

definition box_store :: store where
  "box_store = tree_store\<lparr>objs := (\<lambda>a. map_option (\<lambda>d. d\<lparr>d_enumData := [(EMO_FIELD_TYPE, 1)]\<rparr>) (objs tree_store a)),
     flds := [1 \<mapsto> \<lparr>f_val = DOF_STRING (Builtin EMO_TYPE_BOX), f_flags = 0\<rparr>]\<rparr>"

theorem widget_markDirty_exact_witness:
  "\<exists>s'. widget_markDirty 1 box_store = Inr s' \<and> map (dataobject_isDirty s') [0, 1, 2, 3] = [Inr 1, Inr 1, Inr 1, Inr 0]"
proof -
  have "kids_of box_store = kids_of tree_store" "parent_of box_store = parent_of tree_store" "next_addr box_store = next_addr tree_store"
    by (auto simp: box_store_def kids_of_def parent_of_def fun_eq_iff option.map_comp comp_def)
  then have "is_tree box_store demo_tree" using demo_tree_ok(1) by (simp add: is_tree_alt demo_tree_def tree_links_alt)
  moreover have "\<forall>a \<in> set (preorder demo_tree). container box_store a"
    by (auto simp: demo_tree_def container_def box_store_def tree_store_def am_find_def emo_type_defs)
  ultimately have "widget_markDirty 1 box_store = Inr (dirty_at (below 1 demo_tree \<union> ancestors 1 demo_tree) box_store)"
    by (rule widget_markDirty_exact) (simp add: demo_tree_def)
  then show ?thesis
    by (simp add: demo_tree_def dataobject_isDirty_def get_obj_def dirty_at_def box_store_def tree_store_def new_obj_def DO_FLAG_DIRTY_def)
qed

section \<open>Deleting an object\<close>

lemma free_fields_run:
  "distinct fs \<Longrightarrow> \<forall>f \<in> set fs. flds s f \<noteq> None \<Longrightarrow>
   free_fields fs s = Inr (s\<lparr>flds := (\<lambda>f. if f \<in> set fs then None else flds s f)\<rparr>)"
proof (induction fs arbitrary: s)
  case (Cons f fs)
  let ?s = "s\<lparr>flds := (flds s)(f := None)\<rparr>"
  have "free_fields fs ?s = Inr (?s\<lparr>flds := (\<lambda>x. if x \<in> set fs then None else flds ?s x)\<rparr>)"
    using Cons.prems by (intro Cons.IH) auto
  then show ?case using Cons.prems(2) by (auto simp: dataobjectfield_free_def get_fld_def fun_eq_iff)
qed simp

lemma store_ok_obj:
  assumes "store_ok s" and "objs s a = Some d"
  shows "distinct (owned_fields d)" "\<forall>f \<in> set (owned_fields d). flds s f \<noteq> None"
  using assms unfolding store_ok_def owns_def obj_ok_def by blast+



end
