(* ===== verification/Sync_Context.thy ===== *)
theory Sync_Context
  imports Sync_Packet Object_Update
begin

text \<open>
  The synchronisation engine of the device: \<open>ConnectionContext.c\<close>, with \<open>manager_loadApplication\<close> of
  \<open>ApplicationManager.c\<close>, \<open>TCPSequenceID\<close> of \<open>BalTCPTransport.c\<close> and the receive handler of \<open>UITask.c\<close>.
  The configuration is that of the device, with \<open>SIMULATOR\<close> undefined and, as \<open>Cache.c\<close> has it, \<open>CACHE_DISABLE\<close>
  defined, which makes the cache functions return at once and \<open>cache_loadObject\<close> return NULL.

  The state \<open>net\<close> has the object store, the one connection context, the sync requests on a heap of their
  own (the map of the context holds pointers to them), the packets handed to the transport and the application that
  waits to be loaded. What is not code of the client is in the record \<open>env\<close>: the ASN.1 codec, the printed
  endpoint address and device number, and the effects of running a script and of announcing the connection.

  The receive buffer is the list of its first \<open>bufferBytes\<close> bytes.
\<close>

section \<open>The data\<close>

record SyncRequest =
  sr_url :: "URL option"
  newObject :: bool
  isClient :: bool
  hasStarted :: bool
  hasSentLocal :: bool
  hasFinished :: bool
  remoteFinished :: bool
  finalize :: bool
  remoteResponse :: "RequestResponseP option"
  sr_stampMinor :: "int option"
  sr_stampMajor :: "int option"
  sr_dobj :: addr
  forcedObject :: "addr option"
  completeFields :: "string list option"
  completeNodes :: "addr list"
  sequenceID :: int
  objectIndex :: int
  recordIndex :: int
  childOp :: int

datatype NeedAuth = NA_UNKNOWN | NA_NO | NA_YES

record ConnectionContext =
  ep_sequenceID :: "32 word"
  syncRequests :: "(string \<times> addr) list"
  inprogressRequests :: "string list"
  c_buffer :: "8 word list"
  needAuth :: NeedAuth
  hasAuth :: bool

record net =
  n_store :: store
  ctx :: ConnectionContext
  reqs :: "addr \<Rightarrow> SyncRequest option"
  next_req :: addr
  outbox :: "FRIPacketP list"
  loadingApplication :: "(addr \<times> int \<times> URL option) option"

datatype dec_result = RC_OK FRIPacketP nat | RC_WMORE | RC_FAIL

record env =
  encodable :: "FRIPacketP \<Rightarrow> bool"
  decode :: "8 word list \<Rightarrow> dec_result"
  ep_name :: string
  imei :: string
  run_script :: "addr \<Rightarrow> string \<Rightarrow> net \<Rightarrow> net res"
  gprs_set_emobiix_on :: "net \<Rightarrow> net res"

definition CCTX_BUFLEN :: nat where "CCTX_BUFLEN = 4096"

definition on_store :: "(store \<Rightarrow> store res) \<Rightarrow> net \<Rightarrow> net res" where
  "on_store f n = bind_res (f (n_store n)) (\<lambda>s. Inr (n\<lparr>n_store := s\<rparr>))"

definition get_req :: "net \<Rightarrow> addr \<Rightarrow> SyncRequest res" where
  "get_req n r = (case reqs n r of None \<Rightarrow> Inl UseAfterFree | Some q \<Rightarrow> Inr q)"

definition put_req :: "addr \<Rightarrow> SyncRequest \<Rightarrow> net \<Rightarrow> net" where
  "put_req r q n = n\<lparr>reqs := (reqs n)(r \<mapsto> q)\<rparr>"

definition upd_req :: "(SyncRequest \<Rightarrow> SyncRequest) \<Rightarrow> addr \<Rightarrow> net \<Rightarrow> net res" where
  "upd_req f r n = bind_res (get_req n r) (\<lambda>q. Inr (put_req r (f q) n))"

definition upd_ctx :: "(ConnectionContext \<Rightarrow> ConnectionContext) \<Rightarrow> net \<Rightarrow> net" where
  "upd_ctx f n = n\<lparr>ctx := f (ctx n)\<rparr>"

text \<open>\<open>sreq->url->all\<close>.\<close>

definition url_all :: "SyncRequest \<Rightarrow> string res" where
  "url_all q = (case sr_url q of None \<Rightarrow> Inl NullDeref | Some u \<Rightarrow> (case u_all u of None \<Rightarrow> Inl NullDeref | Some a \<Rightarrow> Inr a))"

text \<open>\<open>snprintf\<close> with \<open>%p,%d\<close> into a buffer of 64 characters; the decimal notation is the one of \<open>emo_itoa\<close>.\<close>

definition generate_mapKey :: "env \<Rightarrow> int \<Rightarrow> string" where
  "generate_mapKey e sid = take 63 (ep_name e @ '','' @ emo_itoa sid 10)"

section \<open>Creating a context and requests\<close>

definition connectionContext_new :: "32 word \<Rightarrow> ConnectionContext" where
  "connectionContext_new ep =
     \<lparr>ep_sequenceID = ep, syncRequests = [], inprogressRequests = [], c_buffer = [], needAuth = NA_UNKNOWN,
      hasAuth = False\<rparr>"

definition connectionContext_setBuffer :: "8 word list \<Rightarrow> net \<Rightarrow> net res" where
  "connectionContext_setBuffer buffer n =
     (if length (c_buffer (ctx n)) + length buffer \<le> CCTX_BUFLEN
      then Inr (upd_ctx (\<lambda>c. c\<lparr>c_buffer := c_buffer c @ buffer\<rparr>) n)
      else Inl OutOfBounds)"

definition TCPSequenceID :: "net \<Rightarrow> int \<times> net" where
  "TCPSequenceID n =
     (let q = ep_sequenceID (ctx n) + 2 in (uint (q - 2), upd_ctx (\<lambda>c. c\<lparr>ep_sequenceID := q\<rparr>) n))"

text \<open>The members \<open>hasStarted\<close> and \<open>sequenceID\<close> are left to the callers, which set them at once.\<close>

definition syncRequest_new :: "URL \<Rightarrow> bool \<Rightarrow> net \<Rightarrow> (addr \<times> net) res" where
  "syncRequest_new url client n =
     bind_res (url_parse (u_all url) URL_ALL) (\<lambda>u.
     bind_res (dataobject_locate url (n_store n)) (\<lambda>(found, s).
     bind_res
       (case found of
          Some d \<Rightarrow> Inr (d, False, s)
        | None \<Rightarrow> bind_res (dataobject_construct url (\<not> client) s) (\<lambda>(d, s). Inr (d, True, s))) (\<lambda>(d, new, s).
     bind_res (dataobject_setState DOS_SYNC d s) (\<lambda>s.
     let q = \<lparr>sr_url = u, newObject = new, isClient = client, hasStarted = False, hasSentLocal = False,
              hasFinished = False, remoteFinished = False, finalize = False, remoteResponse = None,
              sr_stampMinor = None, sr_stampMajor = None, sr_dobj = d, forcedObject = None, completeFields = None,
              completeNodes = [], sequenceID = 0, objectIndex = 0, recordIndex = 0, childOp = -2\<rparr>
     in Inr (next_req n, (put_req (next_req n) q n)\<lparr>n_store := s, next_req := Suc (next_req n)\<rparr>)))))"

section \<open>Sending\<close>

text \<open>An unencodable packet is dropped; an encoded one is written to the transport.\<close>

definition connectionContext_packetSend :: "env \<Rightarrow> FRIPacketP \<Rightarrow> net \<Rightarrow> net" where
  "connectionContext_packetSend e p n = (if encodable e p then n\<lparr>outbox := outbox n @ [p]\<rparr> else n)"

definition authorized :: "ConnectionContext \<Rightarrow> bool" where
  "authorized c \<longleftrightarrow> (needAuth c = NA_YES \<and> hasAuth c) \<or> needAuth c = NA_NO"

text \<open>The loop over the fields: \<open>iter\<close> was opened on the object the function was called with.\<close>

fun sync_fields ::
  "store \<Rightarrow> addr \<Rightarrow> (string \<times> addr) list \<Rightarrow> string list option \<Rightarrow> (SyncOperandP list \<times> string list option) res" where
  "sync_fields s sobj [] complete = Inr ([], complete)"
| "sync_fields s sobj ((fieldName, f) # iter) complete =
     (case complete of
        None \<Rightarrow> Inl Abort
      | Some names \<Rightarrow>
          if fieldName \<in> set names then sync_fields s sobj iter complete
          else
            bind_res (protocol_serializeField s sobj fieldName) (\<lambda>syncOp.
            bind_res (sync_fields s sobj iter (Some (names @ [fieldName]))) (\<lambda>(ops, complete).
            Inr (syncOp # ops, complete))))"

text \<open>The operation that adds a child: the next object is the first child that was not sent yet.\<close>

definition sync_addChild :: "store \<Rightarrow> addr \<Rightarrow> SyncRequest \<Rightarrow> SyncRequest res" where
  "sync_addChild s sobj q =
     bind_res (dataobject_childIterator s sobj) (\<lambda>cs.
     case List.find (\<lambda>c. c \<notin> set (completeNodes q)) cs of
       None \<Rightarrow> Inr (q\<lparr>childOp := -2\<rparr>)
     | Some c \<Rightarrow> bind_res (dataobject_treeIndex s c) (\<lambda>i. Inr (q\<lparr>childOp := -2, objectIndex := i\<rparr>)))"

text \<open>
  \<open>connectionContext_syncOperand\<close> returns the operands it adds to the list, and the request. A position
  that names no object makes the function assert, at the latest in \<open>dataobject_getTreeNextOp\<close>.
\<close>

definition connectionContext_syncOperand :: "store \<Rightarrow> SyncRequest \<Rightarrow> addr \<Rightarrow> (SyncOperandP list \<times> SyncRequest) res" where
  "connectionContext_syncOperand s q sobj =
     bind_res (dataobject_fieldIterator s sobj) (\<lambda>iter.
     bind_res
       (if childOp q < -1 then Inr ([], q, sobj)
        else if childOp q = -1 then
          bind_res (sync_addChild s sobj q) (\<lambda>q. Inr ([protocol_addChild], q, sobj))
        else
          (let goto = protocol_goToTree (childOp q);
               q = q\<lparr>objectIndex := childOp q, childOp := -1\<rparr>
           in bind_res (dataobject_getTree s (sr_dobj q) (objectIndex q)) (\<lambda>target.
              case target of
                None \<Rightarrow> Inl Abort
              | Some sobj \<Rightarrow>
                  if newObject q then
                    bind_res (sync_addChild s sobj q) (\<lambda>q. Inr ([goto, protocol_addChild], q, sobj))
                  else Inr ([goto], q, sobj)))) (\<lambda>(ops, q, sobj).
     bind_res (sync_fields s sobj iter (completeFields q)) (\<lambda>(fops, complete).
     let q = q\<lparr>completeNodes := completeNodes q @ [sobj], completeFields := None\<rparr> in
     bind_res (dataobject_getTreeNextOp s sobj) (\<lambda>(more, op).
     Inr (ops @ fops,
       (if more \<noteq> 0 then q\<lparr>childOp := (case op of Some c \<Rightarrow> c | None \<Rightarrow> childOp q)\<rparr>
        else if forcedObject q = None then q\<lparr>hasFinished := True\<rparr> else q))))))"

definition connectionContext_recordSync :: "store \<Rightarrow> SyncRequest \<Rightarrow> addr option \<Rightarrow> (RecordSyncListP \<times> SyncRequest) res" where
  "connectionContext_recordSync s q dobj =
     (case dobj of
        None \<Rightarrow> Inl Abort
      | Some d \<Rightarrow>
          bind_res (dataobject_getStamp s d) (\<lambda>(minor, major).
          let p = protocol_recordSync False minor major in
          bind_res (connectionContext_syncOperand s q d) (\<lambda>(ops, q).
          Inr (p\<lparr>recordFieldListP := map_option (\<lambda>l. l @ ops) (recordFieldListP p)\<rparr>, q))))"

definition connectionContext_recordSyncList :: "store \<Rightarrow> SyncRequest \<Rightarrow> SyncListP \<Rightarrow> (SyncListP \<times> SyncRequest) res" where
  "connectionContext_recordSyncList s q p =
     bind_res (dataobject_childIterator s (sr_dobj q)) (\<lambda>cs.
     bind_res
       (if 0 \<le> recordIndex q \<and> recordIndex q < int (length cs) then
          bind_res (dataobject_getTree s (cs ! nat (recordIndex q)) (objectIndex q)) (\<lambda>sobj.
          bind_res (connectionContext_recordSync s q sobj) (\<lambda>(rsync, q).
          Inr (add_record rsync p,
            (if hasFinished q
             then q\<lparr>hasFinished := False, objectIndex := 0, recordIndex := recordIndex q + 1, completeNodes := []\<rparr>
             else q))))
        else Inr (p, q)) (\<lambda>(p, q).
     bind_res (dataobject_getChildCount s (sr_dobj q)) (\<lambda>count.
     Inr (p, if recordIndex q = int count then q\<lparr>hasFinished := True\<rparr> else q))))"

definition open_completeFields :: "SyncRequest \<Rightarrow> SyncRequest" where
  "open_completeFields q = (case completeFields q of None \<Rightarrow> q\<lparr>completeFields := Some []\<rparr> | Some _ \<Rightarrow> q)"

definition connectionContext_outgoingSync :: "env \<Rightarrow> addr \<Rightarrow> net \<Rightarrow> net res" where
  "connectionContext_outgoingSync e r n =
     bind_res (get_req n r) (\<lambda>q.
     let q = open_completeFields q; s = n_store n in
     bind_res (dataobject_getRecordType s (sr_dobj q)) (\<lambda>isrec.
     if isrec \<noteq> 0 then
       bind_res (connectionContext_recordSyncList s q protocol_recordSyncList) (\<lambda>(l, q).
       Inr (connectionContext_packetSend e (dataObjectSyncP (sequenceID q) l) (put_req r q n)))
     else
       bind_res (dataobject_getTree s (sr_dobj q) (objectIndex q)) (\<lambda>sobj.
       case sobj of
         None \<Rightarrow> Inl Abort
       | Some sobj \<Rightarrow>
           bind_res (connectionContext_syncOperand s q sobj) (\<lambda>(ops, q).
           Inr (connectionContext_packetSend e (dataObjectSyncP (sequenceID q) (add_operands ops protocol_blockSyncList))
                  (put_req r q n))))))"

definition connectionContext_outgoingSyncForced :: "env \<Rightarrow> addr \<Rightarrow> net \<Rightarrow> net res" where
  "connectionContext_outgoingSyncForced e r n =
     bind_res (get_req n r) (\<lambda>q.
     let q = open_completeFields q; s = n_store n in
     case forcedObject q of
       None \<Rightarrow> Inl Abort
     | Some sobj \<Rightarrow>
         bind_res (dataobject_treeIndex s sobj) (\<lambda>i.
         let q = q\<lparr>objectIndex := i, childOp := i\<rparr> in
         bind_res (connectionContext_syncOperand s q sobj) (\<lambda>(ops, q).
         Inr (connectionContext_packetSend e (dataObjectSyncP (sequenceID q) (add_operands ops protocol_blockSyncList))
                (put_req r q n)))))"

definition connectionContext_processSyncRequest :: "env \<Rightarrow> addr \<Rightarrow> net \<Rightarrow> net res" where
  "connectionContext_processSyncRequest e r n =
     bind_res (get_req n r) (\<lambda>q.
     if isClient q then
       bind_res (url_all q) (\<lambda>url.
       if \<not> hasStarted q then
         (let n = upd_ctx (\<lambda>c. c\<lparr>inprogressRequests := inprogressRequests c @ [url]\<rparr>) n;
              n = connectionContext_packetSend e (protocol_syncStart url 0 0 (sequenceID q)) n
          in bind_res (on_store (dataobject_setState DOS_SYNC (sr_dobj q)) n)
               (upd_req (\<lambda>q. q\<lparr>hasStarted := True\<rparr>) r))
       else
         bind_res
           (if \<not> hasSentLocal q then
              bind_res
                (if \<not> newObject q \<and> forcedObject q \<noteq> None then connectionContext_outgoingSyncForced e r n else Inr n)
                (upd_req (\<lambda>q. q\<lparr>hasSentLocal := True\<rparr>) r)
            else Inr n) (\<lambda>n.
         bind_res (get_req n r) (\<lambda>q.
         if \<not> hasFinished q then
           upd_req (\<lambda>q. q\<lparr>hasFinished := True\<rparr>) r
             (connectionContext_packetSend e (protocol_syncFinished responseExpiredP (sequenceID q)) n)
         else Inr n)))
     else if hasStarted q \<and> remoteFinished q \<and> \<not> hasFinished q \<and> authorized (ctx n) then
       connectionContext_outgoingSync e r n
     else if hasStarted q \<and> remoteFinished q \<and> hasFinished q then
       upd_req (\<lambda>q. q\<lparr>finalize := True\<rparr>) r
         (connectionContext_packetSend e (protocol_syncFinished responseOKP (sequenceID q)) n)
     else Inr n)"

text \<open>The outgoing half of the loop; the incoming half is compiled into the simulator only.\<close>

definition connectionContext_loopIteration :: "env \<Rightarrow> net \<Rightarrow> (int \<times> net) res" where
  "connectionContext_loopIteration e n =
     (if \<not> authorized (ctx n) then Inr (0, n)
      else (case syncRequests (ctx n) of
              [] \<Rightarrow> Inr (0, n)
            | (key, r) # rest \<Rightarrow>
                bind_res (get_req n r) (\<lambda>q.
                bind_res (url_all q) (\<lambda>_.
                bind_res (connectionContext_processSyncRequest e r n) (\<lambda>n.
                bind_res (get_req n r) (\<lambda>q.
                Inr (1, if finalize q
                        then upd_ctx (\<lambda>c. c\<lparr>syncRequests := am_remove key (syncRequests c)\<rparr>) n else n)))))))"

definition connectionContext_requestAuth :: "env \<Rightarrow> net \<Rightarrow> net" where
  "connectionContext_requestAuth e n =
     connectionContext_packetSend e (authRequestP ''Hi!!'' [atUsernamePasswordP])
       (upd_ctx (\<lambda>c. c\<lparr>needAuth := NA_YES, hasAuth := False\<rparr>) n)"

definition connectionContext_syncRequestForce :: "env \<Rightarrow> URL \<Rightarrow> addr option \<Rightarrow> net \<Rightarrow> (int \<times> net) res" where
  "connectionContext_syncRequestForce e url dobj n =
     bind_res (syncRequest_new url True n) (\<lambda>(r, n).
     let (sid, n) = TCPSequenceID n in
     bind_res (upd_req (\<lambda>q. q\<lparr>hasStarted := False, sequenceID := sid, forcedObject := dobj\<rparr>) r n) (\<lambda>n.
     let n = upd_ctx (\<lambda>c. c\<lparr>syncRequests := am_append (generate_mapKey e sid) r (syncRequests c)\<rparr>) n in
     bind_res (connectionContext_loopIteration e n) (\<lambda>(_, n). Inr (1, n))))"

definition connectionContext_syncRequest :: "env \<Rightarrow> URL \<Rightarrow> net \<Rightarrow> (int \<times> net) res" where
  "connectionContext_syncRequest e url n = connectionContext_syncRequestForce e url None n"

section \<open>Receiving: authentication\<close>

definition connectionContext_authUserPass :: "env \<Rightarrow> net \<Rightarrow> net" where
  "connectionContext_authUserPass e n =
     connectionContext_packetSend e
       (authUserPassP
          (protocol_autUserPassExtra ''IP'' ''192.168.1.1''
            (protocol_autUserPassExtra ''IMEI'' (imei e) (protocol_authUserPass ''peek'' ''peek123'')))) n"

text \<open>The loop over the offered types leaves the verdict of the last one.\<close>

fun auth_types :: "AuthTypeP list \<Rightarrow> NeedAuth \<Rightarrow> NeedAuth" where
  "auth_types [] na = na"
| "auth_types (t # ts) na = auth_types ts (if t = atImplicitP then NA_NO else NA_YES)"

definition connectionContext_processAuthRequest :: "env \<Rightarrow> AuthTypeP list \<Rightarrow> net \<Rightarrow> net" where
  "connectionContext_processAuthRequest e types n =
     connectionContext_authUserPass e (upd_ctx (\<lambda>c. c\<lparr>needAuth := auth_types types (needAuth c)\<rparr>) n)"

definition connectionContext_processAuthUserPass :: "env \<Rightarrow> net \<Rightarrow> net" where
  "connectionContext_processAuthUserPass e n =
     connectionContext_packetSend e (protocol_authResponse responseOKP) (upd_ctx (\<lambda>c. c\<lparr>hasAuth := True\<rparr>) n)"

definition connectionContext_processAuthResponse :: "env \<Rightarrow> RequestResponseP \<Rightarrow> net \<Rightarrow> net res" where
  "connectionContext_processAuthResponse e p n =
     (if p = responseOKP then gprs_set_emobiix_on e (upd_ctx (\<lambda>c. c\<lparr>hasAuth := True\<rparr>) n) else Inr n)"

section \<open>Receiving: objects\<close>

definition connectionContext_processSyncStart :: "env \<Rightarrow> string \<Rightarrow> int \<Rightarrow> int \<Rightarrow> int \<Rightarrow> net \<Rightarrow> net res" where
  "connectionContext_processSyncStart e urlP minor major seqid n =
     (let tmpstr = OCTET_STRING_to_string urlP in
      if tmpstr \<in> set (inprogressRequests (ctx n)) then Inr n
      else
        bind_res (url_parse (Some tmpstr) URL_ALL) (\<lambda>url.
        case url of
          None \<Rightarrow> Inr n
        | Some url \<Rightarrow>
            bind_res (dataobject_locate url (n_store n)) (\<lambda>(found, s).
            bind_res (case found of Some d \<Rightarrow> Inr (d, s) | None \<Rightarrow> dataobject_construct url False s) (\<lambda>(dobj, s).
            bind_res (dataobject_setStamp 0 0 dobj s) (\<lambda>s.
            bind_res (dataobject_isLocal s dobj) (\<lambda>loc.
            bind_res (syncRequest_new url (\<not> loc) (n\<lparr>n_store := s\<rparr>)) (\<lambda>(r, n).
            bind_res (upd_req (\<lambda>q. q\<lparr>sequenceID := seqid, sr_dobj := dobj, hasStarted := True,
                                  sr_stampMinor := Some minor, sr_stampMajor := Some minor\<rparr>) r n) (\<lambda>n.
            Inr (upd_ctx (\<lambda>c. c\<lparr>syncRequests := am_append (generate_mapKey e seqid) r (syncRequests c),
                                 inprogressRequests := inprogressRequests c @ [tmpstr]\<rparr>) n)))))))))"

text \<open>The union member read for both operations is the octet string that both begin with.\<close>

definition set_field :: "FieldNameP \<Rightarrow> addr \<Rightarrow> addr \<Rightarrow> store \<Rightarrow> store res" where
  "set_field name sobj dof s =
     (case name of
        fieldNameStringP str \<Rightarrow> dataobject_setValue sobj (cstring str) dof s
      | fieldNameEnumP i \<Rightarrow> dataobject_setEnum sobj i dof s)"

definition modify_field :: "FieldNameP \<Rightarrow> addr \<Rightarrow> 8 word list \<Rightarrow> store \<Rightarrow> store res" where
  "modify_field name sobj bytes s =
     bind_res
       (case name of
          fieldNameStringP str \<Rightarrow> dataobject_getValue s sobj (cstring str)
        | fieldNameEnumP i \<Rightarrow> dataobject_getEnum s sobj i) (\<lambda>dof.
     case dof of
       None \<Rightarrow> bind_res (dataobjectfield_data bytes s) (\<lambda>(f, s). set_field name sobj f s)
     | Some f \<Rightarrow>
         bind_res (get_fld s f) (\<lambda>fl.
         case f_val fl of
           DOF_DATA old \<Rightarrow> Inr (put_fld f (fl\<lparr>f_val := DOF_DATA (old @ bytes)\<rparr>) s)
         | _ \<Rightarrow> Inr s))"

text \<open>
  \<open>connectionContext_processSyncOperand\<close> changes the store and the position \<open>objectIndex\<close> of the request;
  \<open>root\<close> is the object of the request.
\<close>

definition connectionContext_processSyncOperand ::
  "addr \<Rightarrow> addr option \<Rightarrow> SyncOperandP \<Rightarrow> int \<times> store \<Rightarrow> (int \<times> store) res" where
  "connectionContext_processSyncOperand rootobj sobj syncOp st =
     (case st of (idx, s) \<Rightarrow>
      (case sobj of
         None \<Rightarrow> Inl Abort
       | Some sobj \<Rightarrow>
           (case op_syncP syncOp of
              syncSetP str \<Rightarrow>
                (let (dof, s) = dataobjectfield_string (cstring str) s
                 in bind_res (set_field (op_fieldNameP syncOp) sobj dof s) (\<lambda>s. Inr (idx, s)))
            | syncModifyP str sz off \<Rightarrow>
                bind_res (modify_field (op_fieldNameP syncOp) sobj (map byte_of_char str) s) (\<lambda>s. Inr (idx, s))
            | syncRemoveP sz off \<Rightarrow> Inr (idx, s)
            | nodeOperationP nop \<Rightarrow>
                (case nop of
                   nodeAddP kind \<Rightarrow>
                     if kind = nodeChildP then
                       (let (cobj, s) = dataobject_new s in
                        bind_res (dataobject_pack sobj cobj s) (\<lambda>s.
                        bind_res (dataobject_treeIndex s cobj) (\<lambda>i. Inr (i, s))))
                     else Inr (idx, s)
                 | nodeGotoTreeP i \<Rightarrow> bind_res (dataobject_getTree s rootobj i) (\<lambda>_. Inr (i, s))
                 | nodeGotoNamedTreeP name \<Rightarrow>
                     bind_res (dataobject_findByName s rootobj (cstring name)) (\<lambda>found.
                     case found of
                       None \<Rightarrow> Inr (idx, s)
                     | Some c \<Rightarrow> bind_res (dataobject_treeIndex s c) (\<lambda>i. Inr (i, s)))
                 | _ \<Rightarrow> Inr (idx, s)))))"

fun connectionContext_processBlockSyncList ::
  "addr \<Rightarrow> SyncOperandP list \<Rightarrow> int \<times> store \<Rightarrow> (int \<times> store) res" where
  "connectionContext_processBlockSyncList rootobj [] st = Inr st"
| "connectionContext_processBlockSyncList rootobj (syncOp # ops) st =
     bind_res (dataobject_getTree (snd st) rootobj (fst st)) (\<lambda>sobj.
     bind_res (connectionContext_processSyncOperand rootobj sobj syncOp st)
       (connectionContext_processBlockSyncList rootobj ops))"

text \<open>
  One record: the search for a child with the stamps of the record, the operands, the deletion. \<open>found\<close> is
  the position of the iterator, NULL at the end of the list. The list that \<open>dataobject_childIterator\<close> opens may be
  the one of the copies of an array widget, \<open>iter_owner\<close>.
\<close>

fun find_record :: "store \<Rightarrow> 32 word \<Rightarrow> 32 word \<Rightarrow> nat \<Rightarrow> addr list \<Rightarrow> (nat \<times> addr) option res" where
  "find_record s minor major i [] = Inr None"
| "find_record s minor major i (c # cs) =
     bind_res (dataobject_getStamp s c) (\<lambda>(mi, ma).
     if mi = minor \<and> ma = major then Inr (Some (i, c)) else find_record s minor major (Suc i) cs)"

definition remove_nth :: "nat \<Rightarrow> 'a list \<Rightarrow> 'a list" where
  "remove_nth i xs = take i xs @ drop (Suc i) xs"

definition iter_owner :: "store \<Rightarrow> addr \<Rightarrow> addr option res" where
  "iter_owner s dobj =
     bind_res (get_obj s dobj) (\<lambda>d.
     case children d of
       [] \<Rightarrow> Inr None
     | item # rest \<Rightarrow>
         bind_res (dataobject_getEnum s item EMO_FIELD_TYPE) (\<lambda>type.
         bind_res (EMO_DOF_IS_TYPE s type EMO_TYPE_ARRAY) (\<lambda>isarr. Inr (if isarr then Some item else None))))"

fun process_operands :: "addr \<Rightarrow> addr \<Rightarrow> SyncOperandP list \<Rightarrow> int \<times> store \<Rightarrow> (int \<times> store) res" where
  "process_operands rootobj robj [] st = Inr st"
| "process_operands rootobj robj (syncOp # ops) st =
     bind_res (connectionContext_processSyncOperand rootobj (Some robj) syncOp st) (process_operands rootobj robj ops)"

definition process_record :: "addr \<Rightarrow> RecordSyncListP \<Rightarrow> int \<times> store \<Rightarrow> (int \<times> store) res" where
  "process_record rootobj rsl st =
     (case st of (idx, s) \<Rightarrow>
      bind_res (iter_owner s rootobj) (\<lambda>owner.
      bind_res (dataobject_childIterator s rootobj) (\<lambda>cs.
      bind_res (find_record s (word_of_int (recordIdMinorP rsl)) (word_of_int (recordIdMajorP rsl)) 0 cs) (\<lambda>found.
      bind_res (case found of None \<Rightarrow> Inr None | Some (i, c) \<Rightarrow> dataobject_getTree s c idx) (\<lambda>robj.
      bind_res
        (case robj of
           Some r \<Rightarrow> Inr (r, s)
         | None \<Rightarrow>
             (let (r, s) = dataobject_new s in
              bind_res (dataobject_setStamp (word_of_int (recordIdMinorP rsl)) (word_of_int (recordIdMajorP rsl)) r s) (\<lambda>s.
              bind_res (dataobject_appendRecord rootobj r s) (\<lambda>s. Inr (r, s))))) (\<lambda>(robj, s).
      case recordFieldListP rsl of
        None \<Rightarrow> Inl NullDeref
      | Some ops \<Rightarrow>
          bind_res (process_operands rootobj robj ops (idx, s)) (\<lambda>(idx, s).
          case found of
            Some (i, c) \<Rightarrow>
              if deleteRecordP rsl then
                bind_res
                  (case owner of
                     None \<Rightarrow> upd_obj (\<lambda>d. d\<lparr>children := remove_nth i (children d)\<rparr>) rootobj s
                   | Some item \<Rightarrow> upd_obj (\<lambda>d. d\<lparr>arrayChildren := remove_nth i (arrayChildren d)\<rparr>) item s) (\<lambda>s.
                bind_res (dataobject_delete robj s) (\<lambda>s. Inr (idx, s)))
              else Inr (idx, s)
          | None \<Rightarrow> Inr (idx, s))))))))"

fun process_records :: "addr \<Rightarrow> RecordSyncListP list \<Rightarrow> int \<times> store \<Rightarrow> (int \<times> store) res" where
  "process_records rootobj [] st = Inr st"
| "process_records rootobj (rsl # rsls) st = bind_res (process_record rootobj rsl st) (process_records rootobj rsls)"

definition connectionContext_processRecordSyncList ::
  "addr \<Rightarrow> RecordSyncListP list \<Rightarrow> int \<times> store \<Rightarrow> (int \<times> store) res" where
  "connectionContext_processRecordSyncList rootobj rsls st =
     bind_res (dataobject_setRecordType True rootobj (snd st)) (\<lambda>s. process_records rootobj rsls (fst st, s))"

definition connectionContext_processSync :: "env \<Rightarrow> int \<Rightarrow> SyncListP \<Rightarrow> net \<Rightarrow> net res" where
  "connectionContext_processSync e seqid syncList n =
     (case am_find (generate_mapKey e seqid) (syncRequests (ctx n)) of
        None \<Rightarrow> Inr n
      | Some r \<Rightarrow>
          bind_res (get_req n r) (\<lambda>q.
          bind_res
            (case syncList of
               blockSyncListP ops \<Rightarrow>
                 bind_res (dataobject_getTree (n_store n) (sr_dobj q) (objectIndex q)) (\<lambda>sobj.
                 case sobj of
                   None \<Rightarrow> Inr (objectIndex q, n_store n)
                 | Some _ \<Rightarrow> connectionContext_processBlockSyncList (sr_dobj q) ops (objectIndex q, n_store n))
             | recordSyncListP rsls \<Rightarrow>
                 connectionContext_processRecordSyncList (sr_dobj q) rsls (objectIndex q, n_store n)) (\<lambda>(idx, s).
          upd_req (\<lambda>q. q\<lparr>objectIndex := idx\<rparr>) r (n\<lparr>n_store := s\<rparr>))))"

section \<open>Receiving: the end of a synchronisation\<close>

definition script_event :: "env \<Rightarrow> addr \<Rightarrow> int \<Rightarrow> net \<Rightarrow> net res" where
  "script_event e context eventname n =
     bind_res (dataobject_getEnum (n_store n) context eventname) (\<lambda>field.
     case field of
       None \<Rightarrow> Inr n
     | Some f \<Rightarrow>
         bind_res (get_fld (n_store n) f) (\<lambda>fl.
         case f_val fl of DOF_STRING str \<Rightarrow> run_script e context (str_of str) n | _ \<Rightarrow> Inr n))"

definition dataobject_onsyncfinished :: "env \<Rightarrow> addr \<Rightarrow> net \<Rightarrow> net res" where
  "dataobject_onsyncfinished e dobj n = script_event e dobj EMO_FIELD_ONSYNCFINISHED n"

definition manager_loadApplication :: "addr \<Rightarrow> int \<Rightarrow> URL option \<Rightarrow> net \<Rightarrow> net res" where
  "manager_loadApplication dobj focus url n =
     (case url of
        None \<Rightarrow> Inl Abort
      | Some u \<Rightarrow>
          bind_res (url_parse (u_all u) URL_ALL) (\<lambda>u.
          Inr (n\<lparr>loadingApplication := Some (dobj, focus, u)\<rparr>)))"

text \<open>The branch of \<open>connectionContext_processPacket\<close> for a finish packet.\<close>

definition processSyncFinish :: "env \<Rightarrow> int \<Rightarrow> RequestResponseP \<Rightarrow> net \<Rightarrow> net res" where
  "processSyncFinish e seqid response n =
     (case am_find (generate_mapKey e seqid) (syncRequests (ctx n)) of
        None \<Rightarrow> Inr n
      | Some r \<Rightarrow>
          bind_res (get_req n r) (\<lambda>q.
          bind_res (url_all q) (\<lambda>url.
          bind_res (upd_req (\<lambda>q. q\<lparr>remoteResponse := Some response, remoteFinished := True\<rparr>) r n) (\<lambda>n.
          if \<not> isClient q then Inr n
          else
            bind_res (upd_req (\<lambda>q. q\<lparr>finalize := True\<rparr>) r n) (\<lambda>n.
            bind_res (on_store (dataobject_setState DOS_OK (sr_dobj q)) n) (\<lambda>n.
            bind_res (on_store (widget_markDirty (sr_dobj q)) n) (\<lambda>n.
            bind_res (dataobject_getEnum (n_store n) (sr_dobj q) EMO_FIELD_TYPE) (\<lambda>field.
            bind_res
              (if newObject q then Inr n
               else (case forcedObject q of
                       Some f \<Rightarrow> dataobject_onsyncfinished e f n
                     | None \<Rightarrow> dataobject_onsyncfinished e (sr_dobj q) n)) (\<lambda>n.
            bind_res (on_store (dataobject_setState DOS_OK (sr_dobj q)) n) (\<lambda>n.
            bind_res
              (case field of
                 None \<Rightarrow> Inr False
               | Some f \<Rightarrow>
                   bind_res (get_fld (n_store n) f) (\<lambda>fl.
                   case f_val fl of
                     DOF_STRING _ \<Rightarrow>
                       bind_res (EMO_DOF_IS_TYPE (n_store n) field EMO_TYPE_APPLICATION) (\<lambda>isapp. Inr (\<not> isapp))
                   | _ \<Rightarrow> Inr False)) (\<lambda>load.
            bind_res
              (if load then
                 (if newObject q then manager_loadApplication (sr_dobj q) 1 (sr_url q) n else Inr n)
               else on_store (dataobject_setIsModifiedTree True (sr_dobj q)) n) (\<lambda>n.
            let n = n\<lparr>n_store := (n_store n)\<lparr>renderman :=
                        renderman_clearQueue (renderman_markLayoutChanged (renderman (n_store n)))\<rparr>\<rparr>
            in Inr (upd_ctx (\<lambda>c. c\<lparr>inprogressRequests := remove1 url (inprogressRequests c)\<rparr>) n)))))))))))))"

definition connectionContext_processPacket :: "env \<Rightarrow> FRIPacketP \<Rightarrow> net \<Rightarrow> net res" where
  "connectionContext_processPacket e packet n =
     (case packet of
        protocolHandshakeP v \<Rightarrow> Inr n
      | authRequestP salt types \<Rightarrow> Inr (connectionContext_processAuthRequest e types n)
      | authUserPassP p \<Rightarrow> Inr (connectionContext_processAuthUserPass e n)
      | authResponseP p \<Rightarrow> connectionContext_processAuthResponse e p n
      | subscriptionRequestP u \<Rightarrow> Inr n
      | subscriptionResponseP u r t \<Rightarrow> Inr n
      | dataObjectSyncStartP u minor major q \<Rightarrow> connectionContext_processSyncStart e u minor major q n
      | dataObjectSyncP q l \<Rightarrow> connectionContext_processSync e q l n
      | dataObjectSyncFinishP q r \<Rightarrow> processSyncFinish e q r n)"

section \<open>The receive buffer\<close>

text \<open>\<open>memmove\<close> with a count beyond the buffered bytes would leave the buffer.\<close>

definition connectionContext_consumePacket :: "env \<Rightarrow> net \<Rightarrow> (int \<times> net) res" where
  "connectionContext_consumePacket e n =
     (if c_buffer (ctx n) = [] then Inr (0, n)
      else (case decode e (c_buffer (ctx n)) of
              RC_OK packet consumed \<Rightarrow>
                bind_res (connectionContext_processPacket e packet n) (\<lambda>n.
                if consumed \<le> length (c_buffer (ctx n))
                then Inr (int consumed, upd_ctx (\<lambda>c. c\<lparr>c_buffer := drop consumed (c_buffer c)\<rparr>) n)
                else Inl OutOfBounds)
            | RC_WMORE \<Rightarrow> Inr (0, n)
            | RC_FAIL \<Rightarrow> Inr (0, n)))"

text \<open>
  \<open>uiAppRecv\<close> of \<open>UITask.c\<close>, up to redrawing the screen. Each round of the loop consumes a byte or ends it, so
  one round more than there are bytes is enough as long as no script adds bytes to the buffer.
\<close>

fun recv_loop :: "nat \<Rightarrow> env \<Rightarrow> net \<Rightarrow> net res" where
  "recv_loop 0 e n = Inl Diverge"
| "recv_loop (Suc k) e n =
     bind_res (connectionContext_consumePacket e n) (\<lambda>(status, n). if status > 0 then recv_loop k e n else Inr n)"

definition uiAppRecv :: "env \<Rightarrow> 8 word list \<Rightarrow> net \<Rightarrow> net res" where
  "uiAppRecv e data n =
     bind_res (connectionContext_setBuffer data n) (\<lambda>n.
     bind_res (recv_loop (Suc (length (c_buffer (ctx n)))) e n) (\<lambda>n.
     bind_res (connectionContext_loopIteration e n) (\<lambda>(_, n). Inr n)))"

definition uiAppSent :: "env \<Rightarrow> net \<Rightarrow> net res" where
  "uiAppSent e n = bind_res (connectionContext_loopIteration e n) (\<lambda>(_, n). Inr n)"

end
