(* ===== verification/Sync_Transfer.thy ===== *)
theory Sync_Transfer
  imports Sync_Context
begin

text \<open>
  What a synchronisation does to the objects. The abstract state is a document: a tree of nodes, the contents of
  each node by name and by number, and a current node. \<open>doc_apply\<close> is the meaning of an operand on a document,
  and \<open>connectionContext_processBlockSyncList\<close>, which works with positions in depth-first order on objects and
  fields on the heap, is shown to implement it. With it, the fields that one side sends for an object by
  \<open>connectionContext_outgoingSyncForced\<close> arrive at the other side.
\<close>

section \<open>Documents\<close>

datatype content = Text string | Bytes "8 word list" | Number int

definition content_of :: "dof_val \<Rightarrow> content" where
  "content_of v =
     (case v of
        DOF_STRING str \<Rightarrow> Text (str_of str)
      | DOF_DATA bytes \<Rightarrow> Bytes bytes
      | DOF_INT i \<Rightarrow> Number (sint i)
      | DOF_UINT i \<Rightarrow> Number (uint i))"

record doc =
  doc_tree :: otree
  doc_vals :: "addr \<Rightarrow> string \<Rightarrow> content option"
  doc_enums :: "addr \<Rightarrow> int \<Rightarrow> content option"
  doc_cur :: addr

definition fld_content :: "store \<Rightarrow> addr \<Rightarrow> content option" where
  "fld_content s f = map_option (\<lambda>fl. content_of (f_val fl)) (flds s f)"

definition vals_of :: "store \<Rightarrow> addr \<Rightarrow> string \<Rightarrow> content option" where
  "vals_of s a k = (case objs s a of None \<Rightarrow> None | Some d \<Rightarrow> Option.bind (am_find k (d_data d)) (fld_content s))"

definition enums_of :: "store \<Rightarrow> addr \<Rightarrow> int \<Rightarrow> content option" where
  "enums_of s a k = (case objs s a of None \<Rightarrow> None | Some d \<Rightarrow> Option.bind (am_find k (d_enumData d)) (fld_content s))"

text \<open>The fields of a node are read directly and not through an array source.\<close>

definition plain_node :: "store \<Rightarrow> addr \<Rightarrow> bool" where
  "plain_node s a \<longleftrightarrow> (\<forall>d f fl. objs s a = Some d \<and> f \<in> set (owned_fields d) \<and> flds s f = Some fl \<longrightarrow>
     f_flags fl AND DOFF_ARRAYSOURCE = 0)"

definition doc_rel :: "store \<Rightarrow> int \<Rightarrow> doc \<Rightarrow> bool" where
  "doc_rel s i D \<longleftrightarrow> store_ok s \<and> is_tree s (doc_tree D) \<and> doc_cur D \<in> set (preorder (doc_tree D)) \<and>
     i = int (pos_in (doc_cur D) (preorder (doc_tree D))) \<and>
     (\<forall>a \<in> set (preorder (doc_tree D)). plain_node s a \<and> vals_of s a = doc_vals D a \<and> enums_of s a = doc_enums D a)"

section \<open>The meaning of an operand\<close>

text \<open>\<open>old\<close> is what the current node has under the name; a set replaces it, data is appended to data, and data
  for a field of another kind is ignored.\<close>

definition new_content :: "syncP \<Rightarrow> content option \<Rightarrow> content option" where
  "new_content op old =
     (case op of
        syncSetP str \<Rightarrow> Some (Text (cstring str))
      | syncModifyP str sz off \<Rightarrow>
          (case old of
             None \<Rightarrow> Some (Bytes (map byte_of_char str))
           | Some (Bytes b) \<Rightarrow> Some (Bytes (b @ map byte_of_char str))
           | Some c \<Rightarrow> Some c)
      | _ \<Rightarrow> old)"

text \<open>\<open>new\<close> is the name of the node that an added child gets.\<close>

definition doc_apply :: "addr \<Rightarrow> SyncOperandP \<Rightarrow> doc \<Rightarrow> doc" where
  "doc_apply new op D =
     (case op_syncP op of
        nodeOperationP (nodeAddP nodeChildP) \<Rightarrow>
          D\<lparr>doc_tree := graft (doc_cur D) (Node new []) (doc_tree D), doc_cur := new,
            doc_vals := (doc_vals D)(new := \<lambda>k. None), doc_enums := (doc_enums D)(new := \<lambda>k. None)\<rparr>
      | nodeOperationP (nodeGotoTreeP i) \<Rightarrow> D\<lparr>doc_cur := preorder (doc_tree D) ! nat i\<rparr>
      | nodeOperationP nop \<Rightarrow> D
      | p \<Rightarrow>
          (case op_fieldNameP op of
             fieldNameStringP k \<Rightarrow>
               D\<lparr>doc_vals := (doc_vals D)(doc_cur D :=
                   (doc_vals D (doc_cur D))(cstring k := new_content p (doc_vals D (doc_cur D) (cstring k))))\<rparr>
           | fieldNameEnumP k \<Rightarrow>
               D\<lparr>doc_enums := (doc_enums D)(doc_cur D :=
                   (doc_enums D (doc_cur D))(k := new_content p (doc_enums D (doc_cur D) k)))\<rparr>))"

inductive doc_run :: "SyncOperandP list \<Rightarrow> doc \<Rightarrow> doc \<Rightarrow> bool" where
  doc_run_Nil: "doc_run [] D D"
| doc_run_Cons: "new \<notin> set (preorder (doc_tree D)) \<Longrightarrow> doc_run ops (doc_apply new op D) D' \<Longrightarrow> doc_run (op # ops) D D'"

inductive_cases doc_run_ConsE: "doc_run (op # ops) D D'"
inductive_simps doc_run_Nil_iff [simp]: "doc_run [] D D'"

text \<open>The operands that make sense on a tree of \<open>n\<close> nodes: positions in range, field names without
  a leading underscore, field numbers from 1, no empty data, a textual type.\<close>

definition name_ok :: "FieldNameP \<Rightarrow> bool" where
  "name_ok name = (case name of
     fieldNameStringP k \<Rightarrow> cstring k = [] \<or> hd (cstring k) \<noteq> CHR ''_'' | fieldNameEnumP i \<Rightarrow> 0 < i)"

definition op_ok :: "nat \<Rightarrow> SyncOperandP \<Rightarrow> bool" where
  "op_ok n op =
     (case op_syncP op of
        nodeOperationP (nodeGotoTreeP i) \<Rightarrow> 0 \<le> i \<and> i < int n
      | nodeOperationP (nodeGotoNamedTreeP name) \<Rightarrow> False
      | nodeOperationP nop \<Rightarrow> True
      | syncModifyP str sz off \<Rightarrow>
          name_ok (op_fieldNameP op) \<and> str \<noteq> [] \<and> op_fieldNameP op \<noteq> fieldNameEnumP EMO_FIELD_TYPE
      | _ \<Rightarrow> name_ok (op_fieldNameP op))"

definition is_addChild :: "SyncOperandP \<Rightarrow> bool" where
  "is_addChild op \<longleftrightarrow> op_syncP op = nodeOperationP (nodeAddP nodeChildP)"

fun ops_ok :: "nat \<Rightarrow> SyncOperandP list \<Rightarrow> bool" where
  "ops_ok n [] = True"
| "ops_ok n (op # ops) \<longleftrightarrow> op_ok n op \<and> ops_ok (if is_addChild op then Suc n else n) ops"

section \<open>Storing a field\<close>

lemma content_intern [simp]: "content_of (f_val (intern_type enu fl)) = content_of (f_val fl)"
  by (auto simp: intern_type_def content_of_def str_of_def emo_builtin_type_cstr split: dof_val.splits option.splits dof_string.splits)

lemma new_fld_ok:
  assumes "store_ok s"
  shows "store_ok (snd (new_fld v s))" "unowned (snd (new_fld v s)) (next_addr s)"
    "flds (snd (new_fld v s)) (next_addr s) = Some \<lparr>f_val = v, f_flags = 0\<rparr>"
    "objs (snd (new_fld v s)) = objs s" "next_addr (snd (new_fld v s)) = Suc (next_addr s)"
    "f \<noteq> next_addr s \<Longrightarrow> flds (snd (new_fld v s)) f = flds s f" "fst (new_fld v s) = next_addr s"
proof -
  have owns: "owns (snd (new_fld v s)) a f = owns s a f" for a f by (simp add: new_fld_def put_fld_def owns_def)
  have fresh: "\<not> owns s a (next_addr s)" for a using assms unfolding store_ok_def by (metis less_irrefl)
  show "store_ok (snd (new_fld v s))" using assms unfolding store_ok_def owns
    by (auto simp: new_fld_def put_fld_def less_Suc_eq)
  show "unowned (snd (new_fld v s)) (next_addr s)" using fresh unfolding unowned_def owns
    by (simp add: new_fld_def put_fld_def)
qed (auto simp: new_fld_def put_fld_def)

text \<open>What storing a field under one name does: the shape is kept, the node gets the content, nothing else changes.\<close>

definition stores :: "store \<Rightarrow> addr \<Rightarrow> FieldNameP \<Rightarrow> content \<Rightarrow> store \<Rightarrow> bool" where
  "stores s a name c s' \<longleftrightarrow> store_ok s' \<and> next_addr s \<le> next_addr s' \<and>
     (\<forall>x. kids_of s' x = kids_of s x \<and> parent_of s' x = parent_of s x \<and> (plain_node s x \<longrightarrow> plain_node s' x)) \<and>
     (\<forall>x. vals_of s' x = (case name of
        fieldNameStringP k \<Rightarrow> if x = a then (vals_of s a)(cstring k \<mapsto> c) else vals_of s x | _ \<Rightarrow> vals_of s x)) \<and>
     (\<forall>x. enums_of s' x = (case name of
        fieldNameEnumP k \<Rightarrow> if x = a then (enums_of s a)(k \<mapsto> c) else enums_of s x | _ \<Rightarrow> enums_of s x))"

lemma am_find_inj: "distinct (map snd al) \<Longrightarrow> am_find k al = Some f \<Longrightarrow> am_find k' al = Some f \<Longrightarrow> k = k'"
  using am_find_set [of k al f] am_find_set [of k' al f] by (metis eq_key_imp_eq_value distinct_map inj_on_eq_iff prod.inject snd_conv)

text \<open>The fields of an object: allocated, below \<open>next_addr\<close>, each under one name only.\<close>

lemma data_field:
  assumes "store_ok s" and "objs s a = Some d" and "am_find k (d_data d) = Some f"
  shows "f \<in> set (owned_fields d)" "flds s f \<noteq> None" "f < next_addr s" "\<And>k'. am_find k' (d_data d) = Some f \<Longrightarrow> k' = k"
    "\<And>k'. am_find k' (d_enumData d) \<noteq> Some f" "\<And>b d'. objs s b = Some d' \<Longrightarrow> f \<in> set (owned_fields d') \<Longrightarrow> b = a"
proof -
  show f: "f \<in> set (owned_fields d)" using am_find_set [OF assms(3)] by (force simp: owned_fields_def)
  show al: "flds s f \<noteq> None" using store_okD(3) [OF assms(1,2) f] .
  show "f < next_addr s" using assms(1) al by (auto simp: store_ok_def)
  have d: "distinct (owned_fields d)" using store_okD(1) [OF assms(1,2)] by (simp add: obj_ok_def)
  show "k' = k" if "am_find k' (d_data d) = Some f" for k'
    using am_find_inj [OF _ that assms(3)] d by (simp add: owned_fields_def)
  show "am_find k' (d_enumData d) \<noteq> Some f" for k'
    using d am_find_set [OF assms(3)] am_find_set [of k' "d_enumData d" f] by (force simp: owned_fields_def)
  show "b = a" if "objs s b = Some d'" "f \<in> set (owned_fields d')" for b d'
    using assms(1,2) f that unfolding store_ok_def owns_def by blast
qed

lemma enum_field:
  assumes "store_ok s" and "objs s a = Some d" and "am_find k (d_enumData d) = Some f"
  shows "f \<in> set (owned_fields d)" "flds s f \<noteq> None" "f < next_addr s" "\<And>k'. am_find k' (d_enumData d) = Some f \<Longrightarrow> k' = k"
    "\<And>k'. am_find k' (d_data d) \<noteq> Some f" "\<And>b d'. objs s b = Some d' \<Longrightarrow> f \<in> set (owned_fields d') \<Longrightarrow> b = a"
proof -
  show f: "f \<in> set (owned_fields d)" using am_find_set [OF assms(3)] by (force simp: owned_fields_def)
  show al: "flds s f \<noteq> None" using store_okD(3) [OF assms(1,2) f] .
  show "f < next_addr s" using assms(1) al by (auto simp: store_ok_def)
  have d: "distinct (owned_fields d)" using store_okD(1) [OF assms(1,2)] by (simp add: obj_ok_def)
  show "k' = k" if "am_find k' (d_enumData d) = Some f" for k'
    using am_find_inj [OF _ that assms(3)] d by (simp add: owned_fields_def)
  show "am_find k' (d_data d) \<noteq> Some f" for k'
    using d am_find_set [OF assms(3)] am_find_set [of k' "d_data d" f] by (force simp: owned_fields_def)
  show "b = a" if "objs s b = Some d'" "f \<in> set (owned_fields d')" for b d'
    using assms(1,2) f that unfolding store_ok_def owns_def by blast
qed

text \<open>The contents of a node depend on the two maps and the fields in them only.\<close>

lemma contents_cong:
  assumes "store_ok s" and "objs s' b = objs s b"
    and "\<And>d f. objs s b = Some d \<Longrightarrow> f \<in> set (owned_fields d) \<Longrightarrow> flds s' f = flds s f"
  shows "vals_of s' b = vals_of s b" "enums_of s' b = enums_of s b" "plain_node s' b = plain_node s b"
proof -
  show "vals_of s' b = vals_of s b"
    using assms(2,3) data_field(1) [OF assms(1)]
    by (auto simp: vals_of_def fld_content_def fun_eq_iff split: option.splits intro!: Option.bind_cong)
  show "enums_of s' b = enums_of s b"
    using assms(2,3) enum_field(1) [OF assms(1)]
    by (auto simp: enums_of_def fld_content_def fun_eq_iff split: option.splits intro!: Option.bind_cong)
  show "plain_node s' b = plain_node s b"
    unfolding plain_node_def using assms(2,3) by metis
qed

text \<open>The part of the effect that is the same for names and numbers: \<open>F\<close> is the replaced field, if any.\<close>

lemma field_effect:
  assumes ok: "store_ok s" and a: "objs s a = Some d" and F: "F \<subseteq> set (owned_fields d)"
    and o': "objs s' a = Some d'" "\<And>b. b \<noteq> a \<Longrightarrow> objs s' b = objs s b"
    and own: "set (owned_fields d') \<subseteq> insert (next_addr s) (set (owned_fields d) - F)"
    and new: "flds s' (next_addr s) = Some fl" "f_flags fl = 0"
    and same: "\<And>f. f < next_addr s \<Longrightarrow> f \<notin> F \<Longrightarrow> flds s' f = flds s f"
  shows "b \<noteq> a \<Longrightarrow> vals_of s' b = vals_of s b" "b \<noteq> a \<Longrightarrow> enums_of s' b = enums_of s b"
    "plain_node s b \<Longrightarrow> plain_node s' b"
proof -
  have below: "f < next_addr s" if "objs s c = Some e" "f \<in> set (owned_fields e)" for c e f
    using ok store_okD(3) [OF ok that] by (auto simp: store_ok_def)
  have rest: "flds s' f = flds s f" if "c \<noteq> a" "objs s c = Some e" "f \<in> set (owned_fields e)" for c e f
  proof (rule same [OF below [OF that(2,3)]])
    show "f \<notin> F" using F store_okD(4) [OF ok a] that by (auto simp: owns_def)
  qed
  show "vals_of s' b = vals_of s b" "enums_of s' b = enums_of s b" if "b \<noteq> a"
    by (rule contents_cong [OF ok o'(2) [OF that]]; use rest that in blast)+
  show "plain_node s' b" if p: "plain_node s b"
  proof (cases "b = a")
    case True
    have "f_flags g AND DOFF_ARRAYSOURCE = 0" if f: "f \<in> set (owned_fields d')" "flds s' f = Some g" for f g
    proof (cases "f = next_addr s")
      case True then show ?thesis using f(2) new by auto
    next
      case False
      then have f': "f \<in> set (owned_fields d)" "f \<notin> F" using own f(1) by auto
      with same [OF below [OF a f'(1)] f'(2)] f(2) p \<open>b = a\<close> a show ?thesis by (auto simp: plain_node_def)
    qed
    then show ?thesis unfolding plain_node_def True o'(1) by auto
  next
    case False
    then have "plain_node s' b = plain_node s b" by (intro contents_cong(3) [OF ok o'(2)]) (use rest in blast)+
    with p show ?thesis by simp
  qed
qed

lemma contents_at:
  assumes "objs s a = Some d" and "objs s' a = Some d'"
    and "\<And>k. k \<noteq> key \<Longrightarrow> am_find k (d_data d') = am_find k (d_data d)"
    and "\<And>k f. am_find k (d_data d) = Some f \<Longrightarrow> k \<noteq> key \<Longrightarrow> flds s' f = flds s f"
  shows "vals_of s' a = (vals_of s a)(key := Option.bind (am_find key (d_data d')) (fld_content s'))"
proof
  fix k show "vals_of s' a k = ((vals_of s a)(key := Option.bind (am_find key (d_data d')) (fld_content s'))) k"
    using assms by (cases "am_find k (d_data d)") (simp_all add: vals_of_def fld_content_def)
qed

lemma enum_contents_at:
  assumes "objs s a = Some d" and "objs s' a = Some d'"
    and "\<And>k. k \<noteq> key \<Longrightarrow> am_find k (d_enumData d') = am_find k (d_enumData d)"
    and "\<And>k f. am_find k (d_enumData d) = Some f \<Longrightarrow> k \<noteq> key \<Longrightarrow> flds s' f = flds s f"
  shows "enums_of s' a = (enums_of s a)(key := Option.bind (am_find key (d_enumData d')) (fld_content s'))"
proof
  fix k show "enums_of s' a k = ((enums_of s a)(key := Option.bind (am_find key (d_enumData d')) (fld_content s'))) k"
    using assms by (cases "am_find k (d_enumData d)") (simp_all add: enums_of_def fld_content_def)
qed

lemma setValue_stores:
  assumes ok: "store_ok s" and a: "objs s a = Some d" and k: "cstring key = [] \<or> hd (cstring key) \<noteq> CHR ''_''"
  shows "\<exists>s'. dataobject_setValue a (cstring key) (next_addr s) (snd (new_fld v s)) = Inr s' \<and>
     stores s a (fieldNameStringP key) (content_of v) s'"
proof -
  let ?s = "snd (new_fld v s)" and ?v = "next_addr s" and ?k = "cstring key"
  let ?d = "d\<lparr>d_data := am_append ?k ?v (d_data d)\<rparr>" and ?F = "{f. am_find ?k (d_data d) = Some f}"
  note N = new_fld_ok [OF ok, where v = v]
  from setValue_ok [OF N(1) _ N(2,3) k, of a d] a N(4) obtain s' where
    s': "dataobject_setValue a ?k ?v ?s = Inr s'" "store_ok s'" "objs s' a = Some ?d" "\<And>b. b \<noteq> a \<Longrightarrow> objs s' b = objs s b"
      "flds s' ?v = Some \<lparr>f_val = v, f_flags = 0\<rparr>" "next_addr s' = Suc (next_addr s)"
      "\<And>f. f < ?v \<Longrightarrow> f \<notin> ?F \<Longrightarrow> flds s' f = flds s f"
    using N(5,6) by auto
  have ds: "distinct (map fst (d_data d))" "distinct (map snd (d_data d))" "snd ` set (d_data d) \<inter> snd ` set (d_enumData d) = {}"
    using store_okD(1) [OF ok a] by (auto simp: obj_ok_def owned_fields_def)
  have F: "?F \<subseteq> set (owned_fields d)" using data_field(1) [OF ok a] by blast
  have own: "set (owned_fields ?d) \<subseteq> insert ?v (set (owned_fields d) - ?F)"
  proof -
    have "snd ` set (am_remove ?k (d_data d)) \<subseteq> snd ` set (d_data d) - ?F"
      using am_remove_drops_value [OF ds(1,2)] snd_am_remove_subset [of ?k "d_data d"] by blast
    moreover have "?F \<subseteq> snd ` set (d_data d)" using am_find_set by force
    ultimately show ?thesis using ds(3) by (auto simp: owned_fields_def snd_am_append)
  qed
  note E = field_effect [OF ok a F s'(3,4) own s'(5) _ s'(7), simplified]
  have va: "vals_of s' a = (vals_of s a)(?k \<mapsto> content_of v)"
  proof -
    have "vals_of s' a = (vals_of s a)(?k := Option.bind (am_find ?k (d_data ?d)) (fld_content s'))"
    proof (rule contents_at [OF a s'(3)])
      show "flds s' f = flds s f" if "am_find k (d_data d) = Some f" "k \<noteq> ?k" for k f
        using data_field(3,4) [OF ok a that(1)] that(2) s'(7) by blast
    qed simp
    then show ?thesis using s'(5) by (simp add: fld_content_def)
  qed
  have ea: "enums_of s' a = enums_of s a"
  proof -
    have same: "flds s' f = flds s f" if "am_find k (d_enumData d) = Some f" for k f
      using enum_field(3,5) [OF ok a that] s'(7) by blast
    have "enums_of s' a k = enums_of s a k" for k
      using same a s'(3) by (cases "am_find k (d_enumData d)") (simp_all add: enums_of_def fld_content_def)
    then show ?thesis by blast
  qed
  have "kids_of s' x = kids_of s x \<and> parent_of s' x = parent_of s x" for x
    using s'(3,4) a by (cases "x = a") (simp_all add: kids_of_def parent_of_def)
  moreover have "enums_of s' x = enums_of s x" for x using ea E(2) by (cases "x = a") auto
  ultimately show ?thesis using s'(1,2,6) va E by (auto simp: stores_def)
qed

lemma setEnum_stores:
  assumes ok: "store_ok s" and a: "objs s a = Some d" and k: "0 < key" and ty: "key = EMO_FIELD_TYPE \<Longrightarrow> \<exists>str. v = DOF_STRING str"
  shows "\<exists>s'. dataobject_setEnum a key (next_addr s) (snd (new_fld v s)) = Inr s' \<and>
     stores s a (fieldNameEnumP key) (content_of v) s'"
proof -
  let ?s = "snd (new_fld v s)" and ?v = "next_addr s"
  let ?d = "d\<lparr>d_enumData := set_entry key ?v (d_enumData d)\<rparr>" and ?F = "{f. am_find key (d_enumData d) = Some f}"
  let ?fl = "intern_type key \<lparr>f_val = v, f_flags = 0\<rparr>"
  note N = new_fld_ok [OF ok, where v = v]
  have k': "key \<noteq> -1" "key \<noteq> 0" using k by auto
  from setEnum_ok [OF N(1) _ N(2,3) k', of a d] a N(4) ty obtain s' where
    s': "dataobject_setEnum a key ?v ?s = Inr s'" "store_ok s'" "objs s' a = Some ?d" "\<And>b. b \<noteq> a \<Longrightarrow> objs s' b = objs s b"
      "flds s' ?v = Some ?fl" "next_addr s' = Suc (next_addr s)" "\<And>f. f < ?v \<Longrightarrow> f \<notin> ?F \<Longrightarrow> flds s' f = flds s f"
    using N(5,6) by auto
  have ds: "distinct (map fst (d_enumData d))" "distinct (map snd (d_enumData d))" "snd ` set (d_data d) \<inter> snd ` set (d_enumData d) = {}"
    using store_okD(1) [OF ok a] by (auto simp: obj_ok_def owned_fields_def)
  have F: "?F \<subseteq> set (owned_fields d)" using enum_field(1) [OF ok a] by blast
  have nv: "?v \<notin> snd ` set (d_enumData d)"
  proof
    assume "?v \<in> snd ` set (d_enumData d)"
    then have "?v \<in> set (owned_fields d)" by (auto simp: owned_fields_def)
    from store_okD(3) [OF ok a this] ok show False unfolding store_ok_def by (metis less_irrefl)
  qed
  have own: "set (owned_fields ?d) \<subseteq> insert ?v (set (owned_fields d) - ?F)"
  proof -
    have "snd ` set (set_entry key ?v (d_enumData d)) \<subseteq> insert ?v (snd ` set (d_enumData d) - ?F)"
    proof (cases "am_find key (d_enumData d)")
      case None
      then show ?thesis using snd_am_remove_subset [of key "d_enumData d"] by (auto simp: set_entry_def snd_am_append)
    next
      case (Some f)
      then show ?thesis using am_replace_values [OF ds(1,2) Some nv] by (auto simp: set_entry_def)
    qed
    moreover have "?F \<subseteq> snd ` set (d_enumData d)" using am_find_set by force
    ultimately show ?thesis using ds(3) by (auto simp: owned_fields_def)
  qed
  note E = field_effect [OF ok a F s'(3,4) own s'(5) _ s'(7), simplified]
  have ea: "enums_of s' a = (enums_of s a)(key \<mapsto> content_of v)"
  proof -
    have "enums_of s' a = (enums_of s a)(key := Option.bind (am_find key (d_enumData ?d)) (fld_content s'))"
    proof (rule enum_contents_at [OF a s'(3)])
      show "flds s' f = flds s f" if "am_find k (d_enumData d) = Some f" "k \<noteq> key" for k f
        using enum_field(3,4) [OF ok a that(1)] that(2) s'(7) by blast
    qed simp
    then show ?thesis using s'(5) by (simp add: fld_content_def)
  qed
  have va: "vals_of s' a = vals_of s a"
  proof -
    have same: "flds s' f = flds s f" if "am_find k (d_data d) = Some f" for k f
      using data_field(3,5) [OF ok a that] s'(7) by blast
    have "vals_of s' a k = vals_of s a k" for k
      using same a s'(3) by (cases "am_find k (d_data d)") (simp_all add: vals_of_def fld_content_def)
    then show ?thesis by blast
  qed
  have "kids_of s' x = kids_of s x \<and> parent_of s' x = parent_of s x" for x
    using s'(3,4) a by (cases "x = a") (simp_all add: kids_of_def parent_of_def)
  moreover have "vals_of s' x = vals_of s x" for x using va E(1) by (cases "x = a") auto
  ultimately show ?thesis using s'(1,2,6) ea E by (auto simp: stores_def)
qed

text \<open>A field changed in place.\<close>

definition holds_field :: "DataObject \<Rightarrow> FieldNameP \<Rightarrow> addr \<Rightarrow> bool" where
  "holds_field d name f \<longleftrightarrow> (case name of
     fieldNameStringP k \<Rightarrow> am_find (cstring k) (d_data d) = Some f | fieldNameEnumP k \<Rightarrow> am_find k (d_enumData d) = Some f)"

lemma put_fld_stores:
  assumes ok: "store_ok s" and a: "objs s a = Some d" and h: "holds_field d name f" and f: "flds s f = Some fl"
  shows "stores s a name (content_of v) (put_fld f (fl\<lparr>f_val := v\<rparr>) s)"
proof -
  let ?s = "put_fld f (fl\<lparr>f_val := v\<rparr>) s"
  have o': "objs ?s = objs s" "next_addr ?s = next_addr s" "flds ?s f = Some (fl\<lparr>f_val := v\<rparr>)" by (auto simp: put_fld_def)
  have same: "flds ?s g = flds s g" if "g \<noteq> f" for g using that by (simp add: put_fld_def)
  have fa: "b = a" if "objs s b = Some e" "f \<in> set (owned_fields e)" for b e
    using h data_field(6) [OF ok a] enum_field(6) [OF ok a] that by (auto simp: holds_field_def split: FieldNameP.splits)
  have rest: "vals_of ?s b = vals_of s b" "enums_of ?s b = enums_of s b" if "b \<noteq> a" for b
    by (rule contents_cong [OF ok]; use o' same fa that in metis)+
  have plain: "plain_node ?s b" if "plain_node s b" for b
    using that f o' same unfolding plain_node_def by (metis DataObjectField.ext_inject DataObjectField.surjective DataObjectField.update_convs(1) option.inject)
  have sok: "store_ok ?s" using ok f unfolding store_ok_def owns_def o' by (auto simp: put_fld_def)
  have shape: "kids_of ?s x = kids_of s x \<and> parent_of ?s x = parent_of s x" for x by (simp add: kids_of_def parent_of_def o')
  show ?thesis
  proof (cases name)
    case (fieldNameStringP k)
    then have kf: "am_find (cstring k) (d_data d) = Some f" using h by (simp add: holds_field_def)
    have "vals_of ?s a = (vals_of s a)(cstring k := Option.bind (am_find (cstring k) (d_data d)) (fld_content ?s))"
      by (rule contents_at [OF a], simp add: o' a, simp, metis same data_field(4) [OF ok a kf])
    then have "vals_of ?s a = (vals_of s a)(cstring k \<mapsto> content_of v)" using kf o' by (simp add: fld_content_def)
    moreover have "enums_of ?s x = enums_of s x" for x
    proof (cases "x = a")
      case True
      have "enums_of ?s a k' = enums_of s a k'" for k'
        using a o' same data_field(5) [OF ok a kf, of k'] by (cases "am_find k' (d_enumData d)") (auto simp: enums_of_def fld_content_def)
      with True show ?thesis by blast
    qed (rule rest(2))
    ultimately show ?thesis using sok shape rest plain o' by (auto simp: stores_def fieldNameStringP)
  next
    case (fieldNameEnumP k)
    then have kf: "am_find k (d_enumData d) = Some f" using h by (simp add: holds_field_def)
    have "enums_of ?s a = (enums_of s a)(k := Option.bind (am_find k (d_enumData d)) (fld_content ?s))"
      by (rule enum_contents_at [OF a], simp add: o' a, simp, metis same enum_field(4) [OF ok a kf])
    then have "enums_of ?s a = (enums_of s a)(k \<mapsto> content_of v)" using kf o' by (simp add: fld_content_def)
    moreover have "vals_of ?s x = vals_of s x" for x
    proof (cases "x = a")
      case True
      have "vals_of ?s a k' = vals_of s a k'" for k'
        using a o' same enum_field(5) [OF ok a kf, of k'] by (cases "am_find k' (d_data d)") (auto simp: vals_of_def fld_content_def)
      with True show ?thesis by blast
    qed (rule rest(1))
    ultimately show ?thesis using sok shape rest plain o' by (auto simp: stores_def fieldNameEnumP)
  qed
qed

lemma set_field_stores:
  assumes "store_ok s" and "objs s a = Some d" and "name_ok name"
    and "name = fieldNameEnumP EMO_FIELD_TYPE \<Longrightarrow> \<exists>str. v = DOF_STRING str"
  shows "\<exists>s'. set_field name a (next_addr s) (snd (new_fld v s)) = Inr s' \<and> stores s a name (content_of v) s'"
  using assms setValue_stores [OF assms(1,2)] setEnum_stores [OF assms(1,2)]
  by (cases name) (auto simp: name_ok_def set_field_def)

section \<open>The simulation\<close>

lemma pos_in_of_nth: "distinct xs \<Longrightarrow> i < length xs \<Longrightarrow> pos_in (xs ! i) xs = i"
  using pos_in_nth [of "xs ! i" xs] nth_eq_iff_index_eq [of xs "pos_in (xs ! i) xs" i] by simp

lemma is_tree_shape:
  assumes "is_tree s t" and "\<And>x. kids_of s' x = kids_of s x" and "\<And>x. parent_of s' x = parent_of s x"
    and "next_addr s \<le> next_addr s'"
  shows "is_tree s' t"
  using assms tree_links_cong [of s t s'] unfolding is_tree_alt by (metis order_less_le_trans)

lemma doc_rel_stores:
  assumes "doc_rel s i D" and "stores s (doc_cur D) name c s'"
  shows "doc_rel s' i (case name of
     fieldNameStringP k \<Rightarrow>
       D\<lparr>doc_vals := (doc_vals D)(doc_cur D := (doc_vals D (doc_cur D))(cstring k \<mapsto> c))\<rparr>
   | fieldNameEnumP k \<Rightarrow> D\<lparr>doc_enums := (doc_enums D)(doc_cur D := (doc_enums D (doc_cur D))(k \<mapsto> c))\<rparr>)"
proof -
  have "is_tree s' (doc_tree D)"
    using assms unfolding doc_rel_def stores_def by (blast intro: is_tree_shape)
  moreover have "store_ok s'" "\<And>x. plain_node s x \<Longrightarrow> plain_node s' x" using assms(2) unfolding stores_def by blast+
  moreover have "vals_of s' x = (case name of fieldNameStringP k \<Rightarrow>
        if x = doc_cur D then (vals_of s x)(cstring k \<mapsto> c) else vals_of s x | _ \<Rightarrow> vals_of s x)"
      "enums_of s' x = (case name of fieldNameEnumP k \<Rightarrow>
        if x = doc_cur D then (enums_of s x)(k \<mapsto> c) else enums_of s x | _ \<Rightarrow> enums_of s x)" for x
    using assms(2) unfolding stores_def by (cases name; simp)+
  ultimately show ?thesis using assms(1) unfolding doc_rel_def by (cases name) simp_all
qed

definition field_at :: "DataObject \<Rightarrow> FieldNameP \<Rightarrow> addr option" where
  "field_at d name = (case name of
     fieldNameStringP k \<Rightarrow> am_find (cstring k) (d_data d) | fieldNameEnumP k \<Rightarrow> am_find k (d_enumData d))"

definition content_at :: "doc \<Rightarrow> FieldNameP \<Rightarrow> content option" where
  "content_at D name = (case name of
     fieldNameStringP k \<Rightarrow> doc_vals D (doc_cur D) (cstring k) | fieldNameEnumP k \<Rightarrow> doc_enums D (doc_cur D) k)"

lemma read_field:
  assumes ok: "store_ok s" and a: "objs s a = Some d" and "plain_node s a" and "name_ok name"
  shows "(case name of fieldNameStringP k \<Rightarrow> dataobject_getValue s a (cstring k) | fieldNameEnumP i \<Rightarrow> dataobject_getEnum s a i) =
      Inr (field_at d name)" and "field_at d name = Some f \<Longrightarrow> flds s f \<noteq> None"
proof -
  have fl: "f \<in> set (owned_fields d) \<and> (\<exists>fl. flds s f = Some fl \<and> f_flags fl AND DOFF_ARRAYSOURCE = 0)"
    if "field_at d name = Some f" for f
    using data_field(1,2) [OF ok a, of _ f] enum_field(1,2) [OF ok a, of _ f] that a assms(3)
    by (cases name) (fastforce simp: field_at_def plain_node_def)+
  show "field_at d name = Some f \<Longrightarrow> flds s f \<noteq> None" using fl by force
  show "(case name of fieldNameStringP k \<Rightarrow> dataobject_getValue s a (cstring k) | fieldNameEnumP i \<Rightarrow> dataobject_getEnum s a i) =
      Inr (field_at d name)"
  proof (cases "field_at d name")
    case None
    then show ?thesis using a assms(4)
      by (cases name) (auto simp: field_at_def dataobject_getValue_def dataobject_getEnum_def get_obj_def name_ok_def)
  next
    case (Some f)
    then show ?thesis using fl [OF Some] getValue_plain [OF a] getEnum_plain [OF a] assms(4)
      by (cases name) (auto simp: field_at_def name_ok_def)
  qed
qed

lemma doc_rel_cur:
  assumes "doc_rel s i D"
  shows "store_ok s" "\<exists>d. objs s (doc_cur D) = Some d" "plain_node s (doc_cur D)"
    "dataobject_getTree s (root (doc_tree D)) i = Inr (Some (doc_cur D))"
    "objs s (doc_cur D) = Some d \<Longrightarrow> content_at D name = Option.bind (field_at d name) (fld_content s)"
proof -
  have t: "is_tree s (doc_tree D)" and c: "doc_cur D \<in> set (preorder (doc_tree D))"
    and i: "i = int (pos_in (doc_cur D) (preorder (doc_tree D)))" using assms by (auto simp: doc_rel_def)
  show "store_ok s" "plain_node s (doc_cur D)" using assms c by (auto simp: doc_rel_def)
  show "\<exists>d. objs s (doc_cur D) = Some d" using t c tree_links_alloc by (auto simp: is_tree_def)
  show "dataobject_getTree s (root (doc_tree D)) i = Inr (Some (doc_cur D))"
    using getTree_run [OF t, of i] pos_in_nth [OF c] by (simp add: i)
  show "content_at D name = Option.bind (field_at d name) (fld_content s)" if d: "objs s (doc_cur D) = Some d"
  proof -
    have "doc_vals D (doc_cur D) = vals_of s (doc_cur D)" "doc_enums D (doc_cur D) = enums_of s (doc_cur D)"
      using assms c by (auto simp: doc_rel_def)
    with d show ?thesis by (cases name) (auto simp: content_at_def field_at_def vals_of_def enums_of_def)
  qed
qed

text \<open>The part of \<open>doc_apply\<close> for operations on a field.\<close>

definition doc_set :: "FieldNameP \<Rightarrow> content option \<Rightarrow> doc \<Rightarrow> doc" where
  "doc_set name c D = (case name of
     fieldNameStringP k \<Rightarrow> D\<lparr>doc_vals := (doc_vals D)(doc_cur D := (doc_vals D (doc_cur D))(cstring k := c))\<rparr>
   | fieldNameEnumP k \<Rightarrow> D\<lparr>doc_enums := (doc_enums D)(doc_cur D := (doc_enums D (doc_cur D))(k := c))\<rparr>)"

lemma doc_apply_field:
  "(\<And>nop. op_syncP op \<noteq> nodeOperationP nop) \<Longrightarrow>
   doc_apply new op D = doc_set (op_fieldNameP op) (new_content (op_syncP op) (content_at D (op_fieldNameP op))) D"
  by (auto simp: doc_apply_def doc_set_def content_at_def split: syncP.splits FieldNameP.splits)

lemma doc_set_same [simp]: "doc_set name (content_at D name) D = D"
  by (cases name) (simp_all add: doc_set_def content_at_def)

lemma doc_rel_set: "doc_rel s i D \<Longrightarrow> stores s (doc_cur D) name c s' \<Longrightarrow> doc_rel s' i (doc_set name (Some c) D)"
  using doc_rel_stores by (simp add: doc_set_def)

lemma modify_field_sim:
  assumes r: "doc_rel s i D" and n: "name_ok name" "name \<noteq> fieldNameEnumP EMO_FIELD_TYPE" and b: "str \<noteq> []"
  shows "\<exists>s'. modify_field name (doc_cur D) (map byte_of_char str) s = Inr s' \<and>
     doc_rel s' i (doc_set name (new_content (syncModifyP str sz off) (content_at D name)) D)"
proof -
  note C = doc_rel_cur [OF r]
  obtain d where d: "objs s (doc_cur D) = Some d" using C(2) by blast
  note R = read_field [OF C(1) d C(3) n(1)]
  show ?thesis
  proof (cases "field_at d name")
    case None
    let ?v = "DOF_DATA (map byte_of_char str)"
    obtain s' where s': "set_field name (doc_cur D) (next_addr s) (snd (new_fld ?v s)) = Inr s'"
        "stores s (doc_cur D) name (content_of ?v) s'"
      using set_field_stores [OF C(1) d n(1)] n(2) by blast
    have "modify_field name (doc_cur D) (map byte_of_char str) s = Inr s'"
      using R(1) None s'(1) b by (simp add: modify_field_def dataobjectfield_data_def new_fld_def)
    with doc_rel_set [OF r s'(2)] None C(5) [OF d] show ?thesis by (simp add: new_content_def content_of_def)
  next
    case (Some f)
    then obtain fl where fl: "flds s f = Some fl" using R(2) by blast
    have h: "holds_field d name f" using Some by (cases name) (simp_all add: holds_field_def field_at_def)
    have cont: "content_at D name = Some (content_of (f_val fl))" using C(5) [OF d] Some fl by (simp add: fld_content_def)
    show ?thesis
    proof (cases "\<exists>old. f_val fl = DOF_DATA old")
      case True
      then obtain old where old: "f_val fl = DOF_DATA old" by blast
      let ?v = "DOF_DATA (old @ map byte_of_char str)"
      have "modify_field name (doc_cur D) (map byte_of_char str) s = Inr (put_fld f (fl\<lparr>f_val := ?v\<rparr>) s)"
        using R(1) Some fl old by (simp add: modify_field_def get_fld_def)
      with doc_rel_set [OF r put_fld_stores [OF C(1) d h fl, of ?v]] cont old show ?thesis
        by (simp add: new_content_def content_of_def)
    next
      case False
      then have "modify_field name (doc_cur D) (map byte_of_char str) s = Inr s"
        using R(1) Some fl by (auto simp: modify_field_def get_fld_def split: dof_val.splits)
      moreover have "new_content (syncModifyP str sz off) (content_at D name) = content_at D name"
        using False by (auto simp: cont new_content_def content_of_def split: dof_val.splits)
      ultimately show ?thesis using r by simp
    qed
  qed
qed

lemma field_op_sim:
  assumes r: "doc_rel s i D" and ok: "op_ok n op" and nn: "\<And>nop. op_syncP op \<noteq> nodeOperationP nop"
  shows "\<exists>s'. connectionContext_processSyncOperand rt (Some (doc_cur D)) op (i, s) = Inr (i, s') \<and>
     doc_rel s' i (doc_apply new op D)"
proof -
  note C = doc_rel_cur [OF r]
  obtain d where d: "objs s (doc_cur D) = Some d" using C(2) by blast
  show ?thesis
  proof (cases "op_syncP op")
    case (syncSetP str)
    let ?v = "DOF_STRING (Owned (cstring str))" and ?name = "op_fieldNameP op"
    have "name_ok ?name" using ok syncSetP by (simp add: op_ok_def)
    from set_field_stores [OF C(1) d this, of ?v] obtain s' where
      s': "set_field ?name (doc_cur D) (next_addr s) (snd (new_fld ?v s)) = Inr s'"
        "stores s (doc_cur D) ?name (content_of ?v) s'" by blast
    with doc_rel_set [OF r s'(2)] syncSetP show ?thesis
      by (simp add: connectionContext_processSyncOperand_def dataobjectfield_string_def new_fld_def doc_apply_field
          new_content_def content_of_def str_of_def)
  next
    case (syncModifyP str sz off)
    with modify_field_sim [OF r, of "op_fieldNameP op" str sz off] ok show ?thesis
      by (auto simp: op_ok_def connectionContext_processSyncOperand_def doc_apply_field)
  next
    case (syncRemoveP sz off)
    with r show ?thesis
      by (simp add: connectionContext_processSyncOperand_def doc_apply_field new_content_def)
  qed (use nn in blast)
qed

text \<open>Adding a child.\<close>

lemma pack_run:
  assumes "objs s c = Some e" and "objs s a = Some d" and "a \<noteq> c"
  shows "dataobject_pack a c s =
     Inr (s\<lparr>objs := (objs s)(c \<mapsto> e\<lparr>parent := Some a\<rparr>, a \<mapsto> d\<lparr>children := children d @ [c]\<rparr>)\<rparr>)"
  using assms by (simp add: dataobject_pack_def heap_defs)

lemma store_ok_shape:
  assumes ok: "store_ok s" and f: "flds s' = flds s" and n: "next_addr s \<le> next_addr s'"
    and o': "\<And>x d'. objs s' x = Some d' \<Longrightarrow> (\<exists>d. objs s x = Some d \<and> d_data d' = d_data d \<and> d_enumData d' = d_enumData d) \<or>
       d_data d' = [] \<and> d_enumData d' = [] \<and> x < next_addr s'"
  shows "store_ok s'"
proof -
  have owns: "owns s x f" if "owns s' x f" for x f
    using that o' by (fastforce simp: owns_def owned_fields_def)
  show ?thesis unfolding store_ok_def f
  proof (intro conjI allI impI)
    fix x d' assume x: "objs s' x = Some d'"
    from o' [OF x] show "obj_ok d'"
      using ok by (fastforce simp: store_ok_def obj_ok_def owned_fields_def)
    from o' [OF x] show "x < next_addr s'"
      using ok n by (fastforce simp: store_ok_def)
  next
    fix g assume "flds s g \<noteq> None"
    then show "g < next_addr s'" using ok n by (fastforce simp: store_ok_def)
  qed (use owns ok in \<open>unfold store_ok_def, blast+\<close>)
qed

text \<open>The contents of a node do not depend on the links of its object.\<close>

lemma contents_shape:
  assumes "flds s' = flds s" and "objs s x = Some d" and "objs s' x = Some d'" and "d_data d' = d_data d" and "d_enumData d' = d_enumData d"
  shows "vals_of s' x = vals_of s x" "enums_of s' x = enums_of s x" "plain_node s' x = plain_node s x"
proof -
  have "fld_content s' = fld_content s" using assms(1) by (simp add: fld_content_def fun_eq_iff)
  then show "vals_of s' x = vals_of s x" "enums_of s' x = enums_of s x" "plain_node s' x = plain_node s x"
    using assms(2-) by (rule_tac ext, simp add: vals_of_def, rule_tac ext, simp add: enums_of_def,
        simp add: plain_node_def owned_fields_def assms(1))
qed

lemma contents_new:
  assumes "objs s x = Some d" and "d_data d = []" and "d_enumData d = []"
  shows "vals_of s x = (\<lambda>k. None)" "enums_of s x = (\<lambda>k. None)" "plain_node s x"
  using assms by (simp_all add: vals_of_def enums_of_def plain_node_def owned_fields_def fun_eq_iff)

lemma addChild_sim:
  assumes r: "doc_rel s i D"
  shows "\<exists>s' j. dataobject_pack (doc_cur D) (next_addr s) (snd (dataobject_new s)) = Inr s' \<and>
     dataobject_treeIndex s' (next_addr s) = Inr j \<and> doc_rel s' j (doc_apply (next_addr s) protocol_addChild D)"
proof -
  let ?c = "next_addr s" and ?a = "doc_cur D" and ?t = "doc_tree D" and ?s = "snd (dataobject_new s)"
  note C = doc_rel_cur [OF r]
  obtain d where d: "objs s ?a = Some d" using C(2) by blast
  have t: "is_tree s ?t" and ain: "?a \<in> set (preorder ?t)" using r by (auto simp: doc_rel_def)
  have nc: "x \<noteq> ?c" if "x \<in> set (preorder ?t)" for x using t that by (auto simp: is_tree_def)
  have new: "objs ?s = (objs s)(?c \<mapsto> new_obj)" "flds ?s = flds s" "next_addr ?s = Suc ?c"
    by (simp_all add: dataobject_new_def put_obj_def)
  have t1: "is_tree ?s ?t"
  proof -
    have "tree_links ?s ?t"
      by (rule tree_links_cong [of s]) (use t nc new in \<open>auto simp: is_tree_def kids_of_def parent_of_def\<close>)
    then show ?thesis using t nc [of "root ?t"] new by (auto simp: is_tree_alt parent_of_def less_Suc_eq)
  qed
  have t2: "is_tree ?s (Node ?c [])"
    using new by (auto simp: is_tree_alt tree_links_alt kids_of_def parent_of_def new_obj_def)
  have disj: "set (preorder ?t) \<inter> set (preorder (Node ?c [])) = {}" using nc by auto
  let ?s' = "?s\<lparr>objs := (objs ?s)(?c \<mapsto> new_obj\<lparr>parent := Some ?a\<rparr>, ?a \<mapsto> d\<lparr>children := children d @ [?c]\<rparr>)\<rparr>"
  have run: "dataobject_pack ?a ?c ?s = Inr ?s'"
    using d new nc [OF ain] by (intro pack_run) auto
  let ?t' = "graft ?a (Node ?c []) ?t"
  have t': "is_tree ?s' ?t'" using pack_grafts [OF t1 t2 disj ain] run by simp
  have nodes: "set (preorder ?t') = insert ?c (set (preorder ?t))"
    using preorder_graft [of ?t "Node ?c []" ?a] t disj ain by (auto simp: is_tree_def)
  have ok: "store_ok ?s'"
    by (rule store_ok_shape [OF C(1)]) (use new d in \<open>auto simp: new_obj_def split: if_splits\<close>)
  have cont: "vals_of ?s' x = (if x = ?c then \<lambda>k. None else vals_of s x) \<and>
      enums_of ?s' x = (if x = ?c then \<lambda>k. None else enums_of s x) \<and> plain_node ?s' x"
    if x: "x \<in> set (preorder ?t')" for x
  proof (cases "x = ?c")
    case True
    then have "objs ?s' x = Some (new_obj\<lparr>parent := Some ?a\<rparr>)" using nc [OF ain] by simp
    from contents_new [OF this] True show ?thesis by (simp add: new_obj_def)
  next
    case False
    with x nodes have xt: "x \<in> set (preorder ?t)" by blast
    then obtain e where e: "objs s x = Some e" using t tree_links_alloc by (fastforce simp: is_tree_def)
    have "\<exists>e'. objs ?s' x = Some e' \<and> d_data e' = d_data e \<and> d_enumData e' = d_enumData e"
      using False e d new by auto
    moreover have "flds ?s' = flds s" using new by simp
    moreover have "plain_node s x" using r xt by (simp add: doc_rel_def)
    ultimately show ?thesis using contents_shape [OF _ e] False by metis
  qed
  have "doc_rel ?s' (int (pos_in ?c (preorder ?t'))) (doc_apply ?c protocol_addChild D)"
    unfolding doc_rel_def
  proof (intro conjI ballI)
    fix x assume "x \<in> set (preorder (doc_tree (doc_apply ?c protocol_addChild D)))"
    then have x: "x \<in> set (preorder ?t')" by (simp add: doc_apply_def protocol_addChild_def)
    show "plain_node ?s' x" using cont [OF x] by blast
    show "vals_of ?s' x = doc_vals (doc_apply ?c protocol_addChild D) x" "enums_of ?s' x = doc_enums (doc_apply ?c protocol_addChild D) x"
      using cont [OF x] r x nodes by (auto simp: doc_apply_def protocol_addChild_def doc_rel_def)
  qed (use t' nodes ok in \<open>simp_all add: doc_apply_def protocol_addChild_def\<close>)
  moreover have "dataobject_treeIndex ?s' ?c = Inr (int (pos_in ?c (preorder ?t')))"
    by (rule treeIndex_run [OF t']) (simp add: nodes)
  ultimately show ?thesis using run by blast
qed

lemma goto_sim:
  assumes r: "doc_rel s i D" and k: "0 \<le> k" "k < int (length (preorder (doc_tree D)))"
  shows "doc_rel s k (D\<lparr>doc_cur := preorder (doc_tree D) ! nat k\<rparr>)"
    "\<exists>x. dataobject_getTree s (root (doc_tree D)) k = Inr x"
proof -
  have t: "is_tree s (doc_tree D)" using r by (simp add: doc_rel_def)
  have lt: "nat k < length (preorder (doc_tree D))" using k by simp
  have "int (pos_in (preorder (doc_tree D) ! nat k) (preorder (doc_tree D))) = k"
    using pos_in_of_nth [OF _ lt] t k by (simp add: is_tree_def)
  then show "doc_rel s k (D\<lparr>doc_cur := preorder (doc_tree D) ! nat k\<rparr>)" using r nth_mem [OF lt] by (simp add: doc_rel_def)
  show "\<exists>x. dataobject_getTree s (root (doc_tree D)) k = Inr x" using getTree_run [OF t k(1)] by blast
qed

lemma doc_apply_tree:
  "root (doc_tree (doc_apply new op D)) = root (doc_tree D)"
  "doc_cur D \<in> set (preorder (doc_tree D)) \<Longrightarrow> distinct (preorder (doc_tree D)) \<Longrightarrow>
   length (preorder (doc_tree (doc_apply new op D))) = (if is_addChild op then Suc else id) (length (preorder (doc_tree D)))"
proof -
  show "root (doc_tree (doc_apply new op D)) = root (doc_tree D)"
    by (auto simp: doc_apply_def split: syncP.splits nodeOperationP.splits FieldNameP.splits nodeAddP.splits)
  assume "doc_cur D \<in> set (preorder (doc_tree D))" "distinct (preorder (doc_tree D))"
  then have "count (mset (preorder (doc_tree D))) (doc_cur D) = 1" by (simp add: distinct_count_atmost_1)
  then have "size (mset (preorder (graft (doc_cur D) (Node new []) (doc_tree D)))) = Suc (size (mset (preorder (doc_tree D))))"
    unfolding mset_graft by simp
  then show "length (preorder (doc_tree (doc_apply new op D))) = (if is_addChild op then Suc else id) (length (preorder (doc_tree D)))"
    by (auto simp: doc_apply_def is_addChild_def split: syncP.splits nodeOperationP.splits FieldNameP.splits nodeAddP.splits)
qed

lemma operand_sim:
  assumes r: "doc_rel s i D" and ok: "op_ok (length (preorder (doc_tree D))) op"
  shows "\<exists>s' j new. connectionContext_processSyncOperand (root (doc_tree D)) (Some (doc_cur D)) op (i, s) = Inr (j, s') \<and>
     new \<notin> set (preorder (doc_tree D)) \<and> doc_rel s' j (doc_apply new op D)"
proof -
  have fresh: "next_addr s \<notin> set (preorder (doc_tree D))" using r by (auto simp: doc_rel_def is_tree_def)
  show ?thesis
  proof (cases "\<exists>nop. op_syncP op = nodeOperationP nop")
    case False
    then show ?thesis using field_op_sim [OF r ok] fresh by blast
  next
    case True
    then obtain nop where nop: "op_syncP op = nodeOperationP nop" by blast
    show ?thesis
    proof (cases nop)
      case (nodeGotoTreeP k)
      with ok nop goto_sim [OF r, of k] fresh show ?thesis
        by (auto simp: op_ok_def connectionContext_processSyncOperand_def doc_apply_def)
    next
      case (nodeAddP kind)
      show ?thesis
      proof (cases kind)
        case nodeChildP
        have "doc_apply new op D = doc_apply new protocol_addChild D" for new
          by (simp add: doc_apply_def nop nodeAddP nodeChildP protocol_addChild_def)
        moreover have "fst (dataobject_new s) = next_addr s" by (simp add: dataobject_new_def)
        ultimately show ?thesis using addChild_sim [OF r] fresh nop nodeAddP nodeChildP
          by (fastforce simp: connectionContext_processSyncOperand_def split_def)
      qed (use r fresh nop nodeAddP in \<open>auto simp: connectionContext_processSyncOperand_def doc_apply_def\<close>)
    qed (use r ok fresh nop in \<open>auto simp: op_ok_def connectionContext_processSyncOperand_def doc_apply_def\<close>)
  qed
qed

lemma block_sync_sim:
  "doc_rel s i D \<Longrightarrow> ops_ok (length (preorder (doc_tree D))) ops \<Longrightarrow>
   \<exists>s' j D'. connectionContext_processBlockSyncList (root (doc_tree D)) ops (i, s) = Inr (j, s') \<and>
     doc_run ops D D' \<and> doc_rel s' j D'"
proof (induction ops arbitrary: s i D)
  case (Cons op ops)
  note C = doc_rel_cur [OF Cons.prems(1)]
  from operand_sim [OF Cons.prems(1), of op] Cons.prems(2) obtain s1 j new where
    1: "connectionContext_processSyncOperand (root (doc_tree D)) (Some (doc_cur D)) op (i, s) = Inr (j, s1)"
      "new \<notin> set (preorder (doc_tree D))" "doc_rel s1 j (doc_apply new op D)" by auto
  have "length (preorder (doc_tree (doc_apply new op D))) =
      (if is_addChild op then Suc (length (preorder (doc_tree D))) else length (preorder (doc_tree D)))"
    using doc_apply_tree(2) [of D new op] Cons.prems(1) by (auto simp: doc_rel_def is_tree_def)
  with Cons.IH [OF 1(3)] Cons.prems(2) obtain s' k D' where
    "connectionContext_processBlockSyncList (root (doc_tree D)) ops (j, s1) = Inr (k, s')" "doc_run ops (doc_apply new op D) D'"
    "doc_rel s' k D'" by (auto simp: doc_apply_tree(1) split: if_splits)
  with 1 C(4) doc_run_Cons show ?case by fastforce
qed auto

section \<open>Sending an object\<close>

lemma tree_parent_in:
  "tree_links s t \<Longrightarrow> x \<in> set (preorder t) \<Longrightarrow> x \<noteq> root t \<Longrightarrow> \<exists>p \<in> set (preorder t). parent_of s x = Some (Some p)"
proof (induction t)
  case (Node a ts)
  then obtain u where u: "u \<in> set ts" "x \<in> set (preorder u)" by auto
  show ?case
  proof (cases "x = root u")
    case True
    then show ?thesis using Node.prems(1) u by (auto simp: tree_links_alt)
  next
    case False
    with Node.IH [OF u(1) _ u(2)] Node.prems(1) u(1) obtain p where "p \<in> set (preorder u)" "parent_of s x = Some (Some p)"
      by (auto simp: tree_links_alt)
    with u(1) show ?thesis by auto
  qed
qed

text \<open>The search for the next position ends whenever the way up to the root does.\<close>

lemma nextOp_loop_ok:
  assumes t: "is_tree s t"
  shows "superparent_loop n s p = Inr rt \<Longrightarrow> p \<in> set (preorder t) \<Longrightarrow> x \<in> set (preorder t) \<Longrightarrow> parent_of s x = Some (Some p) \<Longrightarrow>
     \<exists>r. nextOp_loop n s p x = Inr r"
proof (induction n arbitrary: p x)
  case (Suc n)
  obtain d where d: "objs s p = Some d" using t Suc.prems(2) tree_links_alloc by (fastforce simp: is_tree_def)
  obtain l where l: "objs s x = Some l" "parent l = Some p" using Suc.prems(4) by (auto simp: parent_of_def)
  show ?case
  proof (cases "dropWhile (\<lambda>c. c \<noteq> x) (children d)")
    case (Cons y ys)
    show ?thesis
    proof (cases "ys = [] \<and> (\<exists>pp. parent d = Some pp)")
      case True
      then obtain pp where pp: "ys = []" "parent d = Some pp" by blast
      then have par: "parent_of s p = Some (Some pp)" using d by (simp add: parent_of_def)
      then have "p \<noteq> root t" using t by (auto simp: is_tree_alt)
      with tree_parent_in [of s t p] t Suc.prems(2) par have "pp \<in> set (preorder t)" by (auto simp: is_tree_def)
      moreover have "superparent_loop n s pp = Inr rt" using Suc.prems(1) d pp by (simp add: get_obj_def)
      ultimately have "\<exists>r. nextOp_loop n s pp p = Inr r" using Suc.IH Suc.prems(2) par by blast
      with Cons pp d l show ?thesis by (simp add: get_obj_def)
    next
      case False
      with Cons d l treeIndex_run [OF t Suc.prems(2)] show ?thesis
        by (auto simp: get_obj_def split: option.splits list.splits)
    qed
  next
    case Nil
    then show ?thesis using d by (simp add: get_obj_def del: dropWhile_eq_Nil_conv)
  qed
qed simp

lemma getTreeNextOp_ok:
  assumes t: "is_tree s t" and x: "x \<in> set (preorder t)"
  shows "\<exists>r. dataobject_getTreeNextOp s x = Inr r"
proof -
  obtain d where d: "objs s x = Some d" using t x tree_links_alloc by (fastforce simp: is_tree_def)
  show ?thesis
  proof (cases "parent d")
    case (Some p)
    then have par: "parent_of s x = Some (Some p)" using d by (simp add: parent_of_def)
    then have "x \<noteq> root t" using t by (auto simp: is_tree_alt)
    with tree_parent_in [of s t x] t x par have p: "p \<in> set (preorder t)" by (auto simp: is_tree_def)
    have "superparent_loop (Suc (next_addr s)) s p = Inr (root t)"
      using superparent_run [OF t p] by (simp add: dataobject_superparent_def)
    from nextOp_loop_ok [OF t this p x par] Some d show ?thesis
      by (auto simp: dataobject_getTreeNextOp_def get_obj_def)
  qed (use d in \<open>auto simp: dataobject_getTreeNextOp_def get_obj_def\<close>)
qed

text \<open>The operands for the fields of an object.\<close>

definition field_ops :: "store \<Rightarrow> (string \<times> addr) list \<Rightarrow> SyncOperandP list" where
  "field_ops s al = map (\<lambda>(k, f). \<lparr>op_fieldNameP = fieldNameStringP k, op_syncP = serialize_value (f_val (the (flds s f)))\<rparr>) al"

lemma sync_fields_run:
  assumes ok: "store_ok s" and a: "objs s a = Some d" and p: "plain_node s a"
  shows "set al \<subseteq> set (d_data d) \<Longrightarrow> distinct (map fst al) \<Longrightarrow> set names \<inter> fst ` set al = {} \<Longrightarrow>
    sync_fields s a al (Some names) = Inr (field_ops s al, Some (names @ map fst al))"
proof (induction al arbitrary: names)
  case (Cons kf al)
  obtain k f where kf: "kf = (k, f)" by fastforce
  have "distinct (map fst (d_data d))" using store_okD(1) [OF ok a] by (simp add: obj_ok_def)
  then have k: "am_find k (d_data d) = Some f" using Cons.prems(1) kf by (simp add: am_find_def map_of_eq_Some_iff)
  then obtain fl where fl: "flds s f = Some fl" using data_field(2) [OF ok a k] by blast
  have "f_flags fl AND DOFF_ARRAYSOURCE = 0" using p a fl data_field(1) [OF ok a k] by (auto simp: plain_node_def)
  from getValue_plain [OF a k fl this] fl
  have "protocol_serializeField s a k = Inr \<lparr>op_fieldNameP = fieldNameStringP k, op_syncP = serialize_value (f_val fl)\<rparr>"
    by (simp add: protocol_serializeField_def get_fld_def)
  moreover have "sync_fields s a al (Some (names @ [k])) = Inr (field_ops s al, Some ((names @ [k]) @ map fst al))"
    by (rule Cons.IH) (use Cons.prems kf in auto)
  ultimately show ?case using Cons.prems kf fl by (auto simp: field_ops_def)
qed (simp add: field_ops_def)

text \<open>A pending request to send the object \<open>a\<close> of the tree \<open>t\<close>.\<close>

definition forced_request :: "net \<Rightarrow> addr \<Rightarrow> SyncRequest \<Rightarrow> otree \<Rightarrow> addr \<Rightarrow> bool" where
  "forced_request n r q t a \<longleftrightarrow> reqs n r = Some q \<and> forcedObject q = Some a \<and> \<not> newObject q \<and> sr_dobj q = root t \<and>
     completeFields q = None \<and> store_ok (n_store n) \<and> is_tree (n_store n) t \<and> a \<in> set (preorder t) \<and>
     plain_node (n_store n) a"

lemma outgoingSyncForced_run:
  assumes f: "forced_request n r q t a" and d: "objs (n_store n) a = Some d"
  shows "\<exists>q'. connectionContext_outgoingSyncForced e r n =
     Inr (connectionContext_packetSend e
            (dataObjectSyncP (sequenceID q)
               (blockSyncListP (protocol_goToTree (int (pos_in a (preorder t))) # field_ops (n_store n) (d_data d))))
            (put_req r q' n)) \<and> sequenceID q' = sequenceID q"
proof -
  let ?s = "n_store n" and ?i = "int (pos_in a (preorder t))"
  have q: "reqs n r = Some q" "forcedObject q = Some a" "\<not> newObject q" "sr_dobj q = root t" "completeFields q = None"
    and ok: "store_ok ?s" and t: "is_tree ?s t" and a: "a \<in> set (preorder t)" and p: "plain_node ?s a"
    using f by (auto simp: forced_request_def)
  obtain m where m: "dataobject_getTreeNextOp ?s a = Inr m" using getTreeNextOp_ok [OF t a] by blast
  have g: "dataobject_getTree ?s (root t) ?i = Inr (Some a)"
    using getTree_run [OF t, of ?i] pos_in_nth [OF a] by simp
  have "distinct (map fst (d_data d))" using store_okD(1) [OF ok d] by (simp add: obj_ok_def)
  from sync_fields_run [OF ok d p _ this, of "[]"]
  have sf: "sync_fields ?s a (d_data d) (Some []) = Inr (field_ops ?s (d_data d), Some (map fst (d_data d)))" by simp
  let ?q = "q\<lparr>completeFields := Some [], objectIndex := ?i, childOp := ?i\<rparr>"
  have "\<exists>q'. connectionContext_syncOperand ?s ?q a =
      Inr (protocol_goToTree ?i # field_ops ?s (d_data d), q') \<and> sequenceID q' = sequenceID q"
    using q d g sf m
    by (cases m) (auto simp: connectionContext_syncOperand_def dataobject_fieldIterator_def get_obj_def Let_def)
  then show ?thesis
    using q treeIndex_run [OF t a]
    by (auto simp: connectionContext_outgoingSyncForced_def get_req_def open_completeFields_def Let_def
        add_operands_def protocol_blockSyncList_def)
qed

section \<open>Properties\<close>

definition doc_of :: "store \<Rightarrow> otree \<Rightarrow> addr \<Rightarrow> doc" where
  "doc_of s t a = \<lparr>doc_tree = t, doc_vals = vals_of s, doc_enums = enums_of s, doc_cur = a\<rparr>"

definition doc_store :: "store \<Rightarrow> otree \<Rightarrow> bool" where
  "doc_store s t \<longleftrightarrow> store_ok s \<and> is_tree s t \<and> (\<forall>a \<in> set (preorder t). plain_node s a)"

lemma doc_rel_doc_of:
  "doc_store s t \<Longrightarrow> a \<in> set (preorder t) \<Longrightarrow> doc_rel s (int (pos_in a (preorder t))) (doc_of s t a)"
  by (simp add: doc_rel_def doc_of_def doc_store_def)

lemma tree_store_doc: "doc_store tree_store demo_tree"
proof -
  have o': "objs tree_store a = Some d \<Longrightarrow> a < 5 \<and> d_data d = [] \<and> d_enumData d = []" for a d
    by (auto simp: tree_store_def new_obj_def split: if_splits)
  have own: "\<not> owns tree_store a f" for a f using o' by (force simp: owns_def owned_fields_def)
  have fl: "flds tree_store f \<noteq> None \<Longrightarrow> f < next_addr tree_store" for f
    by (auto simp: tree_store_def demo_store_def split: if_splits)
  have "next_addr tree_store = 5" by (simp add: tree_store_def)
  then have "store_ok tree_store" using own fl o' by (auto simp: store_ok_def obj_ok_def owned_fields_def)
  moreover have "plain_node tree_store a" for a using o' by (force simp: plain_node_def owned_fields_def)
  ultimately show ?thesis using demo_tree_ok(1) by (simp add: doc_store_def)
qed

text \<open>
  C3: processing a list of operands implements its meaning on documents. From a well-formed store that holds a tree,
  with the cursor at any node, a list of operands whose positions are in range and whose names are usual is
  processed without an error; the objects, fields and the position afterwards represent the document that the
  operands produce one by one, and the store is well-formed again.
\<close>

theorem block_sync_refines:
  assumes "doc_store s t" and "a \<in> set (preorder t)" and "ops_ok (length (preorder t)) ops"
  shows "\<exists>s' j D'. connectionContext_processBlockSyncList (root t) ops (int (pos_in a (preorder t)), s) = Inr (j, s') \<and>
     doc_run ops (doc_of s t a) D' \<and> doc_rel s' j D'"
  using block_sync_sim [OF doc_rel_doc_of [OF assms(1,2)]] assms(3) by (simp add: doc_of_def)

theorem block_sync_refines_witness:
  "\<exists>s' j D'. connectionContext_processBlockSyncList 0
        [protocol_goToTree 1, protocol_addChild, \<lparr>op_fieldNameP = fieldNameEnumP EMO_FIELD_TYPE, op_syncP = syncSetP ''label''\<rparr>]
        (0, tree_store) = Inr (j, s') \<and>
     doc_run [protocol_goToTree 1, protocol_addChild, \<lparr>op_fieldNameP = fieldNameEnumP EMO_FIELD_TYPE, op_syncP = syncSetP ''label''\<rparr>]
        (doc_of tree_store demo_tree 0) D' \<and> doc_rel s' j D'"
  using block_sync_refines [OF tree_store_doc, of 0
      "[protocol_goToTree 1, protocol_addChild, \<lparr>op_fieldNameP = fieldNameEnumP EMO_FIELD_TYPE, op_syncP = syncSetP ''label''\<rparr>]"]
  by (simp add: demo_tree_def protocol_goToTree_def protocol_addChild_def op_ok_def is_addChild_def name_ok_def EMO_FIELD_TYPE_def)

text \<open>What arrives for a field: numbers arrive as text, data is appended to data that is already there.\<close>

definition received :: "dof_val \<Rightarrow> content option \<Rightarrow> content" where
  "received v old =
     (case v of
        DOF_STRING str \<Rightarrow> Text (str_of str)
      | DOF_INT i \<Rightarrow> Text (emo_itoa (sint i) 10)
      | DOF_UINT i \<Rightarrow> Text (emo_uitoa (uint i) 10)
      | DOF_DATA b \<Rightarrow> (case old of None \<Rightarrow> Bytes b | Some (Bytes o') \<Rightarrow> Bytes (o' @ b) | Some c \<Rightarrow> c))"

definition sendable :: "store \<Rightarrow> DataObject \<Rightarrow> bool" where
  "sendable s d \<longleftrightarrow> (\<forall>(k, f) \<in> set (d_data d). nul \<notin> set k \<and> (k = [] \<or> hd k \<noteq> CHR ''_'') \<and>
     (case f_val (the (flds s f)) of DOF_STRING str \<Rightarrow> nul \<notin> set (str_of str) | DOF_DATA b \<Rightarrow> b \<noteq> [] | _ \<Rightarrow> True))"

lemma new_content_received:
  "(case v of DOF_STRING str \<Rightarrow> nul \<notin> set (str_of str) | _ \<Rightarrow> True) \<Longrightarrow>
   new_content (serialize_value v) old = Some (received v old)"
  using emo_itoa_no_nul
  by (auto simp: new_content_def serialize_value_def received_def cstring_id nul_def comp_def split: dof_val.splits option.splits content.splits)

lemma doc_run_fields:
  "doc_run (field_ops s al) D D' \<Longrightarrow> distinct (map fst al) \<Longrightarrow> \<forall>k \<in> fst ` set al. nul \<notin> set k \<Longrightarrow>
   doc_tree D' = doc_tree D \<and> doc_cur D' = doc_cur D \<and> doc_enums D' = doc_enums D \<and>
   (\<forall>x. x \<noteq> doc_cur D \<longrightarrow> doc_vals D' x = doc_vals D x) \<and>
   (\<forall>k. doc_vals D' (doc_cur D) k = (case map_of al k of
      None \<Rightarrow> doc_vals D (doc_cur D) k
    | Some f \<Rightarrow> new_content (serialize_value (f_val (the (flds s f)))) (doc_vals D (doc_cur D) k)))"
proof (induction al arbitrary: D)
  case (Cons kf al)
  obtain k f where kf: "kf = (k, f)" by fastforce
  let ?op = "\<lparr>op_fieldNameP = fieldNameStringP k, op_syncP = serialize_value (f_val (the (flds s f)))\<rparr>"
  have nn: "op_syncP ?op \<noteq> nodeOperationP nop" for nop by (auto simp: serialize_value_def split: dof_val.splits)
  from Cons.prems(1) kf obtain new where run: "doc_run (field_ops s al) (doc_apply new ?op D) D'"
    by (auto simp: field_ops_def elim: doc_run_ConsE)
  have D1: "doc_apply new ?op D =
      doc_set (fieldNameStringP k) (new_content (serialize_value (f_val (the (flds s f)))) (doc_vals D (doc_cur D) k)) D"
    using doc_apply_field [OF nn] Cons.prems(3) kf by (simp add: content_at_def cstring_id)
  have nk: "cstring k = k" "map_of al k = None" using Cons.prems(2,3) kf by (auto simp: cstring_id map_of_eq_None_iff)
  from Cons.IH [OF run] Cons.prems(2,3) nk show ?case
    unfolding D1 by (auto simp: kf doc_set_def split: option.splits)
qed (simp add: field_ops_def)

lemma ops_ok_fields: "sendable s d \<Longrightarrow> set al \<subseteq> set (d_data d) \<Longrightarrow> ops_ok n (field_ops s al)"
  by (induction al) (fastforce simp: field_ops_def op_ok_def sendable_def serialize_value_def name_ok_def cstring_id is_addChild_def
      split: dof_val.splits)+

lemma received_fields:
  assumes "sendable s d"
  shows "(case am_find k (d_data d) of None \<Rightarrow> x | Some f \<Rightarrow> new_content (serialize_value (f_val (the (flds s f)))) x) =
     (case am_find k (d_data d) of None \<Rightarrow> x | Some f \<Rightarrow> Some (received (f_val (the (flds s f))) x))"
proof (cases "am_find k (d_data d)")
  case (Some f)
  then have "(case f_val (the (flds s f)) of DOF_STRING str \<Rightarrow> nul \<notin> set (str_of str) | _ \<Rightarrow> True)"
    using assms am_find_set [OF Some] by (auto simp: sendable_def split: dof_val.splits)
  from new_content_received [OF this] Some show ?thesis by simp
qed simp

text \<open>
  C4: an object sent by a forced synchronisation arrives. The packet that \<open>connectionContext_outgoingSyncForced\<close>
  builds names the position of the object and each of its named fields. A peer that has a tree with a node at this
  position processes it without an error, wherever it stood before, and afterwards that node has every field of
  the sender's object with its text, or its data appended to data that was there, while all other fields and nodes are as before.
\<close>

theorem forced_sync_transfers:
  assumes "forced_request n r q t a" and "objs (n_store n) a = Some d" and "sendable (n_store n) d"
    and "doc_store s2 t2" and "c \<in> set (preorder t2)" and "pos_in a (preorder t) < length (preorder t2)"
    and "b = preorder t2 ! pos_in a (preorder t)"
  shows "\<exists>n' ops j s2'. connectionContext_outgoingSyncForced e r n = Inr n' \<and>
     outbox n' = outbox n @ (if encodable e (dataObjectSyncP (sequenceID q) (blockSyncListP ops))
                             then [dataObjectSyncP (sequenceID q) (blockSyncListP ops)] else []) \<and>
     connectionContext_processBlockSyncList (root t2) ops (int (pos_in c (preorder t2)), s2) = Inr (j, s2') \<and>
     doc_store s2' t2 \<and>
     (\<forall>k. vals_of s2' b k = (case am_find k (d_data d) of
        None \<Rightarrow> vals_of s2 b k
      | Some f \<Rightarrow> Some (received (f_val (the (flds (n_store n) f))) (vals_of s2 b k)))) \<and>
     (\<forall>x \<in> set (preorder t2). x \<noteq> b \<longrightarrow> vals_of s2' x = vals_of s2 x) \<and>
     (\<forall>x \<in> set (preorder t2). enums_of s2' x = enums_of s2 x)"
proof -
  let ?s = "n_store n" and ?i = "int (pos_in a (preorder t))" and ?D = "doc_of s2 t2 c"
  let ?ops = "protocol_goToTree ?i # field_ops ?s (d_data d)"
  obtain q' where send: "connectionContext_outgoingSyncForced e r n =
      Inr (connectionContext_packetSend e (dataObjectSyncP (sequenceID q) (blockSyncListP ?ops)) (put_req r q' n))"
    using outgoingSyncForced_run [OF assms(1,2)] by blast
  have ds: "distinct (map fst (d_data d))"
    using store_okD(1) [OF _ assms(2)] assms(1) by (auto simp: obj_ok_def forced_request_def)
  have "ops_ok (length (preorder t2)) ?ops"
    using ops_ok_fields [OF assms(3) subset_refl] assms(6)
    by (simp add: op_ok_def protocol_goToTree_def is_addChild_def)
  moreover have tr: "doc_tree ?D = t2" by (simp add: doc_of_def)
  ultimately obtain s2' j D' where
    recv: "connectionContext_processBlockSyncList (root t2) ?ops (int (pos_in c (preorder t2)), s2) = Inr (j, s2')"
      "doc_run ?ops ?D D'" "doc_rel s2' j D'"
    using block_sync_sim [OF doc_rel_doc_of [OF assms(4,5)], unfolded tr] by blast
  let ?D1 = "?D\<lparr>doc_cur := b\<rparr>"
  have D1: "doc_apply new (protocol_goToTree ?i) ?D = ?D1" for new
    using assms(7) by (simp add: doc_apply_def protocol_goToTree_def doc_of_def)
  from recv(2) have run: "doc_run (field_ops ?s (d_data d)) ?D1 D'" by (auto simp: D1 elim: doc_run_ConsE)
  have "\<forall>k \<in> fst ` set (d_data d). nul \<notin> set k" using assms(3) by (auto simp: sendable_def)
  note R = doc_run_fields [OF run ds this]
  have bt: "b \<in> set (preorder t2)" using assms(6,7) by simp
  have vals: "vals_of s2' b k = (case am_find k (d_data d) of None \<Rightarrow> vals_of s2 b k
      | Some f \<Rightarrow> Some (received (f_val (the (flds ?s f))) (vals_of s2 b k)))" for k
  proof -
    have "vals_of s2' b k = doc_vals D' b k" using recv(3) R bt by (auto simp: doc_rel_def doc_of_def)
    also have "\<dots> = (case am_find k (d_data d) of None \<Rightarrow> vals_of s2 b k
        | Some f \<Rightarrow> new_content (serialize_value (f_val (the (flds ?s f)))) (vals_of s2 b k))"
      using R by (simp add: am_find_def doc_of_def split: option.splits)
    finally show ?thesis by (simp only: received_fields [OF assms(3)])
  qed
  have "doc_store s2' t2" "\<forall>x \<in> set (preorder t2). x \<noteq> b \<longrightarrow> vals_of s2' x = vals_of s2 x"
    "\<forall>x \<in> set (preorder t2). enums_of s2' x = enums_of s2 x"
    using recv(3) R by (auto simp: doc_rel_def doc_store_def doc_of_def)
  moreover have "outbox (connectionContext_packetSend e p (put_req r q' n)) = outbox n @ (if encodable e p then [p] else [])" for p
    by (simp add: connectionContext_packetSend_def put_req_def)
  ultimately show ?thesis using send recv(1) vals by blast
qed

text \<open>The tree of \<open>Object_Tree\<close> with a field at its last node, a request to send that node, and a context.\<close>

definition sender_store :: store where
  "sender_store = tree_store\<lparr>objs := (objs tree_store)(3 \<mapsto> new_obj\<lparr>parent := Some 0, d_data := [(''title'', 1)]\<rparr>)\<rparr>"

definition demo_request :: SyncRequest where
  "demo_request = \<lparr>sr_url = None, newObject = False, isClient = True, hasStarted = True, hasSentLocal = False,
     hasFinished = False, remoteFinished = False, finalize = False, remoteResponse = None, sr_stampMinor = None,
     sr_stampMajor = None, sr_dobj = 0, forcedObject = Some 3, completeFields = None, completeNodes = [], sequenceID = 1,
     objectIndex = 0, recordIndex = 0, childOp = -2\<rparr>"

definition demo_net :: net where
  "demo_net = \<lparr>n_store = sender_store, ctx = connectionContext_new 3, reqs = [0 \<mapsto> demo_request], next_req = 1,
     outbox = [], loadingApplication = None\<rparr>"

lemma demo_request_ok:
  "forced_request demo_net 0 demo_request demo_tree 3"
  "objs (n_store demo_net) 3 = Some (new_obj\<lparr>parent := Some 0, d_data := [(''title'', 1)]\<rparr>)"
  "sendable (n_store demo_net) (new_obj\<lparr>parent := Some 0, d_data := [(''title'', 1)]\<rparr>)"
proof -
  have o': "objs sender_store a = Some d \<Longrightarrow> a < 5 \<and> (if a = 3 then d = new_obj\<lparr>parent := Some 0, d_data := [(''title'', 1)]\<rparr>
      else d_data d = [] \<and> d_enumData d = [])" for a d
    by (auto simp: sender_store_def tree_store_def new_obj_def split: if_splits)
  have own: "owns sender_store a f \<longleftrightarrow> a = 3 \<and> f = 1" for a f
    using o' by (fastforce simp: owns_def owned_fields_def sender_store_def new_obj_def split: if_splits)
  have fl: "flds sender_store f \<noteq> None \<Longrightarrow> f < 5" "flds sender_store 1 = Some \<lparr>f_val = DOF_STRING (Owned ''Inbox''), f_flags = 0\<rparr>"
    "next_addr sender_store = 5" for f
    by (auto simp: sender_store_def tree_store_def demo_store_def split: if_splits)
  have "obj_ok d" if "objs sender_store a = Some d" for a d
    using o' [OF that] by (cases "a = 3") (auto simp: obj_ok_def owned_fields_def new_obj_def)
  then have "store_ok sender_store" unfolding store_ok_def own using fl o' by auto
  moreover have "is_tree sender_store demo_tree"
    by (auto simp: is_tree_alt demo_tree_def sender_store_def tree_store_def tree_links_alt kids_of_def parent_of_def new_obj_def)
  moreover have "plain_node sender_store 3" using fl by (auto simp: plain_node_def owned_fields_def sender_store_def new_obj_def)
  ultimately show "forced_request demo_net 0 demo_request demo_tree 3"
    by (simp add: forced_request_def demo_net_def demo_request_def demo_tree_def)
  show "objs (n_store demo_net) 3 = Some (new_obj\<lparr>parent := Some 0, d_data := [(''title'', 1)]\<rparr>)"
    by (simp add: demo_net_def sender_store_def)
  show "sendable (n_store demo_net) (new_obj\<lparr>parent := Some 0, d_data := [(''title'', 1)]\<rparr>)"
    using fl by (simp add: sendable_def demo_net_def str_of_def nul_def)
qed

theorem forced_sync_transfers_witness:
  "\<forall>e. \<exists>n' ops j s2'. connectionContext_outgoingSyncForced e 0 demo_net = Inr n' \<and>
     connectionContext_processBlockSyncList 0 ops (0, tree_store) = Inr (j, s2') \<and>
     vals_of s2' 3 ''title'' = Some (Text ''Inbox'')"
proof
  fix e
  have "flds (n_store demo_net) 1 = Some \<lparr>f_val = DOF_STRING (Owned ''Inbox''), f_flags = 0\<rparr>"
    by (simp add: demo_net_def sender_store_def tree_store_def demo_store_def)
  with forced_sync_transfers [OF demo_request_ok tree_store_doc, of 0 3 e]
  show "\<exists>n' ops j s2'. connectionContext_outgoingSyncForced e 0 demo_net = Inr n' \<and>
     connectionContext_processBlockSyncList 0 ops (0, tree_store) = Inr (j, s2') \<and> vals_of s2' 3 ''title'' = Some (Text ''Inbox'')"
    by (fastforce simp: demo_tree_def am_find_def received_def str_of_def)
qed

end
