(* ===== verification/Sync_Session.thy ===== *)
theory Sync_Session
  imports Sync_Context
begin

text \<open>
  The session: what the context sends and when. A session is a sequence of events: data arrives, a packet is consumed, the timer
  runs the loop, the application requests a synchronisation. The lemmas show what each function of \<open>ConnectionContext.c\<close>
  keeps of the authentication state and of the packets sent before; the theorems, that nothing is synchronised without
  authorization, which packets a request sends, and that the receive loop delivers the packets of the byte stream.

  Scripts and the connection announcement reach the context only through the function bindings of \<open>Script.c\<close>
  and \<open>Gprs.c\<close>: they change objects, choose an application to load and request synchronisations. This is what
  \<open>script_run\<close> says and \<open>env_ok\<close> requires of the environment.
\<close>

section \<open>Scripts\<close>

inductive script_run :: "env \<Rightarrow> net \<Rightarrow> net \<Rightarrow> bool" for e where
  script_done: "script_run e n n"
| script_store: "script_run e (n\<lparr>n_store := s, loadingApplication := l\<rparr>) n' \<Longrightarrow> script_run e n n'"
| script_sync: "connectionContext_syncRequestForce e url dobj n = Inr (k, n1) \<Longrightarrow> script_run e n1 n' \<Longrightarrow> script_run e n n'"

definition env_ok :: "env \<Rightarrow> bool" where
  "env_ok e \<longleftrightarrow> (\<forall>a str n n'. run_script e a str n = Inr n' \<longrightarrow> script_run e n n') \<and>
     (\<forall>n n'. gprs_set_emobiix_on e n = Inr n' \<longrightarrow> script_run e n n')"

section \<open>What the functions send\<close>

text \<open>
  \<open>keeps n n'\<close>: the authentication state and the receive buffer are unchanged, and packets are only added to those sent.
  \<open>quiet n n'\<close>: and none was added. \<open>gated n n'\<close>: and they were added in an authorized state.
\<close>

definition auth_of :: "net \<Rightarrow> NeedAuth \<times> bool \<times> 8 word list" where
  "auth_of n = (needAuth (ctx n), hasAuth (ctx n), c_buffer (ctx n))"

definition keeps :: "net \<Rightarrow> net \<Rightarrow> bool" where
  "keeps n n' \<longleftrightarrow> auth_of n' = auth_of n \<and> (\<exists>ps. outbox n' = outbox n @ ps)"

definition quiet :: "net \<Rightarrow> net \<Rightarrow> bool" where
  "quiet n n' \<longleftrightarrow> auth_of n' = auth_of n \<and> outbox n' = outbox n"

definition gated :: "net \<Rightarrow> net \<Rightarrow> bool" where
  "gated n n' \<longleftrightarrow> auth_of n' = auth_of n \<and> (\<exists>ps. outbox n' = outbox n @ ps \<and> (ps \<noteq> [] \<longrightarrow> authorized (ctx n)))"

lemma authorized_auth_of: "auth_of n' = auth_of n \<Longrightarrow> authorized (ctx n') = authorized (ctx n)"
  by (simp add: auth_of_def authorized_def)

lemma quiet_refl [simp]: "quiet n n" and keeps_refl [simp]: "keeps n n" and gated_refl [simp]: "gated n n"
  by (simp_all add: quiet_def keeps_def gated_def)

lemma quiet_trans [trans]: "quiet n n1 \<Longrightarrow> quiet n1 n2 \<Longrightarrow> quiet n n2"
  by (simp add: quiet_def)

lemma keeps_trans [trans]: "keeps n n1 \<Longrightarrow> keeps n1 n2 \<Longrightarrow> keeps n n2"
  by (auto simp: keeps_def)

lemma gated_trans [trans]: "gated n n1 \<Longrightarrow> gated n1 n2 \<Longrightarrow> gated n n2"
  unfolding gated_def using authorized_auth_of [of n1 n] by auto

lemma quiet_keeps: "quiet n n' \<Longrightarrow> keeps n n'" and quiet_gated: "quiet n n' \<Longrightarrow> gated n n'"
  by (auto simp: quiet_def keeps_def gated_def)

lemma keeps_gated: "keeps n n' \<Longrightarrow> authorized (ctx n) \<Longrightarrow> gated n n'"
  by (auto simp: keeps_def gated_def)

named_theorems session

lemma quiet_put_req [session]: "quiet n (put_req r q n)"
  by (simp add: quiet_def auth_of_def put_req_def)

lemma quiet_upd_req [session]: "upd_req f r n = Inr n' \<Longrightarrow> quiet n n'"
  by (auto simp: upd_req_def intro: quiet_put_req)

lemma quiet_store [session]: "quiet n (n\<lparr>n_store := s\<rparr>)" "on_store g n = Inr n' \<Longrightarrow> quiet n n'"
  by (auto simp: quiet_def auth_of_def on_store_def)

lemma quiet_upd_ctx [session]:
  "(\<And>c. needAuth (f c) = needAuth c \<and> hasAuth (f c) = hasAuth c \<and> c_buffer (f c) = c_buffer c) \<Longrightarrow> quiet n (upd_ctx f n)"
  by (simp add: quiet_def auth_of_def upd_ctx_def)

lemma keeps_send [session]: "keeps n (connectionContext_packetSend e p n)"
  by (simp add: keeps_def auth_of_def connectionContext_packetSend_def)

lemma quiet_syncRequest_new [session]: "syncRequest_new url c n = Inr (r, n') \<Longrightarrow> quiet n n'"
  by (auto simp: syncRequest_new_def quiet_def auth_of_def put_req_def Let_def split: option.splits)

lemma keeps_outgoingSync:
  "connectionContext_outgoingSync e r n = Inr n' \<Longrightarrow> keeps n n'"
  by (auto simp: connectionContext_outgoingSync_def Let_def split: if_splits option.splits
      intro!: keeps_trans [OF quiet_keeps [OF quiet_put_req] keeps_send])

lemma keeps_outgoingSyncForced:
  "connectionContext_outgoingSyncForced e r n = Inr n' \<Longrightarrow> keeps n n'"
  by (auto simp: connectionContext_outgoingSyncForced_def Let_def split: if_splits option.splits
      intro!: keeps_trans [OF quiet_keeps [OF quiet_put_req] keeps_send])

lemma keeps_send_upd: "keeps n n1 \<Longrightarrow> upd_req f r (connectionContext_packetSend e p n1) = Inr n2 \<Longrightarrow> keeps n n2"
  by (rule keeps_trans [OF keeps_trans [OF _ keeps_send] quiet_keeps [OF quiet_upd_req]])

lemma keeps_upd_req: "keeps n n1 \<Longrightarrow> upd_req f r n1 = Inr n2 \<Longrightarrow> keeps n n2"
  by (rule keeps_trans [OF _ quiet_keeps [OF quiet_upd_req]])

lemma keeps_processSyncRequest:
  assumes "connectionContext_processSyncRequest e r n = Inr n'"
  shows "keeps n n'"
proof -
  obtain q where q: "get_req n r = Inr q"
    using assms by (auto simp: connectionContext_processSyncRequest_def)
  show ?thesis
  proof (cases "isClient q")
    case False
    with assms q keeps_outgoingSync keeps_send_upd [OF keeps_refl] show ?thesis
      by (auto simp: connectionContext_processSyncRequest_def split: if_splits)
  next
    case True
    obtain url where url: "url_all q = Inr url" using assms q True by (auto simp: connectionContext_processSyncRequest_def)
    show ?thesis
    proof (cases "hasStarted q")
      case False
      let ?n1 = "upd_ctx (\<lambda>c. c\<lparr>inprogressRequests := inprogressRequests c @ [url]\<rparr>) n"
      let ?n2 = "connectionContext_packetSend e (protocol_syncStart url 0 0 (sequenceID q)) ?n1"
      from assms q True url False obtain n3 where "on_store (dataobject_setState DOS_SYNC (sr_dobj q)) ?n2 = Inr n3"
          "upd_req (\<lambda>q. q\<lparr>hasStarted := True\<rparr>) r n3 = Inr n'"
        by (auto simp: connectionContext_processSyncRequest_def Let_def)
      moreover have "keeps n ?n2" by (rule keeps_trans [OF quiet_keeps [OF quiet_upd_ctx] keeps_send]) simp
      ultimately show ?thesis by (blast intro: keeps_upd_req keeps_trans [OF _ quiet_keeps [OF quiet_store(2)]])
    next
      case started: True
      let ?m = "if \<not> hasSentLocal q then
              bind_res
                (if \<not> newObject q \<and> forcedObject q \<noteq> None then connectionContext_outgoingSyncForced e r n else Inr n)
                (upd_req (\<lambda>q. q\<lparr>hasSentLocal := True\<rparr>) r)
            else Inr n"
      from assms q True url started obtain n1 q1 where n1: "?m = Inr n1" "get_req n1 r = Inr q1"
          "(if \<not> hasFinished q1 then
           upd_req (\<lambda>q. q\<lparr>hasFinished := True\<rparr>) r
             (connectionContext_packetSend e (protocol_syncFinished responseExpiredP (sequenceID q1)) n1)
         else Inr n1) = Inr n'"
        by (auto simp: connectionContext_processSyncRequest_def)
      have "keeps n n1"
        using n1(1) by (auto split: if_splits intro: keeps_upd_req [OF keeps_refl] keeps_upd_req [OF keeps_outgoingSyncForced])
      with n1(3) keeps_send_upd show ?thesis by (auto split: if_splits)
    qed
  qed
qed

lemma gated_loopIteration: "connectionContext_loopIteration e n = Inr (k, n') \<Longrightarrow> gated n n'"
proof (cases "authorized (ctx n)")
  case True
  assume run: "connectionContext_loopIteration e n = Inr (k, n')"
  show ?thesis
  proof (cases "syncRequests (ctx n)")
    case (Cons kr rest)
    obtain key r where kr: "kr = (key, r)" by fastforce
    from run True Cons kr obtain n1 where n1: "connectionContext_processSyncRequest e r n = Inr n1"
        "n' = n1 \<or> n' = upd_ctx (\<lambda>c. c\<lparr>syncRequests := am_remove key (syncRequests c)\<rparr>) n1"
      by (auto simp: connectionContext_loopIteration_def split: if_splits)
    have "gated n n1" by (rule keeps_gated [OF keeps_processSyncRequest [OF n1(1)] True])
    with n1(2) show ?thesis by (auto intro: gated_trans [OF _ quiet_gated [OF quiet_upd_ctx]])
  qed (use run True in \<open>simp add: connectionContext_loopIteration_def\<close>)
qed (simp add: connectionContext_loopIteration_def)

lemma gated_syncRequestForce: "connectionContext_syncRequestForce e url dobj n = Inr (k, n') \<Longrightarrow> gated n n'"
proof -
  assume force: "connectionContext_syncRequestForce e url dobj n = Inr (k, n')"
  then obtain r n1 where new: "syncRequest_new url True n = Inr (r, n1)"
    by (auto simp: connectionContext_syncRequestForce_def)
  obtain sid n2 where sid: "TCPSequenceID n1 = (sid, n2)" by fastforce
  from force new sid obtain n3 k' where
    run: "upd_req (\<lambda>q. q\<lparr>hasStarted := False, sequenceID := sid, forcedObject := dobj\<rparr>) r n2 = Inr n3"
      "connectionContext_loopIteration e
         (upd_ctx (\<lambda>c. c\<lparr>syncRequests := am_append (generate_mapKey e sid) r (syncRequests c)\<rparr>) n3) = Inr (k', n')"
    by (auto simp: connectionContext_syncRequestForce_def Let_def)
  have "quiet n1 n2" using sid by (auto simp: TCPSequenceID_def Let_def intro: quiet_upd_ctx)
  with quiet_syncRequest_new [OF new] quiet_upd_req [OF run(1)] have "quiet n n3" by (blast intro: quiet_trans)
  then have "quiet n (upd_ctx (\<lambda>c. c\<lparr>syncRequests := am_append (generate_mapKey e sid) r (syncRequests c)\<rparr>) n3)"
    by (rule quiet_trans) (rule quiet_upd_ctx, simp)
  with gated_loopIteration [OF run(2)] show ?thesis by (blast intro: gated_trans quiet_gated)
qed

lemma gated_script: "script_run e n n' \<Longrightarrow> gated n n'"
proof (induction rule: script_run.induct)
  case (script_store l s n n')
  have "quiet n (n\<lparr>n_store := s, loadingApplication := l\<rparr>)" by (simp add: quiet_def auth_of_def)
  with script_store.IH show ?case by (blast intro: gated_trans quiet_gated)
next
  case (script_sync url dobj n k n1 n')
  then show ?case by (blast intro: gated_trans gated_syncRequestForce)
qed simp

lemma quiet_processSyncStart: "connectionContext_processSyncStart e u mi ma q n = Inr n' \<Longrightarrow> quiet n n'"
proof -
  assume run: "connectionContext_processSyncStart e u mi ma q n = Inr n'"
  show ?thesis
  proof (cases "n' = n")
    case False
    with run obtain url s r n1 f n2 g where
      "syncRequest_new url (f :: bool) (n\<lparr>n_store := s\<rparr>) = Inr (r, n1)" "upd_req g r n1 = Inr n2"
      "n' = upd_ctx (\<lambda>c. c\<lparr>syncRequests := am_append (generate_mapKey e q) r (syncRequests c),
                            inprogressRequests := inprogressRequests c @ [OCTET_STRING_to_string u]\<rparr>) n2"
      by (auto simp: connectionContext_processSyncStart_def Let_def split: if_splits option.splits)
    then have "quiet (n\<lparr>n_store := s\<rparr>) n1" "quiet n1 n2" "quiet n2 n'"
      by (auto intro: quiet_syncRequest_new quiet_upd_req quiet_upd_ctx)
    with quiet_store(1) [of n s] show ?thesis by (blast intro: quiet_trans)
  qed simp
qed

lemma quiet_processSync: "connectionContext_processSync e q l n = Inr n' \<Longrightarrow> quiet n n'"
  by (auto simp: connectionContext_processSync_def split: option.splits dest!: quiet_upd_req
      intro: quiet_trans [OF quiet_store(1)])

lemma quiet_loadApplication: "manager_loadApplication d f u n = Inr n' \<Longrightarrow> quiet n n'"
  by (auto simp: manager_loadApplication_def quiet_def auth_of_def split: option.splits)

lemma gated_script_event:
  assumes "env_ok e" and "script_event e c ev n = Inr n'"
  shows "gated n n'"
proof -
  have run: "run_script e a str n = Inr m \<Longrightarrow> gated n m" for a str m
    using assms(1) gated_script unfolding env_ok_def by blast
  obtain field where field: "dataobject_getEnum (n_store n) c ev = Inr field"
    using assms(2) by (auto simp: script_event_def)
  show ?thesis
  proof (cases field)
    case (Some f)
    then obtain fl where "get_fld (n_store n) f = Inr fl" using assms(2) field by (auto simp: script_event_def)
    with assms(2) field Some run show ?thesis by (cases "f_val fl") (auto simp: script_event_def)
  qed (use assms(2) field in \<open>simp add: script_event_def\<close>)
qed

lemma gated_processSyncFinish:
  assumes e: "env_ok e" and run: "processSyncFinish e q resp n = Inr n'"
  shows "gated n n'"
proof (cases "am_find (generate_mapKey e q) (syncRequests (ctx n))")
  case (Some r)
  from run Some obtain sr url n1 where 1: "get_req n r = Inr sr" "url_all sr = Inr url"
      "upd_req (\<lambda>q. q\<lparr>remoteResponse := Some resp, remoteFinished := True\<rparr>) r n = Inr n1"
    by (auto simp: processSyncFinish_def)
  have q1: "quiet n n1" by (rule quiet_upd_req [OF 1(3)])
  show ?thesis
  proof (cases "isClient sr")
    case False
    with run Some 1 q1 show ?thesis by (auto simp: processSyncFinish_def intro: quiet_gated)
  next
    case True
    let ?script = "\<lambda>n. if newObject sr then Inr n
               else (case forcedObject sr of
                       Some f \<Rightarrow> dataobject_onsyncfinished e f n
                     | None \<Rightarrow> dataobject_onsyncfinished e (sr_dobj sr) n)"
    let ?load = "\<lambda>load n. if load then
                 (if newObject sr then manager_loadApplication (sr_dobj sr) 1 (sr_url sr) n else Inr n)
               else on_store (dataobject_setIsModifiedTree True (sr_dobj sr)) n"
    from run Some 1 True obtain n2 n3 n4 n5 n6 load n7 s where
      2: "upd_req (\<lambda>q. q\<lparr>finalize := True\<rparr>) r n1 = Inr n2" "on_store (dataobject_setState DOS_OK (sr_dobj sr)) n2 = Inr n3"
        "on_store (widget_markDirty (sr_dobj sr)) n3 = Inr n4" "?script n4 = Inr n5"
        "on_store (dataobject_setState DOS_OK (sr_dobj sr)) n5 = Inr n6" "?load load n6 = Inr n7"
        "n' = upd_ctx (\<lambda>c. c\<lparr>inprogressRequests := remove1 url (inprogressRequests c)\<rparr>) (n7\<lparr>n_store := s\<rparr>)"
      unfolding processSyncFinish_def by (auto simp: Let_def)
    have "gated n4 n5"
      using 2(4) gated_script_event [OF e] by (auto simp: dataobject_onsyncfinished_def split: if_splits option.splits)
    moreover have "quiet n6 n7" using 2(6) quiet_loadApplication quiet_store(2) by (auto split: if_splits)
    moreover have "quiet n7 n'" unfolding 2(7) by (rule quiet_trans [OF quiet_store(1) quiet_upd_ctx]) simp
    moreover have "quiet n n4"
      using q1 quiet_upd_req [OF 2(1)] quiet_store(2) [OF 2(2)] quiet_store(2) [OF 2(3)] by (blast intro: quiet_trans)
    ultimately show ?thesis using quiet_store(2) [OF 2(5)] by (blast intro: gated_trans quiet_gated)
  qed
qed (use run in \<open>simp add: processSyncFinish_def\<close>)

fun is_auth :: "FRIPacketP \<Rightarrow> bool" where
  "is_auth (authRequestP salt types) = True"
| "is_auth (authUserPassP p) = True"
| "is_auth (authResponseP p) = True"
| "is_auth p = False"

text \<open>A packet that is no authentication packet is handled within the bounds of the present authorization; an
  authentication packet sends an authentication packet, or is the confirmation that lets the application start.\<close>

lemma gated_processPacket:
  assumes "env_ok e" and "connectionContext_processPacket e p n = Inr n'" and "\<not> is_auth p"
  shows "gated n n'"
  using assms by (cases p) (auto simp: connectionContext_processPacket_def
      intro: quiet_gated quiet_processSyncStart quiet_processSync gated_processSyncFinish)

lemma send_auth:
  "\<exists>ps. outbox (connectionContext_packetSend e p n) = outbox n @ ps \<and> (\<forall>x \<in> set ps. x = p)"
  by (simp add: connectionContext_packetSend_def)

lemma auth_processPacket:
  assumes "env_ok e" and "connectionContext_processPacket e p n = Inr n'" and "is_auth p"
  shows "\<exists>ps. outbox n' = outbox n @ ps \<and> ((\<exists>x \<in> set ps. is_sync x) \<longrightarrow> authorized (ctx n')) \<and>
     c_buffer (ctx n') = c_buffer (ctx n)"
proof (cases p)
  case (authRequestP salt types)
  then show ?thesis using assms(2)
    by (auto simp: connectionContext_processPacket_def connectionContext_processAuthRequest_def
        connectionContext_authUserPass_def connectionContext_packetSend_def upd_ctx_def)
next
  case (authUserPassP x)
  then show ?thesis using assms(2)
    by (auto simp: connectionContext_processPacket_def connectionContext_processAuthUserPass_def
        protocol_authResponse_def connectionContext_packetSend_def upd_ctx_def)
next
  case (authResponseP x)
  let ?n = "upd_ctx (\<lambda>c. c\<lparr>hasAuth := True\<rparr>) n"
  show ?thesis
  proof (cases "x = responseOKP")
    case True
    with assms(1,2) authResponseP have "script_run e ?n n'"
      by (auto simp: connectionContext_processPacket_def connectionContext_processAuthResponse_def env_ok_def)
    from gated_script [OF this] authorized_auth_of [of n' ?n] show ?thesis
      by (auto simp: gated_def auth_of_def upd_ctx_def)
  qed (use assms(2) authResponseP in \<open>simp add: connectionContext_processPacket_def connectionContext_processAuthResponse_def\<close>)
qed (use assms(3) in auto)

lemma processPacket_buffer:
  "env_ok e \<Longrightarrow> connectionContext_processPacket e p n = Inr n' \<Longrightarrow> c_buffer (ctx n') = c_buffer (ctx n)"
  using gated_processPacket [of e p n n'] auth_processPacket [of e p n n'] by (cases "is_auth p") (auto simp: gated_def auth_of_def)

section \<open>Events\<close>

datatype event = Arrive "8 word list" | Consume | Loop | Request URL "addr option"

fun net_event :: "env \<Rightarrow> event \<Rightarrow> net \<Rightarrow> net res" where
  "net_event e (Arrive data) n = connectionContext_setBuffer data n"
| "net_event e Consume n = bind_res (connectionContext_consumePacket e n) (\<lambda>(k, n). Inr n)"
| "net_event e Loop n = bind_res (connectionContext_loopIteration e n) (\<lambda>(k, n). Inr n)"
| "net_event e (Request url dobj) n = bind_res (connectionContext_syncRequestForce e url dobj n) (\<lambda>(k, n). Inr n)"

definition allowed :: "net \<Rightarrow> net \<Rightarrow> bool" where
  "allowed n n' \<longleftrightarrow> (\<exists>ps. outbox n' = outbox n @ ps \<and> ((\<exists>x \<in> set ps. is_sync x) \<longrightarrow> authorized (ctx n')))"

lemma gated_allowed: "gated n n' \<Longrightarrow> allowed n n' \<and> authorized (ctx n') = authorized (ctx n)"
  using authorized_auth_of [of n' n] by (auto simp: gated_def allowed_def)

lemma drop_buffer: "authorized (ctx (upd_ctx (\<lambda>c. c\<lparr>c_buffer := drop k (c_buffer c)\<rparr>) n)) = authorized (ctx n)"
    "outbox (upd_ctx f n) = outbox n"
  by (simp_all add: upd_ctx_def authorized_def)

section \<open>A request\<close>

text \<open>The addresses in the global table are objects.\<close>

definition globals_ok :: "store \<Rightarrow> bool" where
  "globals_ok s \<longleftrightarrow> (\<forall>ht k a. globalDObjs s = Some ht \<longrightarrow> map_of ht k = Some a \<longrightarrow> objs s a \<noteq> None)"

lemma locateStr_run:
  "\<exists>o' s'. dataobject_locateStr (Some str) s = Inr (o', s') \<and> objs s' = objs s \<and> globalDObjs s' \<noteq> None \<and>
     (globals_ok s \<longrightarrow> globals_ok s' \<and> (\<forall>a. o' = Some a \<longrightarrow> objs s a \<noteq> None))"
  by (auto simp: dataobject_locateStr_def dataobject_platformInit_def hashtable_find_def globals_ok_def split: option.splits)

lemma locate_run:
  assumes "globals_ok s" and "u_all url = Some str" and "u_path url = Some pth"
  shows "\<exists>o' s'. dataobject_locate url s = Inr (o', s') \<and> objs s' = objs s \<and> globalDObjs s' \<noteq> None \<and>
     (\<forall>a. o' = Some a \<longrightarrow> objs s a \<noteq> None)"
proof -
  obtain o1 s1 where 1: "dataobject_locateStr (Some str) s = Inr (o1, s1)" "objs s1 = objs s" "globalDObjs s1 \<noteq> None"
      "globals_ok s1" "\<forall>a. o1 = Some a \<longrightarrow> objs s a \<noteq> None" using locateStr_run [of str s] assms(1) by blast
  obtain o2 s2 where 2: "dataobject_locateStr (Some pth) s1 = Inr (o2, s2)" "objs s2 = objs s1" "globalDObjs s2 \<noteq> None"
      "\<forall>a. o2 = Some a \<longrightarrow> objs s1 a \<noteq> None" using locateStr_run [of pth s1] 1(4) by blast
  show ?thesis
    using 1 2 assms(2,3) by (cases o1) (auto simp: dataobject_locate_def)
qed

lemma construct_run:
  assumes "globalDObjs s = Some ht" and "u_all url = Some str"
  shows "\<exists>d s'. dataobject_construct url False s = Inr (d, s') \<and> objs s' d \<noteq> None"
  using assms by (auto simp: dataobject_construct_def dataobject_new_def dataobject_exportGlobal_def heap_defs hashtable_append_def)

lemma syncRequest_new_run:
  assumes g: "globals_ok (n_store n)" and u: "u_all url = Some str" "u_path url = Some pth" "url_parse (Some str) URL_ALL = Inr (Some u)"
  shows "\<exists>q s. syncRequest_new url True n = Inr (next_req n, (put_req (next_req n) q n)\<lparr>n_store := s, next_req := Suc (next_req n)\<rparr>) \<and>
     isClient q \<and> \<not> hasStarted q \<and> \<not> hasSentLocal q \<and> \<not> hasFinished q \<and> \<not> finalize q \<and> url_all q = Inr str \<and> objs s (sr_dobj q) \<noteq> None"
proof -
  let ?s = "n_store n"
  obtain o' s1 where loc: "dataobject_locate url ?s = Inr (o', s1)" "objs s1 = objs ?s" "globalDObjs s1 \<noteq> None"
      "\<forall>a. o' = Some a \<longrightarrow> objs ?s a \<noteq> None" using locate_run [OF g u(1,2)] by blast
  obtain d new s2 where d: "(case o' of Some d \<Rightarrow> Inr (d, False, s1)
        | None \<Rightarrow> bind_res (dataobject_construct url (\<not> True) s1) (\<lambda>(d, s). Inr (d, True, s))) = (Inr (d, new, s2) :: (addr \<times> bool \<times> store) res)"
      "objs s2 d \<noteq> None"
  proof (cases o')
    case (Some a)
    then show ?thesis using that [of a False s1] loc by auto
  next
    case None
    obtain ht where "globalDObjs s1 = Some ht" using loc(3) by blast
    from construct_run [OF this u(1)] obtain b s2 where "dataobject_construct url False s1 = Inr (b, s2)" "objs s2 b \<noteq> None" by blast
    then show ?thesis using None that [of b True s2] by auto
  qed
  from d(2) obtain e where e: "objs s2 d = Some e" by blast
  let ?s2 = "put_obj d (e\<lparr>state := DOS_SYNC\<rparr>) s2"
  let ?q = "\<lparr>sr_url = Some u, newObject = new, isClient = True, hasStarted = False, hasSentLocal = False, hasFinished = False,
      remoteFinished = False, finalize = False, remoteResponse = None, sr_stampMinor = None, sr_stampMajor = None, sr_dobj = d,
      forcedObject = None, completeFields = None, completeNodes = [], sequenceID = 0, objectIndex = 0, recordIndex = 0,
      childOp = - 2\<rparr>"
  from e have "dataobject_setState DOS_SYNC d s2 = Inr ?s2" by (simp add: dataobject_setState_def heap_defs)
  with loc(1) d(1) u have "syncRequest_new url True n = Inr (next_req n, (put_req (next_req n) ?q n)\<lparr>n_store := ?s2, next_req := Suc (next_req n)\<rparr>)"
    by (simp add: syncRequest_new_def)
  moreover have "url_all ?q = Inr str" using url_parse_all [OF u(3)] by (simp add: url_all_def)
  moreover have "objs ?s2 (sr_dobj ?q) \<noteq> None" by (simp add: put_obj_def)
  ultimately show ?thesis by (intro exI [of _ ?q] exI [of _ ?s2]) simp
qed

section \<open>Waiting for an answer\<close>

text \<open>The sequence number a packet carries.\<close>

fun packet_sequence :: "FRIPacketP \<Rightarrow> int option" where
  "packet_sequence (dataObjectSyncStartP u a b q) = Some q"
| "packet_sequence (dataObjectSyncP q l) = Some q"
| "packet_sequence (dataObjectSyncFinishP q r) = Some q"
| "packet_sequence p = None"

text \<open>\<open>fri.asn1\<close> bounds the sequence number: the encoder accepts no other packet.\<close>

definition encoder_range :: "env \<Rightarrow> bool" where
  "encoder_range e \<longleftrightarrow> (\<forall>p q. encodable e p \<longrightarrow> packet_sequence p = Some q \<longrightarrow> 0 \<le> q \<and> q \<le> 255)"

lemma generate_mapKey_inj:
  assumes "length (ep_name e) \<le> 50" and "0 \<le> i" "i < 2 ^ 32" "0 \<le> j" "j < 2 ^ 32"
  shows "generate_mapKey e i = generate_mapKey e j \<longleftrightarrow> i = j"
proof -
  have "length (emo_itoa i 10) \<le> 11" "length (emo_itoa j 10) \<le> 11"
    using assms emo_itoa_length [of i 9] emo_itoa_length [of j 9] by simp_all
  with assms(1) have "generate_mapKey e i = ep_name e @ '','' @ emo_itoa i 10" "generate_mapKey e j = ep_name e @ '','' @ emo_itoa j 10"
    by (simp_all add: generate_mapKey_def)
  then show ?thesis by (simp add: emo_itoa_inj)
qed

text \<open>The request at the head of the queue has sent all it will send, and its answer has not come.\<close>

definition waiting :: "env \<Rightarrow> net \<Rightarrow> bool" where
  "waiting e n \<longleftrightarrow> authorized (ctx n) \<and> (\<exists>sid r q rest str. syncRequests (ctx n) = (generate_mapKey e sid, r) # rest \<and>
     reqs n r = Some q \<and> r < next_req n \<and> 0 \<le> sid \<and> sid < uint (ep_sequenceID (ctx n)) \<and>
     isClient q \<and> hasStarted q \<and> hasSentLocal q \<and> hasFinished q \<and> \<not> finalize q \<and> url_all q = Inr str)"

text \<open>A request at the head of the queue in its three phases.\<close>

lemma loop_start:
  assumes "authorized (ctx n)" and "syncRequests (ctx n) = (key, r) # rest" and "reqs n r = Some q" and "isClient q"
    and "\<not> hasStarted q" and "\<not> finalize q" and "url_all q = Inr str" and "objs (n_store n) (sr_dobj q) \<noteq> None"
  shows "\<exists>n'. connectionContext_loopIteration e n = Inr (1, n') \<and> auth_of n' = auth_of n \<and> syncRequests (ctx n') = syncRequests (ctx n) \<and>
     reqs n' r = Some (q\<lparr>hasStarted := True\<rparr>) \<and>
     outbox n' = outbox n @ filter (encodable e) [dataObjectSyncStartP str 0 0 (sequenceID q)] \<and>
     ep_sequenceID (ctx n') = ep_sequenceID (ctx n) \<and> next_req n' = next_req n"
proof -
  from assms(8) obtain d where "objs (n_store n) (sr_dobj q) = Some d" by blast
  with assms show ?thesis
    by (simp add: connectionContext_loopIteration_def connectionContext_processSyncRequest_def get_req_def put_req_def
        upd_req_def upd_ctx_def connectionContext_packetSend_def protocol_syncStart_def on_store_def dataobject_setState_def heap_defs
        auth_of_def Let_def)
qed

lemma loop_finish:
  assumes "authorized (ctx n)" and "syncRequests (ctx n) = (key, r) # rest" and "reqs n r = Some q" and "isClient q"
    and "hasStarted q" and "\<not> hasSentLocal q" and "\<not> hasFinished q" and "\<not> finalize q" and "url_all q = Inr str" and "forcedObject q = None"
  shows "\<exists>n'. connectionContext_loopIteration e n = Inr (1, n') \<and> auth_of n' = auth_of n \<and> syncRequests (ctx n') = syncRequests (ctx n) \<and>
     reqs n' r = Some (q\<lparr>hasSentLocal := True, hasFinished := True\<rparr>) \<and>
     outbox n' = outbox n @ filter (encodable e) [dataObjectSyncFinishP (sequenceID q) responseExpiredP] \<and>
     ep_sequenceID (ctx n') = ep_sequenceID (ctx n) \<and> next_req n' = next_req n"
  using assms
  by (simp add: connectionContext_loopIteration_def connectionContext_processSyncRequest_def get_req_def put_req_def
      upd_req_def connectionContext_packetSend_def protocol_syncFinished_def auth_of_def)

lemma loop_wait:
  assumes "authorized (ctx n)" and "syncRequests (ctx n) = (key, r) # rest" and "reqs n r = Some q" and "isClient q"
    and "hasStarted q" and "hasSentLocal q" and "hasFinished q" and "\<not> finalize q" and "url_all q = Inr str"
  shows "connectionContext_loopIteration e n = Inr (1, n)"
  using assms by (simp add: connectionContext_loopIteration_def connectionContext_processSyncRequest_def get_req_def)

lemma request_phases:
  assumes a: "authorized (ctx n)" "syncRequests (ctx n) = []" and g: "globals_ok (n_store n)"
    and u: "u_all url = Some str" "u_path url = Some pth" "url_parse (Some str) URL_ALL = Inr (Some u)"
  shows "\<exists>n1 n2. connectionContext_syncRequest e url n = Inr (1, n1) \<and>
     outbox n1 = outbox n @ filter (encodable e) [dataObjectSyncStartP str 0 0 (uint (ep_sequenceID (ctx n)))] \<and>
     connectionContext_loopIteration e n1 = Inr (1, n2) \<and>
     outbox n2 = outbox n1 @ filter (encodable e) [dataObjectSyncFinishP (uint (ep_sequenceID (ctx n))) responseExpiredP] \<and>
     connectionContext_loopIteration e n2 = Inr (1, n2) \<and>
     (uint (ep_sequenceID (ctx n)) + 2 < 2 ^ 32 \<longrightarrow> waiting e n2 \<and> uint (ep_sequenceID (ctx n2)) = uint (ep_sequenceID (ctx n)) + 2)"
proof -
  let ?r = "next_req n" and ?sid = "uint (ep_sequenceID (ctx n))"
  obtain q s where q: "syncRequest_new url True n = Inr (?r, (put_req ?r q n)\<lparr>n_store := s, next_req := Suc ?r\<rparr>)"
      "isClient q" "\<not> hasStarted q" "\<not> hasSentLocal q" "\<not> hasFinished q" "\<not> finalize q" "url_all q = Inr str" "objs s (sr_dobj q) \<noteq> None"
    using syncRequest_new_run [OF g u] by blast
  let ?q = "q\<lparr>hasStarted := False, sequenceID := ?sid, forcedObject := None\<rparr>"
  let ?m = "(put_req ?r ?q ((put_req ?r q n)\<lparr>n_store := s, next_req := Suc ?r\<rparr>))\<lparr>ctx := (ctx n)\<lparr>
      ep_sequenceID := ep_sequenceID (ctx n) + 2, syncRequests := [(generate_mapKey e ?sid, ?r)]\<rparr>\<rparr>"
  have "connectionContext_syncRequest e url n = bind_res (connectionContext_loopIteration e ?m) (\<lambda>(_, n). Inr (1, n))"
    using q(1) a(2) by (simp add: connectionContext_syncRequest_def connectionContext_syncRequestForce_def TCPSequenceID_def Let_def
        upd_req_def get_req_def put_req_def upd_ctx_def am_append_def am_remove_def)
  moreover have m: "authorized (ctx ?m)" "syncRequests (ctx ?m) = (generate_mapKey e ?sid, ?r) # []" "reqs ?m ?r = Some ?q"
      "n_store ?m = s" "outbox ?m = outbox n" "ep_sequenceID (ctx ?m) = ep_sequenceID (ctx n) + 2" "next_req ?m = Suc ?r" using a(1) by (simp_all add: put_req_def authorized_def)
  moreover obtain n1 where n1: "connectionContext_loopIteration e ?m = Inr (1, n1)" "auth_of n1 = auth_of ?m"
      "syncRequests (ctx n1) = (generate_mapKey e ?sid, ?r) # []" "reqs n1 ?r = Some (?q\<lparr>hasStarted := True\<rparr>)"
      "outbox n1 = outbox ?m @ filter (encodable e) [dataObjectSyncStartP str 0 0 (sequenceID ?q)]"
      "ep_sequenceID (ctx n1) = ep_sequenceID (ctx ?m)" "next_req n1 = next_req ?m"
    using loop_start [OF m(1-3), of str e] q m(4) by (auto simp: url_all_def m(2))
  moreover obtain n2 where n2: "connectionContext_loopIteration e n1 = Inr (1, n2)" "auth_of n2 = auth_of n1"
      "syncRequests (ctx n2) = (generate_mapKey e ?sid, ?r) # []"
      "reqs n2 ?r = Some (?q\<lparr>hasStarted := True, hasSentLocal := True, hasFinished := True\<rparr>)"
      "outbox n2 = outbox n1 @ filter (encodable e) [dataObjectSyncFinishP (sequenceID ?q) responseExpiredP]"
      "ep_sequenceID (ctx n2) = ep_sequenceID (ctx n1)" "next_req n2 = next_req n1"
    using loop_finish [OF _ n1(3,4), of str e] q authorized_auth_of [OF n1(2)] m(1) by (auto simp: url_all_def n1(3))
  moreover have "connectionContext_loopIteration e n2 = Inr (1, n2)"
    using loop_wait [OF _ n2(3,4), of str] q authorized_auth_of [OF n2(2)] authorized_auth_of [OF n1(2)] m(1) by (auto simp: url_all_def)
  moreover have "waiting e n2 \<and> uint (ep_sequenceID (ctx n2)) = ?sid + 2" if room: "?sid + 2 < 2 ^ 32"
  proof -
    have ep: "uint (ep_sequenceID (ctx n2)) = ?sid + 2" using room n1(6) n2(6) m(6) by (simp add: uint_word_ariths)
    have "authorized (ctx n2)" using authorized_auth_of [OF n2(2)] authorized_auth_of [OF n1(2)] m(1) by blast
    moreover have "?r < next_req n2" using n1(7) n2(7) m(7) by simp
    moreover have "0 \<le> ?sid" "?sid < uint (ep_sequenceID (ctx n2))" using ep by simp_all
    ultimately show ?thesis unfolding waiting_def using ep n2(3,4) q by (fastforce simp: url_all_def)
  qed
  ultimately show ?thesis by auto
qed

lemma waiting_loop: "waiting e n \<Longrightarrow> connectionContext_loopIteration e n = Inr (1, n)"
  unfolding waiting_def using loop_wait by blast

section \<open>Sessions\<close>

definition net_events :: "env \<Rightarrow> event list \<Rightarrow> net \<Rightarrow> net res" where
  "net_events e = run_steps (net_event e)"

lemma net_events_simps [simp]:
  "net_events e [] n = Inr n" "net_events e (ev # evs) n = bind_res (net_event e ev n) (net_events e evs)"
  by (simp_all add: net_events_def)

text \<open>One event sends synchronisation packets only in a state that is authorized afterwards, and only an authentication
  packet authorizes.\<close>

lemma consume_step:
  assumes "env_ok e" and "net_event e Consume n = Inr n'"
  shows "allowed n n' \<and> (authorized (ctx n') \<longrightarrow> authorized (ctx n) \<or> (\<exists>p k. decode e (c_buffer (ctx n)) = RC_OK p k \<and> is_auth p))"
proof (cases "c_buffer (ctx n) = [] \<or> (\<forall>p k. decode e (c_buffer (ctx n)) \<noteq> RC_OK p k)")
  case True
  with assms(2) have "n' = n" by (auto simp: connectionContext_consumePacket_def split: dec_result.split_asm if_split_asm)
  then show ?thesis by (simp add: allowed_def)
next
  case False
  then obtain p k where p: "decode e (c_buffer (ctx n)) = RC_OK p k" by blast
  with assms(2) False obtain m where m: "connectionContext_processPacket e p n = Inr m"
      "n' = upd_ctx (\<lambda>c. c\<lparr>c_buffer := drop k (c_buffer c)\<rparr>) m"
    by (auto simp: connectionContext_consumePacket_def split: if_split_asm)
  show ?thesis
  proof (cases "is_auth p")
    case True
    with auth_processPacket [OF assms(1) m(1)] p m(2) show ?thesis by (auto simp: allowed_def drop_buffer)
  next
    case False
    with gated_allowed [OF gated_processPacket [OF assms(1) m(1)]] m(2) show ?thesis by (auto simp: allowed_def drop_buffer)
  qed
qed

lemma event_step:
  assumes "env_ok e" and "net_event e ev n = Inr n'"
  shows "allowed n n' \<and> (authorized (ctx n') \<longrightarrow> authorized (ctx n) \<or>
     ev = Consume \<and> (\<exists>p k. decode e (c_buffer (ctx n)) = RC_OK p k \<and> is_auth p))"
proof (cases ev)
  case (Arrive data)
  with assms(2) have "n' = upd_ctx (\<lambda>c. c\<lparr>c_buffer := c_buffer c @ data\<rparr>) n"
    by (auto simp: connectionContext_setBuffer_def split: if_split_asm)
  then show ?thesis by (simp add: allowed_def upd_ctx_def authorized_def)
next
  case Consume
  with consume_step [OF assms(1)] assms(2) show ?thesis by blast
next
  case Loop
  with assms(2) gated_allowed [OF gated_loopIteration] show ?thesis by fastforce
next
  case (Request url dobj)
  with assms(2) gated_allowed [OF gated_syncRequestForce] show ?thesis by fastforce
qed

text \<open>The session as a system of guarded steps: authorization is the gate, an authentication packet the key.\<close>

definition sent_sync :: "net \<Rightarrow> net \<Rightarrow> bool" where
  "sent_sync n n' \<longleftrightarrow> (\<exists>x \<in> set (drop (length (outbox n)) (outbox n')). is_sync x)"

interpretation session_steps: guarded_steps "net_event e" "\<lambda>n n'. env_ok e \<longrightarrow> (\<exists>ps. outbox n' = outbox n @ ps)"
  "\<lambda>n. authorized (ctx n)"
  "\<lambda>ev n. env_ok e \<longrightarrow> ev = Consume \<and> (\<exists>p k. decode e (c_buffer (ctx n)) = RC_OK p k \<and> is_auth p)"
  "\<lambda>n n'. env_ok e \<and> sent_sync n n'" for e
proof unfold_locales
  fix ev n n'
  assume "net_event e ev n = Inr n'"
  note step = event_step [OF _ this]
  then show "env_ok e \<longrightarrow> (\<exists>ps. outbox n' = outbox n @ ps)" by (auto simp: allowed_def)
  from step show "authorized (ctx n') \<Longrightarrow>
      authorized (ctx n) \<or> (env_ok e \<longrightarrow> ev = Consume \<and> (\<exists>p k. decode e (c_buffer (ctx n)) = RC_OK p k \<and> is_auth p))" by blast
  from step show "\<not> authorized (ctx n') \<Longrightarrow> \<not> (env_ok e \<and> sent_sync n n')" by (fastforce simp: allowed_def sent_sync_def)
next
  fix n n1 n2
  show "env_ok e \<longrightarrow> (\<exists>ps. outbox n1 = outbox n @ ps) \<Longrightarrow> env_ok e \<longrightarrow> (\<exists>ps. outbox n2 = outbox n1 @ ps) \<Longrightarrow>
      (env_ok e \<and> sent_sync n n2) = (env_ok e \<and> sent_sync n n1 \<or> env_ok e \<and> sent_sync n1 n2)"
    by (auto simp: sent_sync_def)
qed (auto simp: sent_sync_def)

text \<open>
  C5: No data is synchronised before authentication. If the context is not authorized and a later state of the session has sent
  a start, data or finish packet, then an authentication packet was received and processed in between, the context was authorized
  by it, and until then no synchronisation packet was sent. The events are the arrival of bytes, the consumption of
  a packet, the periodic loop and requests of the application, in any order.
\<close>

theorem sync_needs_authorization:
  assumes "env_ok e" and "net_events e evs n = Inr n'" and "\<not> authorized (ctx n)"
    and "x \<in> set (drop (length (outbox n)) (outbox n'))" and "is_sync x"
  shows "\<exists>before after m m' p k. evs = before @ Consume # after \<and> net_events e before n = Inr m \<and>
     decode e (c_buffer (ctx m)) = RC_OK p k \<and> is_auth p \<and> net_event e Consume m = Inr m' \<and> authorized (ctx m') \<and>
     (\<forall>y \<in> set (drop (length (outbox n)) (outbox m)). \<not> is_sync y)"
proof -
  from assms(1,4,5) have "env_ok e \<and> sent_sync n n'" by (auto simp: sent_sync_def)
  from session_steps.first_opening [OF assms(2) [unfolded net_events_def] assms(3) this] assms(1) show ?thesis
    unfolding sent_sync_def net_events_def by blast
qed

section \<open>The byte stream\<close>

text \<open>The reference: the packets are processed in the order of the stream, each one removed from the buffer behind its processing.\<close>

fun deliver :: "env \<Rightarrow> (FRIPacketP \<Rightarrow> 8 word list) \<Rightarrow> FRIPacketP list \<Rightarrow> net \<Rightarrow> net res" where
  "deliver e enc [] n = Inr n"
| "deliver e enc (p # ps) n =
     bind_res (connectionContext_processPacket e p n) (\<lambda>n.
     deliver e enc ps (upd_ctx (\<lambda>c. c\<lparr>c_buffer := drop (length (enc p)) (c_buffer c)\<rparr>) n))"

definition codec_ok :: "env \<Rightarrow> (FRIPacketP \<Rightarrow> 8 word list) \<Rightarrow> FRIPacketP list \<Rightarrow> bool" where
  "codec_ok e enc ps \<longleftrightarrow> (\<forall>p \<in> set ps. enc p \<noteq> [] \<and> (\<forall>rest. decode e (enc p @ rest) = RC_OK p (length (enc p))))"

lemma consume_end:
  "c_buffer (ctx n) = part \<Longrightarrow> part = [] \<or> decode e part = RC_WMORE \<Longrightarrow> connectionContext_consumePacket e n = Inr (0, n)"
  by (auto simp: connectionContext_consumePacket_def)

lemma consume_next:
  assumes "env_ok e" and "codec_ok e enc (p # ps)" and "c_buffer (ctx n) = enc p @ rest"
  shows "connectionContext_consumePacket e n = bind_res (connectionContext_processPacket e p n) (\<lambda>n.
     Inr (int (length (enc p)), upd_ctx (\<lambda>c. c\<lparr>c_buffer := drop (length (enc p)) (c_buffer c)\<rparr>) n))"
proof -
  have "enc p \<noteq> []" "decode e (enc p @ rest) = RC_OK p (length (enc p))" using assms(2) by (auto simp: codec_ok_def)
  with assms(3) processPacket_buffer [OF assms(1)] show ?thesis
    by (cases "connectionContext_processPacket e p n") (auto simp: connectionContext_consumePacket_def)
qed

lemma recv_loop_deliver:
  assumes "env_ok e" and "codec_ok e enc ps" and "c_buffer (ctx n) = concat (map enc ps) @ part"
    and "part = [] \<or> decode e part = RC_WMORE" and "length ps < fuel"
  shows "recv_loop fuel e n = deliver e enc ps n \<and> (\<forall>n'. deliver e enc ps n = Inr n' \<longrightarrow> c_buffer (ctx n') = part)"
  using assms(2,3,5)
proof (induction ps arbitrary: n fuel)
  case Nil
  then show ?case using consume_end [OF _ assms(4), of n] by (cases fuel) simp_all
next
  case (Cons p ps)
  then obtain k where k: "fuel = Suc k" "length ps < k" by (cases fuel) auto
  from Cons.prems(1) have ok: "codec_ok e enc ps" "enc p \<noteq> []" by (auto simp: codec_ok_def)
  note next' = consume_next [OF assms(1) Cons.prems(1), of n "concat (map enc ps) @ part"]
  show ?case
  proof (cases "connectionContext_processPacket e p n")
    case (Inl err)
    with next' Cons.prems(2) k show ?thesis by simp
  next
    case (Inr m)
    let ?m = "upd_ctx (\<lambda>c. c\<lparr>c_buffer := drop (length (enc p)) (c_buffer c)\<rparr>) m"
    have "c_buffer (ctx ?m) = concat (map enc ps) @ part"
      using processPacket_buffer [OF assms(1) Inr] Cons.prems(2) by (simp add: upd_ctx_def)
    from Cons.IH [OF ok(1) this k(2)] next' Cons.prems(2) k ok(2) Inr show ?thesis by simp
  qed
qed

lemma length_codec: "codec_ok e enc ps \<Longrightarrow> length ps \<le> length (concat (map enc ps))"
proof (induction ps)
  case (Cons p ps)
  then have "codec_ok e enc ps" "0 < length (enc p)" by (auto simp: codec_ok_def)
  with Cons.IH show ?case by (cases "enc p") auto
qed simp

text \<open>
  C6: The receive handler of the interface task reassembles the byte stream. Let the buffered bytes and the arriving ones together be the encodings of
  the packets \<open>ps\<close>, followed by an incomplete packet or nothing, and fit into the buffer. Then the handler processes exactly the packets
  \<open>ps\<close>, in order, whatever the division of the stream into arrivals, keeps the incomplete rest for the next arrival, and
  runs the request loop afterwards; the fuel of the loop is enough, and an error is that of processing one of the packets or of
  the request loop. Hypotheses: the codec decodes an encoding in front of any bytes, and scripts do not touch the buffer.
\<close>

theorem uiAppRecv_delivers:
  assumes "env_ok e" and "codec_ok e enc ps" and "c_buffer (ctx n) @ data = concat (map enc ps) @ part"
    and "part = [] \<or> decode e part = RC_WMORE" and "length (c_buffer (ctx n) @ data) \<le> CCTX_BUFLEN"
  shows "uiAppRecv e data n = bind_res (deliver e enc ps (upd_ctx (\<lambda>c. c\<lparr>c_buffer := c_buffer c @ data\<rparr>) n)) (uiAppSent e) \<and>
     (\<forall>n'. uiAppRecv e data n = Inr n' \<longrightarrow> c_buffer (ctx n') = part)"
proof -
  let ?n = "upd_ctx (\<lambda>c. c\<lparr>c_buffer := c_buffer c @ data\<rparr>) n"
  have b: "c_buffer (ctx ?n) = concat (map enc ps) @ part" using assms(3) by (simp add: upd_ctx_def)
  then have "length ps < Suc (length (c_buffer (ctx ?n)))" using length_codec [OF assms(2)] by simp
  note run = recv_loop_deliver [OF assms(1,2) b assms(4) this]
  have "connectionContext_setBuffer data n = Inr ?n" using assms(5) by (simp add: connectionContext_setBuffer_def)
  with run have eq: "uiAppRecv e data n = bind_res (deliver e enc ps ?n) (uiAppSent e)"
    by (simp add: uiAppRecv_def uiAppSent_def [abs_def])
  have "c_buffer (ctx n') = part" if u: "uiAppRecv e data n = Inr n'" for n'
  proof -
    from u eq obtain m where "deliver e enc ps ?n = Inr m" "uiAppSent e m = Inr n'" by auto
    with run gated_loopIteration [of e m _ n'] show ?thesis by (auto simp: uiAppSent_def gated_def auth_of_def)
  qed
  with eq show ?thesis by blast
qed

section \<open>The life of a request\<close>

lemma syncRequest_new_frame:
  assumes "syncRequest_new url c n = Inr (r, n')"
  shows "\<exists>q s. r = next_req n \<and> n' = (put_req r q n)\<lparr>n_store := s, next_req := Suc r\<rparr>"
  using assms by (auto simp: syncRequest_new_def Let_def)

lemma waiting_request:
  assumes w: "waiting e n" and len: "length (ep_name e) \<le> 50" and room: "uint (ep_sequenceID (ctx n)) + 2 < 2 ^ 32"
    and run: "connectionContext_syncRequestForce e url dobj n = Inr (k, n')"
  shows "waiting e n' \<and> outbox n' = outbox n \<and> ep_sequenceID (ctx n') = ep_sequenceID (ctx n) + 2"
proof -
  let ?ep = "ep_sequenceID (ctx n)" and ?new = "next_req n"
  from w obtain sid r q rest str where q: "syncRequests (ctx n) = (generate_mapKey e sid, r) # rest" "reqs n r = Some q" "r < ?new"
      "0 \<le> sid" "sid < uint ?ep" "isClient q \<and> hasStarted q \<and> hasSentLocal q \<and> hasFinished q \<and> \<not> finalize q \<and> url_all q = Inr str"
    and auth: "authorized (ctx n)" unfolding waiting_def by blast
  from run obtain r' n1 where "syncRequest_new url True n = Inr (r', n1)" by (auto simp: connectionContext_syncRequestForce_def)
  with syncRequest_new_frame obtain q' s where new: "syncRequest_new url True n = Inr (?new, (put_req ?new q' n)\<lparr>n_store := s, next_req := Suc ?new\<rparr>)"
    by blast
  have key: "generate_mapKey e sid \<noteq> generate_mapKey e (uint ?ep)"
    using generate_mapKey_inj [OF len, of sid "uint ?ep"] q(4,5) room by auto
  let ?m = "(put_req ?new (q'\<lparr>hasStarted := False, sequenceID := uint ?ep, forcedObject := dobj\<rparr>) (n\<lparr>n_store := s, next_req := Suc ?new\<rparr>))\<lparr>
      ctx := (ctx n)\<lparr>ep_sequenceID := ?ep + 2, syncRequests := am_append (generate_mapKey e (uint ?ep)) ?new (syncRequests (ctx n))\<rparr>\<rparr>"
  have "uint (?ep + 2) = uint ?ep + 2" using room by (simp add: uint_word_ariths)
  then have "waiting e ?m" unfolding waiting_def
    using q auth key by (simp add: put_req_def authorized_def am_append_def am_remove_def) (intro exI [of _ sid], simp)
  moreover from run new have "bind_res (connectionContext_loopIteration e ?m) (\<lambda>(_, n). Inr (1, n)) = Inr (k, n')"
    by (simp add: connectionContext_syncRequestForce_def TCPSequenceID_def Let_def upd_req_def get_req_def put_req_def upd_ctx_def)
  ultimately have "n' = ?m" using waiting_loop [of e ?m] by simp
  with \<open>waiting e ?m\<close> show ?thesis by (simp add: put_req_def)
qed

text \<open>The events of a device that hears nothing: the loop and requests.\<close>

fun own_event :: "event \<Rightarrow> bool" where
  "own_event Loop = True"
| "own_event (Request url dobj) = True"
| "own_event ev = False"

lemma waiting_events:
  assumes "waiting e n" and "length (ep_name e) \<le> 50" and "uint (ep_sequenceID (ctx n)) + 2 * int (length evs) < 2 ^ 32"
    and "list_all own_event evs" and "net_events e evs n = Inr n'"
  shows "waiting e n' \<and> outbox n' = outbox n"
  using assms(1,3-5)
proof (induction evs arbitrary: n)
  case (Cons ev evs)
  obtain n1 where n1: "net_event e ev n = Inr n1" "net_events e evs n1 = Inr n'" using Cons.prems(4) by auto
  show ?case
  proof (cases ev)
    case Loop
    with n1(1) waiting_loop [OF Cons.prems(1)] have "n1 = n" by simp
    with Cons n1(2) show ?thesis by simp
  next
    case (Request url dobj)
    with n1(1) obtain k where "connectionContext_syncRequestForce e url dobj n = Inr (k, n1)" by auto
    from waiting_request [OF Cons.prems(1) assms(2) _ this] Cons.prems(2)
    have s: "waiting e n1" "outbox n1 = outbox n" "ep_sequenceID (ctx n1) = ep_sequenceID (ctx n) + 2" by auto
    then have "uint (ep_sequenceID (ctx n1)) = uint (ep_sequenceID (ctx n)) + 2" using Cons.prems(2) by (simp add: uint_word_ariths)
    with Cons.IH [OF s(1) _ _ n1(2)] Cons.prems(2,3) s(2) show ?thesis by simp
  qed (use Cons.prems(3) in simp_all)
qed simp

text \<open>
  C18: A request for an application is answered by the engine at once and without further help: when the context is authorized and no other request
  is pending, \<open>connectionContext_syncRequest\<close> sends the start packet with the requested URL and the next sequence number, the
  next iteration of the loop sends the finish packet with the same number, and from then on the iterations change nothing: the
  request waits for the answer of the server. The hypotheses on the URL are those \<open>url_parse\<close> establishes.
\<close>

theorem sync_request_sends:
  assumes "authorized (ctx n)" and "syncRequests (ctx n) = []" and "globals_ok (n_store n)"
    and "u_all url = Some str" and "u_path url = Some pth" and "url_parse (Some str) URL_ALL = Inr (Some u)"
    and "encodable e (dataObjectSyncStartP str 0 0 (uint (ep_sequenceID (ctx n))))"
    and "encodable e (dataObjectSyncFinishP (uint (ep_sequenceID (ctx n))) responseExpiredP)"
  shows "\<exists>n1 n2. connectionContext_syncRequest e url n = Inr (1, n1) \<and>
     outbox n1 = outbox n @ [dataObjectSyncStartP str 0 0 (uint (ep_sequenceID (ctx n)))] \<and>
     connectionContext_loopIteration e n1 = Inr (1, n2) \<and>
     outbox n2 = outbox n1 @ [dataObjectSyncFinishP (uint (ep_sequenceID (ctx n))) responseExpiredP] \<and>
     connectionContext_loopIteration e n2 = Inr (1, n2)"
  using request_phases [OF assms(1-6), of e] assms(7,8) by auto

text \<open>
  C19: The sequence numbers run out. The transport hands out numbers that grow by two without bound, and the packet specification allows
  0 to 255 only. A request made when the number has passed 255 sends nothing, and it is never removed: it stays at the
  head of the queue, so no request made afterwards sends a packet either, in any sequence of loop iterations and requests. (The bound
  on the sequence excludes the wrap-around of the 32-bit counter.)
\<close>

theorem sequence_exhaustion:
  assumes "authorized (ctx n)" and "syncRequests (ctx n) = []" and "globals_ok (n_store n)"
    and "u_all url = Some str" and "u_path url = Some pth" and "url_parse (Some str) URL_ALL = Inr (Some u)"
    and "encoder_range e" and "length (ep_name e) \<le> 50" and "256 \<le> uint (ep_sequenceID (ctx n))"
  shows "\<exists>n1 n2. connectionContext_syncRequest e url n = Inr (1, n1) \<and> connectionContext_loopIteration e n1 = Inr (1, n2) \<and>
     (\<forall>evs n'. list_all own_event evs \<longrightarrow> uint (ep_sequenceID (ctx n)) + 2 * int (length evs) + 2 < 2 ^ 32 \<longrightarrow>
        net_events e evs n2 = Inr n' \<longrightarrow> outbox n' = outbox n \<and> syncRequests (ctx n') \<noteq> [])"
proof -
  let ?sid = "uint (ep_sequenceID (ctx n))"
  have un: "\<not> encodable e (dataObjectSyncStartP str 0 0 ?sid)" "\<not> encodable e (dataObjectSyncFinishP ?sid responseExpiredP)"
    using assms(7,9) unfolding encoder_range_def by fastforce+
  obtain n1 n2 where n2: "connectionContext_syncRequest e url n = Inr (1, n1)" "connectionContext_loopIteration e n1 = Inr (1, n2)"
      "outbox n2 = outbox n" "uint (ep_sequenceID (ctx n)) + 2 < 2 ^ 32 \<longrightarrow> waiting e n2 \<and> uint (ep_sequenceID (ctx n2)) = ?sid + 2"
    using request_phases [OF assms(1-6), of e] un by auto
  have "outbox n' = outbox n \<and> syncRequests (ctx n') \<noteq> []"
    if "list_all own_event evs" "?sid + 2 * int (length evs) + 2 < 2 ^ 32" "net_events e evs n2 = Inr n'" for evs n'
  proof -
    from n2(4) that(2) have "waiting e n2" "uint (ep_sequenceID (ctx n2)) = ?sid + 2" by auto
    from waiting_events [OF this(1) assms(8) _ that(1,3)] this(2) that(2) n2(3) show ?thesis by (auto simp: waiting_def)
  qed
  with n2(1,2) show ?thesis by blast
qed

section \<open>A concrete session\<close>

text \<open>An encoder for the range of sequence numbers of \<open>fri.asn1\<close> and a decoder of three packets of one byte each.\<close>

definition demo_decode :: "8 word list \<Rightarrow> dec_result" where
  "demo_decode bs =
     (case bs of
        [] \<Rightarrow> RC_WMORE
      | b # _ \<Rightarrow>
          if b = 1 then RC_OK (authRequestP ''salt'' [atUsernamePasswordP]) 1
          else if b = 2 then RC_OK (authResponseP responseOKP) 1
          else if b = 3 then RC_OK (protocolHandshakeP 1) 1
          else RC_WMORE)"

definition demo_env :: env where
  "demo_env =
     \<lparr>encodable = (\<lambda>p. case packet_sequence p of None \<Rightarrow> True | Some q \<Rightarrow> 0 \<le> q \<and> q \<le> 255), decode = demo_decode,
      ep_name = ''0x1000'', imei = ''350000000000000'', run_script = (\<lambda>a str n. Inr n), gprs_set_emobiix_on = Inr\<rparr>"

definition demo_url :: URL where
  "demo_url = \<lparr>u_scheme = Some ''tcp'', u_authority = Some ''h:1'', u_hostname = Some ''h'', u_port = Some ''1'', u_user = None,
     u_password = None, u_path = Some ''/a'', u_query = None, u_fragment = None, u_all = Some ''tcp://h:1/a''\<rparr>"

definition session_net :: "32 word \<Rightarrow> NeedAuth \<Rightarrow> net" where
  "session_net ep na = \<lparr>n_store = tree_store, ctx = (connectionContext_new ep)\<lparr>needAuth := na\<rparr>, reqs = Map.empty, next_req = 0,
     outbox = [], loadingApplication = None\<rparr>"

lemma demo_env_ok: "env_ok demo_env" "encoder_range demo_env" "length (ep_name demo_env) \<le> 50"
  by (auto simp: env_ok_def demo_env_def encoder_range_def intro: script_done split: option.splits)

lemma demo_url_parse: "url_parse (Some ''tcp://h:1/a'') URL_ALL = Inr (Some demo_url)"
  by (simp add: url_parse_def url_parse_hostname_def url_parse_port_def url_parse_path_def url_part_defs strchr_from_def substring_def demo_url_def empty_url_def)

lemma demo_url_parts: "u_all demo_url = Some ''tcp://h:1/a''" "u_path demo_url = Some ''/a''"
  by (simp_all add: demo_url_def)

lemma session_net_ok:
  "globals_ok (n_store (session_net ep na))" "syncRequests (ctx (session_net ep na)) = []" "authorized (ctx (session_net ep na)) = (na = NA_NO)"
  "ep_sequenceID (ctx (session_net ep na)) = ep" "outbox (session_net ep na) = []"
  by (auto simp: session_net_def connectionContext_new_def authorized_def globals_ok_def tree_store_def demo_store_def)

theorem sync_request_sends_witness:
  "\<exists>n1 n2. connectionContext_syncRequest demo_env demo_url (session_net 7 NA_NO) = Inr (1, n1) \<and>
     outbox n1 = [dataObjectSyncStartP ''tcp://h:1/a'' 0 0 7] \<and> connectionContext_loopIteration demo_env n1 = Inr (1, n2) \<and>
     outbox n2 = [dataObjectSyncStartP ''tcp://h:1/a'' 0 0 7, dataObjectSyncFinishP 7 responseExpiredP]"
proof -
  have "encodable demo_env (dataObjectSyncStartP ''tcp://h:1/a'' 0 0 7)" "encodable demo_env (dataObjectSyncFinishP 7 responseExpiredP)"
    by (simp_all add: demo_env_def)
  with sync_request_sends [OF _ _ _ demo_url_parts demo_url_parse, of "session_net 7 NA_NO" demo_env] show ?thesis
    by (auto simp: session_net_ok)
qed

theorem sequence_exhaustion_witness:
  "\<exists>n1 n2. connectionContext_syncRequest demo_env demo_url (session_net 257 NA_NO) = Inr (1, n1) \<and>
     connectionContext_loopIteration demo_env n1 = Inr (1, n2) \<and>
     (\<forall>n'. net_events demo_env [Loop, Request demo_url None, Loop] n2 = Inr n' \<longrightarrow> outbox n' = [])"
proof -
  let ?evs = "[Loop, Request demo_url None, Loop]"
  have "list_all own_event ?evs" by simp
  moreover obtain n1 n2 where "connectionContext_syncRequest demo_env demo_url (session_net 257 NA_NO) = Inr (1, n1)"
      "connectionContext_loopIteration demo_env n1 = Inr (1, n2)"
      "\<forall>evs n'. list_all own_event evs \<longrightarrow> uint (ep_sequenceID (ctx (session_net 257 NA_NO))) + 2 * int (length evs) + 2 < 2 ^ 32 \<longrightarrow>
        net_events demo_env evs n2 = Inr n' \<longrightarrow> outbox n' = outbox (session_net 257 NA_NO) \<and> syncRequests (ctx n') \<noteq> []"
    using sequence_exhaustion [OF _ _ _ demo_url_parts demo_url_parse demo_env_ok(2,3), of "session_net 257 NA_NO"]
    by (auto simp: session_net_ok)
  moreover have "uint (ep_sequenceID (ctx (session_net 257 NA_NO))) + 2 * int (length ?evs) + 2 < 2 ^ 32" by (simp add: session_net_ok)
  ultimately show ?thesis unfolding session_net_ok by blast
qed

text \<open>Two packets and the beginning of a third arrive.\<close>

theorem uiAppRecv_delivers_witness:
  "\<exists>n'. uiAppRecv demo_env [1, 2, 4] (session_net 7 NA_UNKNOWN) = Inr n' \<and> c_buffer (ctx n') = [4] \<and> hasAuth (ctx n')"
proof -
  define enc :: "FRIPacketP \<Rightarrow> 8 word list" where "enc = (\<lambda>p. if p = authResponseP responseOKP then [2] else [1])"
  let ?ps = "[authRequestP ''salt'' [atUsernamePasswordP], authResponseP responseOKP]"
  have "codec_ok demo_env enc ?ps" by (simp add: codec_ok_def enc_def demo_env_def demo_decode_def)
  moreover have "decode demo_env [4] = RC_WMORE" by (simp add: demo_env_def demo_decode_def)
  moreover have "concat (map enc ?ps) @ [4] = [1, 2, 4]" by (simp add: enc_def)
  ultimately show ?thesis
    using uiAppRecv_delivers [OF demo_env_ok(1), of enc ?ps "session_net 7 NA_UNKNOWN" "[1, 2, 4]" "[4]"]
    by (simp add: session_net_def connectionContext_new_def CCTX_BUFLEN_def connectionContext_processPacket_def
        connectionContext_processAuthRequest_def connectionContext_authUserPass_def connectionContext_processAuthResponse_def
        connectionContext_packetSend_def demo_env_def upd_ctx_def uiAppSent_def connectionContext_loopIteration_def enc_def)
qed

definition queued_request :: SyncRequest where
  "queued_request = \<lparr>sr_url = Some demo_url, newObject = True, isClient = True, hasStarted = False, hasSentLocal = False,
     hasFinished = False, remoteFinished = False, finalize = False, remoteResponse = None, sr_stampMinor = None,
     sr_stampMajor = None, sr_dobj = 0, forcedObject = None, completeFields = None, completeNodes = [], sequenceID = 7,
     objectIndex = 0, recordIndex = 0, childOp = -2\<rparr>"

definition queued_net :: net where
  "queued_net = (session_net 9 NA_UNKNOWN)\<lparr>ctx := (connectionContext_new 9)\<lparr>syncRequests := [(generate_mapKey demo_env 7, 0)]\<rparr>,
     reqs := [0 \<mapsto> queued_request], next_req := 1\<rparr>"

lemma demo_session:
  "\<exists>n'. net_events demo_env [Loop, Arrive [1, 2], Consume, Consume, Loop] queued_net = Inr n' \<and>
     dataObjectSyncStartP ''tcp://h:1/a'' 0 0 7 \<in> set (outbox n')"
proof -
  have "objs tree_store 0 = Some (new_obj\<lparr>children := [1, 3]\<rparr>)" by (simp add: tree_store_def)
  then show ?thesis
    by (simp add: queued_net_def session_net_def connectionContext_new_def connectionContext_loopIteration_def authorized_def
        connectionContext_setBuffer_def CCTX_BUFLEN_def upd_ctx_def connectionContext_consumePacket_def demo_env_def demo_decode_def
        connectionContext_processPacket_def connectionContext_processAuthRequest_def connectionContext_authUserPass_def
        connectionContext_processAuthResponse_def connectionContext_packetSend_def connectionContext_processSyncRequest_def
        get_req_def put_req_def upd_req_def url_all_def queued_request_def demo_url_def on_store_def dataobject_setState_def heap_defs
        protocol_syncStart_def)
qed

theorem sync_needs_authorization_witness:
  "\<exists>before after m m' p k. [Loop, Arrive [1, 2], Consume, Consume, Loop] = before @ Consume # after \<and>
     net_events demo_env before queued_net = Inr m \<and> decode demo_env (c_buffer (ctx m)) = RC_OK p k \<and> is_auth p \<and>
     net_event demo_env Consume m = Inr m' \<and> authorized (ctx m') \<and> (\<forall>y \<in> set (outbox m). \<not> is_sync y)"
proof -
  from demo_session obtain n' where n': "net_events demo_env [Loop, Arrive [1, 2], Consume, Consume, Loop] queued_net = Inr n'"
    "dataObjectSyncStartP ''tcp://h:1/a'' 0 0 7 \<in> set (outbox n')" by blast
  have "outbox queued_net = []" "\<not> authorized (ctx queued_net)"
    by (simp_all add: queued_net_def session_net_def connectionContext_new_def authorized_def)
  with sync_needs_authorization [OF demo_env_ok(1) n'(1), of "dataObjectSyncStartP ''tcp://h:1/a'' 0 0 7"] n'(2) show ?thesis
    by simp
qed

end
