(* ===== verification/Widget_Base.thy ===== *)
theory Widget_Base
  imports Object_Update "HOL-Library.Signed_Division"
begin

text \<open>
  Widgets are data objects whose numbered fields carry their attributes: the attribute functions of \<open>Widget.c\<close>, \<open>StackWidget.c\<close>,
  \<open>SetWidget.c\<close> and the scrolling of \<open>ScrolledWidget.c\<close>.

  Reading the member \<open>integer\<close> of a field that holds a string or data, or writing it there, is \<open>TypeConfusion\<close>: the union is then used as a
  pointer by whoever reads the field by its type. Packing and alignment are compared as the integers they are stored as.
\<close>

section \<open>Integers in fields\<close>

definition get_integer :: "store \<Rightarrow> addr \<Rightarrow> int res" where
  "get_integer s f =
     bind_res (get_fld s f) (\<lambda>fl. case f_val fl of DOF_INT i \<Rightarrow> Inr (sint i) | DOF_UINT i \<Rightarrow> Inr (sint i) | _ \<Rightarrow> Inl TypeConfusion)"

definition set_integer :: "int \<Rightarrow> addr \<Rightarrow> store \<Rightarrow> store res" where
  "set_integer v f s =
     bind_res (get_fld s f) (\<lambda>fl.
     case f_val fl of
       DOF_INT _ \<Rightarrow> Inr (put_fld f (fl\<lparr>f_val := DOF_INT (word_of_int v)\<rparr>) s)
     | DOF_UINT _ \<Rightarrow> Inr (put_fld f (fl\<lparr>f_val := DOF_UINT (word_of_int v)\<rparr>) s)
     | _ \<Rightarrow> Inl TypeConfusion)"

text \<open>The member \<open>string\<close>.\<close>

definition get_string :: "store \<Rightarrow> addr \<Rightarrow> dof_string res" where
  "get_string s f = bind_res (get_fld s f) (\<lambda>fl. case f_val fl of DOF_STRING str \<Rightarrow> Inr str | _ \<Rightarrow> Inl TypeConfusion)"

definition new_int_enum :: "addr \<Rightarrow> int \<Rightarrow> int \<Rightarrow> store \<Rightarrow> (addr \<times> store) res" where
  "new_int_enum w key v s =
     (let (f, s) = dataobjectfield_int (word_of_int v) s in bind_res (dataobject_setEnum w key f s) (\<lambda>s. Inr (f, s)))"

text \<open>The shape of the four setters: a field that exists is overwritten in place.\<close>

definition set_int_attribute :: "int \<Rightarrow> addr \<Rightarrow> int \<Rightarrow> store \<Rightarrow> store res" where
  "set_int_attribute key w v s =
     bind_res (dataobject_getEnum s w key) (\<lambda>field.
     case field of
       None \<Rightarrow> bind_res (new_int_enum w key v s) (\<lambda>(_, s). Inr s)
     | Some f \<Rightarrow> set_integer v f s)"

section \<open>Attributes\<close>

definition widget_new :: "store \<Rightarrow> addr \<times> store" where "widget_new s = dataobject_new s"

definition set_string_enum :: "addr \<Rightarrow> int \<Rightarrow> string option \<Rightarrow> store \<Rightarrow> store res" where
  "set_string_enum w key str s =
     (case str of None \<Rightarrow> Inr s | Some t \<Rightarrow> (let (f, s) = dataobjectfield_string t s in dataobject_setEnum w key f s))"

definition widget_newTypeIdName ::
  "string option \<Rightarrow> string option \<Rightarrow> string option \<Rightarrow> addr option \<Rightarrow> store \<Rightarrow> (addr \<times> store) res" where
  "widget_newTypeIdName type wid name par s =
     (let (output, s) = widget_new s in
      bind_res (set_string_enum output EMO_FIELD_TYPE type s) (\<lambda>s.
      bind_res (set_string_enum output EMO_FIELD_ID wid s) (\<lambda>s.
      bind_res (set_string_enum output EMO_FIELD_NAME name s) (\<lambda>s.
      bind_res (case par of None \<Rightarrow> Inr s | Some p \<Rightarrow> widget_pack output p s) (\<lambda>s.
      Inr (output, s))))))"

datatype WidgetAlignment = WA_LEFT | WA_CENTER | WA_RIGHT

definition WP :: "WidgetPacking \<Rightarrow> int" where
  "WP p = (case p of WP_HORIZONTAL \<Rightarrow> 0 | WP_VERTICAL \<Rightarrow> 1 | WP_HGRID \<Rightarrow> 2 | WP_VGRID \<Rightarrow> 3 | WP_FIXED \<Rightarrow> 4)"

definition WA :: "WidgetAlignment \<Rightarrow> int" where
  "WA a = (case a of WA_LEFT \<Rightarrow> 0 | WA_CENTER \<Rightarrow> 1 | WA_RIGHT \<Rightarrow> 2)"

definition c_isdigit :: "char \<Rightarrow> bool" where
  "c_isdigit c \<longleftrightarrow> c \<in> set ''0123456789''"

definition widget_setPacking :: "addr \<Rightarrow> WidgetPacking \<Rightarrow> store \<Rightarrow> store res" where
  "widget_setPacking w p = set_int_attribute EMO_FIELD_PACKING w (WP p)"

definition packing_of_string :: "string \<Rightarrow> int" where
  "packing_of_string t =
     (if t \<noteq> [] \<and> c_isdigit (hd t) then atoi t
      else if t = ''horizontal'' then WP WP_HORIZONTAL
      else if t = ''vertical'' then WP WP_VERTICAL
      else if t = ''hgrid'' then WP WP_HGRID
      else if t = ''vgrid'' then WP WP_VGRID
      else if t = ''fixed'' then WP WP_FIXED
      else WP WP_VERTICAL)"

text \<open>An attribute given as a string is replaced by a field with its number.\<close>

definition get_code_attribute :: "int \<Rightarrow> (string \<Rightarrow> int) \<Rightarrow> int \<Rightarrow> addr \<Rightarrow> store \<Rightarrow> (int \<times> store) res" where
  "get_code_attribute key code dflt w s =
     bind_res (dataobject_getEnum s w key) (\<lambda>field.
     case field of
       None \<Rightarrow> Inr (dflt, s)
     | Some f \<Rightarrow>
         bind_res (get_fld s f) (\<lambda>fl.
         bind_res
           (case f_val fl of
              DOF_STRING str \<Rightarrow> new_int_enum w key (code (str_of str)) s
            | _ \<Rightarrow> Inr (f, s)) (\<lambda>(f, s).
         bind_res (get_integer s f) (\<lambda>i. Inr (i, s)))))"

definition widget_getPacking :: "addr \<Rightarrow> store \<Rightarrow> (int \<times> store) res" where
  "widget_getPacking = get_code_attribute EMO_FIELD_PACKING packing_of_string (WP WP_VERTICAL)"

definition widget_setAlignment :: "addr \<Rightarrow> WidgetAlignment \<Rightarrow> store \<Rightarrow> store res" where
  "widget_setAlignment w a = set_int_attribute EMO_FIELD_ALIGNMENT w (WA a)"

definition alignment_of_string :: "string \<Rightarrow> int" where
  "alignment_of_string t =
     (if t \<noteq> [] \<and> c_isdigit (hd t) then atoi t
      else if t = ''left'' \<or> t = ''top'' then WA WA_LEFT
      else if t = ''center'' then WA WA_CENTER
      else if t = ''right'' \<or> t = ''bottom'' then WA WA_RIGHT
      else WA WA_LEFT)"

definition widget_getAlignment :: "addr \<Rightarrow> store \<Rightarrow> (int \<times> store) res" where
  "widget_getAlignment = get_code_attribute EMO_FIELD_ALIGNMENT alignment_of_string (WA WA_LEFT)"

definition widget_getID :: "store \<Rightarrow> addr \<Rightarrow> dof_string option res" where
  "widget_getID s w =
     bind_res (dataobject_getEnum s w EMO_FIELD_ID) (\<lambda>field.
     case field of None \<Rightarrow> Inr None | Some f \<Rightarrow> bind_res (get_string s f) (\<lambda>str. Inr (Some str)))"

definition widget_canFocus :: "store \<Rightarrow> addr \<Rightarrow> int res" where
  "widget_canFocus s w = bind_res (dataobject_getEnum s w EMO_FIELD_CANFOCUS) (dataobjectfield_isTrue s)"

definition widget_setCanFocus :: "addr \<Rightarrow> int \<Rightarrow> store \<Rightarrow> store res" where
  "widget_setCanFocus = set_int_attribute EMO_FIELD_CANFOCUS"

definition widget_hasFocus :: "addr \<Rightarrow> store \<Rightarrow> (int \<times> store) res" where
  "widget_hasFocus w s =
     bind_res (dataobject_getEnumAsInt w EMO_FIELD_HASFOCUS s) (\<lambda>(field, s).
     case field of None \<Rightarrow> Inr (0, s) | Some f \<Rightarrow> bind_res (get_integer s f) (\<lambda>i. Inr (i, s)))"

fun hasFocusOrParent_loop :: "nat \<Rightarrow> addr \<Rightarrow> store \<Rightarrow> (bool \<times> store) res" where
  "hasFocusOrParent_loop 0 w s = Inl Diverge"
| "hasFocusOrParent_loop (Suc n) w s =
     bind_res (widget_hasFocus w s) (\<lambda>(hasFocus, s).
     if hasFocus \<noteq> 0 then Inr (True, s)
     else bind_res (get_obj s w) (\<lambda>d. case parent d of None \<Rightarrow> Inr (False, s) | Some p \<Rightarrow> hasFocusOrParent_loop n p s))"

definition widget_hasFocusOrParent :: "addr \<Rightarrow> store \<Rightarrow> (bool \<times> store) res" where
  "widget_hasFocusOrParent w s = hasFocusOrParent_loop (Suc (next_addr s)) w s"

text \<open>The loop ends at the root without comparing it.\<close>

fun isParent_loop :: "nat \<Rightarrow> store \<Rightarrow> addr \<Rightarrow> addr \<Rightarrow> bool res" where
  "isParent_loop 0 s wParent w = Inl Diverge"
| "isParent_loop (Suc n) s wParent w =
     bind_res (get_obj s w) (\<lambda>d.
     case parent d of
       None \<Rightarrow> Inr False
     | Some p \<Rightarrow> if wParent = w then Inr True else isParent_loop n s wParent p)"

definition widget_isParent :: "store \<Rightarrow> addr \<Rightarrow> addr \<Rightarrow> bool res" where
  "widget_isParent s wParent w = isParent_loop (Suc (next_addr s)) s wParent w"

definition widget_getClipRectangle :: "store \<Rightarrow> addr \<Rightarrow> Rectangle res" where
  "widget_getClipRectangle s w =
     bind_res (get_obj s w) (\<lambda>d.
     Inr \<lparr>r_x = r_x (box d) + r_x (margin d), r_y = r_y (box d) + r_y (margin d),
          r_width = r_width (box d), r_height = r_height (box d)\<rparr>)"

section \<open>Stacks and sets\<close>

definition stackwidget_focusStack :: "addr \<Rightarrow> store \<Rightarrow> (int \<times> store) res" where
  "stackwidget_focusStack w s =
     bind_res (dataobject_getEnumAsInt w EMO_FIELD_FOCUSSTACK s) (\<lambda>(field, s).
     case field of None \<Rightarrow> Inr (-1, s) | Some f \<Rightarrow> bind_res (get_integer s f) (\<lambda>i. Inr (i, s)))"

text \<open>The loop counts the items of the iterator, which may be fewer than the children.\<close>

definition stackwidget_focusStackObject :: "addr \<Rightarrow> store \<Rightarrow> (addr option \<times> store) res" where
  "stackwidget_focusStackObject w s =
     bind_res (stackwidget_focusStack w s) (\<lambda>(focus, s).
     bind_res (dataobject_getChildCount s w) (\<lambda>len.
     if focus < 0 \<or> focus \<ge> int len then Inr (None, s)
     else bind_res (dataobject_childIterator s w) (\<lambda>cs. Inr (if nat focus < length cs then Some (cs ! nat focus) else None, s))))"

definition setwidget_fieldCompare :: "store \<Rightarrow> addr \<Rightarrow> addr \<Rightarrow> bool res" where
  "setwidget_fieldCompare s lhs rhs =
     bind_res (get_fld s lhs) (\<lambda>l.
     bind_res (get_fld s rhs) (\<lambda>r.
     Inr (case (f_val l, f_val r) of
            (DOF_STRING a, DOF_STRING b) \<Rightarrow> str_of a = str_of b
          | (DOF_INT a, DOF_INT b) \<Rightarrow> a = b
          | (DOF_UINT a, DOF_UINT b) \<Rightarrow> a = b
          | _ \<Rightarrow> False)))"

fun set_item :: "store \<Rightarrow> addr \<Rightarrow> addr list \<Rightarrow> addr option res" where
  "set_item s fieldvalue [] = Inr None"
| "set_item s fieldvalue (item # items) =
     bind_res (dataobject_getEnum s item EMO_FIELD_FIELDVALUE) (\<lambda>itemvalue.
     bind_res (case itemvalue of None \<Rightarrow> Inr True | Some v \<Rightarrow> setwidget_fieldCompare s v fieldvalue) (\<lambda>hit.
     if hit then bind_res (dataobject_childIterator s item) (\<lambda>cs. Inr (case cs of [] \<Rightarrow> None | c # _ \<Rightarrow> Some c))
     else set_item s fieldvalue items))"

definition setwidget_activeItem :: "store \<Rightarrow> addr \<Rightarrow> addr option res" where
  "setwidget_activeItem s w =
     bind_res (widget_getDataObject s w) (\<lambda>dobj.
     bind_res (dataobject_getEnum s w EMO_FIELD_FIELDNAME) (\<lambda>fieldname.
     case fieldname of
       None \<Rightarrow> Inr None
     | Some fn \<Rightarrow>
         bind_res (get_fld s fn) (\<lambda>fl.
         case f_val fl of
           DOF_STRING str \<Rightarrow>
             (let fieldEnum = emo_field_to_int (Some (str_of str)) in
              bind_res
                (if fieldEnum \<noteq> EMO_FIELD_UNKNOWN_FIELD then dataobject_getEnum s dobj fieldEnum
                 else dataobject_getValueReal s dobj (str_of str)) (\<lambda>fieldvalue.
              case fieldvalue of
                None \<Rightarrow> Inr None
              | Some fv \<Rightarrow> bind_res (dataobject_childIterator s w) (set_item s fv)))
         | _ \<Rightarrow> Inr None)))"

section \<open>Scrolling\<close>

text \<open>The offset of a scrolled widget: the field found, or a new one with zero.\<close>

definition offset_field :: "addr \<Rightarrow> int \<Rightarrow> addr option \<Rightarrow> store \<Rightarrow> (addr \<times> int \<times> store) res" where
  "offset_field w key field s =
     (case field of
        Some f \<Rightarrow> bind_res (get_integer s f) (\<lambda>i. Inr (f, i, s))
      | None \<Rightarrow> bind_res (new_int_enum w key 0 s) (\<lambda>(f, s). Inr (f, 0, s)))"

definition scroll_offsets :: "addr \<Rightarrow> store \<Rightarrow> (addr \<times> int \<times> store) res" where
  "scroll_offsets w s =
     bind_res (dataobject_getEnumAsInt w EMO_FIELD_XOFFSET s) (\<lambda>(xtransField, s).
     bind_res (dataobject_getEnumAsInt w EMO_FIELD_YOFFSET s) (\<lambda>(ytransField, s).
     bind_res (offset_field w EMO_FIELD_XOFFSET xtransField s) (\<lambda>(_, _, s).
     offset_field w EMO_FIELD_YOFFSET ytransField s)))"

text \<open>The heights of the window and of its content.\<close>

definition scroll_heights :: "store \<Rightarrow> addr \<Rightarrow> (int \<times> int) res" where
  "scroll_heights s w =
     bind_res (get_obj s w) (\<lambda>d. bind_res (read_init (childBox d)) (\<lambda>(_, ch). Inr (r_height (box d), ch)))"

definition scrolled_focusNext :: "addr \<Rightarrow> store \<Rightarrow> (int \<times> store) res" where
  "scrolled_focusNext w s =
     bind_res (scroll_offsets w s) (\<lambda>(yf, ytrans, s).
     bind_res (scroll_heights s w) (\<lambda>(h, ch).
     if ch \<le> h then Inr (0, s)
     else if ytrans + h \<ge> ch then Inr (0, s)
     else
       (let ytrans = ytrans + h sdiv 3;
            ytrans = (if ytrans > ch - h then ch - h else ytrans)
        in bind_res (set_integer ytrans yf s) (\<lambda>s. Inr (1, s)))))"

definition scrolled_focusPrev :: "addr \<Rightarrow> store \<Rightarrow> (int \<times> store) res" where
  "scrolled_focusPrev w s =
     bind_res (scroll_offsets w s) (\<lambda>(yf, ytrans, s).
     bind_res (scroll_heights s w) (\<lambda>(h, ch).
     if ch \<le> h then Inr (0, s)
     else if ytrans \<le> 0 then Inr (0, s)
     else
       (let ytrans = ytrans - h sdiv 3;
            ytrans = (if ytrans < 0 then 0 else ytrans)
        in bind_res (set_integer ytrans yf s) (\<lambda>s. Inr (1, s)))))"

definition scrolled_forceVisible :: "addr \<Rightarrow> store \<Rightarrow> store res" where
  "scrolled_forceVisible w s =
     bind_res (widget_findStringFieldParent s w EMO_FIELD_TYPE (Builtin EMO_TYPE_SCROLLED)) (\<lambda>found.
     case found of
       None \<Rightarrow> Inr s
     | Some scrolled \<Rightarrow>
         bind_res (scroll_offsets scrolled s) (\<lambda>(yf, ytrans, s).
         bind_res (get_obj s scrolled) (\<lambda>sd.
         bind_res (get_obj s w) (\<lambda>wd.
         let b = box sd; wb = box wd in
         if ytrans + r_y b > r_y wb then
           bind_res (set_integer (r_y wb - r_y b) yf s) (dataobject_setIsModified True scrolled)
         else if ytrans + r_y b + r_height b < r_y wb + r_height wb then
           bind_res (set_integer (r_y wb + r_height wb - (r_y b + r_height b)) yf s) (dataobject_setIsModified True scrolled)
         else Inr s))))"

definition scrolled_autoscroll :: "addr \<Rightarrow> store \<Rightarrow> store res" where
  "scrolled_autoscroll w s =
     bind_res (dataobject_getEnum s w EMO_FIELD_AUTOSCROLL) (\<lambda>autoscroll.
     bind_res (dataobjectfield_isString s autoscroll ''bottom'') (\<lambda>bottom.
     if bottom then
       bind_res (scroll_heights s w) (\<lambda>(h, ch).
       bind_res (new_int_enum w EMO_FIELD_YOFFSET (if ch \<le> h then 0 else ch - h) s) (\<lambda>(_, s). Inr s))
     else if autoscroll \<noteq> None then bind_res (new_int_enum w EMO_FIELD_YOFFSET 0 s) (\<lambda>(_, s). Inr s)
     else Inr s))"

definition widget_setFocus :: "addr \<Rightarrow> int \<Rightarrow> store \<Rightarrow> store res" where
  "widget_setFocus w isFocus s =
     bind_res (set_int_attribute EMO_FIELD_HASFOCUS w isFocus s) (\<lambda>s.
     if isFocus \<noteq> 0 then scrolled_forceVisible w s else Inr s)"


section \<open>Attributes as values\<close>

text \<open>
  What the attributes of a widget are, without the fields that hold them. \<open>direct\<close> says that no attribute of the widget is taken from the
  object it shows. \<open>attr_step\<close> is the effect of setting one attribute: that attribute has the new value, all others of all widgets
  are as before, in the same fields, and so is everything else of the objects.
\<close>

definition entry :: "store \<Rightarrow> addr \<Rightarrow> int \<Rightarrow> addr option" where
  "entry s w key = (case objs s w of None \<Rightarrow> None | Some d \<Rightarrow> am_find key (d_enumData d))"

definition attr :: "store \<Rightarrow> addr \<Rightarrow> int \<Rightarrow> dof_val option" where
  "attr s w key =
     (case objs s w of
        None \<Rightarrow> None
      | Some d \<Rightarrow> (case am_find key (d_enumData d) of None \<Rightarrow> None | Some f \<Rightarrow> map_option f_val (flds s f)))"

definition direct :: "store \<Rightarrow> addr \<Rightarrow> bool" where
  "direct s w \<longleftrightarrow> (\<exists>d. objs s w = Some d \<and>
     (\<forall>k f. am_find k (d_enumData d) = Some f \<longrightarrow> (\<exists>fl. flds s f = Some fl \<and> and (f_flags fl) DOFF_ARRAYSOURCE = 0)))"

definition core :: "store \<Rightarrow> addr \<Rightarrow> DataObject option" where
  "core s w = map_option (\<lambda>d. d\<lparr>d_enumData := []\<rparr>) (objs s w)"

definition attr_frame :: "store \<Rightarrow> store \<Rightarrow> bool" where
  "attr_frame s s' \<longleftrightarrow> core s' = core s \<and> direct s' = direct s \<and> next_addr s \<le> next_addr s' \<and> globalDObjs s' = globalDObjs s \<and>
     apps s' = apps s \<and> appManager s' = appManager s \<and> renderman s' = renderman s"

definition attr_step :: "addr \<Rightarrow> int \<Rightarrow> dof_val \<Rightarrow> store \<Rightarrow> store \<Rightarrow> bool" where
  "attr_step w key v s s' \<longleftrightarrow> store_ok s' \<and> attr_frame s s' \<and> attr s' = (attr s)(w := (attr s w)(key \<mapsto> v)) \<and>
     (\<forall>u k. (u, k) \<noteq> (w, key) \<longrightarrow> entry s' u k = entry s u k \<and> (\<forall>f. entry s u k = Some f \<longrightarrow> flds s' f = flds s f))"

lemma attr_frame_refl [simp]: "attr_frame s s"
  by (simp add: attr_frame_def)

lemma attr_frame_trans: "attr_frame s s1 \<Longrightarrow> attr_frame s1 s2 \<Longrightarrow> attr_frame s s2"
  by (auto simp: attr_frame_def)

lemma core_kids: "core s' = core s \<Longrightarrow> kids_of s' = kids_of s \<and> parent_of s' = parent_of s"
proof -
  have "kids_of s a = map_option children (core s a)" "parent_of s a = map_option parent (core s a)" for s a
    by (simp_all add: kids_of_def parent_of_def core_def option.map_comp comp_def split: option.splits)
  then show "core s' = core s \<Longrightarrow> kids_of s' = kids_of s \<and> parent_of s' = parent_of s" by (simp add: fun_eq_iff)
qed

lemma getEnum_direct:
  assumes "direct s w" and "key \<noteq> -1"
  shows "\<exists>fld. dataobject_getEnum s w key = Inr fld \<and> (fld = None \<longleftrightarrow> attr s w key = None) \<and>
     (\<forall>f. fld = Some f \<longrightarrow> (\<exists>fl. flds s f = Some fl \<and> attr s w key = Some (f_val fl)))"
proof -
  obtain d where d: "objs s w = Some d"
    "\<And>k f. am_find k (d_enumData d) = Some f \<Longrightarrow> \<exists>fl. flds s f = Some fl \<and> and (f_flags fl) DOFF_ARRAYSOURCE = 0"
    using assms(1) by (auto simp: direct_def)
  show ?thesis
  proof (cases "am_find key (d_enumData d)")
    case None
    with d assms(2) show ?thesis by (simp add: dataobject_getEnum_def attr_def heap_defs)
  next
    case (Some f)
    with d(2) obtain fl where "flds s f = Some fl" "and (f_flags fl) DOFF_ARRAYSOURCE = 0" by blast
    with d(1) assms(2) Some show ?thesis
      by (auto simp: dataobject_getEnum_def attr_def heap_defs split: dof_val.splits)
  qed
qed

lemma getEnum_entry: "direct s w \<Longrightarrow> key \<noteq> -1 \<Longrightarrow> dataobject_getEnum s w key = Inr (entry s w key)"
  by (fastforce simp: direct_def dataobject_getEnum_def entry_def heap_defs split: option.split dof_val.split)

lemma enum_field_owned: "objs s u = Some e \<Longrightarrow> am_find k (d_enumData e) = Some f \<Longrightarrow> owns s u f"
  using am_find_set by (force simp: owns_def owned_fields_def)

lemma enum_field_unique:
  assumes ok: "store_ok s" and u: "objs s u = Some e" "am_find k (d_enumData e) = Some f"
    and w: "objs s w = Some d" "am_find key (d_enumData d) = Some f"
  shows "u = w \<and> k = key"
proof -
  have "u = w" using ok enum_field_owned [OF u] enum_field_owned [OF w] unfolding store_ok_def by blast
  moreover have "distinct (map snd (d_enumData d))" using store_okD(1) [OF ok w(1)] by (simp add: obj_ok_def owned_fields_def)
  then have "inj_on snd (set (d_enumData d))" by (simp add: distinct_map)
  moreover have "(k, f) \<in> set (d_enumData e)" "(key, f) \<in> set (d_enumData d)" using u w am_find_set by fast+
  ultimately show ?thesis using u(1) w(1) by (metis Pair_inject inj_onD option.inject snd_conv)
qed

lemma attr_put_fld:
  assumes ok: "store_ok s" and w: "objs s w = Some d" and f: "am_find key (d_enumData d) = Some f" and fl: "flds s f = Some fl"
  shows "attr_step w key v s (put_fld f (fl\<lparr>f_val := v\<rparr>) s)"
proof -
  let ?s = "put_fld f (fl\<lparr>f_val := v\<rparr>) s"
  have other: "flds ?s g = flds s g" if "objs s u = Some e" "am_find k (d_enumData e) = Some g" "(u, k) \<noteq> (w, key)" for u e k g
    using that enum_field_unique [OF ok that(1) _ w f] by (auto simp: put_fld_def)
  have "attr ?s u k = (if u = w \<and> k = key then Some v else attr s u k)" for u k
  proof (cases "u = w \<and> k = key")
    case True
    with w f show ?thesis by (simp add: attr_def put_fld_def)
  next
    case False
    with other [of u _ k] show ?thesis by (auto simp: attr_def put_fld_def split: option.splits)
  qed
  then have "attr ?s = (attr s)(w := (attr s w)(key \<mapsto> v))" by (auto simp: fun_eq_iff)
  moreover have "store_ok ?s" using ok fl unfolding store_ok_def owns_def put_fld_def by auto
  moreover have "direct ?s u = direct s u" for u
    using fl by (fastforce simp: direct_def put_fld_def split: if_splits)
  moreover have "attr_frame s ?s" using calculation(3) by (simp add: attr_frame_def core_def fun_eq_iff) (simp add: put_fld_def)
  moreover have "entry ?s u k = entry s u k" for u k by (simp add: entry_def put_fld_def)
  ultimately show ?thesis using other unfolding attr_step_def by (auto simp: entry_def split: option.splits)
qed

lemma attr_new_enum:
  assumes ok: "store_ok s" and w: "direct s w" and k: "key \<noteq> -1" "key \<noteq> 0" "key \<noteq> EMO_FIELD_TYPE"
  shows "\<exists>s'. new_int_enum w key v s = Inr (next_addr s, s') \<and> attr_step w key (DOF_INT (word_of_int v)) s s' \<and>
     entry s' w key = Some (next_addr s) \<and> flds s' (next_addr s) = Some \<lparr>f_val = DOF_INT (word_of_int v), f_flags = 0\<rparr>"
proof -
  let ?v = "next_addr s" and ?fl = "\<lparr>f_val = DOF_INT (word_of_int v), f_flags = 0\<rparr>"
  let ?s = "(put_fld ?v ?fl s)\<lparr>next_addr := Suc ?v\<rparr>"
  obtain d where d: "objs s w = Some d" and dir: "\<And>k f. am_find k (d_enumData d) = Some f \<Longrightarrow> \<exists>fl. flds s f = Some fl \<and> and (f_flags fl) DOFF_ARRAYSOURCE = 0"
    using w by (auto simp: direct_def)
  have new: "\<not> owns s u ?v" for u using ok unfolding store_ok_def by blast
  have ok': "store_ok ?s" using ok by (auto simp: store_ok_def owns_def put_fld_def less_Suc_eq)
  have un: "unowned ?s ?v" using new by (auto simp: unowned_def owns_def put_fld_def)
  define s' where "s' = ?s\<lparr>flds := (case am_find key (d_enumData d) of None \<Rightarrow> flds ?s | Some f \<Rightarrow> (flds ?s)(f := None))(?v \<mapsto> ?fl),
      objs := (objs s)(w \<mapsto> d\<lparr>d_enumData := set_entry key ?v (d_enumData d)\<rparr>)\<rparr>"
  have nv: "am_find k (d_enumData e) \<noteq> Some ?v" if "objs s u = Some e" for u e k
    using new enum_field_owned [OF that] by blast
  have run: "dataobject_setEnum w key ?v ?s = Inr s'"
    using setEnum_run [of ?s w d ?v ?fl key] d k nv [OF d] dir by (fastforce simp: s'_def put_fld_def intern_type_def)
  have st: "store_ok s'" using setEnum_ok [OF ok' _ un, of w d ?fl key] d k run by (auto simp: put_fld_def)
  have same: "flds s' f = flds s f" if "objs s u = Some e" "am_find k (d_enumData e) = Some f" "(u, k) \<noteq> (w, key)" for u e k f
    using that enum_field_unique [OF ok that(1,2) d] nv [OF that(1), of k] by (auto simp: s'_def put_fld_def split: option.splits)
  have o': "objs s' u = (if u = w then Some (d\<lparr>d_enumData := set_entry key ?v (d_enumData d)\<rparr>) else objs s u)" for u
    by (simp add: s'_def)
  have v': "flds s' ?v = Some ?fl" by (simp add: s'_def)
  have at: "attr s' u k = (if u = w \<and> k = key then Some (DOF_INT (word_of_int v)) else attr s u k)" for u k
  proof (cases "u = w \<and> k = key")
    case True
    then show ?thesis by (simp add: attr_def o' v')
  next
    case False
    with same [of u _ k] d show ?thesis by (auto simp: attr_def o' split: option.splits)
  qed
  have "attr s' = (attr s)(w := (attr s w)(key \<mapsto> DOF_INT (word_of_int v)))" using at by (auto simp: fun_eq_iff)
  moreover have "direct s' u = direct s u" for u
  proof (cases "u = w")
    case True
    then show ?thesis using d same [of w d] dir v' by (auto simp: direct_def o')
  next
    case False
    then show ?thesis using same [of u] by (auto simp: direct_def o')
  qed
  moreover have "core s' u = core s u" for u using d by (simp add: core_def o')
  moreover have "next_addr s' = Suc ?v" "globalDObjs s' = globalDObjs s" "apps s' = apps s" "appManager s' = appManager s" "renderman s' = renderman s"
    by (simp_all add: s'_def put_fld_def)
  ultimately have "attr_step w key (DOF_INT (word_of_int v)) s s'"
    using st same d unfolding attr_step_def attr_frame_def fun_eq_iff by (auto simp: entry_def o' split: option.splits)
  then show ?thesis using v' run by (simp add: new_int_enum_def dataobjectfield_int_def new_fld_def entry_def o')
qed


lemma set_int_attribute_ok:
  assumes "store_ok s" and "direct s w" and "key \<noteq> -1" "key \<noteq> 0" "key \<noteq> EMO_FIELD_TYPE"
    and "attr s w key = None \<or> (\<exists>i. attr s w key = Some (DOF_INT i))"
  shows "\<exists>s'. set_int_attribute key w v s = Inr s' \<and> attr_step w key (DOF_INT (word_of_int v)) s s'"
proof (cases "attr s w key")
  case None
  with getEnum_direct [OF assms(2,3)] attr_new_enum [OF assms(1-5), of v] show ?thesis by (auto simp: set_int_attribute_def)
next
  case (Some x)
  with assms(6) obtain i where i: "attr s w key = Some (DOF_INT i)" by auto
  then obtain d f fl where f: "objs s w = Some d" "am_find key (d_enumData d) = Some f" "flds s f = Some fl" "f_val fl = DOF_INT i"
    by (auto simp: attr_def split: option.splits)
  then have "dataobject_getEnum s w key = Inr (Some f)" using assms(2,3) by (auto simp: direct_def dataobject_getEnum_def heap_defs)
  with f attr_put_fld [OF assms(1) f(1-3)] show ?thesis by (auto simp: set_int_attribute_def set_integer_def get_fld_def)
qed

lemma hasFocus_run:
  assumes "direct s w" and "attr s w EMO_FIELD_HASFOCUS = None \<or> (\<exists>i. attr s w EMO_FIELD_HASFOCUS = Some (DOF_INT i))"
  shows "widget_hasFocus w s = Inr (case attr s w EMO_FIELD_HASFOCUS of Some (DOF_INT i) \<Rightarrow> sint i | _ \<Rightarrow> 0, s)"
  using getEnum_direct [OF assms(1), of EMO_FIELD_HASFOCUS] assms(2)
  by (auto simp: widget_hasFocus_def dataobject_getEnumAsInt_def field_to_int_def get_integer_def get_fld_def EMO_FIELD_HASFOCUS_def split: dof_val.splits)

section \<open>Scrolling through the content\<close>

text \<open>A scrolled widget whose offsets are absent or integers, with the height of its window and of its content.\<close>

definition int_attr :: "store \<Rightarrow> addr \<Rightarrow> int \<Rightarrow> bool" where
  "int_attr s w key \<longleftrightarrow> attr s w key = None \<or> (\<exists>i. attr s w key = Some (DOF_INT i))"

definition yoff :: "store \<Rightarrow> addr \<Rightarrow> int" where
  "yoff s w = (case attr s w EMO_FIELD_YOFFSET of Some (DOF_INT i) \<Rightarrow> sint i | _ \<Rightarrow> 0)"

definition scroll_ok :: "int \<Rightarrow> int \<Rightarrow> addr \<Rightarrow> store \<Rightarrow> bool" where
  "scroll_ok h ch w s \<longleftrightarrow> store_ok s \<and> direct s w \<and> int_attr s w EMO_FIELD_XOFFSET \<and> int_attr s w EMO_FIELD_YOFFSET \<and>
     (\<exists>d cw. core s w = Some d \<and> r_height (box d) = h \<and> childBox d = Some (cw, ch))"

lemma attr_entry: "attr s w key = (case entry s w key of None \<Rightarrow> None | Some f \<Rightarrow> map_option f_val (flds s f))"
  by (simp add: attr_def entry_def split: option.split)

lemma offset_field_run:
  assumes "store_ok s" and "direct s w" and "key \<noteq> -1" "key \<noteq> 0" "key \<noteq> EMO_FIELD_TYPE" and "int_attr s w key"
  shows "\<exists>f i s'. offset_field w key (entry s w key) s = Inr (f, sint i, s') \<and> attr s' w key = Some (DOF_INT i) \<and> entry s' w key = Some f \<and>
     (attr s w key = None \<longrightarrow> i = 0) \<and> (attr s w key \<noteq> None \<longrightarrow> attr s w key = Some (DOF_INT i)) \<and>
     (s' = s \<or> attr_step w key (DOF_INT 0) s s')"
proof (cases "entry s w key")
  case None
  obtain s' where s': "new_int_enum w key 0 s = Inr (next_addr s, s')" "attr_step w key (DOF_INT 0) s s'" "entry s' w key = Some (next_addr s)"
    using attr_new_enum [OF assms(1-5), of 0] by auto
  then show ?thesis using None by (auto simp: offset_field_def attr_step_def attr_entry [of s])
next
  case (Some f)
  then obtain i fl where "flds s f = Some fl" "f_val fl = DOF_INT i" 
    using assms(2,6) by (fastforce simp: attr_entry int_attr_def direct_def entry_def split: option.splits)
  with Some show ?thesis by (auto simp: offset_field_def get_integer_def get_fld_def attr_entry)
qed

lemma scroll_ok_step:
  assumes "scroll_ok h ch w s" and "attr_step w key (DOF_INT i) s s'"
  shows "scroll_ok h ch w s'"
  using assms by (auto simp: scroll_ok_def attr_step_def attr_frame_def int_attr_def)

lemma scroll_offsets_run:
  assumes ok: "scroll_ok h ch w s"
  shows "\<exists>f s'. scroll_offsets w s = Inr (f, yoff s w, s') \<and> scroll_ok h ch w s' \<and> yoff s' w = yoff s w \<and> entry s' w EMO_FIELD_YOFFSET = Some f"
proof -
  have key: "EMO_FIELD_XOFFSET \<noteq> -1" "EMO_FIELD_XOFFSET \<noteq> 0" "EMO_FIELD_XOFFSET \<noteq> EMO_FIELD_TYPE"
    "EMO_FIELD_YOFFSET \<noteq> -1" "EMO_FIELD_YOFFSET \<noteq> 0" "EMO_FIELD_YOFFSET \<noteq> EMO_FIELD_TYPE" "EMO_FIELD_YOFFSET \<noteq> EMO_FIELD_XOFFSET"
    by (simp_all add: EMO_FIELD_XOFFSET_def EMO_FIELD_YOFFSET_def EMO_FIELD_TYPE_def)
  have d: "store_ok s" "direct s w" "int_attr s w EMO_FIELD_XOFFSET" "int_attr s w EMO_FIELD_YOFFSET" using ok by (auto simp: scroll_ok_def)
  have as_int: "dataobject_getEnumAsInt w k s = Inr (entry s w k, s)" if "int_attr s w k" "k \<noteq> -1" for k
    using getEnum_entry [OF d(2) that(2)] getEnum_direct [OF d(2) that(2)] that(1)
    by (fastforce simp: dataobject_getEnumAsInt_def field_to_int_def get_fld_def int_attr_def split: option.split dof_val.split)
  obtain fx x s1 where x: "offset_field w EMO_FIELD_XOFFSET (entry s w EMO_FIELD_XOFFSET) s = Inr (fx, x, s1)"
    "s1 = s \<or> attr_step w EMO_FIELD_XOFFSET (DOF_INT 0) s s1"
    using offset_field_run [OF d(1,2) key(1-3) d(3)] by blast
  have s1: "scroll_ok h ch w s1" "attr s1 w EMO_FIELD_YOFFSET = attr s w EMO_FIELD_YOFFSET" "entry s1 w EMO_FIELD_YOFFSET = entry s w EMO_FIELD_YOFFSET"
    using x(2) ok scroll_ok_step [OF ok] key(7) by (auto simp: attr_step_def)
  have d1: "store_ok s1" "direct s1 w" "int_attr s1 w EMO_FIELD_YOFFSET" using s1(1) by (auto simp: scroll_ok_def)
  obtain fy i s2 where y: "offset_field w EMO_FIELD_YOFFSET (entry s w EMO_FIELD_YOFFSET) s1 = Inr (fy, sint i, s2)" "attr s2 w EMO_FIELD_YOFFSET = Some (DOF_INT i)"
    "entry s2 w EMO_FIELD_YOFFSET = Some fy" "attr s w EMO_FIELD_YOFFSET = None \<longrightarrow> i = 0"
    "attr s w EMO_FIELD_YOFFSET \<noteq> None \<longrightarrow> attr s w EMO_FIELD_YOFFSET = Some (DOF_INT i)"
    "s2 = s1 \<or> attr_step w EMO_FIELD_YOFFSET (DOF_INT 0) s1 s2"
    using offset_field_run [OF d1(1,2) key(4-6) d1(3)] s1(2,3) by auto
  have "sint i = yoff s w" using y(4,5) by (cases "attr s w EMO_FIELD_YOFFSET") (auto simp: yoff_def)
  moreover have "yoff s2 w = sint i" using y(2) by (simp add: yoff_def)
  moreover have "scroll_ok h ch w s2" using y(6) s1(1) scroll_ok_step [OF s1(1)] by auto
  ultimately show ?thesis using as_int d(3,4) key x(1) y(1,3) by (auto simp: scroll_offsets_def)
qed

lemma set_integer_step:
  assumes "store_ok s" and "direct s w" and "entry s w key = Some f" and "attr s w key = Some (DOF_INT i)"
  shows "\<exists>s'. set_integer v f s = Inr s' \<and> attr_step w key (DOF_INT (word_of_int v)) s s'"
proof -
  obtain d where d: "objs s w = Some d" "am_find key (d_enumData d) = Some f" using assms(3) by (auto simp: entry_def split: option.splits)
  obtain fl where fl: "flds s f = Some fl" "f_val fl = DOF_INT i" using assms(3,4) by (auto simp: attr_entry)
  show ?thesis using attr_put_fld [OF assms(1) d fl(1)] fl by (auto simp: set_integer_def get_fld_def)
qed

lemma sint_word: "- (2 ^ 31) \<le> v \<Longrightarrow> v < 2 ^ 31 \<Longrightarrow> sint (word_of_int v :: 32 word) = v"
  by (intro signed_take_bit_int_eq_self [THEN trans [OF sint_sbintrunc']]) auto

lemma set_offset_run:
  assumes ok: "scroll_ok h ch w s" and f: "entry s w EMO_FIELD_YOFFSET = Some f" and v: "- (2 ^ 31) \<le> v" "v < 2 ^ 31"
  shows "\<exists>s'. set_integer v f s = Inr s' \<and> scroll_ok h ch w s' \<and> yoff s' w = v"
proof -
  have d: "store_ok s" "direct s w" "int_attr s w EMO_FIELD_YOFFSET" using ok by (auto simp: scroll_ok_def)
  then obtain i where "attr s w EMO_FIELD_YOFFSET = Some (DOF_INT i)"
    using f by (fastforce simp: int_attr_def attr_entry direct_def entry_def split: option.splits)
  from set_integer_step [OF d(1,2) f this, of v] obtain s' where
    s': "set_integer v f s = Inr s'" "attr_step w EMO_FIELD_YOFFSET (DOF_INT (word_of_int v)) s s'" by blast
  then have "yoff s' w = v" using sint_word [OF v] by (simp add: yoff_def attr_step_def)
  then show ?thesis using scroll_ok_step [OF ok s'(2)] s'(1) by blast
qed

lemma scroll_heights_run: "scroll_ok h ch w s \<Longrightarrow> scroll_heights s w = Inr (h, ch)"
  by (auto simp: scroll_ok_def scroll_heights_def core_def get_obj_def read_init_def)

lemma scrolled_focusNext_run:
  assumes ok: "scroll_ok h ch w s" and b: "0 < h" "ch < 2 ^ 31" "0 \<le> yoff s w"
  shows "\<exists>s'. scrolled_focusNext w s = Inr (if yoff s w + h < ch then 1 else 0, s') \<and> scroll_ok h ch w s' \<and>
     yoff s' w = (if yoff s w + h < ch then min (yoff s w + h div 3) (ch - h) else yoff s w)"
proof -
  obtain f s1 where s1: "scroll_offsets w s = Inr (f, yoff s w, s1)" "scroll_ok h ch w s1" "yoff s1 w = yoff s w" "entry s1 w EMO_FIELD_YOFFSET = Some f"
    using scroll_offsets_run [OF ok] by blast
  have h3: "h sdiv 3 = h div 3" using b(1) by (simp add: signed_divide_int_def)
  show ?thesis
  proof (cases "yoff s w + h < ch")
    case True
    let ?v = "if yoff s w + h div 3 > ch - h then ch - h else yoff s w + h div 3"
    have "0 \<le> ?v \<and> ?v \<le> ch - h" using True b by auto
    then obtain s2 where "set_integer ?v f s1 = Inr s2" "scroll_ok h ch w s2" "yoff s2 w = ?v"
      using set_offset_run [OF s1(2,4), of ?v] b(1,2) by fastforce
    then show ?thesis using True s1 b h3 scroll_heights_run [OF s1(2)] by (auto simp: scrolled_focusNext_def Let_def)
  next
    case False
    then show ?thesis using s1 b scroll_heights_run [OF s1(2)] by (auto simp: scrolled_focusNext_def)
  qed
qed

lemma scrolled_focusPrev_run:
  assumes ok: "scroll_ok h ch w s" and b: "0 < h" "yoff s w < 2 ^ 31"
  shows "\<exists>s'. scrolled_focusPrev w s = Inr (if h < ch \<and> 0 < yoff s w then 1 else 0, s') \<and> scroll_ok h ch w s' \<and>
     yoff s' w = (if h < ch \<and> 0 < yoff s w then max (yoff s w - h div 3) 0 else yoff s w)"
proof -
  obtain f s1 where s1: "scroll_offsets w s = Inr (f, yoff s w, s1)" "scroll_ok h ch w s1" "yoff s1 w = yoff s w" "entry s1 w EMO_FIELD_YOFFSET = Some f"
    using scroll_offsets_run [OF ok] by blast
  have h3: "h sdiv 3 = h div 3" using b(1) by (simp add: signed_divide_int_def)
  show ?thesis
  proof (cases "h < ch \<and> 0 < yoff s w")
    case True
    let ?v = "if yoff s w - h div 3 < 0 then 0 else yoff s w - h div 3"
    have "0 \<le> ?v \<and> ?v \<le> yoff s w" using True b by auto
    then obtain s2 where "set_integer ?v f s1 = Inr s2" "scroll_ok h ch w s2" "yoff s2 w = ?v"
      using set_offset_run [OF s1(2,4), of ?v] b(2) by fastforce
    then show ?thesis using True s1 b h3 scroll_heights_run [OF s1(2)] by (auto simp: scrolled_focusPrev_def Let_def)
  next
    case False
    then show ?thesis using s1 b scroll_heights_run [OF s1(2)] by (auto simp: scrolled_focusPrev_def)
  qed
qed

text \<open>Pressing a key \<open>n\<close> times while the widget keeps scrolling.\<close>

fun scroll_times :: "(addr \<Rightarrow> store \<Rightarrow> (int \<times> store) res) \<Rightarrow> nat \<Rightarrow> addr \<Rightarrow> store \<Rightarrow> store res" where
  "scroll_times f 0 w s = Inr s"
| "scroll_times f (Suc n) w s = bind_res (f w s) (\<lambda>(r, s). if r = 1 then scroll_times f n w s else Inl Abort)"

lemma scroll_down_all:
  assumes "scroll_ok h ch w s" and "3 \<le> h" "ch < 2 ^ 31" "0 \<le> yoff s w" "yoff s w \<le> ch - h"
  shows "\<exists>n s'. int n \<le> ch - h - yoff s w \<and> scroll_times scrolled_focusNext n w s = Inr s' \<and> scroll_ok h ch w s' \<and> yoff s' w = ch - h"
  using assms
proof (induction "nat (ch - h - yoff s w)" arbitrary: s rule: less_induct)
  case less
  show ?case
  proof (cases "yoff s w = ch - h")
    case True
    then show ?thesis using less.prems by (intro exI [of _ 0]) auto
  next
    case False
    then have lt: "yoff s w + h < ch" using less.prems(5) by simp
    obtain s1 where s1: "scrolled_focusNext w s = Inr (1, s1)" "scroll_ok h ch w s1" "yoff s1 w = min (yoff s w + h div 3) (ch - h)"
      using scrolled_focusNext_run [OF less.prems(1)] less.prems(2-4) lt by auto
    have up: "yoff s w < yoff s1 w" "yoff s1 w \<le> ch - h" using s1(3) lt less.prems(2) by auto
    then obtain n s' where "int n \<le> ch - h - yoff s1 w" "scroll_times scrolled_focusNext n w s1 = Inr s'" "scroll_ok h ch w s'" "yoff s' w = ch - h"
      using less.hyps [of s1] s1(2) less.prems(2-4) by fastforce
    then show ?thesis using s1(1) up(1) by (intro exI [of _ "Suc n"]) auto
  qed
qed

lemma scroll_up_all:
  assumes "scroll_ok h ch w s" and "3 \<le> h" "h < ch" "0 \<le> yoff s w" "yoff s w < 2 ^ 31"
  shows "\<exists>n s'. int n \<le> yoff s w \<and> scroll_times scrolled_focusPrev n w s = Inr s' \<and> scroll_ok h ch w s' \<and> yoff s' w = 0"
  using assms
proof (induction "nat (yoff s w)" arbitrary: s rule: less_induct)
  case less
  show ?case
  proof (cases "yoff s w = 0")
    case True
    then show ?thesis using less.prems by (intro exI [of _ 0]) auto
  next
    case False
    obtain s1 where s1: "scrolled_focusPrev w s = Inr (1, s1)" "scroll_ok h ch w s1" "yoff s1 w = max (yoff s w - h div 3) 0"
      using scrolled_focusPrev_run [OF less.prems(1)] less.prems(2-5) False by auto
    have dn: "yoff s1 w < yoff s w" "0 \<le> yoff s1 w" using s1(3) False less.prems(2,4) by auto
    then obtain n s' where "int n \<le> yoff s1 w" "scroll_times scrolled_focusPrev n w s1 = Inr s'" "scroll_ok h ch w s'" "yoff s' w = 0"
      using less.hyps [of s1] s1(2) less.prems(2-5) by fastforce
    then show ?thesis using s1(1) dn(1) by (intro exI [of _ "Suc n"]) auto
  qed
qed

definition scroll_store :: "int \<Rightarrow> store" where
  "scroll_store h = demo_store\<lparr>objs := [0 \<mapsto> new_obj\<lparr>box := \<lparr>r_x = 0, r_y = 0, r_width = 20, r_height = h\<rparr>, childBox := Some (20, 100)\<rparr>]\<rparr>"

lemma scroll_store_ok: "scroll_ok h 100 0 (scroll_store h)" "yoff (scroll_store h) 0 = 0"
  by (auto simp: scroll_ok_def scroll_store_def store_ok_def owns_def obj_ok_def owned_fields_def demo_store_def new_obj_def direct_def am_find_def
      int_attr_def attr_def core_def yoff_def split: if_splits)

text \<open>
  C38: A scrolled widget whose window is at least three pixels high shows all of its content: after finitely many presses of the key for the next widget, each
  of which scrolls, the window is exactly at the lower end of the content, and the next press leaves the offset alone and lets the focus go on;
  from there finitely many presses of the key for the previous widget bring the window back to the upper end, where the next press lets the focus go on.
\<close>

theorem scrolled_reaches_both_ends:
  assumes "scroll_ok h ch w s" and "3 \<le> h" and "h < ch" and "ch < 2 ^ 31" and "0 \<le> yoff s w" and "yoff s w \<le> ch - h"
  shows "\<exists>n s1 s2 m s3 s4. scroll_times scrolled_focusNext n w s = Inr s1 \<and> yoff s1 w + h = ch \<and>
     scrolled_focusNext w s1 = Inr (0, s2) \<and> yoff s2 w = yoff s1 w \<and>
     scroll_times scrolled_focusPrev m w s2 = Inr s3 \<and> yoff s3 w = 0 \<and> scrolled_focusPrev w s3 = Inr (0, s4) \<and> yoff s4 w = 0"
proof -
  obtain n s1 where s1: "scroll_times scrolled_focusNext n w s = Inr s1" "scroll_ok h ch w s1" "yoff s1 w = ch - h"
    using scroll_down_all [OF assms(1,2,4-6)] by blast
  obtain s2 where s2: "scrolled_focusNext w s1 = Inr (0, s2)" "scroll_ok h ch w s2" "yoff s2 w = yoff s1 w"
    using scrolled_focusNext_run [OF s1(2)] assms s1(3) by auto
  obtain m s3 where s3: "scroll_times scrolled_focusPrev m w s2 = Inr s3" "scroll_ok h ch w s3" "yoff s3 w = 0"
    using scroll_up_all [OF s2(2) assms(2,3)] assms s2(3) s1(3) by auto
  obtain s4 where "scrolled_focusPrev w s3 = Inr (0, s4)" "yoff s4 w = 0" using scrolled_focusPrev_run [OF s3(2)] assms(2) s3(3) by auto
  with s1 s2 s3 show ?thesis by (metis diff_add_cancel)
qed

theorem scrolled_reaches_both_ends_witness:
  "\<exists>n s1. scroll_times scrolled_focusNext n 0 (scroll_store 30) = Inr s1 \<and> yoff s1 0 = 70"
  using scrolled_reaches_both_ends [OF scroll_store_ok(1), of 30] scroll_store_ok(2) by fastforce

text \<open>
  A scrolled widget whose window is one or two pixels high keeps the focus without scrolling: at an offset from which content is left below,
  the key for the next widget reports that it scrolled but leaves the offset as it is, whatever the number of presses.
\<close>

theorem scrolled_low_window_stuck:
  assumes "scroll_ok h ch w s" and "h = 1 \<or> h = 2" and "ch < 2 ^ 31" and "0 \<le> yoff s w" and "yoff s w + h < ch"
  shows "\<exists>s'. scroll_times scrolled_focusNext n w s = Inr s' \<and> yoff s' w = yoff s w"
  using assms
proof (induction n arbitrary: s)
  case (Suc n)
  obtain s1 where s1: "scrolled_focusNext w s = Inr (1, s1)" "scroll_ok h ch w s1" "yoff s1 w = yoff s w"
    using scrolled_focusNext_run [OF Suc.prems(1)] Suc.prems by fastforce
  then show ?case using Suc.IH [OF s1(2)] Suc.prems by auto
qed auto


theorem scrolled_low_window_stuck_witness: "\<exists>s'. scroll_times scrolled_focusNext 9 0 (scroll_store 2) = Inr s' \<and> yoff s' 0 = 0"
  using scrolled_low_window_stuck [OF scroll_store_ok(1), of 2 9] scroll_store_ok(2) by simp

end
