(* ===== verification/Widget_Focus.thy ===== *)
theory Widget_Focus
  imports Widget_Base
begin

text \<open>
  Moving the focus: the functions \<open>widget_focus*\<close> of \<open>Widget.c\<close>.

  All walks descend in the same way: a frame stands for the screen of the application it shows, a reference for the object it shows, a stack for
  the child it has in front, and other widgets for their children (\<open>focus_children\<close>, backwards \<open>focus_rchildren\<close>). A walk ends at the
  first hit. The functions that search for the focused widget differ in what they do to it.

  The recursion depth is bounded by the number of addresses: while nothing is found the walks change no field that decides where they go, so a
  deeper recursion has come to a widget that is still being visited. \<open>widget_focusNextR\<close> may pass a widget twice, before and after the
  focus was taken away.

  On trees of plain widgets the focus goes round the widgets that can have it in depth-first order: \<open>focus_succ\<close> and \<open>focus_pred\<close> are the
  specification.
\<close>

section \<open>Where the walks descend\<close>

text \<open>The screen that a frame shows. Walking backwards, the application is not checked for NULL.\<close>

definition frame_screen :: "bool \<Rightarrow> store \<Rightarrow> addr \<Rightarrow> addr list res" where
  "frame_screen checked s w =
     bind_res (widget_getDataObject s w) (\<lambda>child.
     if child = w then Inr []
     else (case manager_applicationForDataObject s child of
             None \<Rightarrow> if checked then Inr [] else Inl Abort
           | Some app \<Rightarrow> Inr (case app_screen app of None \<Rightarrow> [] | Some scr \<Rightarrow> [scr])))"

definition reference_target :: "store \<Rightarrow> addr \<Rightarrow> addr list res" where
  "reference_target s w =
     bind_res (widget_getDataObject s w) (\<lambda>child. Inr (if child = w then [] else [child]))"

definition descend :: "bool \<Rightarrow> (store \<Rightarrow> addr \<Rightarrow> addr list res) \<Rightarrow> addr option \<Rightarrow> addr \<Rightarrow> store \<Rightarrow> (addr list \<times> store) res" where
  "descend checked iterator type w s =
     bind_res (EMO_DOF_IS_TYPE s type EMO_TYPE_FRAME) (\<lambda>isframe.
     if isframe then bind_res (frame_screen checked s w) (\<lambda>cs. Inr (cs, s))
     else
       bind_res (EMO_DOF_IS_TYPE s type EMO_TYPE_REFERENCE) (\<lambda>isref.
       if isref then bind_res (reference_target s w) (\<lambda>cs. Inr (cs, s))
       else
         bind_res (EMO_DOF_IS_TYPE s type EMO_TYPE_STACK) (\<lambda>isstack.
         bind_res (if isstack then stackwidget_focusStackObject w s else Inr (None, s)) (\<lambda>(front, s).
         case front of
           Some child \<Rightarrow> Inr ([child], s)
         | None \<Rightarrow> bind_res (iterator s w) (\<lambda>cs. Inr (cs, s))))))"

definition focus_children :: "addr \<Rightarrow> store \<Rightarrow> (addr list \<times> store) res" where
  "focus_children w s =
     bind_res (dataobject_getEnum s w EMO_FIELD_TYPE) (\<lambda>type. descend True dataobject_childIterator type w s)"

text \<open>\<open>widget_focusPrevD\<close> skips the children of a widget without a type.\<close>

definition focus_rchildren :: "bool \<Rightarrow> addr \<Rightarrow> store \<Rightarrow> (addr list \<times> store) res" where
  "focus_rchildren skip w s =
     bind_res (dataobject_getEnum s w EMO_FIELD_TYPE) (\<lambda>type.
     if skip \<and> type = None then Inr ([], s) else descend False dataobject_rchildIterator type w s)"

fun until_hit :: "(addr \<Rightarrow> 's \<Rightarrow> ('r option \<times> 's) res) \<Rightarrow> addr list \<Rightarrow> 's \<Rightarrow> ('r option \<times> 's) res" where
  "until_hit f [] s = Inr (None, s)"
| "until_hit f (c # cs) s =
     bind_res (f c s) (\<lambda>(r, s). case r of Some x \<Rightarrow> Inr (Some x, s) | None \<Rightarrow> until_hit f cs s)"

section \<open>The focused widget\<close>

text \<open>\<open>found\<close> is what is done to the focused widget.\<close>

fun find_focus :: "nat \<Rightarrow> (addr \<Rightarrow> store \<Rightarrow> store res) \<Rightarrow> addr \<Rightarrow> store \<Rightarrow> (addr option \<times> store) res" where
  "find_focus 0 found w s = Inl Diverge"
| "find_focus (Suc n) found w s =
     bind_res (widget_hasFocus w s) (\<lambda>(hasFocus, s).
     if hasFocus \<noteq> 0 then bind_res (found w s) (\<lambda>s. Inr (Some w, s))
     else bind_res (focus_children w s) (\<lambda>(cs, s). until_hit (find_focus n found) cs s))"

definition widget_focusNoneR :: "addr \<Rightarrow> store \<Rightarrow> (addr option \<times> store) res" where
  "widget_focusNoneR w s = find_focus (Suc (next_addr s)) (\<lambda>w. widget_setFocus w 0) w s"

definition widget_focusWhichOneNF :: "addr \<Rightarrow> store \<Rightarrow> (addr option \<times> store) res" where
  "widget_focusWhichOneNF w s = find_focus (Suc (next_addr s)) (\<lambda>_. Inr) w s"

definition widget_focusWhichOne :: "addr \<Rightarrow> store \<Rightarrow> (addr option \<times> store) res" where
  "widget_focusWhichOne w s = find_focus (Suc (next_addr s)) (\<lambda>w. widget_setFocus w 0) w s"

definition widget_focusNone :: "addr \<Rightarrow> bool \<Rightarrow> store \<Rightarrow> store res" where
  "widget_focusNone w doRender s =
     bind_res (widget_focusNoneR w s) (\<lambda>(dw, s).
     case dw of None \<Rightarrow> Inr s | Some d \<Rightarrow> if doRender then dataobject_setIsModified True d s else Inr s)"

definition widget_forceFocus :: "addr \<Rightarrow> addr \<Rightarrow> store \<Rightarrow> store res" where
  "widget_forceFocus tree node s =
     bind_res (widget_focusNone tree True s) (\<lambda>s.
     bind_res (widget_setFocus node 1 s) (dataobject_setIsModified True node))"

section \<open>The next widget\<close>

text \<open>The walks forward collect the widgets to redraw. Result 1 or 2 is \<open>Some ()\<close>, 0 is \<open>None\<close>.\<close>

record focus_walk =
  fw_store :: store
  redraw :: "addr list"
  alreadyUnset :: bool
  alreadySet :: bool

definition on_walk :: "(store \<Rightarrow> ('a \<times> store) res) \<Rightarrow> focus_walk \<Rightarrow> ('a \<times> focus_walk) res" where
  "on_walk f k = bind_res (f (fw_store k)) (\<lambda>(x, s). Inr (x, k\<lparr>fw_store := s\<rparr>))"

definition take_focus :: "addr \<Rightarrow> int \<Rightarrow> focus_walk \<Rightarrow> focus_walk res" where
  "take_focus w v k = bind_res (widget_setFocus w v (fw_store k)) (\<lambda>s. Inr (k\<lparr>fw_store := s, redraw := redraw k @ [w]\<rparr>))"

fun focusFirst_loop :: "nat \<Rightarrow> addr \<Rightarrow> focus_walk \<Rightarrow> (unit option \<times> focus_walk) res" where
  "focusFirst_loop 0 w k = Inl Diverge"
| "focusFirst_loop (Suc n) w k =
     bind_res (widget_canFocus (fw_store k) w) (\<lambda>can.
     if can \<noteq> 0 then bind_res (take_focus w 1 k) (\<lambda>k. Inr (Some (), k))
     else bind_res (on_walk (focus_children w) k) (\<lambda>(cs, k). until_hit (focusFirst_loop n) cs k))"

definition widget_focusFirst :: "addr \<Rightarrow> focus_walk \<Rightarrow> (unit option \<times> focus_walk) res" where
  "widget_focusFirst w k = focusFirst_loop (Suc (next_addr (fw_store k))) w k"

fun focusNextR_loop :: "nat \<Rightarrow> addr \<Rightarrow> focus_walk \<Rightarrow> (unit option \<times> focus_walk) res" where
  "focusNextR_loop 0 w k = Inl Diverge"
| "focusNextR_loop (Suc n) w k =
     bind_res (dataobject_getEnum (fw_store k) w EMO_FIELD_TYPE) (\<lambda>type.
     bind_res (if alreadyUnset k then Inr (0, k) else on_walk (widget_hasFocus w) k) (\<lambda>(hasFocus, k).
     bind_res
       (if hasFocus \<noteq> 0 then
          bind_res (EMO_DOF_IS_TYPE (fw_store k) type EMO_TYPE_SCROLLED) (\<lambda>scr.
          if scr then on_walk (scrolled_focusNext w) k else Inr (0, k))
        else Inr (0, k)) (\<lambda>(scrolled, k).
     if scrolled = 1 then Inr (Some (), k\<lparr>redraw := redraw k @ [w], alreadyUnset := True, alreadySet := True\<rparr>)
     else
       bind_res
         (if hasFocus \<noteq> 0 then bind_res (take_focus w 0 k) (\<lambda>k. Inr (k\<lparr>alreadyUnset := True\<rparr>)) else Inr k) (\<lambda>k.
       let thisUnset = (hasFocus \<noteq> 0) in
       bind_res (if \<not> thisUnset \<and> alreadyUnset k then widget_canFocus (fw_store k) w else Inr 0) (\<lambda>can.
       if can \<noteq> 0 then bind_res (take_focus w 1 k) (\<lambda>k. Inr (Some (), k\<lparr>alreadySet := True\<rparr>))
       else bind_res (on_walk (descend True dataobject_childIterator type w) k) (\<lambda>(cs, k). until_hit (focusNextR_loop n) cs k))))))"

definition widget_focusNextR :: "addr \<Rightarrow> focus_walk \<Rightarrow> (unit option \<times> focus_walk) res" where
  "widget_focusNextR w k = focusNextR_loop (Suc (2 * next_addr (fw_store k))) w k"

definition widget_focusNext :: "addr \<Rightarrow> store \<Rightarrow> store res" where
  "widget_focusNext tree s =
     bind_res (widget_focusNextR tree \<lparr>fw_store = s, redraw = [], alreadyUnset = False, alreadySet = False\<rparr>) (\<lambda>(r, k).
     bind_res (case r of Some _ \<Rightarrow> Inr (r, k) | None \<Rightarrow> widget_focusFirst tree k) (\<lambda>(_, k).
     each (dataobject_setIsModified True) (redraw k) (fw_store k)))"

section \<open>The previous widget\<close>

text \<open>The body that \<open>widget_focusPrevD\<close> and \<open>widget_focusLast\<close> share.\<close>

fun focus_deepest :: "nat \<Rightarrow> bool \<Rightarrow> addr \<Rightarrow> store \<Rightarrow> (addr option \<times> store) res" where
  "focus_deepest 0 skip w s = Inl Diverge"
| "focus_deepest (Suc n) skip w s =
     bind_res (focus_rchildren skip w s) (\<lambda>(cs, s).
     bind_res (until_hit (focus_deepest n skip) cs s) (\<lambda>(iw, s).
     case iw of
       Some x \<Rightarrow> Inr (Some x, s)
     | None \<Rightarrow>
         bind_res (widget_canFocus s w) (\<lambda>can.
         if can \<noteq> 0 then bind_res (widget_setFocus w 1 s) (\<lambda>s. Inr (Some w, s)) else Inr (None, s))))"

definition widget_focusPrevD :: "addr \<Rightarrow> store \<Rightarrow> (addr option \<times> store) res" where
  "widget_focusPrevD w s = focus_deepest (Suc (next_addr s)) True w s"

definition widget_focusLast :: "addr \<Rightarrow> store \<Rightarrow> (addr option \<times> store) res" where
  "widget_focusLast w s = focus_deepest (Suc (next_addr s)) False w s"

text \<open>The previous siblings, nearest first.\<close>

definition focus_sibling :: "addr \<Rightarrow> store \<Rightarrow> (addr option \<times> store) res" where
  "focus_sibling cw s =
     bind_res (widget_focusPrevD cw s) (\<lambda>(iw, s).
     case iw of
       Some x \<Rightarrow> Inr (Some x, s)
     | None \<Rightarrow>
         bind_res (widget_canFocus s cw) (\<lambda>can.
         if can \<noteq> 0 then bind_res (widget_setFocus cw 1 s) (\<lambda>s. Inr (Some cw, s)) else Inr (None, s)))"

fun focusPrevR_loop :: "nat \<Rightarrow> addr \<Rightarrow> store \<Rightarrow> (addr option \<times> store) res" where
  "focusPrevR_loop 0 old s = Inl Diverge"
| "focusPrevR_loop (Suc n) old s =
     bind_res (get_obj s old) (\<lambda>d.
     case parent d of
       None \<Rightarrow> Inr (None, s)
     | Some w \<Rightarrow>
         bind_res (dataobject_rchildIterator s w) (\<lambda>cs.
         case dropWhile (\<lambda>cw. cw \<noteq> old) cs of
           [] \<Rightarrow> focusPrevR_loop n w s
         | _ # rest \<Rightarrow>
             bind_res (until_hit focus_sibling rest s) (\<lambda>(r, s).
             case r of
               Some x \<Rightarrow> Inr (Some x, s)
             | None \<Rightarrow>
                 bind_res (widget_canFocus s w) (\<lambda>can.
                 if can \<noteq> 0 then bind_res (widget_setFocus w 1 s) (\<lambda>s. Inr (Some w, s)) else focusPrevR_loop n w s))))"

definition widget_focusPrevR :: "addr \<Rightarrow> store \<Rightarrow> (addr option \<times> store) res" where
  "widget_focusPrevR old s = focusPrevR_loop (Suc (next_addr s)) old s"

definition mark_modified :: "addr option \<Rightarrow> store \<Rightarrow> store res" where
  "mark_modified w s = (case w of None \<Rightarrow> Inr s | Some a \<Rightarrow> dataobject_setIsModified True a s)"

definition widget_focusPrev :: "addr \<Rightarrow> store \<Rightarrow> store res" where
  "widget_focusPrev tree s =
     bind_res (widget_focusWhichOne tree s) (\<lambda>(oldW, s).
     case oldW of
       None \<Rightarrow> bind_res (widget_focusLast tree s) (\<lambda>(newW, s). mark_modified newW s)
     | Some old \<Rightarrow>
         bind_res (dataobject_getEnum s old EMO_FIELD_TYPE) (\<lambda>type.
         bind_res (EMO_DOF_IS_TYPE s type EMO_TYPE_SCROLLED) (\<lambda>scr.
         bind_res (if scr then scrolled_focusPrev old s else Inr (0, s)) (\<lambda>(scrolled, s).
         if scrolled = 1 then bind_res (widget_setFocus old 1 s) (dataobject_setIsModified True old)
         else
           bind_res (widget_setFocus old 0 s) (\<lambda>s.
           bind_res (widget_focusPrevR old s) (\<lambda>(newW, s).
           bind_res (case newW of Some x \<Rightarrow> Inr (newW, s) | None \<Rightarrow> widget_focusLast tree s) (\<lambda>(newW, s).
           bind_res (dataobject_setIsModified True old s) (mark_modified newW))))))))"

section \<open>Plain widgets\<close>

text \<open>
  A plain widget has its own type, none of those that the walks treat specially, and nobody shows it. \<open>calm\<close> is what moving the focus may
  change: the focus marks, the modification marks and the render queue.
\<close>

definition can :: "store \<Rightarrow> addr \<Rightarrow> bool" where
  "can s w \<longleftrightarrow> (case attr s w EMO_FIELD_CANFOCUS of
     Some (DOF_STRING str) \<Rightarrow> str_of str = ''true'' \<or> str_of str = ''1'' | Some (DOF_INT i) \<Rightarrow> i \<noteq> 0 | Some (DOF_UINT i) \<Rightarrow> i \<noteq> 0 | _ \<Rightarrow> False)"

definition focused :: "store \<Rightarrow> addr \<Rightarrow> bool" where
  "focused s w \<longleftrightarrow> (case attr s w EMO_FIELD_HASFOCUS of Some (DOF_INT i) \<Rightarrow> i \<noteq> 0 | _ \<Rightarrow> False)"

definition plain :: "store \<Rightarrow> addr \<Rightarrow> bool" where
  "plain s w \<longleftrightarrow> direct s w \<and>
     (\<exists>p. attr s w EMO_FIELD_TYPE = Some (DOF_STRING (Builtin p)) \<and>
        p \<notin> {EMO_TYPE_FRAME, EMO_TYPE_REFERENCE, EMO_TYPE_ARRAY, EMO_TYPE_STACK, EMO_TYPE_SCROLLED}) \<and>
     (attr s w EMO_FIELD_HASFOCUS = None \<or> (\<exists>i. attr s w EMO_FIELD_HASFOCUS = Some (DOF_INT i))) \<and>
     (\<exists>d. objs s w = Some d \<and> state d = DOS_OK \<and> referenced d = [] \<and> arrayChildren d = [])"

definition plain_tree :: "store \<Rightarrow> otree \<Rightarrow> bool" where
  "plain_tree s t \<longleftrightarrow> store_ok s \<and> rm_ok (renderman s) \<and> is_tree s t \<and> (\<forall>w \<in> set (preorder t). plain s w)"

definition still :: "store \<Rightarrow> addr \<Rightarrow> DataObject option" where
  "still s w = map_option (\<lambda>d. d\<lparr>d_enumData := [], flags1 := 0\<rparr>) (objs s w)"

definition calm :: "store \<Rightarrow> store \<Rightarrow> bool" where
  "calm s s' \<longleftrightarrow> store_ok s' \<and> rm_ok (renderman s') \<and> next_addr s \<le> next_addr s' \<and> still s' = still s \<and> direct s' = direct s \<and>
     apps s' = apps s \<and> appManager s' = appManager s \<and>
     (\<forall>w k. k \<noteq> EMO_FIELD_HASFOCUS \<longrightarrow> attr s' w k = attr s w k) \<and>
     (\<forall>w. attr s' w EMO_FIELD_HASFOCUS = attr s w EMO_FIELD_HASFOCUS \<or> (\<exists>i. attr s' w EMO_FIELD_HASFOCUS = Some (DOF_INT i)))"

lemma calm_trans: "calm s s1 \<Longrightarrow> calm s1 s2 \<Longrightarrow> calm s s2"
  unfolding calm_def by (metis order_trans)

lemma calm_refl: "plain_tree s t \<Longrightarrow> calm s s"
  by (simp add: calm_def plain_tree_def)

lemma calm_can: "calm s s' \<Longrightarrow> can s' = can s"
  by (simp add: calm_def can_def fun_eq_iff EMO_FIELD_CANFOCUS_def EMO_FIELD_HASFOCUS_def)

lemma still_views: "still s' = still s \<Longrightarrow> kids_of s' = kids_of s \<and> parent_of s' = parent_of s \<and>
   (\<forall>w d. objs s w = Some d \<longrightarrow> (\<exists>d'. objs s' w = Some d' \<and> state d' = state d \<and> referenced d' = referenced d \<and> arrayChildren d' = arrayChildren d))"
proof -
  assume a: "still s' = still s"
  have v: "kids_of s w = map_option children (still s w)" "parent_of s w = map_option parent (still s w)"
    "map_option (\<lambda>d. (state d, referenced d, arrayChildren d)) (objs s w) = map_option (\<lambda>d. (state d, referenced d, arrayChildren d)) (still s w)" for s w
    by (simp_all add: kids_of_def parent_of_def still_def option.map_comp comp_def)
  have "map_option (\<lambda>d. (state d, referenced d, arrayChildren d)) (objs s' w) = map_option (\<lambda>d. (state d, referenced d, arrayChildren d)) (objs s w)" for w
    by (simp only: v(3) a)
  from this [THEN sym] have "\<exists>d'. objs s' w = Some d' \<and> state d' = state d \<and> referenced d' = referenced d \<and> arrayChildren d' = arrayChildren d"
    if "objs s w = Some d" for w d
    using that by (cases "objs s' w") (auto dest!: spec [of _ w] simp: all_simps dest: meta_spec [of _ w])
  moreover have "kids_of s' = kids_of s" "parent_of s' = parent_of s" using v(1,2) a by (auto simp: fun_eq_iff)
  ultimately show ?thesis by simp
qed

lemma calm_plain: "calm s s' \<Longrightarrow> plain s w \<Longrightarrow> plain s' w"
proof -
  assume q: "calm s s'" and p: "plain s w"
  have "\<exists>d'. objs s' w = Some d' \<and> state d' = DOS_OK \<and> referenced d' = [] \<and> arrayChildren d' = []"
    using p q still_views [of s' s] unfolding plain_def calm_def by metis
  moreover have "attr s' w EMO_FIELD_TYPE = attr s w EMO_FIELD_TYPE"
    using q by (simp add: calm_def EMO_FIELD_TYPE_def EMO_FIELD_HASFOCUS_def)
  moreover have "attr s' w EMO_FIELD_HASFOCUS = None \<or> (\<exists>i. attr s' w EMO_FIELD_HASFOCUS = Some (DOF_INT i))"
    using p q unfolding plain_def calm_def by metis
  moreover have "direct s' w = direct s w" using q by (simp add: calm_def)
  ultimately show ?thesis using p unfolding plain_def by auto
qed

lemma calm_tree: "calm s s' \<Longrightarrow> plain_tree s t \<Longrightarrow> plain_tree s' t"
proof -
  assume q: "calm s s'" and t: "plain_tree s t"
  have v: "kids_of s' = kids_of s" "parent_of s' = parent_of s" using q still_views [of s' s] by (auto simp: calm_def)
  have "tree_links s' t" using t v tree_links_cong [of s t s'] by (auto simp: plain_tree_def is_tree_alt)
  moreover have "next_addr s \<le> next_addr s'" using q by (simp add: calm_def)
  ultimately have "is_tree s' t" using t v by (auto simp: plain_tree_def is_tree_alt)
  with q t calm_plain show ?thesis by (auto simp: plain_tree_def calm_def)
qed

section \<open>Single steps on plain widgets\<close>

lemma plain_type:
  assumes "plain s w"
  shows "\<exists>f. dataobject_getEnum s w EMO_FIELD_TYPE = Inr (Some f) \<and>
     (\<forall>p \<in> {EMO_TYPE_FRAME, EMO_TYPE_REFERENCE, EMO_TYPE_ARRAY, EMO_TYPE_STACK, EMO_TYPE_SCROLLED}. EMO_DOF_IS_TYPE s (Some f) p = Inr False)"
proof -
  obtain q where q: "direct s w" "attr s w EMO_FIELD_TYPE = Some (DOF_STRING (Builtin q))"
    "q \<notin> {EMO_TYPE_FRAME, EMO_TYPE_REFERENCE, EMO_TYPE_ARRAY, EMO_TYPE_STACK, EMO_TYPE_SCROLLED}"
    using assms by (auto simp: plain_def)
  obtain fld where fld: "dataobject_getEnum s w EMO_FIELD_TYPE = Inr fld" "fld \<noteq> None"
    "\<And>f. fld = Some f \<Longrightarrow> \<exists>fl. flds s f = Some fl \<and> attr s w EMO_FIELD_TYPE = Some (f_val fl)"
    using getEnum_direct [OF q(1), of EMO_FIELD_TYPE] q(2) by (auto simp: EMO_FIELD_TYPE_def)
  then obtain f fl where "fld = Some f" "flds s f = Some fl" "f_val fl = DOF_STRING (Builtin q)" using q(2) by fastforce
  then show ?thesis using fld(1) q(3) by (auto simp: EMO_DOF_IS_TYPE_def get_fld_def)
qed

lemma plain_canFocus: "plain s w \<Longrightarrow> \<exists>c. widget_canFocus s w = Inr c \<and> (c \<noteq> 0 \<longleftrightarrow> can s w)"
proof -
  assume p: "plain s w"
  then obtain fld where fld: "dataobject_getEnum s w EMO_FIELD_CANFOCUS = Inr fld" "fld = None \<longleftrightarrow> attr s w EMO_FIELD_CANFOCUS = None"
    "\<And>f. fld = Some f \<Longrightarrow> \<exists>fl. flds s f = Some fl \<and> attr s w EMO_FIELD_CANFOCUS = Some (f_val fl)"
    using getEnum_direct [of s w EMO_FIELD_CANFOCUS] by (auto simp: plain_def EMO_FIELD_CANFOCUS_def)
  show ?thesis
  proof (cases fld)
    case (Some f)
    then obtain fl where "flds s f = Some fl" "attr s w EMO_FIELD_CANFOCUS = Some (f_val fl)" using fld(3) by auto
    then show ?thesis using fld(1) Some
      by (cases "f_val fl") (auto simp: widget_canFocus_def dataobjectfield_isTrue_def can_def get_fld_def signed_eq_0_iff)
  qed (use fld in \<open>simp add: widget_canFocus_def dataobjectfield_isTrue_def can_def\<close>)
qed

lemma plain_hasFocus: "plain s w \<Longrightarrow> \<exists>c. widget_hasFocus w s = Inr (c, s) \<and> (c \<noteq> 0 \<longleftrightarrow> focused s w)"
  using hasFocus_run [of s w] by (auto simp: plain_def focused_def signed_eq_0_iff)

lemma plain_descend:
  assumes "plain s w" and "dataobject_getEnum s w EMO_FIELD_TYPE = Inr f" and "iterator s w = Inr cs"
  shows "descend checked iterator f w s = Inr (cs, s)"
  using plain_type [OF assms(1)] assms(2,3) by (auto simp: descend_def)

fun subtrees :: "otree \<Rightarrow> otree set" where
  "subtrees (Node a ts) = insert (Node a ts) (\<Union> (subtrees ` set ts))"

lemma subtrees_self [simp]: "t \<in> subtrees t"
  by (cases t) simp

lemma subtrees_step: "Node a us \<in> subtrees t \<Longrightarrow> u \<in> set us \<Longrightarrow> u \<in> subtrees t"
  by (induction t) (auto intro: subtrees_self)

lemma subtrees_nodes: "u \<in> subtrees t \<Longrightarrow> set (preorder u) \<subseteq> set (preorder t)"
  by (induction t) fastforce

lemma subtrees_links: "tree_links s t \<Longrightarrow> u \<in> subtrees t \<Longrightarrow> tree_links s u"
  by (induction t) (auto simp: tree_links_alt)

lemma plain_kids:
  assumes t: "plain_tree s t" and u: "Node a us \<in> subtrees t"
  shows "dataobject_childIterator s a = Inr (map root us) \<and> dataobject_rchildIterator s a = Inr (rev (map root us))"
proof -
  have l: "tree_links s (Node a us)" using t u subtrees_links by (auto simp: plain_tree_def is_tree_def)
  then obtain d where d: "objs s a = Some d" "children d = map root us" by (auto simp: tree_links_alt kids_of_def)
  have p: "plain s (root v)" if "v \<in> set us" for v
    using t subtrees_nodes [OF subtrees_step [OF u that]] root_in unfolding plain_tree_def by blast
  have c: "dataobject_childIterator s a = Inr (map root us)"
  proof (cases us)
    case (Cons v vs)
    then show ?thesis using d plain_type [OF p [of v]] by (auto simp: dataobject_childIterator_def get_obj_def)
  qed (use d in \<open>simp add: dataobject_childIterator_def get_obj_def\<close>)
  have "dataobject_rchildIterator s a = Inr (rev (map root us))"
  proof (cases us rule: rev_cases)
    case (snoc vs v)
    then show ?thesis using d p [of v] by (auto simp: dataobject_rchildIterator_def get_obj_def plain_def)
  qed (use d in \<open>simp add: dataobject_rchildIterator_def get_obj_def\<close>)
  with c show ?thesis by simp
qed

lemma not_scrolled:
  assumes t: "plain_tree s t" and x: "x \<in> set (preorder t)"
  shows "widget_findStringFieldParent s x EMO_FIELD_TYPE (Builtin EMO_TYPE_SCROLLED) = Inr None"
proof -
  let ?P = "\<lambda>n x. findStringFieldParent_loop n s EMO_FIELD_TYPE (Builtin EMO_TYPE_SCROLLED) x"
  have step: "?P (Suc n) w = (case parent_of s w of Some (Some p) \<Rightarrow> ?P n p | _ \<Rightarrow> Inr None)" if "w \<in> set (preorder t)" for n w
  proof -
    have p: "plain s w" using that t by (simp add: plain_tree_def)
    then obtain d where d: "objs s w = Some d" by (auto simp: plain_def)
    obtain f where "dataobject_getEnum s w EMO_FIELD_TYPE = Inr (Some f)" "EMO_DOF_IS_TYPE s (Some f) EMO_TYPE_SCROLLED = Inr False"
      using plain_type [OF p] by blast
    moreover have "is_builtin (Builtin EMO_TYPE_SCROLLED)" by (simp add: is_builtin_def EMO_TYPE_NAMES_END_def EMO_TYPE_DATA_def EMO_TYPE_GRADIENT_def)
    ultimately show ?thesis using d by (simp add: parent_of_def get_obj_def split: option.split)
  qed
  have "\<exists>k < height u. \<forall>n. ?P (Suc n + k) y = ?P (Suc n) (root u)" if "u \<in> subtrees t" "y \<in> set (preorder u)" for u y
    using that
  proof (induction u)
    case (Node a us)
    show ?case
    proof (cases "y = a")
      case False
      with Node.prems obtain v where v: "v \<in> set us" "y \<in> set (preorder v)" by auto
      have vt: "v \<in> subtrees t" using subtrees_step Node.prems(1) v(1) by blast
      have pa: "parent_of s (root v) = Some (Some a)"
        using subtrees_links [OF _ Node.prems(1), of s] t v(1) by (auto simp: plain_tree_def is_tree_def tree_links_alt)
      obtain k where k: "k < height v" "\<And>n. ?P (Suc n + k) y = ?P (Suc n) (root v)" using Node.IH [OF v(1) vt v(2)] by blast
      have "root v \<in> set (preorder t)" using subtrees_nodes [OF vt] by auto
      then have "?P (Suc n + Suc k) y = ?P (Suc n) a" for n using k(2) [of "Suc n"] step pa by simp
      moreover have "Suc k < height (Node a us)" using k(1) height_sub [OF v(1)] by simp
      ultimately show ?thesis by (metis otree.sel(1))
    qed (intro exI [of _ 0], simp)
  qed
  from this [OF subtrees_self x] obtain k where k: "k < height t" "\<And>n. ?P (Suc n + k) x = ?P (Suc n) (root t)" by blast
  have "Suc (next_addr s) = Suc (next_addr s - k) + k" using k(1) is_tree_height [of s t] t by (simp add: plain_tree_def)
  then have "?P (Suc (next_addr s)) x = ?P (Suc (next_addr s - k)) (root t)" using k(2) by metis
  also have "\<dots> = Inr None" using step [of "root t"] t by (simp add: plain_tree_def is_tree_alt)
  finally show ?thesis by (simp add: widget_findStringFieldParent_def)
qed

lemma plain_setFocus:
  assumes t: "plain_tree s t" and w: "w \<in> set (preorder t)" and v: "v = 0 \<or> v = 1"
  shows "\<exists>s'. widget_setFocus w v s = Inr s' \<and> calm s s' \<and> focused s' = (focused s)(w := (v = 1)) \<and> renderman s' = renderman s \<and>
     (\<forall>f p. dataobject_getEnum s w EMO_FIELD_TYPE = Inr (Some f) \<longrightarrow> EMO_DOF_IS_TYPE s' (Some f) p = EMO_DOF_IS_TYPE s (Some f) p)"
proof -
  have p: "plain s w" and ok: "store_ok s" using t w by (auto simp: plain_tree_def)
  obtain s' where s': "set_int_attribute EMO_FIELD_HASFOCUS w v s = Inr s'"
    "attr_step w EMO_FIELD_HASFOCUS (DOF_INT (word_of_int v)) s s'"
    using set_int_attribute_ok [OF ok, of w EMO_FIELD_HASFOCUS v] p by (auto simp: plain_def EMO_FIELD_HASFOCUS_def EMO_FIELD_TYPE_def)
  have at: "attr s' = (attr s)(w := (attr s w)(EMO_FIELD_HASFOCUS \<mapsto> DOF_INT (word_of_int v)))" "attr_frame s s'" "store_ok s'"
    using s'(2) by (auto simp: attr_step_def)
  have still: "still s' = still s"
  proof -
    have "still s w = map_option (\<lambda>d. d\<lparr>flags1 := 0\<rparr>) (core s w)" for s w by (simp add: still_def core_def option.map_comp comp_def)
    then show ?thesis using at(2) by (auto simp: attr_frame_def)
  qed
  have q: "calm s s'" using at still t by (auto simp: calm_def attr_frame_def plain_tree_def)
  have "focused s' = (focused s)(w := (v = 1))" using at(1) v by (auto simp: focused_def fun_eq_iff)
  moreover have "scrolled_forceVisible w s' = Inr s'"
    using not_scrolled [OF calm_tree [OF q t] w] by (simp add: scrolled_forceVisible_def)
  moreover have "EMO_DOF_IS_TYPE s' (Some f) q = EMO_DOF_IS_TYPE s (Some f) q" if f: "dataobject_getEnum s w EMO_FIELD_TYPE = Inr (Some f)" for f q
  proof -
    have "entry s w EMO_FIELD_TYPE = Some f" using f p getEnum_entry [of s w EMO_FIELD_TYPE] by (simp add: plain_def EMO_FIELD_TYPE_def)
    moreover have "(w, EMO_FIELD_TYPE) \<noteq> (w, EMO_FIELD_HASFOCUS)" by (simp add: EMO_FIELD_TYPE_def EMO_FIELD_HASFOCUS_def)
    ultimately have "flds s' f = flds s f" using s'(2) unfolding attr_step_def by blast
    then show ?thesis by (simp add: EMO_DOF_IS_TYPE_def get_fld_def)
  qed
  ultimately show ?thesis using s'(1) q at(2) v by (auto simp: widget_setFocus_def attr_frame_def)
qed

lemma modified_run:
  assumes p: "plain s w" and ok: "store_ok s" "rm_ok (renderman s)"
  shows "\<exists>s'. dataobject_setIsModified True w s = Inr s' \<and> calm s s' \<and> attr s' = attr s \<and> focused s' = focused s \<and>
     rm_flags (renderman s') = rm_flags (renderman s) \<and>
     (rm_flags (renderman s) AND RM_COMPLETE_REDRAW = 0 \<longrightarrow> set (queued (renderman s')) = insert w (set (queued (renderman s))))"
proof -
  obtain d where d: "objs s w = Some d" "state d = DOS_OK" "referenced d = []" using p by (auto simp: plain_def)
  obtain r where r: "renderman_queue w (renderman s) = Inr r" "rm_ok r" "rm_flags r = rm_flags (renderman s)"
    "queued r = (if rm_flags (renderman s) AND RM_COMPLETE_REDRAW \<noteq> 0 \<or> w \<in> set (queued (renderman s)) then queued (renderman s)
        else queued (renderman s) @ [w])"
    using renderman_queue_run [OF ok(2), of w] by auto
  define s' where "s' = put_obj w (d\<lparr>flags1 := flags1 d OR DO_FLAG_CHANGED\<rparr>) (s\<lparr>renderman := r\<rparr>)"
  have o': "objs s' = (objs s)(w \<mapsto> d\<lparr>flags1 := flags1 d OR DO_FLAG_CHANGED\<rparr>)" "flds s' = flds s" "renderman s' = r" "next_addr s' = next_addr s"
    "apps s' = apps s" "appManager s' = appManager s"
    by (simp_all add: s'_def put_obj_def)
  have a: "attr s' = attr s" "direct s' = direct s" using d(1) by (auto simp: attr_def direct_def o' fun_eq_iff split: option.splits)
  have "owns s' = owns s" using d(1) by (auto simp: owns_def owned_fields_def o' fun_eq_iff)
  moreover have "obj_ok e \<and> u < next_addr s" if "objs s' u = Some e" for u e
  proof (cases "u = w")
    case True
    have "obj_ok d \<and> w < next_addr s" using ok(1) d(1) unfolding store_ok_def by blast
    moreover have "obj_ok (d\<lparr>flags1 := fl\<rparr>) = obj_ok d" for fl by (simp add: obj_ok_def owned_fields_def)
    ultimately show ?thesis using that True by (auto simp: o')
  next
    case False
    then show ?thesis using that ok(1) unfolding store_ok_def by (simp add: o')
  qed
  ultimately have "store_ok s'" using ok(1) unfolding store_ok_def by (simp add: o'(2,4))
  then have q: "calm s s'" using a r(2) d(1) by (auto simp: calm_def still_def o' fun_eq_iff)
  have "dataobject_setIsModified True w s = Inr s'"
    using plain_type [OF calm_plain [OF q p]] d r(1)
    by (auto simp: dataobject_setIsModified_def upd_renderman_def upd_obj_def get_obj_def s'_def [symmetric] o')
  with q r(3,4) a(1) show ?thesis by (auto simp: focused_def o')
qed

lemma plain_modified:
  assumes "plain_tree s t" and "w \<in> set (preorder t)"
  shows "\<exists>s'. dataobject_setIsModified True w s = Inr s' \<and> calm s s' \<and> focused s' = focused s \<and>
     rm_flags (renderman s') = rm_flags (renderman s) \<and>
     (rm_flags (renderman s) AND RM_COMPLETE_REDRAW = 0 \<longrightarrow> set (queued (renderman s')) = insert w (set (queued (renderman s))))"
  using modified_run [of s w] assms by (auto simp: plain_tree_def)

section \<open>Walks as traversals\<close>

text \<open>
  A forward walk visits a node before its children, a backward walk after its children, last child first. \<open>step\<close> is what the walk does at one
  node. The contract: the invariant is kept by a step, and the recursive function is the step and the loop over the children. Then the
  function runs the step along the nodes in depth-first order, or in the reverse of it, until the first hit.
\<close>

locale tree_visit =
  fixes t :: otree and inv :: "'s \<Rightarrow> bool" and step :: "addr \<Rightarrow> 's \<Rightarrow> ('r option \<times> 's) res"
  assumes step_keeps: "inv k \<Longrightarrow> w \<in> set (preorder t) \<Longrightarrow> \<exists>r k'. step w k = Inr (r, k') \<and> inv k'"
begin

lemma until_keeps: "inv k \<Longrightarrow> set ws \<subseteq> set (preorder t) \<Longrightarrow> \<exists>r k'. until_hit step ws k = Inr (r, k') \<and> inv k'"
proof (induction ws arbitrary: k)
  case (Cons w ws)
  obtain r k' where "step w k = Inr (r, k')" "inv k'" using step_keeps [of k w] Cons.prems by auto
  with Cons.IH [of k'] Cons.prems show ?case by (cases r) auto
qed simp

end

lemma until_hit_append:
  "until_hit f (xs @ ys) k = bind_res (until_hit f xs k) (\<lambda>(r, k). case r of Some x \<Rightarrow> Inr (Some x, k) | None \<Rightarrow> until_hit f ys k)"
proof (induction xs arbitrary: k)
  case (Cons x xs)
  show ?case
  proof (cases "f x k")
    case (Inr p)
    with Cons show ?thesis by (cases p) (auto split: option.splits)
  qed simp
qed simp

locale forward_walk = tree_visit t inv step
  for t :: otree and inv :: "'s \<Rightarrow> bool" and step :: "addr \<Rightarrow> 's \<Rightarrow> ('r option \<times> 's) res" +
  fixes walk :: "nat \<Rightarrow> addr \<Rightarrow> 's \<Rightarrow> ('r option \<times> 's) res"
  assumes walk_down: "inv k \<Longrightarrow> Node a us \<in> subtrees t \<Longrightarrow>
     walk (Suc n) a k = bind_res (step a k) (\<lambda>(r, k). case r of Some x \<Rightarrow> Inr (Some x, k) | None \<Rightarrow> until_hit (walk n) (map root us) k)"
begin

lemma walk_children:
  assumes "\<And>u k. u \<in> set us \<Longrightarrow> inv k \<Longrightarrow> walk n (root u) k = until_hit step (preorder u) k"
    and "\<And>u. u \<in> set us \<Longrightarrow> set (preorder u) \<subseteq> set (preorder t)" and "inv k"
  shows "until_hit (walk n) (map root us) k = until_hit step (concat (map preorder us)) k"
  using assms
proof (induction us arbitrary: k)
  case (Cons u us)
  obtain r k' where h: "until_hit step (preorder u) k = Inr (r, k')" "inv k'" using until_keeps [of k "preorder u"] Cons.prems by auto
  then show ?case using Cons by (cases r) (auto simp: until_hit_append)
qed simp

lemma walk_preorder:
  "inv k \<Longrightarrow> u \<in> subtrees t \<Longrightarrow> height u \<le> n \<Longrightarrow> walk n (root u) k = until_hit step (preorder u) k"
proof (induction u arbitrary: n k)
  case (Node a us)
  obtain m where n: "n = Suc m" using Node.prems(3) by (cases n) auto
  have a: "a \<in> set (preorder t)" using subtrees_nodes [OF Node.prems(2)] by auto
  obtain r k' where h: "step a k = Inr (r, k')" "inv k'" using step_keeps [OF Node.prems(1) a] by blast
  have "until_hit (walk m) (map root us) k' = until_hit step (concat (map preorder us)) k'"
  proof (rule walk_children [OF _ _ h(2)])
    fix u k assume u: "u \<in> set us"
    then show "set (preorder u) \<subseteq> set (preorder t)" using subtrees_step [OF Node.prems(2)] subtrees_nodes by blast
    assume "inv k"
    then show "walk m (root u) k = until_hit step (preorder u) k"
      using Node.IH [OF u] subtrees_step [OF Node.prems(2) u] Node.prems(3) height_sub [OF u] n by simp
  qed
  with walk_down [OF Node.prems(1,2)] h show ?case by (cases r) (auto simp: n)
qed

end

locale backward_walk = tree_visit t inv step
  for t :: otree and inv :: "'s \<Rightarrow> bool" and step :: "addr \<Rightarrow> 's \<Rightarrow> ('r option \<times> 's) res" +
  fixes walk :: "nat \<Rightarrow> addr \<Rightarrow> 's \<Rightarrow> ('r option \<times> 's) res"
  assumes walk_up: "inv k \<Longrightarrow> Node a us \<in> subtrees t \<Longrightarrow>
     until_hit (walk n) (rev (map root us)) k = Inr (r, k') \<Longrightarrow> inv k' \<Longrightarrow>
     walk (Suc n) a k = (case r of Some x \<Rightarrow> Inr (Some x, k') | None \<Rightarrow> step a k')"
begin

lemma walk_children:
  assumes "\<And>u k. u \<in> set us \<Longrightarrow> inv k \<Longrightarrow> walk n (root u) k = until_hit step (rev (preorder u)) k"
    and "\<And>u. u \<in> set us \<Longrightarrow> set (preorder u) \<subseteq> set (preorder t)" and "inv k"
  shows "until_hit (walk n) (rev (map root us)) k = until_hit step (rev (concat (map preorder us))) k"
  using assms
proof (induction us arbitrary: k rule: rev_induct)
  case (snoc u us)
  obtain r k' where h: "until_hit step (rev (preorder u)) k = Inr (r, k')" "inv k'" using until_keeps [of k "rev (preorder u)"] snoc.prems by auto
  then show ?case using snoc by (cases r) (auto simp: until_hit_append)
qed simp

lemma walk_rev_preorder:
  "inv k \<Longrightarrow> u \<in> subtrees t \<Longrightarrow> height u \<le> n \<Longrightarrow> walk n (root u) k = until_hit step (rev (preorder u)) k"
proof (induction u arbitrary: n k)
  case (Node a us)
  obtain m where n: "n = Suc m" using Node.prems(3) by (cases n) auto
  have a: "a \<in> set (preorder t)" using subtrees_nodes [OF Node.prems(2)] by auto
  have sub: "set (preorder u) \<subseteq> set (preorder t)" if "u \<in> set us" for u
    using that subtrees_step [OF Node.prems(2)] subtrees_nodes by blast
  have kids: "until_hit (walk m) (rev (map root us)) k = until_hit step (rev (concat (map preorder us))) k"
  proof (rule walk_children [OF _ sub Node.prems(1)])
    fix u k assume u: "u \<in> set us" and "inv k"
    then show "walk m (root u) k = until_hit step (rev (preorder u)) k"
      using Node.IH [OF u] subtrees_step [OF Node.prems(2) u] Node.prems(3) height_sub [OF u] n by simp
  qed
  obtain r k' where h: "until_hit step (rev (concat (map preorder us))) k = Inr (r, k')" "inv k'"
    using until_keeps [OF Node.prems(1), of "rev (concat (map preorder us))"] sub by fastforce
  obtain q k'' where "step a k' = Inr (q, k'')" using step_keeps [OF h(2) a] by blast
  with walk_up [OF Node.prems(1,2) _ h(2)] kids h show ?case
    by (cases r; cases q) (auto simp: n until_hit_append simp del: rev_concat)
qed

end

section \<open>The walks on plain widgets\<close>

definition find_step :: "(addr \<Rightarrow> store \<Rightarrow> store res) \<Rightarrow> addr \<Rightarrow> store \<Rightarrow> (addr option \<times> store) res" where
  "find_step found w s = (if focused s w then bind_res (found w s) (\<lambda>s. Inr (Some w, s)) else Inr (None, s))"

definition first_step :: "addr \<Rightarrow> focus_walk \<Rightarrow> (unit option \<times> focus_walk) res" where
  "first_step w k = (if can (fw_store k) w then bind_res (take_focus w 1 k) (\<lambda>k. Inr (Some (), k)) else Inr (None, k))"

definition next_step :: "addr \<Rightarrow> focus_walk \<Rightarrow> (unit option \<times> focus_walk) res" where
  "next_step w k =
     (if alreadyUnset k then
        (if can (fw_store k) w then bind_res (take_focus w 1 k) (\<lambda>k. Inr (Some (), k\<lparr>alreadySet := True\<rparr>)) else Inr (None, k))
      else if focused (fw_store k) w then bind_res (take_focus w 0 k) (\<lambda>k. Inr (None, k\<lparr>alreadyUnset := True\<rparr>))
      else Inr (None, k))"

definition last_step :: "addr \<Rightarrow> store \<Rightarrow> (addr option \<times> store) res" where
  "last_step w s = (if can s w then bind_res (widget_setFocus w 1 s) (\<lambda>s. Inr (Some w, s)) else Inr (None, s))"

lemma plain_focus_children:
  assumes t: "plain_tree s t" and u: "Node a us \<in> subtrees t"
  shows "focus_children a s = Inr (map root us, s)" "focus_rchildren skip a s = Inr (rev (map root us), s)"
    "\<exists>f. dataobject_getEnum s a EMO_FIELD_TYPE = Inr (Some f) \<and> EMO_DOF_IS_TYPE s (Some f) EMO_TYPE_SCROLLED = Inr False \<and>
       descend True dataobject_childIterator (Some f) a s = Inr (map root us, s)"
proof -
  have p: "plain s a" using t subtrees_nodes [OF u] by (auto simp: plain_tree_def)
  obtain f where f: "dataobject_getEnum s a EMO_FIELD_TYPE = Inr (Some f)" "EMO_DOF_IS_TYPE s (Some f) EMO_TYPE_SCROLLED = Inr False"
    using plain_type [OF p] by blast
  note d = plain_descend [OF p f(1)] plain_kids [OF t u]
  show "focus_children a s = Inr (map root us, s)" "focus_rchildren skip a s = Inr (rev (map root us), s)"
    using d f by (simp_all add: focus_children_def focus_rchildren_def)
  show "\<exists>f. dataobject_getEnum s a EMO_FIELD_TYPE = Inr (Some f) \<and> EMO_DOF_IS_TYPE s (Some f) EMO_TYPE_SCROLLED = Inr False \<and>
       descend True dataobject_childIterator (Some f) a s = Inr (map root us, s)"
    using d f by auto
qed

lemma plain_node:
  assumes t: "plain_tree s t" and w: "w \<in> set (preorder t)"
  shows "\<exists>c. widget_hasFocus w s = Inr (c, s) \<and> (c \<noteq> 0 \<longleftrightarrow> focused s w)" "\<exists>c. widget_canFocus s w = Inr c \<and> (c \<noteq> 0 \<longleftrightarrow> can s w)"
  using t w plain_hasFocus plain_canFocus by (auto simp: plain_tree_def)

lemma in_subtree: "Node a us \<in> subtrees t \<Longrightarrow> a \<in> set (preorder t)"
  using subtrees_nodes by fastforce

lemma focus_set:
  assumes t: "plain_tree s t" and w: "w \<in> set (preorder t)" and v: "v = 0 \<or> v = 1"
  shows "\<exists>s'. widget_setFocus w v s = Inr s' \<and> plain_tree s' t"
  using plain_setFocus [OF assms] calm_tree [OF _ t] by blast

interpretation look: forward_walk t "\<lambda>s. plain_tree s t" "find_step (\<lambda>_. Inr)" "\<lambda>n. find_focus n (\<lambda>_. Inr)" for t
proof
  fix s a us n assume t: "plain_tree s t" and u: "Node a us \<in> subtrees t"
  show "find_focus (Suc n) (\<lambda>_. Inr) a s = bind_res (find_step (\<lambda>_. Inr) a s)
      (\<lambda>(r, k). case r of None \<Rightarrow> until_hit (find_focus n (\<lambda>_. Inr)) (map root us) k | Some x \<Rightarrow> Inr (Some x, k))"
    using plain_node(1) [OF t in_subtree [OF u]] plain_focus_children(1) [OF t u] by (auto simp: find_step_def)
qed (simp add: find_step_def)

interpretation clear: forward_walk t "\<lambda>s. plain_tree s t" "find_step (\<lambda>w. widget_setFocus w 0)" "\<lambda>n. find_focus n (\<lambda>w. widget_setFocus w 0)" for t
proof
  fix s w assume t: "plain_tree s t" and w: "w \<in> set (preorder t)"
  show "\<exists>r k'. find_step (\<lambda>w. widget_setFocus w 0) w s = Inr (r, k') \<and> plain_tree k' t"
    using focus_set [OF t w, of 0] t by (auto simp: find_step_def)
next
  fix s a us n assume t: "plain_tree s t" and u: "Node a us \<in> subtrees t"
  show "find_focus (Suc n) (\<lambda>w. widget_setFocus w 0) a s = bind_res (find_step (\<lambda>w. widget_setFocus w 0) a s)
      (\<lambda>(r, k). case r of None \<Rightarrow> until_hit (find_focus n (\<lambda>w. widget_setFocus w 0)) (map root us) k | Some x \<Rightarrow> Inr (Some x, k))"
    using plain_node(1) [OF t in_subtree [OF u]] plain_focus_children(1) [OF t u] focus_set [OF t in_subtree [OF u], of 0]
    by (auto simp: find_step_def)
qed

interpretation first: forward_walk t "\<lambda>k. plain_tree (fw_store k) t" first_step focusFirst_loop for t
proof
  fix k :: focus_walk and w assume t: "plain_tree (fw_store k) t" and w: "w \<in> set (preorder t)"
  show "\<exists>r k'. first_step w k = Inr (r, k') \<and> plain_tree (fw_store k') t"
    using focus_set [OF t w, of 1] t by (auto simp: first_step_def take_focus_def)
next
  fix k :: focus_walk and a us n assume t: "plain_tree (fw_store k) t" and u: "Node a us \<in> subtrees t"
  show "focusFirst_loop (Suc n) a k = bind_res (first_step a k)
      (\<lambda>(r, k). case r of None \<Rightarrow> until_hit (focusFirst_loop n) (map root us) k | Some x \<Rightarrow> Inr (Some x, k))"
    using plain_node(2) [OF t in_subtree [OF u]] plain_focus_children(1) [OF t u] focus_set [OF t in_subtree [OF u], of 1]
    by (auto simp: first_step_def take_focus_def on_walk_def)
qed

interpretation nxt: forward_walk t "\<lambda>k. plain_tree (fw_store k) t" next_step focusNextR_loop for t
proof
  fix k :: focus_walk and w assume t: "plain_tree (fw_store k) t" and w: "w \<in> set (preorder t)"
  show "\<exists>r k'. next_step w k = Inr (r, k') \<and> plain_tree (fw_store k') t"
    using focus_set [OF t w, of 0] focus_set [OF t w, of 1] t by (auto simp: next_step_def take_focus_def)
next
  fix k :: focus_walk and a us n assume t: "plain_tree (fw_store k) t" and u: "Node a us \<in> subtrees t"
  note kids = plain_focus_children(3) [OF _ u]
  show "focusNextR_loop (Suc n) a k = bind_res (next_step a k)
      (\<lambda>(r, k). case r of None \<Rightarrow> until_hit (focusNextR_loop n) (map root us) k | Some x \<Rightarrow> Inr (Some x, k))"
  proof (cases "alreadyUnset k")
    case True
    with plain_node(2) [OF t in_subtree [OF u]] kids [OF t] focus_set [OF t in_subtree [OF u], of 1] show ?thesis
      by (auto simp: next_step_def take_focus_def on_walk_def)
  next
    case False
    obtain f where f: "dataobject_getEnum (fw_store k) a EMO_FIELD_TYPE = Inr (Some f)" "EMO_DOF_IS_TYPE (fw_store k) (Some f) EMO_TYPE_SCROLLED = Inr False"
       "descend True dataobject_childIterator (Some f) a (fw_store k) = Inr (map root us, fw_store k)" using kids [OF t] by blast
    obtain s' where s': "widget_setFocus a 0 (fw_store k) = Inr s'" "plain_tree s' t"
       "\<And>p. EMO_DOF_IS_TYPE s' (Some f) p = EMO_DOF_IS_TYPE (fw_store k) (Some f) p"
      using plain_setFocus [OF t in_subtree [OF u], of 0] calm_tree [OF _ t] f(1) by auto
    have "descend True dataobject_childIterator (Some f) a s' = Inr (map root us, s')"
      using plain_type [of "fw_store k" a] f(1) in_subtree [OF u] t plain_kids [OF s'(2) u] by (auto simp: descend_def s'(3) plain_tree_def)
    with False s' f plain_node(1) [OF t in_subtree [OF u]] show ?thesis
      by (cases k) (auto simp: next_step_def take_focus_def on_walk_def)
  qed
qed

interpretation last: backward_walk t "\<lambda>s. plain_tree s t" last_step "\<lambda>n. focus_deepest n skip" for t skip
proof
  fix s w assume t: "plain_tree s t" and w: "w \<in> set (preorder t)"
  show "\<exists>r k'. last_step w s = Inr (r, k') \<and> plain_tree k' t"
    using focus_set [OF t w, of 1] t by (auto simp: last_step_def)
next
  fix s a us n r s' assume t: "plain_tree s t" and u: "Node a us \<in> subtrees t"
    and h: "until_hit (focus_deepest n skip) (rev (map root us)) s = Inr (r, s')" and t': "plain_tree s' t"
  show "focus_deepest (Suc n) skip a s = (case r of None \<Rightarrow> last_step a s' | Some x \<Rightarrow> Inr (Some x, s'))"
    using plain_focus_children(2) [OF t u, of skip] h plain_node(2) [OF t' in_subtree [OF u]] by (auto simp: last_step_def split: option.split)
qed

section \<open>The order of the focus\<close>

text \<open>The widget after the focused one, or else the first; the one before it, or else the last.\<close>

definition focus_succ :: "(addr \<Rightarrow> bool) \<Rightarrow> addr list \<Rightarrow> addr option \<Rightarrow> addr option" where
  "focus_succ P ws cur = List.find P ((case cur of None \<Rightarrow> [] | Some x \<Rightarrow> tl (dropWhile (\<lambda>w. w \<noteq> x) ws)) @ ws)"

definition focus_pred :: "(addr \<Rightarrow> bool) \<Rightarrow> addr list \<Rightarrow> addr option \<Rightarrow> addr option" where
  "focus_pred P ws cur = List.find P (rev (ws @ (case cur of None \<Rightarrow> [] | Some x \<Rightarrow> takeWhile (\<lambda>w. w \<noteq> x) ws)))"

lemma until_find:
  assumes "\<And>w. w \<in> set ws \<Longrightarrow> \<not> P w \<Longrightarrow> step w k = Inr (None, k)" and "\<And>w. w \<in> set ws \<Longrightarrow> P w \<Longrightarrow> \<exists>x k'. step w k = Inr (Some x, k')"
  shows "until_hit step ws k = (case List.find P ws of None \<Rightarrow> Inr (None, k) | Some w \<Rightarrow> step w k)"
  using assms
proof (induction ws)
  case (Cons w ws)
  then show ?case by (cases "P w") fastforce+
qed simp

lemma find_append: "List.find P (xs @ ys) = (case List.find P xs of None \<Rightarrow> List.find P ys | Some x \<Rightarrow> Some x)"
  by (induction xs) auto

lemma find_Some_mem: "List.find P xs = Some x \<Longrightarrow> x \<in> set xs \<and> P x"
  by (auto simp: find_Some_iff)

text \<open>\<open>took w s s'\<close>: the focus mark of \<open>w\<close> was set and nothing is drawn yet.\<close>

definition took :: "addr \<Rightarrow> bool \<Rightarrow> store \<Rightarrow> store \<Rightarrow> bool" where
  "took w v s s' \<longleftrightarrow> calm s s' \<and> focused s' = (focused s)(w := v) \<and> renderman s' = renderman s"

lemma take_focus_run:
  assumes "plain_tree (fw_store k) t" and "w \<in> set (preorder t)" and "v = 0 \<or> v = 1"
  shows "\<exists>s'. take_focus w v k = Inr (k\<lparr>fw_store := s', redraw := redraw k @ [w]\<rparr>) \<and> took w (v = 1) (fw_store k) s'"
  using plain_setFocus [OF assms] by (auto simp: take_focus_def took_def)

lemma focusFirst_run:
  assumes t: "plain_tree (fw_store k) t"
  shows "case List.find (can (fw_store k)) (preorder t) of
      None \<Rightarrow> widget_focusFirst (root t) k = Inr (None, k)
    | Some y \<Rightarrow> \<exists>s'. widget_focusFirst (root t) k = Inr (Some (), k\<lparr>fw_store := s', redraw := redraw k @ [y]\<rparr>) \<and> took y True (fw_store k) s'"
proof -
  have "widget_focusFirst (root t) k = until_hit first_step (preorder t) k"
    using first.walk_preorder [OF t subtrees_self] is_tree_height [of "fw_store k" t] t by (simp add: widget_focusFirst_def plain_tree_def del: focusFirst_loop.simps)
  also have "\<dots> = (case List.find (can (fw_store k)) (preorder t) of None \<Rightarrow> Inr (None, k) | Some w \<Rightarrow> first_step w k)"
    using take_focus_run [OF t, of _ 1] by (intro until_find) (fastforce simp: first_step_def)+
  finally show ?thesis
    using take_focus_run [OF t, of _ 1] by (auto simp: first_step_def dest!: find_Some_mem split: option.split)
qed

lemma focusLast_run:
  assumes t: "plain_tree s t" and u: "u \<in> subtrees t" and ws: "n \<ge> height u"
  shows "focus_deepest n skip (root u) s = (case List.find (can s) (rev (preorder u)) of None \<Rightarrow> Inr (None, s) | Some w \<Rightarrow> last_step w s)"
proof -
  have "focus_deepest n skip (root u) s = until_hit last_step (rev (preorder u)) s"
    using last.walk_rev_preorder [OF t u ws] by simp
  also have "\<dots> = (case List.find (can s) (rev (preorder u)) of None \<Rightarrow> Inr (None, s) | Some w \<Rightarrow> last_step w s)"
    using focus_set [OF t, of _ 1] subtrees_nodes [OF u] by (intro until_find) (fastforce simp: last_step_def)+
  finally show ?thesis .
qed

lemma last_step_run:
  assumes "plain_tree s t" and "y \<in> set (preorder t)" and "can s y"
  shows "\<exists>s'. last_step y s = Inr (Some y, s') \<and> took y True s s'"
  using plain_setFocus [OF assms(1,2), of 1] assms(3) by (auto simp: last_step_def took_def)

lemma took_simps:
  assumes "took w v s s'" and "plain_tree s t"
  shows "plain_tree s' t" "can s' = can s" "focused s' = (focused s)(w := v)" "renderman s' = renderman s" "calm s s'"
  using assms calm_tree calm_can by (auto simp: took_def)

lemma focus_split:
  assumes "x \<in> set ws" and "distinct ws"
  obtains xs ys where "ws = xs @ x # ys" "takeWhile (\<lambda>w. w \<noteq> x) ws = xs" "tl (dropWhile (\<lambda>w. w \<noteq> x) ws) = ys" "x \<notin> set xs" "x \<notin> set ys"
proof -
  obtain xs ys where "ws = xs @ x # ys" using split_list [OF assms(1)] by blast
  with assms(2) that [of xs ys] show thesis by (auto simp: takeWhile_tail dropWhile_append3)
qed

lemma focusNextR_run:
  assumes t: "plain_tree (fw_store k) t" and k: "\<not> alreadyUnset k" and cur: "\<And>w. w \<in> set (preorder t) \<Longrightarrow> focused (fw_store k) w \<longleftrightarrow> cur = Some w"
  shows "case cur of
      None \<Rightarrow> widget_focusNextR (root t) k = Inr (None, k)
    | Some x \<Rightarrow> x \<in> set (preorder t) \<longrightarrow> (\<exists>s1. took x False (fw_store k) s1 \<and>
        (case List.find (can (fw_store k)) (tl (dropWhile (\<lambda>w. w \<noteq> x) (preorder t))) of
           None \<Rightarrow> widget_focusNextR (root t) k = Inr (None, k\<lparr>fw_store := s1, redraw := redraw k @ [x], alreadyUnset := True\<rparr>)
         | Some y \<Rightarrow> \<exists>s2. took y True s1 s2 \<and> widget_focusNextR (root t) k =
             Inr (Some (), k\<lparr>fw_store := s2, redraw := redraw k @ [x, y], alreadyUnset := True, alreadySet := True\<rparr>)))"
proof -
  have run: "widget_focusNextR (root t) k = until_hit next_step (preorder t) k"
    using nxt.walk_preorder [OF t subtrees_self] is_tree_height [of "fw_store k" t] t
    by (simp add: widget_focusNextR_def plain_tree_def del: focusNextR_loop.simps)
  have skip: "until_hit next_step ws k = Inr (None, k)" if "\<And>w. w \<in> set ws \<Longrightarrow> \<not> focused (fw_store k) w" for ws
    using that k by (induction ws) (auto simp: next_step_def)
  show ?thesis
  proof (cases cur)
    case None
    with run skip [of "preorder t"] cur show ?thesis by simp
  next
    case (Some x)
    have "\<exists>s1. took x False (fw_store k) s1 \<and>
        (case List.find (can (fw_store k)) (tl (dropWhile (\<lambda>w. w \<noteq> x) (preorder t))) of
           None \<Rightarrow> widget_focusNextR (root t) k = Inr (None, k\<lparr>fw_store := s1, redraw := redraw k @ [x], alreadyUnset := True\<rparr>)
         | Some y \<Rightarrow> \<exists>s2. took y True s1 s2 \<and> widget_focusNextR (root t) k =
             Inr (Some (), k\<lparr>fw_store := s2, redraw := redraw k @ [x, y], alreadyUnset := True, alreadySet := True\<rparr>))"
      if x: "x \<in> set (preorder t)"
    proof -
      obtain xs ys where w: "preorder t = xs @ x # ys" "tl (dropWhile (\<lambda>w. w \<noteq> x) (preorder t)) = ys" "x \<notin> set xs"
        using focus_split [OF x] t unfolding plain_tree_def is_tree_def by metis
      obtain s1 where s1: "take_focus x 0 k = Inr (k\<lparr>fw_store := s1, redraw := redraw k @ [x]\<rparr>)" "took x False (fw_store k) s1"
        using take_focus_run [OF t x, of 0] by auto
      let ?k = "k\<lparr>fw_store := s1, redraw := redraw k @ [x], alreadyUnset := True\<rparr>"
      have t1: "plain_tree (fw_store ?k) t" and c1: "can s1 = can (fw_store k)" using took_simps [OF s1(2) t] by auto
      have "until_hit next_step xs k = Inr (None, k)" using cur Some w by (intro skip) auto
      moreover have "next_step x k = Inr (None, ?k)" using cur [OF x] Some k s1(1) by (simp add: next_step_def)
      moreover have "until_hit next_step ys ?k = (case List.find (can s1) ys of None \<Rightarrow> Inr (None, ?k) | Some w \<Rightarrow> next_step w ?k)"
        using take_focus_run [OF t1, of _ 1] w(1) by (intro until_find) (fastforce simp: next_step_def)+
      ultimately have "widget_focusNextR (root t) k = (case List.find (can s1) ys of None \<Rightarrow> Inr (None, ?k) | Some w \<Rightarrow> next_step w ?k)"
        by (simp add: run w(1) until_hit_append)
      moreover have "\<exists>s2. took y True s1 s2 \<and> next_step y ?k = Inr (Some (), k\<lparr>fw_store := s2, redraw := redraw k @ [x, y], alreadyUnset := True, alreadySet := True\<rparr>)"
        if "List.find (can s1) ys = Some y" for y
      proof -
        have "y \<in> set (preorder t)" "can s1 y" using find_Some_mem [OF that] w(1) by auto
        then show ?thesis using take_focus_run [OF t1, of y 1] by (cases k) (auto simp: next_step_def)
      qed
      ultimately show ?thesis using s1(2) c1 w(2) by (auto split: option.split)
    qed
    with Some show ?thesis by simp
  qed
qed

lemma each_modified:
  assumes "plain_tree s t" and "set ws \<subseteq> set (preorder t)"
  shows "\<exists>s'. each (dataobject_setIsModified True) ws s = Inr s' \<and> calm s s' \<and> focused s' = focused s \<and>
     rm_flags (renderman s') = rm_flags (renderman s) \<and>
     (rm_flags (renderman s) AND RM_COMPLETE_REDRAW = 0 \<longrightarrow> set (queued (renderman s')) = set (queued (renderman s)) \<union> set ws)"
  using assms
proof (induction ws arbitrary: s)
  case Nil
  then show ?case using calm_refl by simp
next
  case (Cons w ws)
  obtain s1 where s1: "dataobject_setIsModified True w s = Inr s1" "calm s s1" "focused s1 = focused s"
    "rm_flags (renderman s1) = rm_flags (renderman s)"
    "rm_flags (renderman s) AND RM_COMPLETE_REDRAW = 0 \<longrightarrow> set (queued (renderman s1)) = insert w (set (queued (renderman s)))"
    using plain_modified [OF Cons.prems(1), of w] Cons.prems(2) by auto
  obtain s2 where "each (dataobject_setIsModified True) ws s1 = Inr s2" "calm s1 s2" "focused s2 = focused s1"
    "rm_flags (renderman s2) = rm_flags (renderman s1)"
    "rm_flags (renderman s1) AND RM_COMPLETE_REDRAW = 0 \<longrightarrow> set (queued (renderman s2)) = set (queued (renderman s1)) \<union> set ws"
    using Cons.IH [OF calm_tree [OF s1(2) Cons.prems(1)]] Cons.prems(2) by auto
  with s1 show ?case using calm_trans [OF s1(2)] by auto
qed

lemma focus_sibling_run:
  assumes t: "plain_tree s t" and u: "u \<in> subtrees t"
  shows "focus_sibling (root u) s = (case List.find (can s) (rev (preorder u)) of None \<Rightarrow> Inr (None, s) | Some y \<Rightarrow> last_step y s)"
proof -
  have r: "root u \<in> set (preorder t)" using subtrees_nodes [OF u] root_in by blast
  have d: "widget_focusPrevD (root u) s = (case List.find (can s) (rev (preorder u)) of None \<Rightarrow> Inr (None, s) | Some w \<Rightarrow> last_step w s)"
    unfolding widget_focusPrevD_def
  proof (rule focusLast_run [OF t u])
    have "height u \<le> height t" using u
    proof (induction t)
      case (Node a ts)
      show ?case
      proof (cases "u = Node a ts")
        case False
        with Node.prems obtain v where "v \<in> set ts" "u \<in> subtrees v" by auto
        then have "height u \<le> foldr max (map height ts) 0" using Node.IH height_sub order_trans by blast
        then show ?thesis by simp
      qed simp
    qed
    then show "height u \<le> Suc (next_addr s)" using is_tree_height [of s t] t by (simp add: plain_tree_def)
  qed
  show ?thesis
  proof (cases "List.find (can s) (rev (preorder u))")
    case None
    then have "\<not> can s (root u)" by (auto simp: find_None_iff)
    with plain_node(2) [OF t r] d None show ?thesis by (auto simp: focus_sibling_def)
  next
    case (Some y)
    have "y \<in> set (preorder t)" "can s y" using find_Some_mem [OF Some] subtrees_nodes [OF u] by auto
    with last_step_run [OF t, of y] d Some show ?thesis by (auto simp: focus_sibling_def)
  qed
qed

lemma focus_siblings_run:
  assumes t: "plain_tree s t" and u: "\<And>u. u \<in> set us \<Longrightarrow> u \<in> subtrees t"
  shows "until_hit focus_sibling (rev (map root us)) s =
     (case List.find (can s) (rev (concat (map preorder us))) of None \<Rightarrow> Inr (None, s) | Some y \<Rightarrow> last_step y s)"
  using u
proof (induction us rule: rev_induct)
  case (snoc u us)
  have "\<exists>s'. last_step y s = Inr (Some y, s')" if "List.find (can s) (rev (preorder u)) = Some y" for y
    using find_Some_mem [OF that] subtrees_nodes [of u t] snoc.prems last_step_run [OF t, of y] by auto
  with focus_sibling_run [OF t, of u] snoc show ?case by (auto simp: find_append split: option.splits)
qed simp

text \<open>One turn of the loop: the widgets before \<open>v\<close> among its siblings, last first, then the parent.\<close>

lemma focusPrevR_up:
  assumes t: "plain_tree s t" and u: "Node a (ls @ v # rs) \<in> subtrees t" and d: "distinct (preorder (Node a (ls @ v # rs)))"
  shows "focusPrevR_loop (Suc (Suc n)) (root v) s =
     (case List.find (can s) (rev (a # concat (map preorder ls))) of None \<Rightarrow> focusPrevR_loop (Suc n) a s | Some y \<Rightarrow> last_step y s)"
proof -
  have "set (preorder v) \<inter> set (concat (map preorder rs)) = {}" using d by auto
  moreover have "root w \<in> set (concat (map preorder rs))" if "w \<in> set rs" for w using that by (auto intro!: bexI [of _ w])
  ultimately have rv: "root v \<notin> root ` set rs" using root_in [of v] by (metis disjoint_iff imageE)
  have dr: "dropWhile (\<lambda>cw. cw \<noteq> root v) (rev (map root (ls @ v # rs))) = root v # rev (map root ls)"
    using rv by (simp add: dropWhile_append2 rev_map [symmetric] dropWhile_append image_iff) (auto simp: dropWhile_append3)
  have sib: "until_hit focus_sibling (rev (map root ls)) s =
     (case List.find (can s) (rev (concat (map preorder ls))) of None \<Rightarrow> Inr (None, s) | Some y \<Rightarrow> last_step y s)"
    using subtrees_step [OF u] by (intro focus_siblings_run [OF t]) auto
  have hit: "\<exists>s'. last_step y s = Inr (Some y, s')" if "List.find (can s) (rev (concat (map preorder ls))) = Some y" for y
  proof -
    have "y \<in> set (preorder (Node a (ls @ v # rs)))" "can s y" using find_Some_mem [OF that] by auto
    then show ?thesis using last_step_run [OF t, of y] subtrees_nodes [OF u] by (meson subsetD)
  qed
  obtain c where c: "widget_canFocus s a = Inr c" "c \<noteq> 0 \<longleftrightarrow> can s a" using plain_node(2) [OF t in_subtree [OF u]] by auto
  have "parent_of s (root v) = Some (Some a)"
    using subtrees_links [OF _ u, of s] t by (auto simp: plain_tree_def is_tree_def tree_links_alt)
  then obtain e where "objs s (root v) = Some e" "parent e = Some a" by (auto simp: parent_of_def)
  then show ?thesis using plain_kids [OF t u] dr sib hit c unfolding focusPrevR_loop.simps(2) [of "Suc n" "root v" s]
    by (auto simp: get_obj_def find_append last_step_def simp del: rev_concat focusPrevR_loop.simps(2) split: option.split)
qed

lemma focusPrevR_climb:
  assumes t: "plain_tree s t"
  shows "u \<in> subtrees t \<Longrightarrow> distinct (preorder u) \<Longrightarrow> x \<in> set (preorder u) \<Longrightarrow> \<exists>k < height u. \<forall>n. focusPrevR_loop (Suc n + k) x s =
     (case List.find (can s) (rev (takeWhile (\<lambda>w. w \<noteq> x) (preorder u))) of None \<Rightarrow> focusPrevR_loop (Suc n) (root u) s | Some y \<Rightarrow> last_step y s)"
proof (induction u)
  case (Node a us)
  show ?case
  proof (cases "x = a")
    case False
    with Node.prems obtain v where "v \<in> set us" and xv: "x \<in> set (preorder v)" by auto
    then obtain ls rs where us: "us = ls @ v # rs" by (meson split_list)
    have xl: "x \<notin> set (concat (map preorder ls))" and dv: "distinct (preorder v)" using Node.prems(2) xv us by auto
    have before: "takeWhile (\<lambda>w. w \<noteq> x) (preorder (Node a us)) = a # concat (map preorder ls) @ takeWhile (\<lambda>w. w \<noteq> x) (preorder v)"
    proof -
      have "takeWhile (\<lambda>w. w \<noteq> x) (concat (map preorder ls) @ zs) = concat (map preorder ls) @ takeWhile (\<lambda>w. w \<noteq> x) zs" for zs
        using xl by (intro takeWhile_append2) auto
      moreover have "takeWhile (\<lambda>w. w \<noteq> x) (preorder v @ zs) = takeWhile (\<lambda>w. w \<noteq> x) (preorder v)" for zs
        using xv by (intro takeWhile_append1 [of x]) auto
      ultimately show ?thesis using False us by simp
    qed
    obtain k where k: "k < height v" "\<And>n. focusPrevR_loop (Suc n + k) x s =
       (case List.find (can s) (rev (takeWhile (\<lambda>w. w \<noteq> x) (preorder v))) of None \<Rightarrow> focusPrevR_loop (Suc n) (root v) s | Some y \<Rightarrow> last_step y s)"
      using Node.IH [of v] us subtrees_step [OF Node.prems(1)] dv xv by auto
    have "focusPrevR_loop (Suc n + Suc k) x s =
      (case List.find (can s) (rev (takeWhile (\<lambda>w. w \<noteq> x) (preorder (Node a us)))) of None \<Rightarrow> focusPrevR_loop (Suc n) a s | Some y \<Rightarrow> last_step y s)" for n
      using k(2) [of "Suc n"] focusPrevR_up [OF t, of a ls v rs n] Node.prems(1,2) us unfolding before
      by (auto simp: find_append simp del: focusPrevR_loop.simps split: option.split)
    moreover have "Suc k < height (Node a us)" using k(1) height_sub [of v us] us by simp
    ultimately show ?thesis by (metis otree.sel(1))
  qed (intro exI [of _ 0], simp)
qed

lemma focusPrevR_run:
  assumes t: "plain_tree s t" and x: "x \<in> set (preorder t)"
  shows "widget_focusPrevR x s = (case List.find (can s) (rev (takeWhile (\<lambda>w. w \<noteq> x) (preorder t))) of None \<Rightarrow> Inr (None, s) | Some y \<Rightarrow> last_step y s)"
proof -
  have d: "distinct (preorder t)" "parent_of s (root t) = Some None" using t by (auto simp: plain_tree_def is_tree_alt)
  obtain k where k: "k < height t" "\<And>n. focusPrevR_loop (Suc n + k) x s =
     (case List.find (can s) (rev (takeWhile (\<lambda>w. w \<noteq> x) (preorder t))) of None \<Rightarrow> focusPrevR_loop (Suc n) (root t) s | Some y \<Rightarrow> last_step y s)"
    using focusPrevR_climb [OF t subtrees_self d(1) x] by blast
  have "Suc (next_addr s) = Suc (next_addr s - k) + k" using k(1) is_tree_height [of s t] t by (simp add: plain_tree_def)
  moreover have "focusPrevR_loop (Suc n) (root t) s = Inr (None, s)" for n using d(2) by (auto simp: parent_of_def get_obj_def)
  ultimately show ?thesis unfolding widget_focusPrevR_def using k(2) by metis
qed

text \<open>What a move of the focus to \<open>new\<close> has done: the two widgets are queued to be drawn.\<close>

definition focus_moved :: "otree \<Rightarrow> store \<Rightarrow> addr option \<Rightarrow> addr option \<Rightarrow> store \<Rightarrow> bool" where
  "focus_moved t s old new s' \<longleftrightarrow> calm s s' \<and> plain_tree s' t \<and> can s' = can s \<and> (\<forall>w \<in> set (preorder t). focused s' w \<longleftrightarrow> new = Some w) \<and>
     (rm_flags (renderman s) AND RM_COMPLETE_REDRAW = 0 \<longrightarrow>
        set (queued (renderman s')) = set (queued (renderman s)) \<union> set_option old \<union> set_option new)"

lemma focus_movedI:
  assumes t: "plain_tree s t" and s1: "calm s s1" "renderman s1 = renderman s"
    and f: "\<And>w. w \<in> set (preorder t) \<Longrightarrow> focused s1 w \<longleftrightarrow> new = Some w"
    and ws: "set ws = set_option old \<union> set_option new" "set ws \<subseteq> set (preorder t)"
  shows "\<exists>s'. each (dataobject_setIsModified True) ws s1 = Inr s' \<and> focus_moved t s old new s'"
proof -
  obtain s' where s': "each (dataobject_setIsModified True) ws s1 = Inr s'" "calm s1 s'" "focused s' = focused s1"
     "rm_flags (renderman s1) AND RM_COMPLETE_REDRAW = 0 \<longrightarrow> set (queued (renderman s')) = set (queued (renderman s1)) \<union> set ws"
    using each_modified [OF calm_tree [OF s1(1) t] ws(2)] by blast
  have q: "calm s s'" using calm_trans [OF s1(1) s'(2)] .
  show ?thesis using s' q calm_tree [OF q t] calm_can [OF q] f ws(1) s1(2) by (auto simp: focus_moved_def)
qed

lemma mark_modified_each: "mark_modified w = each (dataobject_setIsModified True) (case w of None \<Rightarrow> [] | Some a \<Rightarrow> [a])"
proof -
  have b: "bind_res r Inr = r" for r :: "store res" by (cases r) auto
  have e: "each f [] = Inr" for f by (simp add: fun_eq_iff)
  show ?thesis by (cases w) (auto simp: mark_modified_def fun_eq_iff b e)
qed

abbreviation start_walk :: "store \<Rightarrow> focus_walk" where
  "start_walk s \<equiv> \<lparr>fw_store = s, redraw = [], alreadyUnset = False, alreadySet = False\<rparr>"

text \<open>The focus was taken from \<open>x\<close> in \<open>s1\<close>, and then given to \<open>y\<close>.\<close>

lemma took_both:
  assumes t: "plain_tree s t" and x: "x \<in> set (preorder t)" "\<forall>w \<in> set (preorder t). focused s w \<longleftrightarrow> w = x"
    and s1: "took x False s s1" and s2: "took y True s1 s2" and y: "y \<in> set (preorder t)"
  shows "\<exists>s'. each (dataobject_setIsModified True) [x, y] s2 = Inr s' \<and> focus_moved t s (Some x) (Some y) s'"
proof -
  note t1 = took_simps [OF s1 t]
  note t2 = took_simps [OF s2 t1(1)]
  have "focused s2 w \<longleftrightarrow> Some y = Some w" if "w \<in> set (preorder t)" for w using that t1(3) t2(3) x(2) by auto
  then show ?thesis using t1(4) t2(4) x(1) y by (intro focus_movedI [OF t calm_trans [OF t1(5) t2(5)]]) auto
qed

lemma focusNext_from_none:
  assumes t: "plain_tree s t" and cur: "\<forall>w \<in> set (preorder t). \<not> focused s w"
  shows "\<exists>s'. widget_focusNext (root t) s = Inr s' \<and> focus_moved t s None (focus_succ (can s) (preorder t) None) s'"
proof -
  have tk: "plain_tree (fw_store (start_walk s)) t" using t by simp
  have R: "widget_focusNextR (root t) (start_walk s) = Inr (None, start_walk s)" using focusNextR_run [OF tk, of None] cur by simp
  show ?thesis
  proof (cases "List.find (can s) (preorder t)")
    case None
    then have "widget_focusNext (root t) s = each (dataobject_setIsModified True) [] s"
      using focusFirst_run [OF tk] R by (simp add: widget_focusNext_def)
    moreover have "focus_succ (can s) (preorder t) None = None" using None by (simp add: focus_succ_def)
    ultimately show ?thesis using focus_movedI [OF t calm_refl [OF t], of None "[]" None] cur by simp
  next
    case (Some y)
    then obtain s1 where s1: "widget_focusNext (root t) s = each (dataobject_setIsModified True) [y] s1" "took y True s s1"
      using focusFirst_run [OF tk] R by (auto simp: widget_focusNext_def)
    moreover have "focus_succ (can s) (preorder t) None = Some y" using Some by (simp add: focus_succ_def)
    moreover have "y \<in> set (preorder t)" using find_Some_mem [OF Some] by simp
    ultimately show ?thesis using focus_movedI [OF t, of s1 "Some y" "[y]" None] took_simps [OF s1(2) t] cur by auto
  qed
qed

lemma focusNext_from:
  assumes t: "plain_tree s t" and x: "x \<in> set (preorder t)" and cur: "\<forall>w \<in> set (preorder t). focused s w \<longleftrightarrow> w = x"
  shows "\<exists>s'. widget_focusNext (root t) s = Inr s' \<and> focus_moved t s (Some x) (focus_succ (can s) (preorder t) (Some x)) s'"
proof -
  let ?k = "start_walk s" and ?ws = "preorder t"
  let ?ys = "tl (dropWhile (\<lambda>w. w \<noteq> x) ?ws)"
  have tk: "plain_tree (fw_store ?k) t" using t by simp
  obtain s1 where s1: "took x False s s1" and R: "case List.find (can s) ?ys of
         None \<Rightarrow> widget_focusNextR (root t) ?k = Inr (None, ?k\<lparr>fw_store := s1, redraw := redraw ?k @ [x], alreadyUnset := True\<rparr>)
       | Some y \<Rightarrow> \<exists>s2. took y True s1 s2 \<and> widget_focusNextR (root t) ?k =
           Inr (Some (), ?k\<lparr>fw_store := s2, redraw := redraw ?k @ [x, y], alreadyUnset := True, alreadySet := True\<rparr>)"
    using focusNextR_run [OF tk, of "Some x"] cur x by auto
  note took1 = took_simps [OF s1 t]
  note finish = took_both [OF t x cur s1]
  show ?thesis
  proof (cases "List.find (can s) ?ys")
    case (Some y)
    then have "y \<in> set ?ws" using find_Some_mem [OF Some] by (metis list.set_sel(2) set_dropWhileD tl_Nil)
    with R Some finish show ?thesis by (auto simp: widget_focusNext_def focus_succ_def find_append)
  next
    case N: None
    let ?k1 = "?k\<lparr>fw_store := s1, redraw := redraw ?k @ [x], alreadyUnset := True\<rparr>"
    have succ: "focus_succ (can s) ?ws (Some x) = List.find (can s) ?ws" using N by (simp add: focus_succ_def find_append)
    have F: "widget_focusNextR (root t) ?k = Inr (None, ?k1)" "plain_tree (fw_store ?k1) t" using R N took1(1) by simp_all
    show ?thesis
    proof (cases "List.find (can s) ?ws")
      case N: None
      then have "widget_focusNext (root t) s = each (dataobject_setIsModified True) [x] s1"
        using focusFirst_run [OF F(2)] F(1) took1 by (simp add: widget_focusNext_def)
      then show ?thesis using focus_movedI [OF t took1(5) took1(4), of None "[x]" "Some x"] succ N took1 cur x by auto
    next
      case S: (Some y)
      then obtain s2 where "took y True s1 s2" "widget_focusNext (root t) s = each (dataobject_setIsModified True) [x, y] s2"
        using focusFirst_run [OF F(2)] F(1) took1 by (auto simp: widget_focusNext_def)
      then show ?thesis using finish succ S find_Some_mem [OF S] by simp
    qed
  qed
qed

lemma focusNext_moves:
  assumes t: "plain_tree s t" and cur: "\<forall>w \<in> set (preorder t). focused s w \<longleftrightarrow> cur = Some w" and ct: "set_option cur \<subseteq> set (preorder t)"
  shows "\<exists>s'. widget_focusNext (root t) s = Inr s' \<and> focus_moved t s cur (focus_succ (can s) (preorder t) cur) s'"
proof (cases cur)
  case None
  then show ?thesis using focusNext_from_none [OF t] cur by simp
next
  case (Some x)
  then show ?thesis using focusNext_from [OF t, of x] cur ct by auto
qed

lemma focusWhichOne_run:
  assumes t: "plain_tree s t" and cur: "\<forall>w \<in> set (preorder t). focused s w \<longleftrightarrow> cur = Some w" and ct: "set_option cur \<subseteq> set (preorder t)"
  shows "case cur of None \<Rightarrow> widget_focusWhichOne (root t) s = Inr (None, s)
     | Some x \<Rightarrow> \<exists>s'. widget_focusWhichOne (root t) s = Inr (Some x, s') \<and> took x False s s'"
proof -
  let ?step = "find_step (\<lambda>w. widget_setFocus w 0)"
  have "widget_focusWhichOne (root t) s = until_hit ?step (preorder t) s"
    using clear.walk_preorder [OF t subtrees_self] is_tree_height [of s t] t
    by (simp add: widget_focusWhichOne_def plain_tree_def del: find_focus.simps)
  also have "\<dots> = (case List.find (focused s) (preorder t) of None \<Rightarrow> Inr (None, s) | Some w \<Rightarrow> ?step w s)"
    using focus_set [OF t, of _ 0] by (intro until_find) (fastforce simp: find_step_def)+
  also have "List.find (focused s) (preorder t) = cur"
  proof (cases cur)
    case None
    with cur show ?thesis by (simp add: find_None_iff)
  next
    case (Some x)
    then have "List.find (focused s) (preorder t) \<noteq> None" using cur ct by (auto simp: find_None_iff)
    then show ?thesis using cur Some find_Some_mem by fastforce
  qed
  finally have run: "widget_focusWhichOne (root t) s = (case cur of None \<Rightarrow> Inr (None, s) | Some w \<Rightarrow> ?step w s)" .
  show ?thesis
  proof (cases cur)
    case (Some x)
    then have "x \<in> set (preorder t)" "focused s x" using cur ct by auto
    with plain_setFocus [OF t this(1), of 0] run Some show ?thesis by (auto simp: find_step_def took_def)
  qed (simp add: run)
qed

lemma widget_focusLast_run:
  assumes t: "plain_tree s t"
  shows "widget_focusLast (root t) s = (case List.find (can s) (rev (preorder t)) of None \<Rightarrow> Inr (None, s) | Some w \<Rightarrow> last_step w s)"
  unfolding widget_focusLast_def using is_tree_height [of s t] t by (intro focusLast_run) (auto simp: plain_tree_def)

lemma focusPrev_target:
  assumes t: "plain_tree s t" and x: "x \<in> set (preorder t)"
  shows "bind_res (widget_focusPrevR x s) (\<lambda>(newW, s). case newW of Some x \<Rightarrow> Inr (newW, s) | None \<Rightarrow> widget_focusLast (root t) s) =
     (case focus_pred (can s) (preorder t) (Some x) of None \<Rightarrow> Inr (None, s) | Some y \<Rightarrow> last_step y s)"
proof (cases "List.find (can s) (rev (takeWhile (\<lambda>w. w \<noteq> x) (preorder t)))")
  case (Some y)
  have "y \<in> set (preorder t)" "can s y" using find_Some_mem [OF Some] by (auto dest: set_takeWhileD)
  then show ?thesis using focusPrevR_run [OF t x] last_step_run [OF t, of y] Some by (auto simp: focus_pred_def find_append)
qed (use focusPrevR_run [OF t x] widget_focusLast_run [OF t] in \<open>auto simp: focus_pred_def find_append\<close>)

lemma focus_pred_mem: "focus_pred P ws cur = Some y \<Longrightarrow> y \<in> set ws \<and> P y"
  by (auto simp: focus_pred_def dest!: find_Some_mem dest: set_takeWhileD split: option.splits)

lemma focusPrev_from_none:
  assumes t: "plain_tree s t" and cur: "\<forall>w \<in> set (preorder t). \<not> focused s w"
  shows "\<exists>s'. widget_focusPrev (root t) s = Inr s' \<and> focus_moved t s None (focus_pred (can s) (preorder t) None) s'"
proof -
  have which: "widget_focusWhichOne (root t) s = Inr (None, s)" using focusWhichOne_run [OF t, of None] cur by simp
  show ?thesis
  proof (cases "List.find (can s) (rev (preorder t))")
    case None
    then have "widget_focusPrev (root t) s = each (dataobject_setIsModified True) [] s"
      using which widget_focusLast_run [OF t] by (simp add: widget_focusPrev_def mark_modified_each)
    moreover have "focus_pred (can s) (preorder t) None = None" using None by (simp add: focus_pred_def)
    ultimately show ?thesis using focus_movedI [OF t calm_refl [OF t], of None "[]" None] cur by simp
  next
    case (Some y)
    have y: "y \<in> set (preorder t)" "can s y" using find_Some_mem [OF Some] by auto
    then obtain s1 where s1: "widget_focusPrev (root t) s = each (dataobject_setIsModified True) [y] s1" "took y True s s1"
      using which widget_focusLast_run [OF t] last_step_run [OF t y] Some by (auto simp: widget_focusPrev_def mark_modified_each)
    moreover have "focus_pred (can s) (preorder t) None = Some y" using Some by (simp add: focus_pred_def)
    ultimately show ?thesis using focus_movedI [OF t, of s1 "Some y" "[y]" None] took_simps [OF s1(2) t] cur y by auto
  qed
qed

lemma focusPrev_from:
  assumes t: "plain_tree s t" and x: "x \<in> set (preorder t)" and cur: "\<forall>w \<in> set (preorder t). focused s w \<longleftrightarrow> w = x"
  shows "\<exists>s'. widget_focusPrev (root t) s = Inr s' \<and> focus_moved t s (Some x) (focus_pred (can s) (preorder t) (Some x)) s'"
proof -
  let ?ws = "preorder t" and ?new = "focus_pred (can s) (preorder t) (Some x)"
  obtain s0 where s0: "widget_focusWhichOne (root t) s = Inr (Some x, s0)" "took x False s s0"
    using focusWhichOne_run [OF t, of "Some x"] cur x by auto
  note took0 = took_simps [OF s0(2) t]
  obtain s1 where s1: "widget_setFocus x 0 s0 = Inr s1" "took x False s0 s1"
    using plain_setFocus [OF took0(1) x, of 0] by (auto simp: took_def)
  note took1 = took_simps [OF s1(2) took0(1)]
  obtain f where f: "dataobject_getEnum s0 x EMO_FIELD_TYPE = Inr (Some f)" "EMO_DOF_IS_TYPE s0 (Some f) EMO_TYPE_SCROLLED = Inr False"
    using plain_type [of s0 x] took0(1) x by (auto simp: plain_tree_def)
  have s01: "took x False s s1" using calm_trans [OF took0(5) took1(5)] took0 took1 by (simp add: took_def)
  note target = focusPrev_target [OF took1(1) x, unfolded took1(2) took0(2)]
  show ?thesis
  proof (cases ?new)
    case None
    then have "widget_focusPrev (root t) s = each (dataobject_setIsModified True) [x] s1"
      using s0(1) s1(1) f target by (auto simp: widget_focusPrev_def mark_modified_each split: sum.splits)
    then show ?thesis using focus_movedI [OF t, of s1 None "[x]" "Some x"] took_simps [OF s01 t] None cur x by auto
  next
    case (Some y)
    have y: "y \<in> set ?ws" "can s1 y" using focus_pred_mem [OF Some] took0(2) took1(2) by auto
    then obtain s2 where s2: "last_step y s1 = Inr (Some y, s2)" "took y True s1 s2" using last_step_run [OF took1(1)] by blast
    have "widget_focusPrev (root t) s = each (dataobject_setIsModified True) [x, y] s2"
      using s0(1) s1(1) f target Some s2(1) by (auto simp: widget_focusPrev_def mark_modified_each split: sum.splits)
    then show ?thesis using took_both [OF t x cur s01 s2(2) y(1)] Some by simp
  qed
qed

lemma focusPrev_moves:
  assumes t: "plain_tree s t" and cur: "\<forall>w \<in> set (preorder t). focused s w \<longleftrightarrow> cur = Some w" and ct: "set_option cur \<subseteq> set (preorder t)"
  shows "\<exists>s'. widget_focusPrev (root t) s = Inr s' \<and> focus_moved t s cur (focus_pred (can s) (preorder t) cur) s'"
proof (cases cur)
  case None
  then show ?thesis using focusPrev_from_none [OF t] cur by simp
next
  case (Some x)
  then show ?thesis using focusPrev_from [OF t, of x] cur ct by auto
qed

section \<open>Properties\<close>

lemma succ_pred:
  assumes "distinct ws" and "x \<in> set ws" and "P x"
  shows "focus_pred P ws (focus_succ P ws (Some x)) = Some x"
proof -
  obtain xs ys where w: "ws = xs @ x # ys" "tl (dropWhile (\<lambda>w. w \<noteq> x) ws) = ys" using focus_split [OF assms(2,1)] by metis
  show ?thesis
  proof (cases "List.find P ys")
    case (Some y)
    then obtain zs vs where y: "ys = zs @ y # vs" "P y" "\<forall>z \<in> set zs. \<not> P z"
      by (metis find_Some_iff in_set_conv_nth id_take_nth_drop nth_take length_take min.absorb4)
    then have "ws = (xs @ x # zs) @ y # vs" "\<forall>w \<in> set (xs @ x # zs). w \<noteq> y" using assms(1) w(1) by auto
    then have "takeWhile (\<lambda>w. w \<noteq> y) ws = xs @ x # zs" using takeWhile_tail [of "\<lambda>w. w \<noteq> y" y "xs @ x # zs" vs] by (simp add: takeWhile_append2)
    moreover have "List.find P (rev zs) = None" using y(3) by (simp add: find_None_iff)
    ultimately show ?thesis using Some w assms(3) by (simp add: focus_succ_def focus_pred_def find_append)
  next
    case None
    obtain y where y: "List.find P ws = Some y" using assms(2,3) by (cases "List.find P ws") (auto simp: find_None_iff)
    then obtain zs vs where z: "ws = zs @ y # vs" "\<forall>z \<in> set zs. \<not> P z"
      by (metis find_Some_iff in_set_conv_nth id_take_nth_drop nth_take length_take min.absorb4)
    then have "takeWhile (\<lambda>w. w \<noteq> y) ws = zs" using assms(1) by (auto simp: takeWhile_tail)
    moreover have "List.find P (rev zs) = None" "List.find P (rev ys) = None" using z(2) None by (auto simp: find_None_iff)
    moreover have "List.find P (rev ws) = Some x" using calculation(3) w(1) assms(3) by (simp add: find_append)
    ultimately show ?thesis using None w y by (simp add: focus_succ_def focus_pred_def find_append)
  qed
qed

text \<open>
  C32: On every tree of plain widgets in which at most one widget has the focus, \<open>widget_focusNext\<close> returns and moves the focus to the widget that
  follows in depth-first order among those that can have it, going round at the end, and \<open>widget_focusPrev\<close> to the one before it, going
  round at the beginning; afterwards that widget alone has the focus (none if no widget can have it), the tree is unchanged,
  and exactly the widgets that lost and got the focus were added to the render queue.
\<close>

theorem widget_focus_order:
  assumes "plain_tree s t" and "\<forall>w \<in> set (preorder t). focused s w \<longleftrightarrow> cur = Some w" and "set_option cur \<subseteq> set (preorder t)"
  shows "(\<exists>s'. widget_focusNext (root t) s = Inr s' \<and> focus_moved t s cur (focus_succ (can s) (preorder t) cur) s') \<and>
     (\<exists>s'. widget_focusPrev (root t) s = Inr s' \<and> focus_moved t s cur (focus_pred (can s) (preorder t) cur) s')"
  using focusNext_moves [OF assms] focusPrev_moves [OF assms] by blast

text \<open>A box with a label, which cannot have the focus, and two entries.\<close>

definition form_widget :: "addr \<Rightarrow> addr list \<Rightarrow> addr option \<Rightarrow> (int \<times> addr) list \<Rightarrow> DataObject" where
  "form_widget a cs p fs = new_obj\<lparr>state := DOS_OK, children := cs, parent := p, d_enumData := (EMO_FIELD_TYPE, a) # fs\<rparr>"

definition form_store :: store where
  "form_store = demo_store\<lparr>
     objs := [0 \<mapsto> form_widget 4 [1, 2, 3] None [], 1 \<mapsto> form_widget 5 [] (Some 0) [],
        2 \<mapsto> form_widget 6 [] (Some 0) [(EMO_FIELD_CANFOCUS, 8), (EMO_FIELD_HASFOCUS, 9)], 3 \<mapsto> form_widget 7 [] (Some 0) [(EMO_FIELD_CANFOCUS, 10)]],
     flds := [4 \<mapsto> \<lparr>f_val = DOF_STRING (Builtin EMO_TYPE_BOX), f_flags = 0\<rparr>, 5 \<mapsto> \<lparr>f_val = DOF_STRING (Builtin EMO_TYPE_LABEL), f_flags = 0\<rparr>,
        6 \<mapsto> \<lparr>f_val = DOF_STRING (Builtin EMO_TYPE_ENTRY), f_flags = 0\<rparr>, 7 \<mapsto> \<lparr>f_val = DOF_STRING (Builtin EMO_TYPE_ENTRY), f_flags = 0\<rparr>,
        8 \<mapsto> \<lparr>f_val = DOF_INT 1, f_flags = 0\<rparr>, 9 \<mapsto> \<lparr>f_val = DOF_INT 1, f_flags = 0\<rparr>, 10 \<mapsto> \<lparr>f_val = DOF_INT 1, f_flags = 0\<rparr>],
     next_addr := 11\<rparr>"

definition form_tree :: otree where "form_tree = Node 0 [Node 1 [], Node 2 [], Node 3 []]"

lemma form_ok: "plain_tree form_store form_tree"
proof -
  note field_numbers = EMO_FIELD_TYPE_def EMO_FIELD_CANFOCUS_def EMO_FIELD_HASFOCUS_def
  have "store_ok form_store"
    by (auto simp: store_ok_def owns_def form_store_def form_widget_def new_obj_def obj_ok_def owned_fields_def field_numbers split: if_splits)
  moreover have "is_tree form_store form_tree"
    by (auto simp: is_tree_alt form_tree_def form_store_def form_widget_def tree_links_alt kids_of_def parent_of_def new_obj_def)
  moreover have "plain form_store w" if "w \<in> set (preorder form_tree)" for w
    using that by (auto simp: form_tree_def plain_def direct_def attr_def form_store_def form_widget_def new_obj_def am_find_def field_numbers emo_type_defs
        split: if_splits)
  moreover have "rm_ok (renderman form_store)" by (simp add: form_store_def demo_store_def rm_ok_def array_wf_def)
  ultimately show ?thesis by (simp add: plain_tree_def)
qed

lemma form_focus: "\<forall>w \<in> set (preorder form_tree). focused form_store w \<longleftrightarrow> Some 2 = Some w" "can form_store = (\<lambda>w. w = 2 \<or> w = 3)"
  by (auto simp: form_tree_def focused_def can_def attr_def form_store_def form_widget_def new_obj_def am_find_def
      EMO_FIELD_TYPE_def EMO_FIELD_CANFOCUS_def EMO_FIELD_HASFOCUS_def fun_eq_iff)

theorem widget_focus_order_witness:
  "\<exists>s'. widget_focusNext 0 form_store = Inr s' \<and> focused s' 3 \<and> \<not> focused s' 2 \<and> \<not> focused s' 1"
  using widget_focus_order [OF form_ok form_focus(1)] form_focus(2)
  by (auto simp: form_tree_def focus_moved_def focus_succ_def)

lemma prev_undoes_next:
  assumes t: "plain_tree s t" and x: "x \<in> set (preorder t)" and c: "can s x" and f: "\<forall>w \<in> set (preorder t). focused s w \<longleftrightarrow> w = x"
  shows "\<exists>s1 s2. widget_focusNext (root t) s = Inr s1 \<and> widget_focusPrev (root t) s1 = Inr s2 \<and> (\<forall>w \<in> set (preorder t). focused s2 w \<longleftrightarrow> w = x)"
proof -
  let ?y = "focus_succ (can s) (preorder t) (Some x)"
  obtain s1 where s1: "widget_focusNext (root t) s = Inr s1" "focus_moved t s (Some x) ?y s1"
    using focusNext_moves [OF t, of "Some x"] f x by auto
  have y: "set_option ?y \<subseteq> set (preorder t)"
    by (auto simp: focus_succ_def dest!: find_Some_mem) (metis list.set_sel(2) set_dropWhileD tl_Nil)
  obtain s2 where s2: "widget_focusPrev (root t) s1 = Inr s2" "focus_moved t s1 ?y (focus_pred (can s) (preorder t) ?y) s2"
    using focusPrev_moves [of s1 t ?y] s1(2) y by (auto simp: focus_moved_def)
  moreover have "focus_pred (can s) (preorder t) ?y = Some x"
    using succ_pred [of "preorder t" x "can s"] t x c by (simp add: plain_tree_def is_tree_def)
  ultimately show ?thesis using s1(1) by (auto simp: focus_moved_def)
qed

text \<open>
  C33: \<open>widget_focusPrev\<close> undoes \<open>widget_focusNext\<close>: on every tree of plain widgets, when a widget that can have the focus has it, moving the
  focus forward and back returns and gives the focus to the same widget and to no other.
\<close>

theorem focusPrev_focusNext_roundtrip:
  assumes "plain_tree s t" and "x \<in> set (preorder t)" and "can s x" and "\<forall>w \<in> set (preorder t). focused s w \<longleftrightarrow> w = x"
  shows "\<exists>s1 s2. widget_focusNext (root t) s = Inr s1 \<and> widget_focusPrev (root t) s1 = Inr s2 \<and>
     (\<forall>w \<in> set (preorder t). focused s2 w \<longleftrightarrow> w = x)"
  by (rule prev_undoes_next [OF assms])

theorem focusPrev_focusNext_roundtrip_witness:
  "\<exists>s1 s2. widget_focusNext 0 form_store = Inr s1 \<and> widget_focusPrev 0 s1 = Inr s2 \<and> focused s2 2 \<and> \<not> focused s2 3"
  using focusPrev_focusNext_roundtrip [OF form_ok, of 2] form_focus by (auto simp: form_tree_def)

end
