(* ===== verification/Utf8_Text.thy ===== *)
theory Utf8_Text
  imports C_Prelude "HOL-Library.Word"
begin

text \<open>
  Decoding of UTF-8: \<open>UTF8toUTF32\<close> of \<open>Font.c\<close> with its two tables, and the width of a line of text, \<open>lgui_measure_font\<close> of \<open>lgui.c\<close>. The glyphs of a font
  come from FreeType: what is needed of them, the advance of a glyph or none, is an argument.

  A string is the list of its bytes without the final zero. The decoder reads as many bytes as the first one announces; a read behind
  the final zero is \<open>OutOfBounds\<close>. The specification \<open>utf8\<close> is the encoding of RFC 3629.
\<close>

unbundle bit_operations_syntax

section \<open>The decoder\<close>

definition trailingBytesForUTF8 :: "nat list" where
  "trailingBytesForUTF8 = replicate 192 0 @ replicate 32 1 @ replicate 16 2 @ replicate 8 3 @ replicate 4 4 @ replicate 4 5"

definition offsetsFromUTF8 :: "32 word list" where
  "offsetsFromUTF8 = [0x00000000, 0x00003080, 0x000E2080, 0x03C82080, 0xFA082080, 0x82082080]"

definition UNI_SUR_HIGH_START :: "32 word" where "UNI_SUR_HIGH_START = 0xD800"
definition UNI_SUR_LOW_END :: "32 word" where "UNI_SUR_LOW_END = 0xDFFF"
definition UNI_REPLACEMENT_CHAR :: "32 word" where "UNI_REPLACEMENT_CHAR = 0xFFFD"

text \<open>\<open>source[i]\<close> as an unsigned byte.\<close>

definition byte_at :: "string \<Rightarrow> nat \<Rightarrow> nat res" where
  "byte_at str i = (if i < length str then Inr (of_char (str ! i)) else if i = length str then Inr 0 else Inl OutOfBounds)"

text \<open>The cases of the switch fall through, from the number of extra bytes down to 0.\<close>

fun utf8_sum :: "string \<Rightarrow> nat \<Rightarrow> nat \<Rightarrow> 32 word \<Rightarrow> 32 word res" where
  "utf8_sum str i 0 ch = bind_res (byte_at str i) (\<lambda>b. Inr (ch + of_nat b))"
| "utf8_sum str i (Suc n) ch = bind_res (byte_at str i) (\<lambda>b. utf8_sum str (Suc i) n (push_bit 6 (ch + of_nat b)))"

definition UTF8toUTF32 :: "string \<Rightarrow> (32 word \<times> nat) res" where
  "UTF8toUTF32 str =
     bind_res (byte_at str 0) (\<lambda>b.
     let extra = trailingBytesForUTF8 ! b in
     bind_res (utf8_sum str 0 extra 0) (\<lambda>ch.
     let ch = ch - offsetsFromUTF8 ! extra;
         ch = (if UNI_SUR_HIGH_START \<le> ch \<and> ch \<le> UNI_SUR_LOW_END then UNI_REPLACEMENT_CHAR else ch)
     in Inr (ch, extra + 1)))"

text \<open>\<open>font_getGlyph\<close>: the advance of the glyph of a character, or none when the glyph is missing.\<close>

fun measure_loop :: "nat \<Rightarrow> (32 word \<Rightarrow> bool \<Rightarrow> int option) \<Rightarrow> bool \<Rightarrow> string \<Rightarrow> int \<Rightarrow> int res" where
  "measure_loop 0 glyph isBold p x = Inl Diverge"
| "measure_loop (Suc n) glyph isBold p x =
     (if p = [] then Inr x
      else
        bind_res (UTF8toUTF32 p) (\<lambda>(val, adv).
        let x = (case glyph val isBold of None \<Rightarrow> x | Some xadvance \<Rightarrow> x + xadvance) in
        if adv \<le> length p then measure_loop n glyph isBold (drop adv p) x else Inl OutOfBounds))"

definition lgui_measure_font :: "(32 word \<Rightarrow> bool \<Rightarrow> int option) \<Rightarrow> int \<Rightarrow> string \<Rightarrow> bool \<Rightarrow> (int \<times> int) res" where
  "lgui_measure_font glyph fontHeight str isBold =
     bind_res (measure_loop (Suc (length str)) glyph isBold str 0) (\<lambda>x. Inr (x, fontHeight + 1))"

section \<open>The encoding\<close>

definition utf8 :: "nat \<Rightarrow> string" where
  "utf8 c = map char_of
     (if c < 0x80 then [c]
      else if c < 0x800 then [0xC0 + c div 0x40, 0x80 + c mod 0x40]
      else if c < 0x10000 then [0xE0 + c div 0x1000, 0x80 + c div 0x40 mod 0x40, 0x80 + c mod 0x40]
      else [0xF0 + c div 0x40000, 0x80 + c div 0x1000 mod 0x40, 0x80 + c div 0x40 mod 0x40, 0x80 + c mod 0x40 :: nat])"

definition scalar_value :: "nat \<Rightarrow> bool" where
  "scalar_value c \<longleftrightarrow> 0 < c \<and> c < 0x110000 \<and> \<not> (0xD800 \<le> c \<and> c \<le> 0xDFFF)"

abbreviation utf8_text :: "nat list \<Rightarrow> string" where "utf8_text cs \<equiv> concat (map utf8 cs)"

lemma trailing_bytes:
  "b < 192 \<Longrightarrow> trailingBytesForUTF8 ! b = 0" "192 \<le> b \<Longrightarrow> b < 224 \<Longrightarrow> trailingBytesForUTF8 ! b = 1"
  "224 \<le> b \<Longrightarrow> b < 240 \<Longrightarrow> trailingBytesForUTF8 ! b = 2" "240 \<le> b \<Longrightarrow> b < 248 \<Longrightarrow> trailingBytesForUTF8 ! b = 3"
  by (auto simp: trailingBytesForUTF8_def nth_append)

lemma byte_at_char [simp]: "byte_at (char_of b # r) 0 = Inr (b mod 256)"
  by (simp add: byte_at_def)

lemma byte_at_Suc [simp]: "byte_at (c # r) (Suc i) = byte_at r i"
  by (simp add: byte_at_def)

lemma scalar_word: "scalar_value c \<Longrightarrow> \<not> (UNI_SUR_HIGH_START \<le> (of_nat c :: 32 word) \<and> (of_nat c :: 32 word) \<le> UNI_SUR_LOW_END)"
  by (simp add: scalar_value_def UNI_SUR_HIGH_START_def UNI_SUR_LOW_END_def word_le_nat_alt unat_of_nat)

lemma decode_word:
  assumes "scalar_value c" and "byte_at str 0 = Inr b" and "trailingBytesForUTF8 ! b = n"
    and "utf8_sum str 0 n 0 = Inr (of_nat c + offsetsFromUTF8 ! n)"
  shows "UTF8toUTF32 str = Inr (of_nat c, n + 1)"
  using assms scalar_word [OF assms(1)] by (auto simp: UTF8toUTF32_def Let_def)

lemma push6: "push_bit 6 (w :: 32 word) = w * 64"
  by (simp add: push_bit_eq_mult)

lemma base64: "(of_nat (c div 64) :: 32 word) * 64 + of_nat (c mod 64) = of_nat c"
  by (metis div_mult_mod_eq of_nat_add of_nat_mult of_nat_numeral)

lemma decode_utf8:
  assumes "scalar_value c"
  shows "UTF8toUTF32 (utf8 c @ rest) = Inr (of_nat c, length (utf8 c))"
proof -
  have top: "c < 0x110000" using assms by (simp add: scalar_value_def)
  have b2: "(of_nat (c div 4096) :: 32 word) * 64 + of_nat (c div 64 mod 64) = of_nat (c div 64)"
    using base64 [of "c div 64"] by (simp add: div_mult2_eq [symmetric])
  have b3: "(of_nat (c div 262144) :: 32 word) * 64 + of_nat (c div 4096 mod 64) = of_nat (c div 4096)"
    using base64 [of "c div 4096"] by (simp add: div_mult2_eq [symmetric])
  consider "c < 0x80" | "0x80 \<le> c" "c < 0x800" | "0x800 \<le> c" "c < 0x10000" | "0x10000 \<le> c" by linarith
  then show ?thesis
  proof cases
    case 1
    then show ?thesis using decode_word [OF assms, of "utf8 c @ rest" c 0] by (simp add: utf8_def trailing_bytes offsetsFromUTF8_def)
  next
    case 2
    let ?b = "0xC0 + c div 64"
    have b: "?b < 224" using 2 by simp
    have "(0 + of_nat ?b) * 64 + of_nat (0x80 + c mod 64) = (of_nat c :: 32 word) + 0x3080"
      using base64 [of c] by (simp add: algebra_simps)
    then show ?thesis using decode_word [OF assms, of "utf8 c @ rest" ?b 1] 2 b
      by (simp add: utf8_def trailing_bytes offsetsFromUTF8_def push6 mod_less)
  next
    case 3
    let ?b = "0xE0 + c div 4096"
    have b: "?b < 240" using 3 by simp
    have "((0 + of_nat ?b) * 64 + of_nat (0x80 + c div 64 mod 64)) * 64 + of_nat (0x80 + c mod 64) = (of_nat c :: 32 word) + 0xE2080"
      using base64 [of c] b2 by (simp add: algebra_simps)
    then show ?thesis using decode_word [OF assms, of "utf8 c @ rest" ?b 2] 3 b
      by (simp add: utf8_def trailing_bytes offsetsFromUTF8_def push6 mod_less numeral_2_eq_2)
  next
    case 4
    let ?b = "0xF0 + c div 262144"
    have b: "?b < 248" using top by simp
    have "(((0 + of_nat ?b) * 64 + of_nat (0x80 + c div 4096 mod 64)) * 64 + of_nat (0x80 + c div 64 mod 64)) * 64 + of_nat (0x80 + c mod 64) =
        (of_nat c :: 32 word) + 0x3C82080"
      using base64 [of c] b2 b3 by (simp add: algebra_simps)
    then show ?thesis using decode_word [OF assms, of "utf8 c @ rest" ?b 3] 4 b
      by (simp add: utf8_def trailing_bytes offsetsFromUTF8_def push6 mod_less numeral_3_eq_3)
  qed
qed

lemma utf8_nonempty [simp]: "utf8 c \<noteq> []"
  by (simp add: utf8_def)

lemma utf8_ascii: "c < 0x80 \<Longrightarrow> utf8 c = [char_of c]"
  by (simp add: utf8_def)

lemma ascii_string: "\<forall>x \<in> set t. (of_char x :: nat) < 128 \<Longrightarrow> utf8_text (map of_char t) = t"
  by (induction t) (auto simp: utf8_ascii)

lemma measure_loop_run:
  "(\<And>c. c \<in> set cs \<Longrightarrow> scalar_value c) \<Longrightarrow> length (concat (map utf8 cs)) < n \<Longrightarrow>
   measure_loop n glyph isBold (concat (map utf8 cs)) x = Inr (x + (\<Sum>c\<leftarrow>cs. case glyph (of_nat c) isBold of None \<Rightarrow> 0 | Some a \<Rightarrow> a))"
proof (induction cs arbitrary: n x)
  case Nil
  then show ?case by (cases n) auto
next
  case (Cons c cs)
  obtain m where n: "n = Suc m" using Cons.prems(2) by (cases n) auto
  have "1 \<le> length (utf8 c)" by (simp add: Suc_le_eq)
  moreover have "length (utf8 c) + length (concat (map utf8 cs)) < Suc m" using Cons.prems(2) n by simp
  ultimately have m: "length (concat (map utf8 cs)) < m" by linarith
  have "UTF8toUTF32 (utf8 c @ concat (map utf8 cs)) = Inr (of_nat c, length (utf8 c))" using decode_utf8 Cons.prems(1) by simp
  then show ?case using Cons.IH [OF _ m] Cons.prems(1) by (auto simp: n Let_def algebra_simps split: option.split)
qed

section \<open>Properties\<close>



end
