(* ===== verification/Text_Entry.thy ===== *)
theory Text_Entry
  imports Widget_Focus Utf8_Text
begin

text \<open>
  Key handling of the entry and check box widgets, \<open>entryWidget_handleKey\<close> of \<open>EntryWidget.c\<close> and \<open>checkboxWidget_handleKey\<close> of \<open>CheckBoxWidget.c\<close>, and the map from the
  keys of the keypad to the keys of the client, \<open>peek/KeyMappings.c\<close>.

  The text of an entry is the field \<open>data\<close> of the object it shows, the cursor the field \<open>cursor\<close> of the widget, counted in characters. The
  specification is an editor on a list of characters and a position, \<open>edit\<close>.
\<close>

section \<open>Keys\<close>

definition EKEY_FOCUSPREV :: "32 word" where "EKEY_FOCUSPREV = 0xFFFFFF01"
definition EKEY_FOCUSNEXT :: "32 word" where "EKEY_FOCUSNEXT = 0xFFFFFF02"
definition EKEY_ACTIVATE :: "32 word" where "EKEY_ACTIVATE = 0xFFFFFF03"
definition EKEY_ALTTAB :: "32 word" where "EKEY_ALTTAB = 0xFFFFFF04"
definition EKEY_BACK :: "32 word" where "EKEY_BACK = 0xFFFFFF05"
definition EKEY_FOCUSLEFT :: "32 word" where "EKEY_FOCUSLEFT = 0xFFFFFF06"
definition EKEY_FOCUSRIGHT :: "32 word" where "EKEY_FOCUSRIGHT = 0xFFFFFF07"

definition KEY_BS :: "32 word" where "KEY_BS = 8"

lemmas ekey_defs = EKEY_FOCUSPREV_def EKEY_FOCUSNEXT_def EKEY_ACTIVATE_def EKEY_ALTTAB_def EKEY_BACK_def EKEY_FOCUSLEFT_def EKEY_FOCUSRIGHT_def KEY_BS_def

text \<open>The key numbers that are mapped: the position in \<open>SysKeyIdT\<close>, from \<open>SYS_0_KEY = 2\<close> on, with the characters in the order of the enumeration.\<close>

definition sys_key_chars :: "(nat \<times> string) list" where
  "sys_key_chars =
     [(2, ''0123456789''), (12, ''abcdefghijklmnopqrstuvwxyz''), (39, ''.@'' @ [CHR 0x27]), (43, ''- ,''),
      (50, ''ABCDEFGHIJKLMNOPQRSTUVWXYZ''), (76, ''!?#$%/&*()''), (88, '':;'' @ [CHR 0x22] @ ''_='')]"

definition sys_key_codes :: "(nat \<times> 32 word) list" where
  "sys_key_codes =
     concat (map (\<lambda>(start, cs). zip [start ..< start + length cs] (map (\<lambda>c. of_nat (of_char c)) cs)) sys_key_chars) @
     [(48, KEY_BS), (38, EKEY_ACTIVATE), (46, EKEY_ACTIVATE), (87, EKEY_FOCUSPREV), (86, EKEY_FOCUSNEXT), (47, EKEY_BACK), (42, EKEY_ALTTAB)]"

definition MapKeyToInternal :: "nat \<Rightarrow> 32 word" where
  "MapKeyToInternal key = (case map_of sys_key_codes key of None \<Rightarrow> 0 | Some k \<Rightarrow> k)"

section \<open>The entry widget\<close>

text \<open>\<open>isprint\<close> in the C locale is specified for the values of a byte only.\<close>

definition c_isprint :: "32 word \<Rightarrow> bool res" where
  "c_isprint k = (if k \<le> 255 then Inr (0x20 \<le> k \<and> k \<le> 0x7E) else Inl OutOfBounds)"

definition entry_accepts :: "32 word \<Rightarrow> bool res" where
  "entry_accepts key =
     (if key = EKEY_FOCUSLEFT \<or> key = EKEY_FOCUSRIGHT then Inr True
      else if key > 0xFFFFFF00 then Inr False
      else bind_res (c_isprint key) (\<lambda>p. Inr (p \<or> key = KEY_BS)))"

text \<open>The field that is read, or a new one when there is none.\<close>

definition ensure_enum :: "addr \<Rightarrow> int \<Rightarrow> addr option \<Rightarrow> dof_val \<Rightarrow> store \<Rightarrow> (addr \<times> store) res" where
  "ensure_enum w key field v s =
     (case field of
        Some f \<Rightarrow> Inr (f, s)
      | None \<Rightarrow> (let (f, s) = new_fld v s in bind_res (dataobject_setEnum w key f s) (\<lambda>s. Inr (f, s))))"

text \<open>
  The loop to the cursor: the offset in bytes, with the offset and the length of the last character passed. \<open>None\<close> when the end of the text
  comes first. \<open>lastpos\<close> and \<open>adv\<close> start at 0.
\<close>

fun entry_seek :: "string \<Rightarrow> nat \<Rightarrow> nat \<Rightarrow> nat \<Rightarrow> nat \<Rightarrow> (nat \<times> nat \<times> nat) option res" where
  "entry_seek str 0 pos lastpos adv = Inr (Some (pos, lastpos, adv))"
| "entry_seek str (Suc n) pos lastpos adv =
     (if pos \<le> length str then
        bind_res (UTF8toUTF32 (drop pos str)) (\<lambda>(ch, adv). if ch = 0 then Inr None else entry_seek str n (pos + adv) pos adv)
      else Inl OutOfBounds)"

definition key_bytes :: "32 word \<Rightarrow> string" where
  "key_bytes key =
     (let keylen = (if key AND 0xFF000000 \<noteq> 0 then 4 else if key AND 0xFF0000 \<noteq> 0 then 3 else if key AND 0xFF00 \<noteq> 0 then 2 else 1)
      in take keylen (map (\<lambda>i. char_of (unat (drop_bit (8 * i) key AND 0xFF))) [0, 1, 2, 3]))"

text \<open>
  The member \<open>string\<close> written: in place for backspace, by a new string for a character, when the old one is freed; both fail on a name of
  the table of types.
\<close>

definition entry_store :: "addr \<Rightarrow> dof_string \<Rightarrow> string \<Rightarrow> store \<Rightarrow> store res" where
  "entry_store f old str s =
     bind_res (get_fld s f) (\<lambda>fl. case old of Builtin _ \<Rightarrow> Inl BadFree | Owned _ \<Rightarrow> Inr (put_fld f (fl\<lparr>f_val := DOF_STRING (Owned str)\<rparr>) s))"

definition entry_left :: "addr \<Rightarrow> addr \<Rightarrow> int \<Rightarrow> store \<Rightarrow> store res" where
  "entry_left w cf cursorindex s =
     (if cursorindex - 1 \<ge> 0 then bind_res (set_integer (cursorindex - 1) cf s) (dataobject_setIsModified True w) else Inr s)"

definition entry_right :: "addr \<Rightarrow> addr \<Rightarrow> string \<Rightarrow> int \<Rightarrow> store \<Rightarrow> store res" where
  "entry_right w cf str cursorindex s =
     (if cursorindex < 0 then Inl OutOfBounds
      else bind_res (byte_at str (nat cursorindex)) (\<lambda>b.
        if b = 0 then Inr s
        else bind_res (set_integer (cursorindex + 1) cf s) (dataobject_setIsModified True w)))"

definition entry_edit :: "32 word \<Rightarrow> addr \<Rightarrow> addr \<Rightarrow> addr \<Rightarrow> dof_string \<Rightarrow> int \<Rightarrow> store \<Rightarrow> store res" where
  "entry_edit key w f cf str cursorindex s =
     bind_res (entry_seek (str_of str) (nat cursorindex) 0 0 0) (\<lambda>seek.
     case seek of
       None \<Rightarrow> Inr s
     | Some (cursorbytes, lastpos, adv) \<Rightarrow>
         (let t = str_of str in
          if cursorbytes > length t then Inl OutOfBounds
          else
            bind_res
              (if key = KEY_BS then
                 (if length t > 0 \<and> cursorindex > 0 then
                    bind_res (entry_store f str (take lastpos t @ drop (lastpos + adv) t) s) (set_integer (cursorindex - 1) cf)
                  else Inr s)
               else
                 bind_res (entry_store f str (take cursorbytes t @ key_bytes key @ drop cursorbytes t) s) (set_integer (cursorindex + 1) cf))
              (dataobject_setIsModified True w)))"

definition entryWidget_handleKey :: "addr \<Rightarrow> 32 word \<Rightarrow> store \<Rightarrow> (bool \<times> store) res" where
  "entryWidget_handleKey w key s =
     bind_res (entry_accepts key) (\<lambda>accept.
     if \<not> accept then Inr (False, s)
     else
       bind_res (widget_getDataObject s w) (\<lambda>dobj.
       bind_res (dataobject_getEnum s dobj EMO_FIELD_DATA) (\<lambda>field.
       bind_res (ensure_enum dobj EMO_FIELD_DATA field (DOF_STRING (Owned [])) s) (\<lambda>(f, s).
       bind_res (dataobject_getEnumAsInt w EMO_FIELD_CURSOR s) (\<lambda>(cursorfield, s).
       bind_res (ensure_enum w EMO_FIELD_CURSOR cursorfield (DOF_INT 0) s) (\<lambda>(cf, s).
       bind_res (get_integer s cf) (\<lambda>cursorindex.
       bind_res
         (if key = EKEY_FOCUSLEFT then entry_left w cf cursorindex s
          else
            bind_res (get_string s f) (\<lambda>str.
            if key = EKEY_FOCUSRIGHT then entry_right w cf (str_of str) cursorindex s
            else entry_edit key w f cf str cursorindex s)) (\<lambda>s. Inr (True, s)))))))))"

section \<open>The check box\<close>

definition checkbox_field :: "store \<Rightarrow> addr \<Rightarrow> (string option \<times> int) res" where
  "checkbox_field s w =
     bind_res (dataobject_getEnum s w EMO_FIELD_CHECKFIELD) (\<lambda>cbfield.
     bind_res
       (case cbfield of
          None \<Rightarrow> Inr (None, EMO_FIELD_UNKNOWN_FIELD)
        | Some f \<Rightarrow>
            bind_res (get_fld s f) (\<lambda>fl.
            Inr (case f_val fl of
                   DOF_INT i \<Rightarrow> (None, sint i)
                 | DOF_STRING str \<Rightarrow>
                     (let e = emo_field_to_int (Some (str_of str)) in (if e \<noteq> EMO_FIELD_UNKNOWN_FIELD then None else Some (str_of str), e))
                 | _ \<Rightarrow> (None, EMO_FIELD_UNKNOWN_FIELD)))) (\<lambda>(fieldStr, fieldEnum).
     Inr (fieldStr, if fieldStr = None \<and> fieldEnum = EMO_FIELD_UNKNOWN_FIELD then EMO_FIELD_DATA else fieldEnum)))"

definition checkboxWidget_handleKey :: "addr \<Rightarrow> 32 word \<Rightarrow> store \<Rightarrow> (bool \<times> store) res" where
  "checkboxWidget_handleKey w key s =
     (if key \<noteq> EKEY_ACTIVATE then Inr (False, s)
      else
        bind_res (widget_getDataObject s w) (\<lambda>dobj.
        bind_res (dataobject_getEnum s w EMO_FIELD_CHECKVALUE) (\<lambda>cbvalue.
        bind_res
          (case cbvalue of
             None \<Rightarrow> Inr ''1''
           | Some f \<Rightarrow> bind_res (get_fld s f) (\<lambda>fl. Inr (case f_val fl of DOF_STRING str \<Rightarrow> str_of str | _ \<Rightarrow> ''1''))) (\<lambda>valueStr.
        bind_res (checkbox_field s w) (\<lambda>(fieldStr, fieldEnum).
        bind_res (case fieldStr of Some str \<Rightarrow> dataobject_getValue s dobj str | None \<Rightarrow> dataobject_getEnum s dobj fieldEnum) (\<lambda>field.
        bind_res (ensure_enum dobj EMO_FIELD_DATA field (DOF_STRING (Owned ''0'')) s) (\<lambda>(f, s).
        bind_res (dataobjectfield_isString s (Some f) valueStr) (\<lambda>isChecked.
        if isChecked \<and> cbvalue \<noteq> None then Inr (True, s)
        else
          bind_res (dataobjectfield_setString (if isChecked then ''0'' else valueStr) f s) (\<lambda>s.
          bind_res (dataobject_setIsModified True dobj s) (\<lambda>s. Inr (True, s)))))))))))"

section \<open>The editor\<close>

text \<open>A text as the list of its characters, and the number of characters before the cursor.\<close>

type_synonym editor = "nat list \<times> nat"

definition edit :: "32 word \<Rightarrow> editor \<Rightarrow> editor" where
  "edit key e = (case e of (cs, c) \<Rightarrow>
     if key = EKEY_FOCUSLEFT then (cs, c - 1)
     else if key = EKEY_FOCUSRIGHT then (cs, min (c + 1) (length cs))
     else if key = KEY_BS then (take (c - 1) cs @ drop c cs, c - 1)
     else (take c cs @ [unat key] @ drop c cs, c + 1))"

definition entry_key :: "32 word \<Rightarrow> bool" where
  "entry_key key \<longleftrightarrow> key = EKEY_FOCUSLEFT \<or> key = EKEY_FOCUSRIGHT \<or> key = KEY_BS \<or> 0x20 \<le> key \<and> key \<le> 0x7E"

definition entry_at :: "addr \<Rightarrow> editor \<Rightarrow> store \<Rightarrow> bool" where
  "entry_at w e s \<longleftrightarrow> (case e of (cs, c) \<Rightarrow>
     store_ok s \<and> rm_ok (renderman s) \<and> plain s w \<and> (\<exists>d. objs s w = Some d \<and> widgetData d = None) \<and>
     attr s w EMO_FIELD_DATA = Some (DOF_STRING (Owned (utf8_text cs))) \<and> attr s w EMO_FIELD_CURSOR = Some (DOF_INT (of_nat c)) \<and>
     c < 2 ^ 31 \<and> length cs < 2 ^ 31 \<and> (\<forall>x \<in> set cs. scalar_value x))"

definition entry_ok :: "addr \<Rightarrow> editor \<Rightarrow> store \<Rightarrow> bool" where
  "entry_ok w e s \<longleftrightarrow> entry_at w e s \<and> snd e \<le> length (fst e)"

text \<open>What typing into \<open>w\<close> may change: its text and its cursor, modification marks and the render queue.\<close>

definition typed :: "addr \<Rightarrow> store \<Rightarrow> store \<Rightarrow> bool" where
  "typed w s s' \<longleftrightarrow> store_ok s' \<and> rm_ok (renderman s') \<and> next_addr s \<le> next_addr s' \<and> still s' = still s \<and> direct s' = direct s \<and>
     apps s' = apps s \<and> appManager s' = appManager s \<and>
     (\<forall>u k. u \<noteq> w \<or> k \<noteq> EMO_FIELD_DATA \<and> k \<noteq> EMO_FIELD_CURSOR \<longrightarrow> attr s' u k = attr s u k)"

lemma typed_trans: "typed w s s1 \<Longrightarrow> typed w s1 s2 \<Longrightarrow> typed w s s2"
  unfolding typed_def by (metis order_trans)

lemma typed_refl: "entry_at w e s \<Longrightarrow> typed w s s"
  by (simp add: typed_def entry_at_def split: prod.splits)

lemma attr_step_typed:
  assumes "attr_step w k v s s'" and "k = EMO_FIELD_DATA \<or> k = EMO_FIELD_CURSOR" and "rm_ok (renderman s)"
  shows "typed w s s'"
proof -
  have "core s' = core s" using assms(1) by (simp add: attr_step_def attr_frame_def)
  then have "map_option (\<lambda>d. d\<lparr>flags1 := 0\<rparr>) (core s' u) = map_option (\<lambda>d. d\<lparr>flags1 := 0\<rparr>) (core s u)" for u by simp
  then have "still s' = still s" by (simp add: fun_eq_iff still_def core_def option.map_comp comp_def)
  then show ?thesis using assms by (auto simp: typed_def attr_step_def attr_frame_def)
qed

lemma entry_seek_from:
  "n \<le> length cs \<Longrightarrow> (\<forall>x \<in> set cs. scalar_value x) \<Longrightarrow>
   entry_seek (as @ utf8_text cs) n (length as) lp adv =
     Inr (Some (length as + length (utf8_text (take n cs)), if n = 0 then lp else length as + length (utf8_text (take (n - 1) cs)),
        if n = 0 then adv else length (utf8 (cs ! (n - 1)))))"
proof (induction n arbitrary: as cs lp adv)
  case (Suc n)
  then obtain x xs where cs: "cs = x # xs" by (cases cs) auto
  have x: "scalar_value x" using Suc.prems(2) cs by simp
  then have "(of_nat x :: 32 word) \<noteq> 0" by (auto simp: scalar_value_def word_of_nat_eq_0_iff dest!: dvd_imp_le)
  moreover have "UTF8toUTF32 (utf8 x @ utf8_text xs) = Inr (of_nat x, length (utf8 x))" using decode_utf8 [OF x] .
  ultimately have "entry_seek (as @ utf8_text cs) (Suc n) (length as) lp adv =
      entry_seek ((as @ utf8 x) @ utf8_text xs) n (length (as @ utf8 x)) (length as) (length (utf8 x))" by (simp add: cs)
  also have "\<dots> = Inr (Some (length (as @ utf8 x) + length (utf8_text (take n xs)),
      if n = 0 then length as else length (as @ utf8 x) + length (utf8_text (take (n - 1) xs)), if n = 0 then length (utf8 x) else length (utf8 (xs ! (n - 1)))))"
    using Suc.prems cs by (intro Suc.IH) auto
  finally show ?case by (cases n) (simp_all add: cs del: entry_seek.simps)
qed simp

lemma entry_seek_run:
  assumes "c \<le> length cs" and "\<forall>x \<in> set cs. scalar_value x"
  shows "entry_seek (utf8_text cs) c 0 0 0 = Inr (Some (length (utf8_text (take c cs)), length (utf8_text (take (c - 1) cs)),
     if c = 0 then 0 else length (utf8 (cs ! (c - 1)))))"
  using entry_seek_from [OF assms, of "[]" 0 0] by simp

lemma attr_step_plain:
  assumes "attr_step w key v s s'" and "plain s u" and "key \<noteq> EMO_FIELD_TYPE" and "key \<noteq> EMO_FIELD_HASFOCUS"
  shows "plain s' u"
proof -
  have at: "attr s' u k = attr s u k" if "k = EMO_FIELD_TYPE \<or> k = EMO_FIELD_HASFOCUS" for k
    using assms that by (auto simp: attr_step_def)
  have c: "core s' u = core s u" "direct s' u = direct s u" using assms(1) by (auto simp: attr_step_def attr_frame_def)
  obtain d where d: "objs s u = Some d" "state d = DOS_OK" "referenced d = []" "arrayChildren d = []" using assms(2) by (auto simp: plain_def)
  then obtain d' where "objs s' u = Some d'" "d'\<lparr>d_enumData := []\<rparr> = d\<lparr>d_enumData := []\<rparr>" using c(1) by (auto simp: core_def)
  then have "objs s' u = Some d'" "state d' = DOS_OK" "referenced d' = []" "arrayChildren d' = []"
    using d by (metis DataObject.select_convs DataObject.surjective DataObject.update_convs(2))+
  then show ?thesis using assms(2) at c(2) unfolding plain_def by auto
qed

lemma attr_step_widgetData:
  assumes "attr_step w key v s s'"
  shows "map_option widgetData (objs s' u) = map_option widgetData (objs s u)"
proof -
  have "map_option widgetData (objs s u) = map_option widgetData (core s u)" for s by (simp add: core_def option.map_comp comp_def)
  then show ?thesis using assms by (simp add: attr_step_def attr_frame_def)
qed

lemma entry_parts:
  assumes "entry_at w (cs, c) s"
  shows "store_ok s" "rm_ok (renderman s)" "plain s w" "direct s w" "widget_getDataObject s w = Inr w" "c < 2 ^ 31" "\<forall>x \<in> set cs. scalar_value x"
    "length cs < 2 ^ 31"
    "\<exists>f fl. dataobject_getEnum s w EMO_FIELD_DATA = Inr (Some f) \<and> entry s w EMO_FIELD_DATA = Some f \<and> flds s f = Some fl \<and>
       f_val fl = DOF_STRING (Owned (utf8_text cs))"
    "\<exists>f. dataobject_getEnumAsInt w EMO_FIELD_CURSOR s = Inr (Some f, s) \<and> entry s w EMO_FIELD_CURSOR = Some f \<and> get_integer s f = Inr (int c)"
proof -
  show "store_ok s" "rm_ok (renderman s)" "plain s w" "c < 2 ^ 31" "\<forall>x \<in> set cs. scalar_value x" "length cs < 2 ^ 31"
    using assms by (auto simp: entry_at_def)
  show d: "direct s w" using assms by (auto simp: entry_at_def plain_def)
  show "widget_getDataObject s w = Inr w" using assms by (auto simp: entry_at_def widget_getDataObject_def get_obj_def)
  have c: "sint (of_nat c :: 32 word) = int c" using assms sint_word [of "int c"] by (simp add: entry_at_def)
  show "\<exists>f fl. dataobject_getEnum s w EMO_FIELD_DATA = Inr (Some f) \<and> entry s w EMO_FIELD_DATA = Some f \<and> flds s f = Some fl \<and>
       f_val fl = DOF_STRING (Owned (utf8_text cs))"
    using assms getEnum_entry [OF d, of EMO_FIELD_DATA] by (auto simp: entry_at_def attr_entry EMO_FIELD_DATA_def split: option.splits)
  obtain f fl where "entry s w EMO_FIELD_CURSOR = Some f" "flds s f = Some fl" "f_val fl = DOF_INT (of_nat c)"
    using assms by (auto simp: entry_at_def attr_entry split: option.splits)
  then show "\<exists>f. dataobject_getEnumAsInt w EMO_FIELD_CURSOR s = Inr (Some f, s) \<and> entry s w EMO_FIELD_CURSOR = Some f \<and> get_integer s f = Inr (int c)"
    using getEnum_entry [OF d, of EMO_FIELD_CURSOR] c
    by (simp add: dataobject_getEnumAsInt_def field_to_int_def get_fld_def get_integer_def EMO_FIELD_CURSOR_def)
qed

lemma entry_at_modified:
  assumes "entry_at w e s"
  shows "\<exists>s'. dataobject_setIsModified True w s = Inr s' \<and> entry_at w e s' \<and> typed w s s'"
proof -
  obtain cs c where e: "e = (cs, c)" by (cases e)
  obtain s' where s': "dataobject_setIsModified True w s = Inr s'" "calm s s'" "attr s' = attr s"
    using modified_run [of s w] entry_parts(1-3) [OF assms [unfolded e]] by auto
  have "attr s' w k = attr s w k" if "k \<noteq> EMO_FIELD_HASFOCUS" for k using s'(2) that by (simp add: calm_def)
  moreover have "\<exists>d. objs s' w = Some d \<and> widgetData d = None"
  proof -
    obtain d where "objs s w = Some d" "widgetData d = None" using assms by (auto simp: entry_at_def)
    moreover have "map_option widgetData (objs s w) = map_option widgetData (still s w)" for s by (simp add: still_def option.map_comp comp_def)
    then have "map_option widgetData (objs s' w) = map_option widgetData (objs s w)" using s'(2) by (simp add: calm_def)
    ultimately show ?thesis by (cases "objs s' w") auto
  qed
  ultimately have "entry_at w e s'"
    using assms s'(2) calm_plain [OF s'(2)] by (auto simp: entry_at_def e calm_def EMO_FIELD_DATA_def EMO_FIELD_CURSOR_def EMO_FIELD_HASFOCUS_def)
  moreover have "typed w s s'" using s'(2,3) by (auto simp: typed_def calm_def)
  ultimately show ?thesis using s'(1) by blast
qed

text \<open>Writing the text and then the cursor.\<close>

lemma entry_set_cursor:
  assumes ok: "entry_at w (cs, c) s" and cf: "entry s w EMO_FIELD_CURSOR = Some cf" and n: "n < 2 ^ 31"
  shows "\<exists>s'. bind_res (set_integer (int n) cf s) (dataobject_setIsModified True w) = Inr s' \<and> entry_at w (cs, n) s' \<and> typed w s s'"
proof -
  note p = entry_parts [OF ok]
  obtain s1 where s1: "set_integer (int n) cf s = Inr s1" "attr_step w EMO_FIELD_CURSOR (DOF_INT (of_nat n)) s s1"
    using set_integer_step [OF p(1,4) cf, of _ "int n"] ok by (auto simp: entry_at_def)
  have "entry_at w (cs, n) s1"
  proof -
    have "plain s1 w" using attr_step_plain [OF s1(2) p(3)] by (simp add: EMO_FIELD_CURSOR_def EMO_FIELD_TYPE_def EMO_FIELD_HASFOCUS_def)
    moreover have "\<exists>d. objs s1 w = Some d \<and> widgetData d = None"
      using attr_step_widgetData [OF s1(2), of w] ok by (cases "objs s1 w") (auto simp: entry_at_def)
    ultimately show ?thesis using ok s1(2) n by (auto simp: entry_at_def attr_step_def attr_frame_def EMO_FIELD_CURSOR_def EMO_FIELD_DATA_def)
  qed
  from entry_at_modified [OF this] s1(1) attr_step_typed [OF s1(2) _ p(2)] show ?thesis by (auto intro: typed_trans)
qed

lemma entry_set_text:
  assumes ok: "entry_at w (cs, c) s" and f: "entry s w EMO_FIELD_DATA = Some f" and cf: "entry s w EMO_FIELD_CURSOR = Some cf"
    and t: "n < 2 ^ 31" "length ds < 2 ^ 31" "\<forall>x \<in> set ds. scalar_value x"
  shows "\<exists>s'. bind_res (bind_res (entry_store f (Owned old) (utf8_text ds) s) (set_integer (int n) cf)) (dataobject_setIsModified True w) = Inr s' \<and>
     entry_at w (ds, n) s' \<and> typed w s s'"
proof -
  note p = entry_parts [OF ok]
  obtain d where d: "objs s w = Some d" "am_find EMO_FIELD_DATA (d_enumData d) = Some f" using f by (auto simp: entry_def split: option.splits)
  obtain fl where fl: "flds s f = Some fl" using p(9) f by auto
  let ?s = "put_fld f (fl\<lparr>f_val := DOF_STRING (Owned (utf8_text ds))\<rparr>) s"
  have st: "attr_step w EMO_FIELD_DATA (DOF_STRING (Owned (utf8_text ds))) s ?s" by (rule attr_put_fld [OF p(1) d fl])
  have ne: "EMO_FIELD_CURSOR \<noteq> EMO_FIELD_DATA" by (simp add: EMO_FIELD_CURSOR_def EMO_FIELD_DATA_def)
  have cur: "attr ?s w EMO_FIELD_CURSOR = Some (DOF_INT (of_nat c))" "entry ?s w EMO_FIELD_CURSOR = Some cf" "direct ?s w"
    using st ok cf ne p(4) by (auto simp: attr_step_def attr_frame_def entry_at_def)
  have "store_ok ?s" "direct ?s w" using st p(4) by (auto simp: attr_step_def attr_frame_def)
  from set_integer_step [OF this cur(2,1), of "int n"] obtain s1 where
    s1: "set_integer (int n) cf ?s = Inr s1" "attr_step w EMO_FIELD_CURSOR (DOF_INT (of_nat n)) ?s s1" by auto
  have pl: "plain s1 w"
    using attr_step_plain [OF s1(2) attr_step_plain [OF st p(3)]] by (simp add: EMO_FIELD_CURSOR_def EMO_FIELD_DATA_def EMO_FIELD_TYPE_def EMO_FIELD_HASFOCUS_def)
  have "\<exists>d. objs s1 w = Some d \<and> widgetData d = None"
    using attr_step_widgetData [OF st, of w] attr_step_widgetData [OF s1(2), of w] ok by (cases "objs s1 w") (auto simp: entry_at_def)
  with pl have "entry_at w (ds, n) s1" using st s1(2) ne t p(2) by (auto simp: entry_at_def attr_step_def attr_frame_def)
  moreover have "typed w s s1"
    using typed_trans [OF attr_step_typed [OF st _ p(2)] attr_step_typed [OF s1(2)]] p(2) by (simp add: put_fld_def)
  ultimately show ?thesis using entry_at_modified [of w "(ds, n)" s1] s1(1) fl by (auto simp: entry_store_def get_fld_def intro: typed_trans)
qed

lemma printable_key:
  assumes "0x20 \<le> key" and "key \<le> (0x7E :: 32 word)"
  shows "key_bytes key = utf8 (unat key)" "scalar_value (unat key)" "key \<noteq> KEY_BS" "\<not> 0xFFFFFF00 < key" "key \<le> 255"
    "key \<noteq> EKEY_FOCUSLEFT" "key \<noteq> EKEY_FOCUSRIGHT"
proof -
  have u: "32 \<le> unat key" "unat key \<le> 126" using assms by (simp_all add: word_le_nat_alt)
  then show "scalar_value (unat key)" by (simp add: scalar_value_def)
  show "key \<noteq> KEY_BS" "key \<noteq> EKEY_FOCUSLEFT" "key \<noteq> EKEY_FOCUSRIGHT" "\<not> 0xFFFFFF00 < key" "key \<le> 255"
    using u by (auto simp: ekey_defs word_le_nat_alt word_less_nat_alt)
  have "take_bit 7 key = key" using u(2) by (simp add: word_unat_eq_iff unsigned_take_bit_eq take_bit_nat_eq_self)
  then have k: "key AND 0x7F = key" by (simp add: take_bit_eq_mask mask_eq_exp_minus_1)
  have "key AND m = key AND (0x7F AND m)" for m using k by (metis and.assoc)
  from this [of "0xFF000000"] this [of "0xFF0000"] this [of "0xFF00"] this [of "0xFF"] k
  have "key AND 0xFF000000 = 0" "key AND 0xFF0000 = 0" "key AND 0xFF00 = 0" "key AND 0xFF = key" by simp_all
  then show "key_bytes key = utf8 (unat key)" using u by (simp add: key_bytes_def utf8_ascii)
qed

lemma take_utf8: "c \<le> length cs \<Longrightarrow> take (length (utf8_text (take c cs))) (utf8_text cs) = utf8_text (take c cs) \<and>
   drop (length (utf8_text (take c cs))) (utf8_text cs) = utf8_text (drop c cs)"
proof -
  have "utf8_text cs = utf8_text (take c cs) @ utf8_text (drop c cs)" by (metis append_take_drop_id concat_append map_append)
  then show ?thesis by (metis append_eq_conv_conj)
qed

lemma entry_edit_char:
  assumes ok: "entry_ok w (cs, c) s" and f: "entry s w EMO_FIELD_DATA = Some f" and cf: "entry s w EMO_FIELD_CURSOR = Some cf"
    and key: "0x20 \<le> key" "key \<le> 0x7E" and len: "length cs + 1 < 2 ^ 31"
  shows "\<exists>s'. entry_edit key w f cf (Owned (utf8_text cs)) (int c) s = Inr s' \<and> entry_ok w (edit key (cs, c)) s' \<and> typed w s s'"
proof -
  have at: "entry_at w (cs, c) s" and c: "c \<le> length cs" using ok by (auto simp: entry_ok_def)
  note p = entry_parts [OF at] and k = printable_key [OF key]
  let ?ds = "take c cs @ [unat key] @ drop c cs"
  have t: "utf8_text ?ds = take (length (utf8_text (take c cs))) (utf8_text cs) @ key_bytes key @ drop (length (utf8_text (take c cs))) (utf8_text cs)"
    using take_utf8 [OF c] k(1) by simp
  have "c + 1 < 2 ^ 31" "length ?ds < 2 ^ 31" "\<forall>x \<in> set ?ds. scalar_value x"
    using c p(7) len k(2) by (auto dest: in_set_takeD in_set_dropD)
  from entry_set_text [OF at f cf this, of "utf8_text cs"] obtain s' where
    s': "bind_res (bind_res (entry_store f (Owned (utf8_text cs)) (utf8_text ?ds) s) (set_integer (int (c + 1)) cf)) (dataobject_setIsModified True w) = Inr s'"
      "entry_at w (?ds, c + 1) s'" "typed w s s'" by blast
  have len: "length (utf8_text (take c cs)) \<le> length (utf8_text cs)" by (metis append_take_drop_id concat_append length_append le_add1 map_append)
  have "edit key (cs, c) = (?ds, c + 1)" using k by (simp add: edit_def)
  moreover have "entry_edit key w f cf (Owned (utf8_text cs)) (int c) s = Inr s'"
    using s'(1) entry_seek_run [OF c p(7)] len k(3) t by (simp add: entry_edit_def str_of_def Let_def add.commute)
  ultimately show ?thesis using s'(2,3) c by (simp add: entry_ok_def)
qed

lemma entry_edit_bs:
  assumes ok: "entry_ok w (cs, c) s" and f: "entry s w EMO_FIELD_DATA = Some f" and cf: "entry s w EMO_FIELD_CURSOR = Some cf"
  shows "\<exists>s'. entry_edit KEY_BS w f cf (Owned (utf8_text cs)) (int c) s = Inr s' \<and> entry_ok w (edit KEY_BS (cs, c)) s' \<and> typed w s s'"
proof (cases "c = 0")
  case True
  then have "edit KEY_BS (cs, c) = (cs, c)" by (simp add: edit_def ekey_defs)
  then show ?thesis using True entry_at_modified [of w "(cs, c)" s] ok by (simp add: entry_edit_def str_of_def entry_ok_def)
next
  case False
  have at: "entry_at w (cs, c) s" and cl: "c \<le> length cs" using ok by (auto simp: entry_ok_def)
  note p = entry_parts [OF at]
  let ?ds = "take (c - 1) cs @ drop c cs"
  obtain m where c: "c = Suc m" using False by (cases c) auto
  have m: "m < length cs" using cl c by simp
  have split: "utf8_text (take c cs) = utf8_text (take m cs) @ utf8 (cs ! m)" using m by (simp add: c take_Suc_conv_app_nth)
  have t: "utf8_text ?ds = take (length (utf8_text (take (c - 1) cs))) (utf8_text cs) @
      drop (length (utf8_text (take (c - 1) cs)) + length (utf8 (cs ! (c - 1)))) (utf8_text cs)"
    using take_utf8 [of m cs] take_utf8 [OF cl] m split by (simp add: c)
  have ne: "utf8_text cs \<noteq> []" using m by (cases cs) auto
  have "c - 1 < 2 ^ 31" "length ?ds < 2 ^ 31" "\<forall>x \<in> set ?ds. scalar_value x"
    using p(6,7,8) c cl by (auto dest: in_set_takeD in_set_dropD)
  from entry_set_text [OF at f cf this, of "utf8_text cs"] obtain s' where
    s': "bind_res (bind_res (entry_store f (Owned (utf8_text cs)) (utf8_text ?ds) s) (set_integer (int (c - 1)) cf)) (dataobject_setIsModified True w) = Inr s'"
      "entry_at w (?ds, c - 1) s'" "typed w s s'" by blast
  have len: "length (utf8_text (take c cs)) \<le> length (utf8_text cs)" by (metis append_take_drop_id concat_append length_append le_add1 map_append)
  have "edit KEY_BS (cs, c) = (?ds, c - 1)" by (simp add: edit_def ekey_defs)
  moreover have "entry_edit KEY_BS w f cf (Owned (utf8_text cs)) (int c) s = Inr s'"
  proof -
    have "int c - 1 = int (c - 1)" "0 < int c" "(0 < length (utf8_text cs)) = True" using False ne by simp_all
    then show ?thesis using s'(1) entry_seek_run [OF cl p(7)] len t False
      unfolding entry_edit_def str_of_def Let_def dof_string.case nat_int by (simp del: entry_seek.simps length_concat)
  qed
  ultimately show ?thesis using s'(2,3) cl by (simp add: entry_ok_def)
qed

lemma utf8_ascii_text: "\<forall>x \<in> set cs. x < 128 \<Longrightarrow> utf8_text cs = map char_of cs"
  by (induction cs) (auto simp: utf8_ascii)

text \<open>The part of the handler before the key is looked at.\<close>

lemma entry_handleKey_run:
  assumes at: "entry_at w (cs, c) s" and key: "entry_key key"
  shows "\<exists>f cf. entry s w EMO_FIELD_DATA = Some f \<and> entry s w EMO_FIELD_CURSOR = Some cf \<and> entryWidget_handleKey w key s = bind_res
     (if key = EKEY_FOCUSLEFT then entry_left w cf (int c) s
      else if key = EKEY_FOCUSRIGHT then entry_right w cf (utf8_text cs) (int c) s
      else entry_edit key w f cf (Owned (utf8_text cs)) (int c) s) (\<lambda>s. Inr (True, s))"
proof -
  note p = entry_parts [OF at]
  obtain f fl where f: "dataobject_getEnum s w EMO_FIELD_DATA = Inr (Some f)" "entry s w EMO_FIELD_DATA = Some f" "flds s f = Some fl"
    "f_val fl = DOF_STRING (Owned (utf8_text cs))" using p(9) by blast
  obtain cf where cf: "dataobject_getEnumAsInt w EMO_FIELD_CURSOR s = Inr (Some cf, s)" "entry s w EMO_FIELD_CURSOR = Some cf" "get_integer s cf = Inr (int c)"
    using p(10) by blast
  have "entry_accepts key = Inr True"
    using key printable_key(4,5,6,7) [of key] by (auto simp: entry_key_def entry_accepts_def c_isprint_def ekey_defs)
  then show ?thesis using p(5) f cf by (simp add: entryWidget_handleKey_def ensure_enum_def get_string_def get_fld_def str_of_def)
qed

lemma ascii_byte:
  assumes "\<forall>x \<in> set cs. scalar_value x \<and> x < 128"
  shows "c < length cs \<Longrightarrow> \<exists>b. byte_at (utf8_text cs) c = Inr b \<and> b \<noteq> 0" "c = length cs \<Longrightarrow> byte_at (utf8_text cs) c = Inr 0"
proof -
  have t: "utf8_text cs = map char_of cs" using utf8_ascii_text assms by blast
  show "\<exists>b. byte_at (utf8_text cs) c = Inr b \<and> b \<noteq> 0" if "c < length cs"
  proof -
    have "0 < cs ! c" "cs ! c < 256" using assms nth_mem [OF that] by (fastforce simp: scalar_value_def)+
    then show ?thesis using t that by (simp add: byte_at_def)
  qed
  show "byte_at (utf8_text cs) c = Inr 0" if "c = length cs" using t that by (simp add: byte_at_def)
qed

lemma entry_handleKey_step:
  assumes ok: "entry_ok w (cs, c) s" and key: "entry_key key" and ascii: "key = EKEY_FOCUSRIGHT \<Longrightarrow> \<forall>x \<in> set cs. x < 128"
    and len: "length cs + 1 < 2 ^ 31"
  shows "\<exists>s'. entryWidget_handleKey w key s = Inr (True, s') \<and> entry_ok w (edit key (cs, c)) s' \<and> typed w s s'"
proof -
  have at: "entry_at w (cs, c) s" and cl: "c \<le> length cs" using ok by (auto simp: entry_ok_def)
  note p = entry_parts [OF at]
  obtain f cf where f: "entry s w EMO_FIELD_DATA = Some f" and cf: "entry s w EMO_FIELD_CURSOR = Some cf" and run: "entryWidget_handleKey w key s = bind_res
     (if key = EKEY_FOCUSLEFT then entry_left w cf (int c) s
      else if key = EKEY_FOCUSRIGHT then entry_right w cf (utf8_text cs) (int c) s
      else entry_edit key w f cf (Owned (utf8_text cs)) (int c) s) (\<lambda>s. Inr (True, s))"
    using entry_handleKey_run [OF at key] by blast
  consider (left) "key = EKEY_FOCUSLEFT" | (right) "key = EKEY_FOCUSRIGHT" | (bs) "key = KEY_BS" | (char) "0x20 \<le> key" "key \<le> 0x7E"
    using key by (auto simp: entry_key_def)
  then show ?thesis
  proof cases
    case left
    then show ?thesis using run ok entry_set_cursor [OF at cf, of "c - 1"] p(6) cl by (cases c) (auto simp: entry_left_def edit_def entry_ok_def typed_refl [OF at])
  next
    case right
    have a: "\<forall>x \<in> set cs. scalar_value x \<and> x < 128" using p(7) ascii [OF right] by auto
    show ?thesis
    proof (cases "c < length cs")
      case True
      obtain b where b: "byte_at (utf8_text cs) c = Inr b" "b \<noteq> 0" using ascii_byte(1) [OF a True] by blast
      obtain s' where "bind_res (set_integer (int c + 1) cf s) (dataobject_setIsModified True w) = Inr s'" "entry_at w (cs, c + 1) s'" "typed w s s'"
        using entry_set_cursor [OF at cf, of "c + 1"] True len by (auto simp: add.commute)
      then show ?thesis using right run b True by (auto simp: entry_right_def edit_def ekey_defs entry_ok_def)
    next
      case False
      then show ?thesis using right run ok ascii_byte(2) [OF a, of c] cl by (simp add: entry_right_def edit_def ekey_defs typed_refl [OF at])
    qed
  next
    case bs
    then show ?thesis using run entry_edit_bs [OF ok f cf] by (auto simp: ekey_defs)
  next
    case char
    then show ?thesis using run entry_edit_char [OF ok f cf char len] printable_key(6,7) [OF char] by auto
  qed
qed

section \<open>Properties\<close>

fun press_keys :: "addr \<Rightarrow> 32 word list \<Rightarrow> store \<Rightarrow> store res" where
  "press_keys w [] s = Inr s"
| "press_keys w (k # ks) s = bind_res (entryWidget_handleKey w k s) (\<lambda>(_, s). press_keys w ks s)"

lemma edit_ascii: "entry_key key \<Longrightarrow> \<forall>x \<in> set (fst e). x < 128 \<Longrightarrow> \<forall>x \<in> set (fst (edit key e)). x < 128"
  by (cases e) (auto simp: edit_def entry_key_def ekey_defs word_le_nat_alt dest: in_set_takeD in_set_dropD)

lemma edit_length: "snd e \<le> length (fst e) \<Longrightarrow> length (fst (edit key e)) \<le> length (fst e) + 1"
  by (cases e) (auto simp: edit_def)

lemma press_keys_run:
  assumes "entry_ok w e s" and "\<forall>x \<in> set (fst e). x < 128" and "\<forall>k \<in> set ks. entry_key k" and "length (fst e) + length ks < 2 ^ 31"
  shows "\<exists>s'. press_keys w ks s = Inr s' \<and> entry_ok w (fold edit ks e) s'"
  using assms
proof (induction ks arbitrary: e s)
  case (Cons k ks)
  obtain cs c where e: "e = (cs, c)" by (cases e)
  obtain s1 where s1: "entryWidget_handleKey w k s = Inr (True, s1)" "entry_ok w (edit k e) s1"
    using entry_handleKey_step [of w cs c s k] Cons.prems by (auto simp: e)
  have "length (fst (edit k e)) + length ks < 2 ^ 31" using edit_length [of e k] Cons.prems(1,4) by (auto simp: entry_ok_def)
  with Cons.IH [OF s1(2)] edit_ascii [of k e] Cons.prems(2,3) s1(1) show ?case by auto
qed simp


definition entry_demo :: store where
  "entry_demo = demo_store\<lparr>
     objs := [0 \<mapsto> form_widget 1 [] None [(EMO_FIELD_DATA, 2), (EMO_FIELD_CURSOR, 3)]],
     flds := [1 \<mapsto> \<lparr>f_val = DOF_STRING (Builtin EMO_TYPE_ENTRY), f_flags = 0\<rparr>, 2 \<mapsto> \<lparr>f_val = DOF_STRING (Owned ''hllo''), f_flags = 0\<rparr>,
        3 \<mapsto> \<lparr>f_val = DOF_INT 1, f_flags = 0\<rparr>], next_addr := 4\<rparr>"

lemma entry_demo_ok: "entry_ok 0 (map of_char ''hllo'', 1) entry_demo"
proof -
  note numbers = EMO_FIELD_TYPE_def EMO_FIELD_DATA_def EMO_FIELD_CURSOR_def EMO_FIELD_HASFOCUS_def
  have "store_ok entry_demo"
    by (auto simp: store_ok_def owns_def entry_demo_def form_widget_def new_obj_def obj_ok_def owned_fields_def numbers split: if_splits)
  moreover have "plain entry_demo 0"
    by (auto simp: plain_def direct_def attr_def entry_demo_def form_widget_def new_obj_def am_find_def numbers emo_type_defs split: if_splits)
  moreover have "rm_ok (renderman entry_demo)" by (simp add: entry_demo_def demo_store_def rm_ok_def array_wf_def)
  moreover have "utf8_text (map of_char ''hllo'') = ''hllo''" by (rule ascii_string) simp
  ultimately show ?thesis
    by (simp add: entry_ok_def entry_at_def entry_demo_def form_widget_def new_obj_def attr_def am_find_def numbers scalar_value_def)
qed


lemma edit_undo: "c \<le> length cs \<Longrightarrow> 0x20 \<le> key \<Longrightarrow> key \<le> 0x7E \<Longrightarrow> edit KEY_BS (edit key (cs, c)) = (cs, c)"
  using printable_key(3,6,7) [of key] by (simp add: edit_def ekey_defs)

text \<open>
  C35: Backspace undoes a typed character, at any position of any text, also one with characters of several bytes: both keys are accepted, and text and
  cursor are afterwards as before.
\<close>

theorem entry_backspace_undoes:
  assumes "entry_ok w (cs, c) s" and "0x20 \<le> key" and "key \<le> 0x7E" and "length cs + 2 < 2 ^ 31"
  shows "\<exists>s1 s2. entryWidget_handleKey w key s = Inr (True, s1) \<and> entryWidget_handleKey w KEY_BS s1 = Inr (True, s2) \<and> entry_ok w (cs, c) s2"
proof -
  have c: "c \<le> length cs" using assms(1) by (simp add: entry_ok_def)
  have k: "entry_key key" "entry_key KEY_BS" "key \<noteq> EKEY_FOCUSRIGHT" "KEY_BS \<noteq> EKEY_FOCUSRIGHT"
    using assms(2,3) printable_key(7) by (auto simp: entry_key_def ekey_defs)
  obtain s1 where s1: "entryWidget_handleKey w key s = Inr (True, s1)" "entry_ok w (edit key (cs, c)) s1"
    using entry_handleKey_step [OF assms(1) k(1)] k(3) assms(4) by auto
  obtain ds d where e: "edit key (cs, c) = (ds, d)" by fastforce
  have "length ds \<le> length cs + 1" using edit_length [of "(cs, c)" key] c e by simp
  then obtain s2 where "entryWidget_handleKey w KEY_BS s1 = Inr (True, s2)" "entry_ok w (edit KEY_BS (ds, d)) s2"
    using entry_handleKey_step [of w ds d s1 KEY_BS] s1(2) k(2,4) assms(4) e by auto
  then show ?thesis using s1(1) edit_undo [OF c assms(2,3)] e by auto
qed

theorem entry_backspace_undoes_witness:
  "\<exists>s1 s2. entryWidget_handleKey 0 0x65 entry_demo = Inr (True, s1) \<and> entryWidget_handleKey 0 KEY_BS s1 = Inr (True, s2) \<and>
     attr s2 0 EMO_FIELD_DATA = Some (DOF_STRING (Owned ''hllo''))"
proof -
  have "utf8_text (map of_char ''hllo'') = ''hllo''" by (rule ascii_string) simp
  then show ?thesis using entry_backspace_undoes [OF entry_demo_ok, of "0x65"] by (auto simp: entry_ok_def entry_at_def)
qed

text \<open>
  The key for the next character looks at the byte with the number of the cursor, though the cursor counts characters: at the end of a text of one
  character of two bytes it moves the cursor behind the end, and every character typed then is accepted and lost.
\<close>

lemma entry_cursor_escapes:
  assumes at: "entry_at w ([x], 1) s" and x: "0x80 \<le> x" "x < 0x800" and key: "0x20 \<le> key" "key \<le> 0x7E"
  shows "\<exists>s1. entryWidget_handleKey w EKEY_FOCUSRIGHT s = Inr (True, s1) \<and> entry_at w ([x], 2) s1 \<and> entryWidget_handleKey w key s1 = Inr (True, s1)"
proof -
  have k: "entry_key key" "entry_key EKEY_FOCUSRIGHT" "key \<noteq> EKEY_FOCUSLEFT" "key \<noteq> EKEY_FOCUSRIGHT" "key \<noteq> KEY_BS"
    using key printable_key [OF key] by (auto simp: entry_key_def)
  obtain cf where cf: "entry s w EMO_FIELD_CURSOR = Some cf"
    "entryWidget_handleKey w EKEY_FOCUSRIGHT s = bind_res (entry_right w cf (utf8_text [x]) (int 1) s) (\<lambda>s. Inr (True, s))"
    using entry_handleKey_run [OF at k(2)] by (auto simp: ekey_defs)
  have b: "byte_at (utf8_text [x]) 1 = Inr (128 + x mod 64)" using x by (simp add: utf8_def)
  obtain s1 where s1: "bind_res (set_integer (int 2) cf s) (dataobject_setIsModified True w) = Inr s1" "entry_at w ([x], 2) s1"
    using entry_set_cursor [OF at cf(1), of 2] by auto
  have "entry_right w cf (utf8_text [x]) (int 1) s = Inr s1" using s1(1) b by (simp add: entry_right_def)
  moreover have "entryWidget_handleKey w key s1 = Inr (True, s1)"
  proof -
    have sv: "scalar_value x" using at by (simp add: entry_at_def)
    have "UTF8toUTF32 (utf8 x) = Inr (of_nat x, 2)" using decode_utf8 [OF sv, of "[]"] x by (simp add: utf8_def)
    moreover have "(of_nat x :: 32 word) \<noteq> 0" using sv by (auto simp: scalar_value_def word_of_nat_eq_0_iff dest!: dvd_imp_le)
    moreover have "UTF8toUTF32 [] = Inr (0, 1)"
      by (simp add: UTF8toUTF32_def byte_at_def trailing_bytes offsetsFromUTF8_def UNI_SUR_HIGH_START_def word_le_nat_alt)
    moreover have "length (utf8 x) = 2" using x by (simp add: utf8_def)
    ultimately have "entry_seek (utf8 x) 2 0 0 0 = Inr None" by (simp add: numeral_2_eq_2)
    then show ?thesis using entry_handleKey_run [OF s1(2) k(1)] k by (auto simp: entry_edit_def str_of_def)
  qed
  ultimately show ?thesis using cf(2) s1(2) by simp
qed

section \<open>The check box as a switch\<close>

definition check_ok :: "addr \<Rightarrow> string option \<Rightarrow> string \<Rightarrow> store \<Rightarrow> bool" where
  "check_ok w val t s \<longleftrightarrow> store_ok s \<and> rm_ok (renderman s) \<and> plain s w \<and> (\<exists>d. objs s w = Some d \<and> widgetData d = None) \<and>
     attr s w EMO_FIELD_CHECKFIELD = None \<and> attr s w EMO_FIELD_CHECKVALUE = map_option (\<lambda>v. DOF_STRING (Owned v)) val \<and>
     attr s w EMO_FIELD_DATA = Some (DOF_STRING (Owned t))"

text \<open>Without a value of its own a check box switches between 1 and 0; one with a value is a radio button and only sets the value.\<close>

definition switch :: "string option \<Rightarrow> string \<Rightarrow> string" where
  "switch val t = (case val of None \<Rightarrow> if t = ''1'' then ''0'' else ''1'' | Some v \<Rightarrow> v)"

lemma check_ok_write:
  assumes ok: "check_ok w val t s" and f: "entry s w EMO_FIELD_DATA = Some f"
  shows "\<exists>s'. bind_res (dataobjectfield_setString u f s) (dataobject_setIsModified True w) = Inr s' \<and> check_ok w val u s'"
proof -
  obtain d where d: "objs s w = Some d" "am_find EMO_FIELD_DATA (d_enumData d) = Some f" using f by (auto simp: entry_def split: option.splits)
  obtain fl where fl: "flds s f = Some fl" using ok f by (auto simp: check_ok_def attr_entry)
  have s0: "store_ok s" "plain s w" "rm_ok (renderman s)" using ok by (auto simp: check_ok_def)
  let ?s = "put_fld f (fl\<lparr>f_val := DOF_STRING (Owned u)\<rparr>) s"
  have st: "attr_step w EMO_FIELD_DATA (DOF_STRING (Owned u)) s ?s" by (rule attr_put_fld [OF s0(1) d fl])
  have ne: "EMO_FIELD_DATA \<noteq> EMO_FIELD_TYPE" "EMO_FIELD_DATA \<noteq> EMO_FIELD_HASFOCUS" "EMO_FIELD_CHECKFIELD \<noteq> EMO_FIELD_DATA" "EMO_FIELD_CHECKVALUE \<noteq> EMO_FIELD_DATA"
    "EMO_FIELD_CHECKFIELD \<noteq> EMO_FIELD_HASFOCUS" "EMO_FIELD_CHECKVALUE \<noteq> EMO_FIELD_HASFOCUS"
    by (simp_all add: EMO_FIELD_DATA_def EMO_FIELD_TYPE_def EMO_FIELD_HASFOCUS_def EMO_FIELD_CHECKFIELD_def EMO_FIELD_CHECKVALUE_def)
  have p1: "plain ?s w" "store_ok ?s" "rm_ok (renderman ?s)"
    using attr_step_plain [OF st s0(2) ne(1,2)] st s0(3) by (auto simp: attr_step_def attr_frame_def)
  obtain s' where s': "dataobject_setIsModified True w ?s = Inr s'" "calm ?s s'" using modified_run [OF p1] by blast
  have at: "attr s' w k = (if k = EMO_FIELD_DATA then Some (DOF_STRING (Owned u)) else attr s w k)" if "k \<noteq> EMO_FIELD_HASFOCUS" for k
    using st s'(2) that by (auto simp: attr_step_def calm_def)
  have wd: "map_option widgetData (objs s' w) = map_option widgetData (objs s w)"
  proof -
    have "map_option widgetData (objs s w) = map_option widgetData (still s w)" for s by (simp add: still_def option.map_comp comp_def)
    then have "map_option widgetData (objs s' w) = map_option widgetData (objs ?s w)" using s'(2) by (simp add: calm_def)
    then show ?thesis using attr_step_widgetData [OF st, of w] by simp
  qed
  then have "\<exists>d. objs s' w = Some d \<and> widgetData d = None" using ok by (cases "objs s' w") (auto simp: check_ok_def)
  then have "check_ok w val u s'" using ok s'(2) calm_plain [OF s'(2) p1(1)] at ne by (auto simp: check_ok_def calm_def)
  with s'(1) fl show ?thesis by (auto simp: dataobjectfield_setString_def upd_fld_def get_fld_def)
qed

lemma checkbox_step:
  assumes ok: "check_ok w val t s"
  shows "\<exists>s'. checkboxWidget_handleKey w EKEY_ACTIVATE s = Inr (True, s') \<and> check_ok w val (switch val t) s'"
proof -
  have d: "direct s w" "widget_getDataObject s w = Inr w"
    using ok by (auto simp: check_ok_def plain_def widget_getDataObject_def get_obj_def)
  obtain f fl where f: "entry s w EMO_FIELD_DATA = Some f" "flds s f = Some fl" "f_val fl = DOF_STRING (Owned t)"
    using ok by (auto simp: check_ok_def attr_entry split: option.splits)
  have get: "dataobject_getEnum s w k = Inr (entry s w k)" if "k \<noteq> -1" for k using getEnum_entry [OF d(1) that] .
  have cf: "checkbox_field s w = Inr (None, EMO_FIELD_DATA)"
  proof -
    have "entry s w EMO_FIELD_CHECKFIELD = None"
      using ok d(1) by (fastforce simp: check_ok_def attr_entry direct_def entry_def split: option.splits)
    then show ?thesis using get [of EMO_FIELD_CHECKFIELD] by (simp add: checkbox_field_def EMO_FIELD_CHECKFIELD_def)
  qed
  have wr: "\<exists>s'. bind_res (dataobjectfield_setString u f s) (\<lambda>s. bind_res (dataobject_setIsModified True w s) (\<lambda>s. Inr (True, s))) = Inr (True, s') \<and>
      check_ok w val u s'" for u
    using check_ok_write [OF ok f(1), of u] by auto
  have num: "EMO_FIELD_CHECKVALUE \<noteq> -1" "EMO_FIELD_DATA \<noteq> -1" by (simp_all add: EMO_FIELD_CHECKVALUE_def EMO_FIELD_DATA_def)
  show ?thesis
  proof (cases val)
    case None
    then have "entry s w EMO_FIELD_CHECKVALUE = None"
      using ok d(1) by (fastforce simp: check_ok_def attr_entry direct_def entry_def split: option.splits)
    then show ?thesis using d(2) cf get num f wr None
      by (auto simp: checkboxWidget_handleKey_def ensure_enum_def dataobjectfield_isString_def get_fld_def str_of_def switch_def)
  next
    case (Some v)
    then obtain g gl where "entry s w EMO_FIELD_CHECKVALUE = Some g" "flds s g = Some gl" "f_val gl = DOF_STRING (Owned v)"
      using ok by (auto simp: check_ok_def attr_entry split: option.splits)
    then show ?thesis using d(2) cf get num f wr Some ok
      by (auto simp: checkboxWidget_handleKey_def ensure_enum_def dataobjectfield_isString_def get_fld_def str_of_def switch_def)
  qed
qed

text \<open>
  Activating a check box without a value of its own switches it, so that activating it twice restores an object that holds 0 or 1; activating one with
  a value sets the value, and activating it again leaves it, as for a radio button.
\<close>

theorem checkbox_switches:
  assumes "check_ok w val t s"
  shows "\<exists>s1 s2. checkboxWidget_handleKey w EKEY_ACTIVATE s = Inr (True, s1) \<and> checkboxWidget_handleKey w EKEY_ACTIVATE s1 = Inr (True, s2) \<and>
     check_ok w val (switch val t) s1 \<and> (case val of None \<Rightarrow> (t = ''0'' \<or> t = ''1'' \<longrightarrow> check_ok w val t s2) | Some v \<Rightarrow> check_ok w val v s2)"
proof -
  obtain s1 where s1: "checkboxWidget_handleKey w EKEY_ACTIVATE s = Inr (True, s1)" "check_ok w val (switch val t) s1" using checkbox_step [OF assms] by blast
  obtain s2 where s2: "checkboxWidget_handleKey w EKEY_ACTIVATE s1 = Inr (True, s2)" "check_ok w val (switch val (switch val t)) s2" using checkbox_step [OF s1(2)] by blast
  then show ?thesis using s1 by (auto simp: switch_def split: option.splits)
qed

definition check_demo :: store where
  "check_demo = demo_store\<lparr>
     objs := [0 \<mapsto> form_widget 1 [] None [(EMO_FIELD_DATA, 2)]],
     flds := [1 \<mapsto> \<lparr>f_val = DOF_STRING (Builtin EMO_TYPE_CHECKBOX), f_flags = 0\<rparr>, 2 \<mapsto> \<lparr>f_val = DOF_STRING (Owned ''0''), f_flags = 0\<rparr>], next_addr := 3\<rparr>"

theorem checkbox_switches_witness:
  "\<exists>s1 s2. checkboxWidget_handleKey 0 EKEY_ACTIVATE check_demo = Inr (True, s1) \<and> attr s1 0 EMO_FIELD_DATA = Some (DOF_STRING (Owned ''1'')) \<and>
     checkboxWidget_handleKey 0 EKEY_ACTIVATE s1 = Inr (True, s2) \<and> attr s2 0 EMO_FIELD_DATA = Some (DOF_STRING (Owned ''0''))"
proof -
  note numbers = EMO_FIELD_TYPE_def EMO_FIELD_DATA_def EMO_FIELD_CHECKFIELD_def EMO_FIELD_CHECKVALUE_def EMO_FIELD_HASFOCUS_def
  have "store_ok check_demo"
    by (auto simp: store_ok_def owns_def check_demo_def form_widget_def new_obj_def obj_ok_def owned_fields_def numbers split: if_splits)
  moreover have "plain check_demo 0"
    by (auto simp: plain_def direct_def attr_def check_demo_def form_widget_def new_obj_def am_find_def numbers emo_type_defs split: if_splits)
  moreover have "rm_ok (renderman check_demo)" by (simp add: check_demo_def demo_store_def rm_ok_def array_wf_def)
  ultimately have "check_ok 0 None ''0'' check_demo"
    by (simp add: check_ok_def check_demo_def form_widget_def new_obj_def attr_def am_find_def numbers)
  from checkbox_switches [OF this] show ?thesis by (auto simp: check_ok_def switch_def)
qed

end
