(* ===== verification/Style_Lookup.thy ===== *)
theory Style_Lookup
  imports Widget_Base
begin

text \<open>
  Styles: \<open>Style.c\<close> without the drawing, \<open>Gradient.c\<close>, and the choice of a renderer by name, \<open>widgetRenderer_fromString\<close> of \<open>WidgetRenderer.c\<close>.

  A style is a data object; its children are the styles of widget types and of named widgets. A property is looked up at the widget, then from the
  style up to its root, then from the root style up. A type name is a pointer into the table of names when it is one of them, and
  is compared as a pointer.
\<close>

section \<open>The style of a widget\<close>

text \<open>The identifier \<open>id\<close> (here \<open>wid\<close>) against the type of one child: \<open>EMO_DOF_IS_TYPE\<close> compares pointers, \<open>dataobjectfield_isString\<close> asserts that there is a string.\<close>

definition style_matches :: "dof_string \<Rightarrow> dof_string option \<Rightarrow> bool res" where
  "style_matches type wid =
     (if is_builtin type then Inr (wid = Some type)
      else (case wid of None \<Rightarrow> Inl Abort | Some i \<Rightarrow> Inr (str_of type = str_of i)))"

text \<open>The loop over the children. A child with the other focus is remembered: the first of them is \<open>output\<close>.\<close>

fun style_children :: "dof_string option \<Rightarrow> int \<Rightarrow> addr option \<Rightarrow> addr list \<Rightarrow> store \<Rightarrow> (addr option \<times> store) res" where
  "style_children wid isFocused output [] s = Inr (output, s)"
| "style_children wid isFocused output (child # rest) s =
     bind_res (dataobject_getEnum s child EMO_FIELD_TYPE) (\<lambda>type.
     case type of
       None \<Rightarrow> Inl NullDeref
     | Some f \<Rightarrow>
         bind_res (get_string s f) (\<lambda>str.
         bind_res (style_matches str wid) (\<lambda>hit.
         if \<not> hit then style_children wid isFocused output rest s
         else
           bind_res (widget_hasFocusOrParent child s) (\<lambda>(focus, s).
           if (if focus then 1 else 0) = isFocused then Inr (Some child, s)
           else style_children wid isFocused (if output = None then Some child else output) rest s))))"

text \<open>
  \<open>style_getID\<close> with the value it leaves in \<open>wentUp\<close>. The search starts again at the parent, then at the root style. The children of at most two chains
  of parents are searched; a longer search goes round, from the root of the root style's tree back to the root style.
\<close>

fun getID_loop :: "nat \<Rightarrow> dof_string option \<Rightarrow> int \<Rightarrow> bool \<Rightarrow> addr \<Rightarrow> store \<Rightarrow> (addr \<times> bool \<times> store) res" where
  "getID_loop 0 wid isFocused wentUp styleRoot s = Inl Diverge"
| "getID_loop (Suc n) wid isFocused wentUp styleRoot s =
     bind_res (dataobject_childIterator s styleRoot) (\<lambda>cs.
     bind_res (style_children wid isFocused None cs s) (\<lambda>(output, s).
     case output of
       Some style \<Rightarrow> Inr (style, wentUp, s)
     | None \<Rightarrow>
         bind_res (dataobject_parent s styleRoot) (\<lambda>par.
         case par of
           Some p \<Rightarrow> getID_loop n wid isFocused True p s
         | None \<Rightarrow>
             (case am_style (appManager s) of
                None \<Rightarrow> Inl Abort
              | Some rootStyle \<Rightarrow> if styleRoot \<noteq> rootStyle then getID_loop n wid isFocused True rootStyle s else Inr (styleRoot, wentUp, s)))))"

definition style_getID :: "addr \<Rightarrow> dof_string option \<Rightarrow> dof_string option \<Rightarrow> int \<Rightarrow> store \<Rightarrow> (addr \<times> bool \<times> store) res" where
  "style_getID styleRoot otype oid isFocused s =
     getID_loop (Suc (Suc (2 * next_addr s))) (case oid of None \<Rightarrow> otype | Some i \<Rightarrow> Some i) isFocused False styleRoot s"

section \<open>Properties\<close>

text \<open>The two getters: \<open>dataobject_getEnum\<close> reads, \<open>dataobject_getEnumAsInt\<close> may convert the field.\<close>

definition read_enum :: "int \<Rightarrow> addr \<Rightarrow> store \<Rightarrow> (addr option \<times> store) res" where
  "read_enum key a s = bind_res (dataobject_getEnum s a key) (\<lambda>f. Inr (f, s))"

definition read_enum_int :: "int \<Rightarrow> addr \<Rightarrow> store \<Rightarrow> (addr option \<times> store) res" where
  "read_enum_int key a s = dataobject_getEnumAsInt a key s"

fun property_chain :: "nat \<Rightarrow> (addr \<Rightarrow> store \<Rightarrow> (addr option \<times> store) res) \<Rightarrow> addr \<Rightarrow> store \<Rightarrow> (addr option \<times> store) res" where
  "property_chain 0 get st s = Inl Diverge"
| "property_chain (Suc n) get st s =
     bind_res (get st s) (\<lambda>(output, s).
     case output of
       Some f \<Rightarrow> Inr (Some f, s)
     | None \<Rightarrow> bind_res (dataobject_parent s st) (\<lambda>par. case par of None \<Rightarrow> Inr (None, s) | Some p \<Rightarrow> property_chain n get p s))"

definition property_round :: "(addr \<Rightarrow> store \<Rightarrow> (addr option \<times> store) res) \<Rightarrow> addr \<Rightarrow> addr option \<Rightarrow> store \<Rightarrow> (addr option \<times> store) res" where
  "property_round get dobj os s =
     bind_res (get dobj s) (\<lambda>(output, s).
     case output of
       Some f \<Rightarrow> Inr (Some f, s)
     | None \<Rightarrow> (case os of None \<Rightarrow> Inr (None, s) | Some st \<Rightarrow> property_chain (Suc (next_addr s)) get st s))"

definition style_lookup :: "(addr \<Rightarrow> store \<Rightarrow> (addr option \<times> store) res) \<Rightarrow> addr \<Rightarrow> addr \<Rightarrow> store \<Rightarrow> (addr option \<times> store) res" where
  "style_lookup get os dobj s =
     bind_res (property_round get dobj (Some os) s) (\<lambda>(output, s).
     case output of
       Some f \<Rightarrow> Inr (Some f, s)
     | None \<Rightarrow> if am_style (appManager s) \<noteq> Some os then property_round get dobj (am_style (appManager s)) s else Inr (None, s))"

definition style_getProperty :: "addr \<Rightarrow> addr \<Rightarrow> int \<Rightarrow> store \<Rightarrow> (addr option \<times> store) res" where
  "style_getProperty os dobj key s = style_lookup (read_enum key) os dobj s"

definition style_getPropertyAsInt :: "addr \<Rightarrow> addr \<Rightarrow> int \<Rightarrow> store \<Rightarrow> (addr option \<times> store) res" where
  "style_getPropertyAsInt os dobj key s = style_lookup (read_enum_int key) os dobj s"

text \<open>The field and the colour stored, none of them when there is no field.\<close>

definition style_getColor :: "addr \<Rightarrow> addr \<Rightarrow> int \<Rightarrow> store \<Rightarrow> ((addr \<times> 32 word) option \<times> store) res" where
  "style_getColor os dobj key s =
     bind_res (style_getPropertyAsInt os dobj key s) (\<lambda>(output, s).
     case output of
       None \<Rightarrow> Inr (None, s)
     | Some f \<Rightarrow>
         bind_res (get_fld s f) (\<lambda>fl.
         Inr (case f_val fl of DOF_UINT c \<Rightarrow> Some (f, c) | DOF_INT c \<Rightarrow> Some (f, c) | _ \<Rightarrow> None, s)))"

datatype WidgetRenderer = R_box | R_image | R_string | R_text | R_entry | R_scrolled | R_scrollbar | R_checkbox

definition widgetRenderer_fromString :: "string \<Rightarrow> WidgetRenderer option" where
  "widgetRenderer_fromString str =
     (if str = ''box'' then Some R_box
      else if str = ''button'' then Some R_box
      else if str = ''image'' then Some R_image
      else if str = ''label'' then Some R_string
      else if str = ''text'' then Some R_text
      else if str = ''entry'' then Some R_entry
      else if str = ''scrolled'' then Some R_scrolled
      else if str = ''scrollbar'' then Some R_scrollbar
      else if str = ''checkbox'' then Some R_checkbox
      else None)"

definition style_getRenderer :: "addr \<Rightarrow> addr \<Rightarrow> int \<Rightarrow> store \<Rightarrow> (WidgetRenderer option \<times> store) res" where
  "style_getRenderer os dobj key s =
     bind_res (style_getProperty os dobj key s) (\<lambda>(output, s).
     case output of
       None \<Rightarrow> Inr (None, s)
     | Some f \<Rightarrow>
         bind_res (get_fld s f) (\<lambda>fl.
         Inr (case f_val fl of DOF_STRING str \<Rightarrow> widgetRenderer_fromString (str_of str) | _ \<Rightarrow> None, s)))"

section \<open>Gradients\<close>

record GradientStop =
  gs_position :: int
  gs_color :: "32 word"

record Gradient = stops :: "GradientStop Array"

definition gradient_new :: "Gradient res" where
  "gradient_new = bind_res (array_newWithSize 8 6) (\<lambda>a. Inr \<lparr>stops = a\<rparr>)"

definition gradient_addStop :: "int \<Rightarrow> 32 word \<Rightarrow> Gradient \<Rightarrow> Gradient res" where
  "gradient_addStop position color g =
     bind_res (array_append (stops g) \<lparr>gs_position = position, gs_color = color\<rparr>) (\<lambda>a. Inr \<lparr>stops = a\<rparr>)"

definition gradient_stops :: "Gradient \<Rightarrow> nat" where
  "gradient_stops g = array_length (stops g)"

text \<open>The colour of a stop and its height in a box of the given height.\<close>

definition gradient_getStop :: "Gradient \<Rightarrow> nat \<Rightarrow> int \<Rightarrow> (32 word \<times> int) res" where
  "gradient_getStop g i h =
     bind_res (array_item (stops g) i) (\<lambda>st. Inr (gs_color st, h * gs_position st sdiv 100))"

definition enum_word :: "addr \<Rightarrow> int \<Rightarrow> store \<Rightarrow> (32 word \<times> store) res" where
  "enum_word w key s =
     bind_res (dataobject_getEnumAsInt w key s) (\<lambda>(f, s).
     case f of
       None \<Rightarrow> Inr (0, s)
     | Some f \<Rightarrow> bind_res (get_fld s f) (\<lambda>fl. case f_val fl of DOF_INT i \<Rightarrow> Inr (i, s) | DOF_UINT i \<Rightarrow> Inr (i, s) | _ \<Rightarrow> Inl TypeConfusion))"

fun gradient_children :: "addr list \<Rightarrow> Gradient \<Rightarrow> store \<Rightarrow> (Gradient \<times> store) res" where
  "gradient_children [] g s = Inr (g, s)"
| "gradient_children (child # rest) g s =
     bind_res (enum_word child EMO_FIELD_POSITION s) (\<lambda>(position, s).
     bind_res (enum_word child EMO_FIELD_COLOR s) (\<lambda>(color, s).
     bind_res (gradient_addStop (sint position) color g) (\<lambda>g. gradient_children rest g s)))"

definition style_getGradient :: "addr \<Rightarrow> store \<Rightarrow> (Gradient option \<times> store) res" where
  "style_getGradient st s =
     bind_res (dataobject_getEnum s st EMO_FIELD_TYPE) (\<lambda>type.
     bind_res (EMO_DOF_IS_TYPE s type EMO_TYPE_GRADIENT) (\<lambda>isgrad.
     if \<not> isgrad then Inr (None, s)
     else
       bind_res gradient_new (\<lambda>g.
       bind_res (dataobject_childIterator s st) (\<lambda>cs.
       bind_res (gradient_children cs g s) (\<lambda>(g, s). Inr (Some g, s))))))"

section \<open>The order of the lookup\<close>

text \<open>The objects from a style up to the root of its tree, and the first field with a number in a list of objects.\<close>

fun climbs :: "store \<Rightarrow> addr \<Rightarrow> addr list \<Rightarrow> bool" where
  "climbs s a [] = False"
| "climbs s a (b # ps) \<longleftrightarrow> a = b \<and> a < next_addr s \<and> direct s a \<and>
     (case parent_of s a of Some None \<Rightarrow> ps = [] | Some (Some p) \<Rightarrow> climbs s p ps | None \<Rightarrow> False)"

fun first_entry :: "store \<Rightarrow> int \<Rightarrow> addr list \<Rightarrow> addr option" where
  "first_entry s key [] = None"
| "first_entry s key (a # as) = (case entry s a key of Some f \<Rightarrow> Some f | None \<Rightarrow> first_entry s key as)"

lemma climbs_unique: "climbs s a ps \<Longrightarrow> climbs s a qs \<Longrightarrow> ps = qs"
proof (induction ps arbitrary: a qs)
  case (Cons b ps)
  then obtain c qs' where q: "qs = c # qs'" by (cases qs) auto
  show ?case
  proof (cases "parent_of s a")
    case (Some x)
    then show ?thesis using Cons q by (cases x) auto
  qed (use Cons in auto)
qed simp

lemma climbs_suffix: "climbs s a (xs @ b # ys) \<Longrightarrow> climbs s b (b # ys)"
proof (induction xs arbitrary: a)
  case (Cons x xs)
  then show ?case by (cases "xs @ b # ys") (auto split: option.splits)
qed auto

lemma climbs_length:
  assumes "climbs s a ps"
  shows "length ps \<le> next_addr s"
proof -
  have "distinct ps"
  proof (rule ccontr)
    assume "\<not> distinct ps"
    then obtain xs b ys zs where p: "ps = xs @ [b] @ ys @ [b] @ zs" using not_distinct_decomp by blast
    then have "climbs s b (b # ys @ b # zs)" "climbs s b (b # zs)"
      using climbs_suffix [of s a xs b "ys @ b # zs"] climbs_suffix [of s a "xs @ b # ys" b zs] assms by auto
    then show False using climbs_unique by fastforce
  qed
  moreover have "set ps \<subseteq> {..<next_addr s}"
    using assms
  proof (induction ps arbitrary: a)
    case (Cons b ps)
    then show ?case by (auto split: option.splits)
  qed simp
  ultimately show ?thesis by (metis card_lessThan card_mono distinct_card finite_lessThan)
qed

lemma read_enum_run: "direct s a \<Longrightarrow> key \<noteq> -1 \<Longrightarrow> read_enum key a s = Inr (entry s a key, s)"
  by (simp add: read_enum_def getEnum_entry)

lemma property_chain_run:
  "climbs s a ps \<Longrightarrow> key \<noteq> -1 \<Longrightarrow> length ps \<le> n \<Longrightarrow> property_chain n (read_enum key) a s = Inr (first_entry s key ps, s)"
proof (induction ps arbitrary: a n)
  case (Cons b ps)
  obtain m where n: "n = Suc m" using Cons.prems(3) by (cases n) auto
  obtain d where d: "objs s a = Some d" "parent_of s a = Some (parent d)" using Cons.prems(1) by (auto simp: parent_of_def split: option.splits)
  show ?case
  proof (cases "entry s a key")
    case None
    then show ?thesis using Cons n d read_enum_run [of s a key]
      by (cases "parent d") (auto simp: dataobject_parent_def get_obj_def)
  qed (use Cons.prems n read_enum_run [of s a key] in auto)
qed simp

lemma property_round_run:
  assumes "direct s dobj" and "climbs s a ps" and "key \<noteq> -1"
  shows "property_round (read_enum key) dobj (Some a) s = Inr (first_entry s key (dobj # ps), s)"
  using read_enum_run [OF assms(1,3)] property_chain_run [OF assms(2,3), of "Suc (next_addr s)"] climbs_length [OF assms(2)]
  by (auto simp: property_round_def simp del: property_chain.simps split: option.split)

lemma first_entry_append: "first_entry s key (as @ bs) = (case first_entry s key as of Some f \<Rightarrow> Some f | None \<Rightarrow> first_entry s key bs)"
  by (induction as) (auto split: option.split)

section \<open>Theorems\<close>

text \<open>
  C37: The lookup of a property always ends and has a fixed order: the widget itself, the style and the objects above it, then the root style and the objects above
  it; the first of them with a field of that number gives the value, NULL means that none has one, and nothing is changed.
\<close>

theorem style_getProperty_order:
  assumes "direct s dobj" and "climbs s os ps" and "am_style (appManager s) = Some r" and "climbs s r rs" and "key \<noteq> -1"
  shows "style_getProperty os dobj key s = Inr (first_entry s key (dobj # ps @ rs), s)"
proof (cases "first_entry s key (dobj # ps)")
  case None
  then have n: "entry s dobj key = None" "first_entry s key ps = None" by (auto split: option.splits)
  show ?thesis
  proof (cases "os = r")
    case True
    then have "ps = rs" using climbs_unique assms(2,4) by blast
    then show ?thesis using n True property_round_run [OF assms(1,2,5)] assms(3)
      by (simp add: style_getProperty_def style_lookup_def first_entry_append)
  next
    case False
    then show ?thesis using n property_round_run [OF assms(1,2,5)] property_round_run [OF assms(1,4,5)] assms(3)
      by (simp add: style_getProperty_def style_lookup_def first_entry_append)
  qed
next
  case (Some f)
  then have "first_entry s key (dobj # ps @ rs) = Some f" by (simp add: first_entry_append split: option.splits)
  then show ?thesis using Some property_round_run [OF assms(1,2,5)] by (simp add: style_getProperty_def style_lookup_def)
qed

text \<open>A style below another one; the root style holds the colour.\<close>

definition style_store :: store where
  "style_store = demo_store\<lparr>
     objs := [0 \<mapsto> new_obj, 1 \<mapsto> new_obj\<lparr>parent := Some 2\<rparr>, 2 \<mapsto> new_obj\<lparr>children := [1]\<rparr>, 3 \<mapsto> new_obj\<lparr>d_enumData := [(EMO_FIELD_COLOR, 4)]\<rparr>],
     flds := [4 \<mapsto> \<lparr>f_val = DOF_UINT 7, f_flags = 0\<rparr>], next_addr := 5,
     appManager := (appManager demo_store)\<lparr>am_style := Some 3\<rparr>\<rparr>"

theorem style_getProperty_order_witness: "style_getProperty 1 0 EMO_FIELD_COLOR style_store = Inr (Some 4, style_store)"
proof -
  have "direct style_store 0" "climbs style_store 1 [1, 2]" "climbs style_store 3 [3]"
    by (auto simp: direct_def style_store_def new_obj_def am_find_def parent_of_def)
  moreover have "am_style (appManager style_store) = Some 3" "EMO_FIELD_COLOR \<noteq> -1" by (simp_all add: style_store_def EMO_FIELD_COLOR_def)
  moreover have "first_entry style_store EMO_FIELD_COLOR ([0, 1, 2] @ [3]) = Some 4"
    by (simp add: entry_def style_store_def new_obj_def am_find_def)
  ultimately show ?thesis using style_getProperty_order [of style_store 0 1 "[1, 2]" 3 "[3]" EMO_FIELD_COLOR] by simp
qed

lemma getID_cycle:
  assumes "am_style (appManager s) = Some r" and "parent_of s r = Some (Some p)" and "parent_of s p = Some None" and "kids_of s r = Some []"
    and "dataobject_childIterator s p = Inr cs" and "style_children wid isFocused None cs s = Inr (None, s)"
  shows "getID_loop n wid isFocused u r s = Inl Diverge \<and> getID_loop n wid isFocused u p s = Inl Diverge"
proof (induction n arbitrary: u)
  case (Suc n)
  have "dataobject_childIterator s r = Inr []" using assms(4) by (auto simp: dataobject_childIterator_def kids_of_def get_obj_def)
  moreover have "p \<noteq> r" using assms(2,3) by auto
  moreover have "dataobject_parent s r = Inr (Some p)" "dataobject_parent s p = Inr None"
    using assms(2,3) by (auto simp: dataobject_parent_def parent_of_def get_obj_def)
  ultimately show ?case using Suc assms(1,5,6) by simp
qed simp

text \<open>
  A root style that is not the root of its tree makes the search endless: when no child matches, \<open>style_getID\<close> climbs to the root of the tree, starts again at the root
  style, and so on.
\<close>

lemma style_getID_endless:
  assumes "am_style (appManager s) = Some r" and "parent_of s r = Some (Some p)" and "parent_of s p = Some None" and "kids_of s r = Some []"
    and "dataobject_childIterator s p = Inr cs" and "style_children wid isFocused None cs s = Inr (None, s)"
  shows "style_getID r wid None isFocused s = Inl Diverge"
  using getID_cycle [OF assms] by (simp add: style_getID_def del: getID_loop.simps)

end
