(* ===== verification/Text_Lines.thy ===== *)
theory Text_Lines
  imports Utf8_Text Object_Store
begin

text \<open>
  Text of several lines: the markup, the line breaks and the measuring of \<open>lgui.c\<close> (\<open>lgui_process_escape_seq\<close>, \<open>lgui_text_line_complex\<close>, \<open>lgui_measure_font_complex\<close>).

  \<open>font_getGlyph\<close> is the function from a character and the bold flag to its advance, as in \<open>Utf8_Text\<close>. Here its result is not tested: for a missing glyph the advance is what the
  variable held before. The state of the markup is an argument of the measuring function, because the code never initialises it.

  The specification of a line, \<open>first_line\<close>, works on the list of characters: a paragraph that fits is taken whole, one that does not is broken behind the last space that fits.
\<close>

section \<open>Markup\<close>

record EscapeSequenceState =
  es_bold :: bool
  es_underline :: bool
  es_italic :: bool
  basecolor :: "32 word"
  currentColor :: "32 word"
  useBackground :: bool
  backgroundColor :: "32 word"

text \<open>A conjunction of tests \<open>p[i] == c\<close>, which stops at the first one that fails.\<close>

fun bytes_match :: "string \<Rightarrow> (nat \<times> char) list \<Rightarrow> bool res" where
  "bytes_match p [] = Inr True"
| "bytes_match p ((i, c) # ts) = bind_res (byte_at p i) (\<lambda>b. if b = of_char c then bytes_match p ts else Inr False)"

text \<open>The tests in the order of the code, each with the number of bytes it takes and its effect on the state.\<close>

definition escape_table :: "((nat \<times> char) list \<times> nat \<times> (string \<Rightarrow> EscapeSequenceState \<Rightarrow> EscapeSequenceState)) list" where
  "escape_table =
     [([(1, CHR ''b''), (2, CHR ''>'')], 3, \<lambda>p st. st\<lparr>es_bold := True\<rparr>),
      ([(1, CHR ''/''), (2, CHR ''b''), (3, CHR ''>'')], 4, \<lambda>p st. st\<lparr>es_bold := False\<rparr>),
      ([(1, CHR ''u''), (2, CHR ''>'')], 3, \<lambda>p st. st\<lparr>es_underline := True\<rparr>),
      ([(1, CHR ''/''), (2, CHR ''u''), (3, CHR ''>'')], 4, \<lambda>p st. st\<lparr>es_underline := False\<rparr>),
      ([(1, CHR ''i''), (2, CHR ''>'')], 3, \<lambda>p st. st\<lparr>es_italic := True\<rparr>),
      ([(1, CHR ''/''), (2, CHR ''i''), (3, CHR ''>'')], 4, \<lambda>p st. st\<lparr>es_italic := False\<rparr>),
      ([(1, CHR ''c''), (10, CHR ''>'')], 11, \<lambda>p st. st\<lparr>currentColor := strtoul16 (drop 2 p)\<rparr>),
      ([(1, CHR ''/''), (2, CHR ''c''), (3, CHR ''>'')], 4, \<lambda>p st. st\<lparr>currentColor := basecolor st\<rparr>),
      ([(1, CHR ''g''), (10, CHR ''>'')], 11, \<lambda>p st. st\<lparr>backgroundColor := strtoul16 (drop 2 p), useBackground := True\<rparr>),
      ([(1, CHR ''/''), (2, CHR ''g''), (3, CHR ''>'')], 4, \<lambda>p st. st\<lparr>useBackground := False\<rparr>)]"

fun try_escapes :: "((nat \<times> char) list \<times> nat \<times> (string \<Rightarrow> EscapeSequenceState \<Rightarrow> EscapeSequenceState)) list \<Rightarrow>
    string \<Rightarrow> EscapeSequenceState \<Rightarrow> (nat \<times> EscapeSequenceState) res" where
  "try_escapes [] p st = Inr (0, st)"
| "try_escapes ((ts, adv, f) # es) p st =
     bind_res (bytes_match p ts) (\<lambda>hit. if hit then Inr (adv, f p st) else try_escapes es p st)"

definition lgui_process_escape_seq :: "string \<Rightarrow> EscapeSequenceState \<Rightarrow> (nat \<times> EscapeSequenceState) res" where
  "lgui_process_escape_seq p st = try_escapes escape_table p st"

section \<open>Lines\<close>

text \<open>
  The loop of \<open>lgui_text_line_complex\<close> at byte \<open>idx\<close> of the text; \<open>limit\<close> is the right edge of the clip. \<open>checked\<close> is false after the jump to \<open>another_escape\<close>, which skips the test
  for the end of the text. \<open>xadvance\<close> has no value before the first glyph is found.
\<close>

fun text_line :: "nat \<Rightarrow> (32 word \<Rightarrow> bool \<Rightarrow> int option) \<Rightarrow> int \<Rightarrow> string \<Rightarrow> EscapeSequenceState \<Rightarrow> bool \<Rightarrow> nat \<Rightarrow> nat \<Rightarrow> int \<Rightarrow> int option \<Rightarrow> nat res" where
  "text_line 0 glyph limit str st checked idx lastStart x xadvance = Inl Diverge"
| "text_line (Suc n) glyph limit str st checked idx lastStart x xadvance =
     bind_res (byte_at str idx) (\<lambda>b.
     if checked \<and> b = 0 then Inr idx
     else
       bind_res (if b = of_char (CHR ''<'') then lgui_process_escape_seq (drop idx str) st else Inr (0, st)) (\<lambda>(adv, st).
       if adv > 0 then text_line n glyph limit str st False (idx + adv) lastStart x xadvance
       else if b = 10 \<or> b = 13 then Inr (idx + 1)
       else
         bind_res (UTF8toUTF32 (drop idx str)) (\<lambda>(val, adv).
         let idx = idx + adv; xadvance = (case glyph val (es_bold st) of None \<Rightarrow> xadvance | Some a \<Rightarrow> Some a) in
         bind_res (read_init xadvance) (\<lambda>a.
         if x + a + a > limit then Inr lastStart
         else
           bind_res (byte_at str (idx - 1)) (\<lambda>b.
           text_line n glyph limit str st True idx (if b = of_char (CHR '' '') then idx else lastStart) (x + a) xadvance)))))"

definition lgui_text_line_complex :: "(32 word \<Rightarrow> bool \<Rightarrow> int option) \<Rightarrow> int \<Rightarrow> string \<Rightarrow> int \<Rightarrow> EscapeSequenceState \<Rightarrow> nat res" where
  "lgui_text_line_complex glyph limit p x st = text_line (Suc (Suc (length p))) glyph limit p st True 0 0 x None"

fun measure_lines :: "nat \<Rightarrow> (32 word \<Rightarrow> bool \<Rightarrow> int option) \<Rightarrow> int \<Rightarrow> int \<Rightarrow> EscapeSequenceState \<Rightarrow> string \<Rightarrow> int \<Rightarrow> int res" where
  "measure_lines 0 glyph fontHeight width st p y = Inl Diverge"
| "measure_lines (Suc n) glyph fontHeight width st p y =
     (if p = [] then Inr y
      else
        bind_res (lgui_text_line_complex glyph width p 0 st) (\<lambda>adv.
        if adv > length p then Inl OutOfBounds
        else if adv = 0 then Inr y
        else measure_lines n glyph fontHeight width st (drop adv p) (y + (fontHeight + 1))))"

text \<open>The clip rectangle starts at 0 and has the width that is in the point; it is taken off the stack again at the end.\<close>

definition lgui_measure_font_complex :: "(32 word \<Rightarrow> bool \<Rightarrow> int option) \<Rightarrow> int \<Rightarrow> EscapeSequenceState \<Rightarrow> string \<Rightarrow> int \<times> int \<Rightarrow> (int \<times> int) res" where
  "lgui_measure_font_complex glyph fontHeight st str out =
     bind_res (measure_lines (Suc (length str)) glyph fontHeight (fst out) st str 0) (\<lambda>y.
     Inr (fst out, if y = 0 then fontHeight + 1 else y))"

section \<open>The specification of a line\<close>

text \<open>The number of leading characters that fit: the code leaves room for each character twice.\<close>

fun fitting :: "(nat \<Rightarrow> int) \<Rightarrow> int \<Rightarrow> int \<Rightarrow> nat list \<Rightarrow> nat" where
  "fitting a limit x [] = 0"
| "fitting a limit x (c # cs) = (if x + a c + a c > limit then 0 else Suc (fitting a limit (x + a c) cs))"

text \<open>The number of characters up to and including the last space.\<close>

fun upto_space :: "nat list \<Rightarrow> nat" where
  "upto_space [] = 0"
| "upto_space (c # cs) = (if upto_space cs > 0 then Suc (upto_space cs) else if c = 32 then 1 else 0)"

abbreviation line_end :: "nat \<Rightarrow> bool" where "line_end c \<equiv> c = 10 \<or> c = 13"

definition first_line :: "(nat \<Rightarrow> int) \<Rightarrow> int \<Rightarrow> nat list \<Rightarrow> nat" where
  "first_line a limit cs =
     (let par = takeWhile (\<lambda>c. \<not> line_end c) cs; k = fitting a limit 0 par
      in if k < length par then upto_space (take k par) else min (length cs) (Suc (length par)))"

lemma fitting_le: "fitting a limit x cs \<le> length cs"
  by (induction cs arbitrary: x) auto

lemma upto_space_le: "upto_space cs \<le> length cs"
  by (induction cs) auto

lemma first_line_le: "first_line a limit cs \<le> length cs"
  using upto_space_le [of "take (fitting a limit 0 (takeWhile (\<lambda>c. \<not> line_end c) cs)) (takeWhile (\<lambda>c. \<not> line_end c) cs)"]
    length_takeWhile_le [of "\<lambda>c. \<not> line_end c" cs] by (simp add: first_line_def Let_def)

function wrapped_lines :: "(nat \<Rightarrow> int) \<Rightarrow> int \<Rightarrow> nat list \<Rightarrow> nat" where
  "wrapped_lines a limit cs =
     (let k = first_line a limit cs in if k = 0 then 0 else Suc (wrapped_lines a limit (drop k cs)))"
  by pat_completeness auto
termination
  by (relation "measure (\<lambda>(a, limit, cs). length cs)") (auto intro!: diff_less order.strict_trans2 [OF _ first_line_le, of 0] simp del: length_greater_0_conv)

declare wrapped_lines.simps [simp del]

section \<open>The code breaks lines as specified\<close>

lemma of_char_space: "(of_char c :: nat) = 32 \<longleftrightarrow> c = CHR '' ''"
proof -
  have "(of_char (CHR '' '') :: nat) = 32" by simp
  then show ?thesis by (metis of_char_eq_iff)
qed

text \<open>A text without markup whose glyphs exist and have the advances \<open>a\<close>.\<close>

definition drawable :: "(32 word \<Rightarrow> bool \<Rightarrow> int option) \<Rightarrow> bool \<Rightarrow> (nat \<Rightarrow> int) \<Rightarrow> nat list \<Rightarrow> bool" where
  "drawable glyph isBold a cs \<longleftrightarrow> (\<forall>c \<in> set cs. scalar_value c \<and> c \<noteq> 60 \<and> glyph (of_nat c) isBold = Some (a c))"

lemma char_is_space: "char_of (n :: nat) = CHR '' '' \<longleftrightarrow> n mod 256 = 32"
  using of_char_space [of "char_of n"] by simp

lemma utf8_last_space: "scalar_value c \<Longrightarrow> last (utf8 c) = CHR '' '' \<longleftrightarrow> c = 32"
  by (auto simp: utf8_def char_is_space)

text \<open>The first byte of a character tells whether it is one of the three that the loop looks for.\<close>

lemma utf8_first:
  assumes "scalar_value c"
  shows "\<exists>b. byte_at (utf8 c @ r) 0 = Inr b \<and> b \<noteq> 0 \<and> (b < 128 \<or> c < 128 \<longrightarrow> b = c)"
proof -
  have "c < 0x110000" "0 < c" using assms by (auto simp: scalar_value_def)
  then show ?thesis by (auto simp: utf8_def byte_at_def)
qed

lemma byte_at_drop: "byte_at (p @ q) (length p + i) = byte_at q i"
  by (simp add: byte_at_def nth_append)

lemma byte_at_last: "q \<noteq> [] \<Longrightarrow> byte_at (p @ q @ r) (length p + length q - 1) = Inr (of_char (last q))"
  by (cases q rule: rev_cases) (auto simp: byte_at_def nth_append)

definition break_from :: "(nat \<Rightarrow> int) \<Rightarrow> int \<Rightarrow> int \<Rightarrow> nat \<Rightarrow> nat \<Rightarrow> nat list \<Rightarrow> nat" where
  "break_from a limit x from lastStart cs =
     (let par = takeWhile (\<lambda>c. \<not> line_end c) cs; k = fitting a limit x par; u = upto_space (take k par)
      in if k < length par then if u = 0 then lastStart else from + u else from + min (length cs) (Suc (length par)))"

lemma break_from_step:
  assumes "\<not> line_end c" and "x + a c + a c \<le> limit"
  shows "break_from a limit x from l (c # cs) = break_from a limit (x + a c) (Suc from) (if c = 32 then Suc from else l) cs"
  using assms by (auto simp: break_from_def Let_def)

lemma text_line_run:
  assumes "drawable glyph (es_bold st) a cs" and "length (utf8_text cs) < n"
    and "m \<le> length ds"
  shows "text_line n glyph limit (utf8_text ds @ utf8_text cs) st True (length (utf8_text ds)) (length (utf8_text (take m ds))) x xadv =
     Inr (length (utf8_text (take (break_from a limit x (length ds) m cs) (ds @ cs))))"
  using assms
proof (induction cs arbitrary: ds m x xadv n)
  case Nil
  then obtain k where "n = Suc k" by (cases n) auto
  then show ?case by (simp add: byte_at_def break_from_def)
next
  case (Cons c cs)
  obtain k where n: "n = Suc k" using Cons.prems(2) by (cases n) auto
  have c: "scalar_value c" "c \<noteq> 60" "glyph (of_nat c) (es_bold st) = Some (a c)" using Cons.prems(1) by (auto simp: drawable_def)
  obtain b where b: "byte_at (utf8 c @ utf8_text cs) 0 = Inr b" "b \<noteq> 0" "b < 128 \<or> c < 128 \<longrightarrow> b = c" using utf8_first [OF c(1)] by blast
  have byte: "byte_at (utf8_text ds @ utf8 c @ utf8_text cs) (length (utf8_text ds)) = Inr b" using byte_at_drop [of "utf8_text ds" _ 0] b(1) by simp
  have dec: "UTF8toUTF32 (utf8 c @ utf8_text cs) = Inr (of_nat c, length (utf8 c))" using decode_utf8 [OF c(1)] .
  have lst: "byte_at (utf8_text ds @ utf8 c @ utf8_text cs) (length (utf8_text ds) + length (utf8 c) - 1) = Inr (of_char (last (utf8 c)))"
    by (rule byte_at_last) simp
  have sp: "(of_char (last (utf8 c)) :: nat) = 32 \<longleftrightarrow> c = 32"
    using utf8_last_space [OF c(1)] of_char_space by blast
  have b60: "b \<noteq> 60" using b(3) c(2) by auto
  have nl: "(b = 10 \<or> b = 13) = line_end c" using b(3) by auto
  have k: "length (utf8_text cs) < k" using Cons.prems(2) n by (cases "utf8 c") auto
  show ?case
  proof (cases "line_end c \<or> limit < x + a c + a c")
    case True
    then show ?thesis using byte b(2) b60 nl dec c Cons.prems(3) utf8_ascii [of c]
      by (auto simp: n break_from_def Let_def read_init_def)
  next
    case False
    have "text_line k glyph limit (utf8_text (ds @ [c]) @ utf8_text cs) st True (length (utf8_text (ds @ [c])))
        (length (utf8_text (take (if c = 32 then Suc (length ds) else m) (ds @ [c])))) (x + a c) (Some (a c)) =
      Inr (length (utf8_text (take (break_from a limit (x + a c) (Suc (length ds)) (if c = 32 then Suc (length ds) else m) cs) ((ds @ [c]) @ cs))))"
      using Cons.IH [of k "if c = 32 then Suc (length ds) else m" "ds @ [c]"] Cons.prems(1,3) k by (auto simp: drawable_def)
    then show ?thesis using False byte b(2) b60 nl dec c lst sp Cons.prems(3) break_from_step [of c x a limit "length ds" m cs]
      by (auto simp: n Let_def read_init_def)
  qed
qed

lemma break_from_first: "break_from a limit 0 0 0 cs = first_line a limit cs"
  by (simp add: break_from_def first_line_def Let_def)

lemma first_line_run:
  assumes "drawable glyph (es_bold st) a cs"
  shows "lgui_text_line_complex glyph limit (utf8_text cs) 0 st = Inr (length (utf8_text (take (first_line a limit cs) cs)))"
  using text_line_run [OF assms, of _ 0 "[]" limit 0 None] break_from_first [of a limit cs] by (simp add: lgui_text_line_complex_def del: text_line.simps)

lemma utf8_text_split: "utf8_text cs = utf8_text (take k cs) @ utf8_text (drop k cs)"
  by (metis append_take_drop_id concat_append map_append)

lemma measure_lines_run:
  assumes "drawable glyph (es_bold st) a cs" and "length (utf8_text cs) < n"
  shows "measure_lines n glyph h width st (utf8_text cs) y = Inr (y + int (wrapped_lines a width cs) * (h + 1))"
  using assms
proof (induction a width cs arbitrary: y n rule: wrapped_lines.induct)
  case (1 a width cs)
  obtain m where n: "n = Suc m" using 1(3) by (cases n) auto
  let ?k = "first_line a width cs"
  have line: "lgui_text_line_complex glyph width (utf8_text cs) 0 st = Inr (length (utf8_text (take ?k cs)))" using first_line_run 1(2) by blast
  show ?case
  proof (cases "?k = 0 \<or> cs = []")
    case True
    then show ?thesis using line by (auto simp: n wrapped_lines.simps [of a width cs] first_line_def)
  next
    case False
    have split: "length (utf8_text cs) = length (utf8_text (take ?k cs)) + length (utf8_text (drop ?k cs))"
      using utf8_text_split [of cs ?k] by (metis length_append)
    have pos: "0 < length (utf8_text (take ?k cs))" using False by (cases cs; cases ?k) auto
    have "drop (length (utf8_text (take ?k cs))) (utf8_text cs) = utf8_text (drop ?k cs)" using utf8_text_split [of cs ?k] by (metis append_eq_conv_conj)
    moreover have "measure_lines m glyph h width st (utf8_text (drop ?k cs)) (y + (h + 1)) =
        Inr (y + (h + 1) + int (wrapped_lines a width (drop ?k cs)) * (h + 1))"
      using 1(1) [OF refl, of m "y + (h + 1)"] False 1(2,3) n split pos by (auto simp: drawable_def dest: in_set_dropD)
    ultimately show ?thesis using line pos split False
      by (auto simp: n wrapped_lines.simps [of a width cs] Let_def algebra_simps)
  qed
qed

lemma fitting_width:
  assumes "\<forall>c \<in> set cs. 0 \<le> a c" and "j \<le> fitting a limit x cs" and "x \<le> limit"
  shows "x + sum_list (map a (take j cs)) \<le> limit"
  using assms
proof (induction cs arbitrary: x j)
  case (Cons c cs)
  then show ?case
  proof (cases j)
    case (Suc i)
    moreover have "x + a c \<le> limit" using Cons.prems Suc by (auto split: if_splits)
    moreover have "i \<le> fitting a limit (x + a c) cs" using Cons.prems Suc by (auto split: if_splits)
    ultimately show ?thesis using Cons.IH [of i "x + a c"] Cons.prems(1) by (simp add: algebra_simps)
  qed simp
qed simp

lemma takeWhile_of_take: "takeWhile P (take i xs) = take i (takeWhile P xs)"
proof (induction xs arbitrary: i)
  case (Cons x xs)
  then show ?case by (cases i) auto
qed simp

lemma first_line_width:
  assumes "\<forall>c \<in> set cs. 0 \<le> a c" and "0 \<le> limit"
  shows "sum_list (map a (takeWhile (\<lambda>c. \<not> line_end c) (take (first_line a limit cs) cs))) \<le> limit"
proof -
  let ?par = "takeWhile (\<lambda>c. \<not> line_end c) cs"
  let ?k = "fitting a limit 0 ?par"
  have par: "\<forall>c \<in> set ?par. 0 \<le> a c" using assms(1) by (auto dest: set_takeWhileD)
  have fits: "sum_list (map a (take j ?par)) \<le> limit" if "j \<le> ?k" for j using fitting_width [OF par that] assms(2) by simp
  have cut: "takeWhile (\<lambda>c. \<not> line_end c) (take i cs) = take i ?par" for i by (rule takeWhile_of_take)
  show ?thesis
  proof (cases "?k < length ?par")
    case True
    have "upto_space (take ?k ?par) \<le> ?k" using upto_space_le [of "take ?k ?par"] by simp
    then show ?thesis using True fits cut by (simp add: first_line_def Let_def)
  next
    case False
    then have "?k = length ?par" using fitting_le [of a limit 0 ?par] by linarith
    then have "sum_list (map a (take i ?par)) \<le> limit" for i using fits [of "min i ?k"] by (cases "i \<le> ?k") (auto simp: min_def)
    then show ?thesis using cut by simp
  qed
qed

section \<open>Properties\<close>


definition no_markup :: EscapeSequenceState where
  "no_markup = \<lparr>es_bold = False, es_underline = False, es_italic = False, basecolor = 0, currentColor = 0, useBackground = False, backgroundColor = 0\<rparr>"


text \<open>Markup at the very end: after it the loop does not look for the end of the text, decodes the terminator as a character and goes on behind it.\<close>

lemma markup_at_end_overruns:
  assumes "0 \<le> k" and "4 * k \<le> width"
  shows "lgui_measure_font_complex (\<lambda>_ _. Some k) h st ''x</b>'' (width, y) = Inl OutOfBounds"
  using assms
  by (simp add: lgui_measure_font_complex_def lgui_text_line_complex_def lgui_process_escape_seq_def escape_table_def byte_at_def
      UTF8toUTF32_def trailing_bytes offsetsFromUTF8_def UNI_SUR_HIGH_START_def read_init_def Let_def)

end
