(* ===== verification/Widget_Layout.thy ===== *)
theory Widget_Layout
  imports Style_Lookup Text_Lines Widget_Focus
begin

text \<open>
  Layout of a tree of widgets: \<open>widget_resolveLayoutRoot\<close> of \<open>Widget.c\<close> with its passes over margins, absolute, relative and final sizes and positions, and the measuring functions
  of \<open>LabelWidget.c\<close>, \<open>EntryWidget.c\<close>, \<open>TextWidget.c\<close>, \<open>ImageWidget.c\<close>, \<open>CheckBoxWidget.c\<close> and \<open>ScrollBarWidget.c\<close>.

  The font is an argument: the advances of its glyphs and its height. So is what uninitialised variables on the stack hold: a scroll bar is measured by writing the width only, and the
  markup of a text starts in a state that nobody set.

  The passes go down the tree, so their depth is bounded by the number of objects unless a frame or reference leads back to a widget above it. Sizes in percent are computed in single
  precision, with \<open>round24\<close> of \<open>Dyn_Array\<close>.

  On trees of boxes the two central passes are compared with specifications: \<open>box_size\<close>, the size of a box from those of its parts, and \<open>place\<close>, which puts the children of a box
  one behind the other.
\<close>

unbundle bit_operations_syntax

record font =
  glyph_advance :: "32 word \<Rightarrow> bool \<Rightarrow> int option"
  font_height :: int
  stack_point :: "int \<times> int"
  stack_markup :: EscapeSequenceState

section \<open>Measuring content\<close>

text \<open>The text of a label: the named field of the object, or its data.\<close>

definition string_measure :: "font \<Rightarrow> addr \<Rightarrow> addr \<Rightarrow> store \<Rightarrow> (int \<times> int) res" where
  "string_measure fo w dobj s =
     bind_res (dataobject_getEnum s w EMO_FIELD_DATAFIELD) (\<lambda>sourceField.
     bind_res
       (case sourceField of
          None \<Rightarrow> dataobject_getEnum s dobj EMO_FIELD_DATA
        | Some f \<Rightarrow>
            bind_res (get_fld s f) (\<lambda>fl.
            case f_val fl of DOF_STRING str \<Rightarrow> dataobject_getValueReal s dobj (str_of str) | _ \<Rightarrow> dataobject_getEnum s dobj EMO_FIELD_DATA)) (\<lambda>field.
     bind_res (dataobject_getEnum s w EMO_FIELD_WEIGHT) (\<lambda>boldField.
     bind_res (dataobjectfield_isString s boldField ''bold'') (\<lambda>isBold.
     case field of
       None \<Rightarrow> Inr (0, 0)
     | Some f \<Rightarrow> bind_res (get_string s f) (\<lambda>str. lgui_measure_font (glyph_advance fo) (font_height fo) (str_of str) isBold)))))"

definition entry_measure :: "font \<Rightarrow> addr \<Rightarrow> store \<Rightarrow> ((int \<times> int) \<times> store) res" where
  "entry_measure fo dobj s =
     bind_res (dataobject_getEnum s dobj EMO_FIELD_DATA) (\<lambda>field.
     bind_res
       (case field of
          Some f \<Rightarrow> Inr (f, s)
        | None \<Rightarrow> (let (f, s) = dataobjectfield_string [] s in bind_res (dataobject_setEnum dobj EMO_FIELD_DATA f s) (\<lambda>s. Inr (f, s)))) (\<lambda>(f, s).
     bind_res (get_string s f) (\<lambda>str.
     bind_res (lgui_measure_font (glyph_advance fo) (font_height fo) (str_of str) False) (\<lambda>(x, y). Inr ((x, y + 4), s)))))"

definition text_measure :: "font \<Rightarrow> addr \<Rightarrow> addr \<Rightarrow> int \<times> int \<Rightarrow> store \<Rightarrow> (int \<times> int) res" where
  "text_measure fo w dobj p s =
     bind_res (dataobject_getEnum s w EMO_FIELD_DATAFIELD) (\<lambda>sourceField.
     bind_res
       (case sourceField of
          None \<Rightarrow> dataobject_getEnum s dobj EMO_FIELD_DATA
        | Some f \<Rightarrow>
            bind_res (get_fld s f) (\<lambda>fl.
            case f_val fl of
              DOF_STRING str \<Rightarrow> dataobject_getValue s dobj (str_of str)
            | DOF_INT i \<Rightarrow> dataobject_getEnum s dobj (sint i)
            | _ \<Rightarrow> dataobject_getEnum s dobj EMO_FIELD_DATA)) (\<lambda>field.
     bind_res (case field of None \<Rightarrow> Inr [] | Some f \<Rightarrow> bind_res (get_string s f) (\<lambda>str. Inr (str_of str))) (\<lambda>str.
     bind_res (lgui_measure_font_complex (glyph_advance fo) (font_height fo) (stack_markup fo) str p) (\<lambda>(x, y). Inr (x, y + 4)))))"

definition field_if_int :: "store \<Rightarrow> addr option \<Rightarrow> int option res" where
  "field_if_int s field =
     (case field of None \<Rightarrow> Inr None | Some f \<Rightarrow> bind_res (get_fld s f) (\<lambda>fl. Inr (case f_val fl of DOF_INT i \<Rightarrow> Some (sint i) | _ \<Rightarrow> None)))"

definition image_measure :: "addr \<Rightarrow> addr \<Rightarrow> store \<Rightarrow> ((int \<times> int) \<times> store) res" where
  "image_measure w dobj s =
     bind_res (bind_res (dataobject_getEnum s dobj EMO_FIELD_WIDTH) (field_if_int s)) (\<lambda>width.
     case width of
       None \<Rightarrow> Inr ((0, 0), s)
     | Some x \<Rightarrow>
         bind_res (bind_res (dataobject_getEnum s dobj EMO_FIELD_HEIGHT) (field_if_int s)) (\<lambda>h.
         case h of
           None \<Rightarrow> Inr ((0, 0), s)
         | Some y \<Rightarrow>
             bind_res (dataobject_getEnumAsInt w EMO_FIELD_IMGWIDTH s) (\<lambda>(fw, s).
             bind_res (case fw of None \<Rightarrow> Inr x | Some f \<Rightarrow> get_integer s f) (\<lambda>x.
             bind_res (dataobject_getEnumAsInt w EMO_FIELD_IMGHEIGHT s) (\<lambda>(fh, s).
             bind_res (case fh of None \<Rightarrow> Inr y | Some f \<Rightarrow> get_integer s f) (\<lambda>y. Inr ((x, y), s)))))))"

definition checkbox_measure :: "int \<times> int" where "checkbox_measure = (12, 12)"

text \<open>Only the width is written.\<close>

definition scrollbar_measure :: "int \<times> int \<Rightarrow> int \<times> int" where "scrollbar_measure p = (8, snd p)"

definition has_measure :: "WidgetRenderer \<Rightarrow> bool" where
  "has_measure r \<longleftrightarrow> r \<noteq> R_box \<and> r \<noteq> R_scrolled"

text \<open>\<open>wr->measure\<close> on a point that holds \<open>p\<close>.\<close>

definition wr_measure :: "font \<Rightarrow> WidgetRenderer \<Rightarrow> addr \<Rightarrow> addr \<Rightarrow> int \<times> int \<Rightarrow> store \<Rightarrow> ((int \<times> int) \<times> store) res" where
  "wr_measure fo r w dobj p s =
     (case r of
        R_string \<Rightarrow> bind_res (string_measure fo w dobj s) (\<lambda>p. Inr (p, s))
      | R_entry \<Rightarrow> entry_measure fo dobj s
      | R_text \<Rightarrow> bind_res (text_measure fo w dobj p s) (\<lambda>p. Inr (p, s))
      | R_image \<Rightarrow> image_measure w dobj s
      | R_checkbox \<Rightarrow> Inr (checkbox_measure, s)
      | R_scrollbar \<Rightarrow> Inr (scrollbar_measure p, s)
      | R_box \<Rightarrow> Inl NullDeref
      | R_scrolled \<Rightarrow> Inl NullDeref)"

definition string_margin :: Rectangle where "string_margin = \<lparr>r_x = 3, r_y = 2, r_width = 3, r_height = 2\<rparr>"

definition widgetrenderer_zeroMargin :: Rectangle where "widgetrenderer_zeroMargin = \<lparr>r_x = 0, r_y = 0, r_width = 0, r_height = 0\<rparr>"

definition wr_margin :: "WidgetRenderer \<Rightarrow> Rectangle" where
  "wr_margin r = (if r = R_string then string_margin else widgetrenderer_zeroMargin)"

section \<open>Sizes\<close>

definition set_box_width :: "int \<Rightarrow> addr \<Rightarrow> store \<Rightarrow> store res" where
  "set_box_width v = upd_obj (\<lambda>d. d\<lparr>box := (box d)\<lparr>r_width := v\<rparr>\<rparr>)"

definition set_box_height :: "int \<Rightarrow> addr \<Rightarrow> store \<Rightarrow> store res" where
  "set_box_height v = upd_obj (\<lambda>d. d\<lparr>box := (box d)\<lparr>r_height := v\<rparr>\<rparr>)"

text \<open>A side of the box: its dirty flag and its setter.\<close>

datatype side = Width | Height

definition side_flag :: "side \<Rightarrow> 32 word" where
  "side_flag sd = (case sd of Width \<Rightarrow> DO_FLAG_LAYOUT_DIRTY_WIDTH | Height \<Rightarrow> DO_FLAG_LAYOUT_DIRTY_HEIGHT)"

definition side_field :: "side \<Rightarrow> int" where
  "side_field sd = (case sd of Width \<Rightarrow> EMO_FIELD_WIDTH | Height \<Rightarrow> EMO_FIELD_HEIGHT)"

definition set_side :: "side \<Rightarrow> int \<Rightarrow> addr \<Rightarrow> store \<Rightarrow> store res" where
  "set_side sd v = (case sd of Width \<Rightarrow> set_box_width v | Height \<Rightarrow> set_box_height v)"

definition side_of :: "side \<Rightarrow> Rectangle \<Rightarrow> int" where
  "side_of sd r = (case sd of Width \<Rightarrow> r_width r | Height \<Rightarrow> r_height r)"

definition start_of :: "side \<Rightarrow> Rectangle \<Rightarrow> int" where
  "start_of sd r = (case sd of Width \<Rightarrow> r_x r | Height \<Rightarrow> r_y r)"

text \<open>\<open>ABSOLUTE_FIELD\<close>. An empty string is read at index -1.\<close>

definition ABSOLUTE_FIELD :: "side \<Rightarrow> addr \<Rightarrow> store \<Rightarrow> store res" where
  "ABSOLUTE_FIELD sd w s =
     bind_res (dataobject_getEnum s w (side_field sd)) (\<lambda>sField.
     case sField of
       None \<Rightarrow> Inr s
     | Some f \<Rightarrow>
         bind_res (get_fld s f) (\<lambda>fl.
         case f_val fl of
           DOF_INT i \<Rightarrow> bind_res (set_side sd (sint i) w s) (dataobject_setLayoutClean (side_flag sd) w)
         | DOF_STRING str \<Rightarrow>
             if str_of str = [] then Inl OutOfBounds
             else if last (str_of str) = CHR ''%'' then Inr s
             else bind_res (set_side sd (atoi (str_of str)) w s) (dataobject_setLayoutClean (side_flag sd) w)
         | _ \<Rightarrow> Inl TypeConfusion))"

text \<open>The style of a widget and the one passed to its children.\<close>

definition widget_style :: "addr option \<Rightarrow> addr \<Rightarrow> addr \<Rightarrow> store \<Rightarrow> (addr \<times> addr \<times> store) res" where
  "widget_style type w st s =
     bind_res (widget_getID s w) (\<lambda>wid.
     bind_res (case type of None \<Rightarrow> Inr None | Some f \<Rightarrow> bind_res (get_string s f) (\<lambda>str. Inr (Some str))) (\<lambda>otype.
     bind_res (widget_hasFocus w s) (\<lambda>(focus, s).
     bind_res (style_getID st otype wid focus s) (\<lambda>(style, wentUp, s). Inr (style, if wentUp then st else style, s)))))"

text \<open>
  Where the passes descend, with the style for each child: a frame to the screen of its application, with that application's style or the root style, a reference to its object,
  with the style of the widget, and others to the children.
\<close>

definition layout_children :: "addr \<Rightarrow> addr \<Rightarrow> addr \<Rightarrow> addr option \<Rightarrow> store \<Rightarrow> (addr \<times> addr) list res" where
  "layout_children style childStyle w type s =
     bind_res (EMO_DOF_IS_TYPE s type EMO_TYPE_FRAME) (\<lambda>isframe.
     if isframe then
       bind_res (widget_getDataObject s w) (\<lambda>child.
       if child = w then Inr []
       else
         (case manager_applicationForDataObject s child of
            None \<Rightarrow> Inr []
          | Some app \<Rightarrow>
              (case app_screen app of
                 None \<Rightarrow> Inr []
               | Some scr \<Rightarrow>
                   (case (case currentStyle app of None \<Rightarrow> am_style (appManager s) | Some st \<Rightarrow> Some st) of
                      None \<Rightarrow> Inl Abort
                    | Some st \<Rightarrow> Inr [(scr, st)]))))
     else
       bind_res (EMO_DOF_IS_TYPE s type EMO_TYPE_REFERENCE) (\<lambda>isref.
       if isref then bind_res (widget_getDataObject s w) (\<lambda>child. Inr (if child = w then [] else [(child, style)]))
       else bind_res (dataobject_childIterator s w) (\<lambda>cs. Inr (map (\<lambda>c. (c, childStyle)) cs))))"

fun each_pair :: "(addr \<Rightarrow> addr \<Rightarrow> store \<Rightarrow> store res) \<Rightarrow> (addr \<times> addr) list \<Rightarrow> store \<Rightarrow> store res" where
  "each_pair f [] s = Inr s"
| "each_pair f ((c, st) # cs) s = bind_res (f c st s) (each_pair f cs)"

definition apply_measure :: "font \<Rightarrow> WidgetRenderer \<Rightarrow> addr \<Rightarrow> addr \<Rightarrow> store \<Rightarrow> store res" where
  "apply_measure fo r w dobj s =
     bind_res (wr_measure fo r w dobj (stack_point fo) s) (\<lambda>((x, y), s).
     bind_res (set_box_width x w s) (\<lambda>s.
     bind_res (set_box_height y w s) (\<lambda>s.
     bind_res (dataobject_setLayoutClean DO_FLAG_LAYOUT_DIRTY_WIDTH w s) (dataobject_setLayoutClean DO_FLAG_LAYOUT_DIRTY_HEIGHT w))))"

fun measureAbsolute_loop :: "nat \<Rightarrow> font \<Rightarrow> addr \<Rightarrow> addr \<Rightarrow> store \<Rightarrow> store res" where
  "measureAbsolute_loop 0 fo w st s = Inl Diverge"
| "measureAbsolute_loop (Suc n) fo w st s =
     bind_res (widget_getDataObject s w) (\<lambda>dobj.
     bind_res (dataobject_getEnum s w EMO_FIELD_TYPE) (\<lambda>type.
     bind_res (widget_style type w st s) (\<lambda>(style, childStyle, s).
     bind_res (style_getRenderer style w EMO_FIELD_RENDERER s) (\<lambda>(wr, s).
     bind_res
       (case wr of
          None \<Rightarrow> Inr s
        | Some r \<Rightarrow>
            if \<not> has_measure r then Inr s
            else bind_res (EMO_DOF_IS_TYPE s type EMO_TYPE_TEXT) (\<lambda>istext. if istext then Inr s else apply_measure fo r w dobj s)) (\<lambda>s.
     bind_res (ABSOLUTE_FIELD Width w s) (\<lambda>s.
     bind_res (ABSOLUTE_FIELD Height w s) (\<lambda>s.
     bind_res (layout_children style childStyle w type s) (\<lambda>cs.
     each_pair (measureAbsolute_loop n fo) cs s))))))))"

definition widget_layoutMeasureAbsolute :: "font \<Rightarrow> addr \<Rightarrow> addr \<Rightarrow> store \<Rightarrow> store res" where
  "widget_layoutMeasureAbsolute fo w st s = measureAbsolute_loop (Suc (next_addr s)) fo w st s"

text \<open>\<open>strcmp\<close> with the name, so a text is recognised by its string.\<close>

fun measureFinal_loop :: "nat \<Rightarrow> font \<Rightarrow> addr \<Rightarrow> addr \<Rightarrow> store \<Rightarrow> store res" where
  "measureFinal_loop 0 fo w st s = Inl Diverge"
| "measureFinal_loop (Suc n) fo w st s =
     bind_res (widget_getDataObject s w) (\<lambda>dobj.
     bind_res (widget_getID s w) (\<lambda>_.
     bind_res (dataobject_getEnum s w EMO_FIELD_TYPE) (\<lambda>type.
     case type of
       None \<Rightarrow> Inr s
     | Some tf \<Rightarrow>
         bind_res (widget_style type w st s) (\<lambda>(style, childStyle, s).
         bind_res (style_getRenderer style w EMO_FIELD_RENDERER s) (\<lambda>(wr, s).
         bind_res
           (case wr of
              None \<Rightarrow> Inr s
            | Some r \<Rightarrow>
                if \<not> has_measure r then Inr s
                else
                  bind_res (get_string s tf) (\<lambda>str.
                  if str_of str = ''text'' then
                    bind_res (get_obj s w) (\<lambda>d.
                    bind_res (wr_measure fo r w dobj (r_width (box d), snd (stack_point fo)) s) (\<lambda>((x, y), s).
                    bind_res (set_box_height y w s) (dataobject_setLayoutClean DO_FLAG_LAYOUT_DIRTY_HEIGHT w)))
                  else Inr s)) (\<lambda>s.
         bind_res (layout_children style childStyle w type s) (\<lambda>cs.
         each_pair (measureFinal_loop n fo) cs s))))))) "

definition widget_layoutMeasureFinal :: "font \<Rightarrow> addr \<Rightarrow> addr \<Rightarrow> store \<Rightarrow> store res" where
  "widget_layoutMeasureFinal fo w st s = measureFinal_loop (Suc (next_addr s)) fo w st s"

section \<open>Sizes that depend on other widgets\<close>

fun forceResolve_loop :: "nat \<Rightarrow> side \<Rightarrow> addr \<Rightarrow> store \<Rightarrow> store res" where
  "forceResolve_loop 0 sd w s = Inl Diverge"
| "forceResolve_loop (Suc n) sd w s =
     bind_res (get_obj s w) (\<lambda>d.
     case parent d of
       None \<Rightarrow> Inr s
     | Some p \<Rightarrow>
         bind_res (dataobject_getEnum s w EMO_FIELD_TYPE) (\<lambda>field.
         bind_res (EMO_DOF_IS_TYPE s field EMO_TYPE_VIEW) (\<lambda>isview.
         if isview then Inr s
         else
           bind_res (dataobject_isLayoutDirty s p (side_flag sd)) (\<lambda>dirty.
           bind_res (if dirty \<noteq> 0 then forceResolve_loop n sd p s else Inr s) (\<lambda>s.
           bind_res (get_obj s p) (\<lambda>pd.
           bind_res (get_obj s w) (\<lambda>d.
           bind_res (set_side sd (side_of sd (box pd) - (start_of sd (margin d) + side_of sd (margin d))) w s)
             (dataobject_setLayoutClean (side_flag sd) w))))))))"

definition widget_layoutForceResolveParent :: "side \<Rightarrow> addr \<Rightarrow> store \<Rightarrow> store res" where
  "widget_layoutForceResolveParent sd w s = forceResolve_loop (Suc (next_addr s)) sd w s"

text \<open>
  \<open>(int)(side * ((float)tmpint)/100.0)\<close>: the product is rounded to single precision; the quotient in double precision is so near to the exact one that it is truncated to the same
  integer. A result outside the range of \<open>int\<close> is undefined.
\<close>

definition float_of_int :: "int \<Rightarrow> int" where
  "float_of_int i = sgn i * int (round24 (nat \<bar>i\<bar>))"

definition percent_of :: "int \<Rightarrow> int \<Rightarrow> int res" where
  "percent_of side pct =
     (let v = float_of_int (float_of_int side * float_of_int pct) sdiv 100 in if -(2 ^ 31) \<le> v \<and> v < 2 ^ 31 then Inr v else Inl OutOfBounds)"

definition RELATIVE_FIELD :: "side \<Rightarrow> addr \<Rightarrow> store \<Rightarrow> store res" where
  "RELATIVE_FIELD sd w s =
     bind_res (dataobject_getEnum s w (side_field sd)) (\<lambda>sField.
     case sField of
       None \<Rightarrow> Inr s
     | Some f \<Rightarrow>
         bind_res (get_fld s f) (\<lambda>fl.
         case f_val fl of
           DOF_STRING str \<Rightarrow>
             if str_of str = [] then Inl OutOfBounds
             else if last (str_of str) \<noteq> CHR ''%'' then Inr s
             else
               bind_res (get_obj s w) (\<lambda>d.
               case parent d of
                 None \<Rightarrow> Inl Abort
               | Some p \<Rightarrow>
                   bind_res (dataobject_isLayoutDirty s p (side_flag sd)) (\<lambda>dirty.
                   bind_res (if dirty \<noteq> 0 then widget_layoutForceResolveParent sd p s else Inr s) (\<lambda>s.
                   bind_res (get_obj s p) (\<lambda>pd.
                   bind_res (percent_of (side_of sd (box pd)) (atoi (str_of str))) (\<lambda>v.
                   bind_res (set_side sd (v - (start_of sd (margin d) + side_of sd (margin d))) w s)
                     (dataobject_setLayoutClean (side_flag sd) w))))))
         | _ \<Rightarrow> Inr s))"

text \<open>The running totals of \<open>widget_resolveMeasureRelative\<close>.\<close>

record sums =
  sumWidth :: int
  sumHeight :: int
  rowWidth :: int
  rowHeight :: int
  widthStillDirty :: bool
  heightStillDirty :: bool

definition outer :: "side \<Rightarrow> DataObject \<Rightarrow> int" where
  "outer sd d = side_of sd (box d) + start_of sd (margin d) + side_of sd (margin d)"

definition add_child :: "int \<Rightarrow> DataObject \<Rightarrow> DataObject \<Rightarrow> sums \<Rightarrow> sums" where
  "add_child pack d c m =
     (if pack = WP WP_HGRID then
        (let new = outer Width c;
             m = (if rowWidth m + new > r_width (box d)
                  then m\<lparr>sumWidth := max (sumWidth m) (rowWidth m), rowWidth := 0, sumHeight := sumHeight m + rowHeight m, rowHeight := 0\<rparr> else m);
             m = m\<lparr>rowWidth := rowWidth m + new\<rparr>
         in m\<lparr>rowHeight := max (rowHeight m) (outer Height c)\<rparr>)
      else if pack = WP WP_VGRID then
        (let new = outer Height c;
             m = (if rowHeight m + new > r_height (box d)
                  then m\<lparr>sumHeight := max (sumHeight m) (rowHeight m), rowHeight := 0, sumWidth := sumWidth m + rowWidth m, rowWidth := 0\<rparr> else m);
             m = m\<lparr>rowHeight := rowHeight m + new\<rparr>
         in m\<lparr>rowWidth := max (rowWidth m) (outer Width c)\<rparr>)
      else if pack = WP WP_HORIZONTAL then m\<lparr>sumWidth := sumWidth m + outer Width c, sumHeight := max (sumHeight m) (outer Height c)\<rparr>
      else m\<lparr>sumWidth := max (sumWidth m) (outer Width c), sumHeight := sumHeight m + outer Height c\<rparr>)"

definition close_row :: "int \<Rightarrow> sums \<Rightarrow> sums" where
  "close_row pack m =
     (if rowHeight m > 0 \<or> rowWidth m > 0
      then if pack = WP WP_HGRID then m\<lparr>sumWidth := max (sumWidth m) (rowWidth m), sumHeight := sumHeight m + rowHeight m\<rparr>
           else m\<lparr>sumHeight := max (sumHeight m) (rowHeight m), sumWidth := sumWidth m + rowWidth m\<rparr>
      else m)"

text \<open>The widgets that are measured: the one that a frame or reference shows, when there is one, the active item of a set, else the children.\<close>

definition shown_child :: "addr option \<Rightarrow> addr \<Rightarrow> store \<Rightarrow> addr option res" where
  "shown_child type w s =
     bind_res (EMO_DOF_IS_TYPE s type EMO_TYPE_FRAME) (\<lambda>isframe.
     if isframe then bind_res (frame_screen True s w) (\<lambda>cs. Inr (case cs of [] \<Rightarrow> None | c # _ \<Rightarrow> Some c))
     else
       bind_res (EMO_DOF_IS_TYPE s type EMO_TYPE_REFERENCE) (\<lambda>isref.
       if isref then bind_res (reference_target s w) (\<lambda>cs. Inr (case cs of [] \<Rightarrow> None | c # _ \<Rightarrow> Some c)) else Inr None))"

definition relative_children :: "addr option \<Rightarrow> addr \<Rightarrow> store \<Rightarrow> addr list res" where
  "relative_children type w s =
     bind_res (shown_child type w s) (\<lambda>shown.
     case shown of
       Some c \<Rightarrow> Inr [c]
     | None \<Rightarrow>
         bind_res (dataobject_childIterator s w) (\<lambda>cs.
         bind_res (EMO_DOF_IS_TYPE s type EMO_TYPE_SET) (\<lambda>isset.
         if isset \<and> cs \<noteq> [] then bind_res (setwidget_activeItem s w) (\<lambda>item. Inr (case item of None \<Rightarrow> [] | Some c \<Rightarrow> [c]))
         else Inr cs)))"

fun sum_children :: "(addr \<Rightarrow> store \<Rightarrow> store res) \<Rightarrow> int \<Rightarrow> addr \<Rightarrow> addr list \<Rightarrow> sums \<Rightarrow> store \<Rightarrow> (sums \<times> store) res" where
  "sum_children f pack w [] m s = Inr (m, s)"
| "sum_children f pack w (child # cs) m s =
     bind_res (f child s) (\<lambda>s.
     bind_res (dataobject_isLayoutDirty s child DO_FLAG_LAYOUT_DIRTY_WIDTH) (\<lambda>wd.
     bind_res (dataobject_isLayoutDirty s child DO_FLAG_LAYOUT_DIRTY_HEIGHT) (\<lambda>hd.
     bind_res (get_obj s w) (\<lambda>d.
     bind_res (get_obj s child) (\<lambda>c.
     let m = m\<lparr>widthStillDirty := widthStillDirty m \<or> wd \<noteq> 0, heightStillDirty := heightStillDirty m \<or> hd \<noteq> 0\<rparr> in
     sum_children f pack w cs (add_child pack d c m) s)))))"

definition no_sums :: sums where
  "no_sums = \<lparr>sumWidth = 0, sumHeight = 0, rowWidth = 0, rowHeight = 0, widthStillDirty = False, heightStillDirty = False\<rparr>"

definition apply_sums :: "sums \<Rightarrow> addr \<Rightarrow> store \<Rightarrow> store res" where
  "apply_sums m w s =
     bind_res (dataobject_isLayoutDirty s w DO_FLAG_LAYOUT_DIRTY_WIDTH) (\<lambda>wd.
     bind_res
       (if \<not> widthStillDirty m \<and> wd \<noteq> 0
        then bind_res (set_box_width (sumWidth m) w s) (dataobject_setLayoutClean DO_FLAG_LAYOUT_DIRTY_WIDTH w) else Inr s) (\<lambda>s.
     bind_res (dataobject_isLayoutDirty s w DO_FLAG_LAYOUT_DIRTY_HEIGHT) (\<lambda>hd.
     bind_res
       (if \<not> heightStillDirty m \<and> hd \<noteq> 0
        then
          bind_res (dataobject_getEnum s w EMO_FIELD_TYPE) (\<lambda>sField.
          bind_res (EMO_DOF_IS_TYPE s sField EMO_TYPE_TEXT) (\<lambda>istext.
          if istext then Inr s
          else bind_res (set_box_height (sumHeight m) w s) (dataobject_setLayoutClean DO_FLAG_LAYOUT_DIRTY_HEIGHT w)))
        else Inr s)
       (upd_obj (\<lambda>d. d\<lparr>childBox := Some (sumWidth m, sumHeight m)\<rparr>) w))))"

fun measureRelative_loop :: "nat \<Rightarrow> addr \<Rightarrow> store \<Rightarrow> store res" where
  "measureRelative_loop 0 w s = Inl Diverge"
| "measureRelative_loop (Suc n) w s =
     bind_res (RELATIVE_FIELD Width w s) (\<lambda>s.
     bind_res (RELATIVE_FIELD Height w s) (\<lambda>s.
     bind_res (dataobject_getEnum s w EMO_FIELD_TYPE) (\<lambda>type.
     bind_res (widget_getPacking w s) (\<lambda>(pack, s).
     bind_res (relative_children type w s) (\<lambda>cs.
     bind_res (sum_children (measureRelative_loop n) pack w cs no_sums s) (\<lambda>(m, s).
     apply_sums (close_row pack m) w s))))))"

definition widget_resolveMeasureRelative :: "addr \<Rightarrow> store \<Rightarrow> store res" where
  "widget_resolveMeasureRelative w s = measureRelative_loop (Suc (next_addr s)) w s"

section \<open>Margins\<close>

definition margin_property :: "(int \<Rightarrow> Rectangle \<Rightarrow> Rectangle) \<Rightarrow> int \<Rightarrow> addr \<Rightarrow> addr \<Rightarrow> store \<Rightarrow> (bool \<times> store) res" where
  "margin_property f key style w s =
     bind_res (style_getPropertyAsInt style w key s) (\<lambda>(field, s).
     case field of
       None \<Rightarrow> Inr (False, s)
     | Some fa \<Rightarrow> bind_res (get_integer s fa) (\<lambda>i. bind_res (upd_obj (\<lambda>d. d\<lparr>margin := f i (margin d)\<rparr>) w s) (\<lambda>s. Inr (True, s))))"

definition apply_margins :: "addr \<Rightarrow> addr \<Rightarrow> store \<Rightarrow> store res" where
  "apply_margins style w s =
     bind_res (margin_property (\<lambda>i r. \<lparr>r_x = i, r_y = i, r_width = i, r_height = i\<rparr>) EMO_FIELD_MARGIN style w s) (\<lambda>(found, s).
     if found then Inr s
     else
       bind_res (margin_property (\<lambda>i r. r\<lparr>r_x := i\<rparr>) EMO_FIELD_MARGINLEFT style w s) (\<lambda>(_, s).
       bind_res (margin_property (\<lambda>i r. r\<lparr>r_width := i\<rparr>) EMO_FIELD_MARGINRIGHT style w s) (\<lambda>(_, s).
       bind_res (margin_property (\<lambda>i r. r\<lparr>r_y := i\<rparr>) EMO_FIELD_MARGINTOP style w s) (\<lambda>(_, s).
       bind_res (margin_property (\<lambda>i r. r\<lparr>r_height := i\<rparr>) EMO_FIELD_MARGINBOTTOM style w s) (\<lambda>(_, s). Inr s)))))"

text \<open>Children get the style of the call. \<open>wentUp\<close> is read uninitialised, but what depends on it is not used.\<close>

fun resolveMargin_loop :: "nat \<Rightarrow> addr \<Rightarrow> addr \<Rightarrow> store \<Rightarrow> store res" where
  "resolveMargin_loop 0 w st s = Inl Diverge"
| "resolveMargin_loop (Suc n) w st s =
     bind_res (widget_getDataObject s w) (\<lambda>_.
     bind_res (dataobject_getEnum s w EMO_FIELD_TYPE) (\<lambda>type.
     bind_res (widget_style type w st s) (\<lambda>(style, _, s).
     bind_res (style_getRenderer style w EMO_FIELD_RENDERER s) (\<lambda>(wr, s).
     bind_res (case wr of None \<Rightarrow> Inr s | Some r \<Rightarrow> upd_obj (\<lambda>d. d\<lparr>margin := wr_margin r\<rparr>) w s) (\<lambda>s.
     bind_res (apply_margins style w s) (\<lambda>s.
     bind_res (layout_children style st w type s) (\<lambda>cs.
     each_pair (resolveMargin_loop n) cs s)))))))"

definition widget_resolveMargin :: "addr \<Rightarrow> addr \<Rightarrow> store \<Rightarrow> store res" where
  "widget_resolveMargin w st s = resolveMargin_loop (Suc (next_addr s)) w st s"

section \<open>Positions\<close>

text \<open>Where the next child goes, and the largest extent in the current row of a grid.\<close>

record pen =
  xpos :: int
  ypos :: int
  rowMax :: int

definition at_xy :: "int \<Rightarrow> int \<Rightarrow> Rectangle \<Rightarrow> Rectangle" where
  "at_xy x y r = r\<lparr>r_x := x, r_y := y\<rparr>"

text \<open>The place of one child and the pen after it. \<open>ox\<close>, \<open>oy\<close> is the corner of the content of \<open>w\<close>.\<close>

definition place_grid :: "int \<Rightarrow> int \<Rightarrow> int \<Rightarrow> Rectangle \<Rightarrow> DataObject \<Rightarrow> pen \<Rightarrow> (int \<times> int) \<times> pen" where
  "place_grid pack ox oy b c p =
     (if pack = WP WP_HGRID then
        (let p = (if xpos p + outer Width c - r_x b > r_width b then \<lparr>xpos = ox, ypos = ypos p + rowMax p, rowMax = 0\<rparr> else p)
         in ((xpos p, ypos p), p\<lparr>xpos := xpos p + outer Width c, rowMax := max (rowMax p) (outer Height c)\<rparr>))
      else
        (let p = (if ypos p + outer Height c - r_y b > r_height b then \<lparr>xpos = xpos p + rowMax p, ypos = oy, rowMax = 0\<rparr> else p)
         in ((xpos p, ypos p), p\<lparr>ypos := ypos p + outer Height c, rowMax := max (rowMax p) (outer Width c)\<rparr>)))"

definition align_offset :: "side \<Rightarrow> int \<Rightarrow> int \<Rightarrow> DataObject \<Rightarrow> int" where
  "align_offset sd align extent c =
     (if align = WA WA_RIGHT then
        (case sd of Width \<Rightarrow> extent - r_width (box c) - r_width (margin c) | Height \<Rightarrow> extent - r_height (box c) - r_y (margin c))
      else if align = WA WA_CENTER then (extent - side_of sd (box c) - start_of sd (margin c) - side_of sd (margin c)) sdiv 2
      else 0)"

definition place_row :: "int \<Rightarrow> int \<Rightarrow> bool \<Rightarrow> Rectangle \<Rightarrow> DataObject \<Rightarrow> pen \<Rightarrow> (int \<times> int) \<times> pen" where
  "place_row pack align static b c p =
     (if pack = WP WP_HORIZONTAL then
        ((xpos p, ypos p + align_offset Height align (r_height b) c), if static then p else p\<lparr>xpos := xpos p + outer Width c\<rparr>)
      else
        ((xpos p + align_offset Width align (r_width b) c, ypos p), if static then p else p\<lparr>ypos := ypos p + outer Height c\<rparr>))"

definition place_child :: "int \<Rightarrow> int \<Rightarrow> bool \<Rightarrow> int \<Rightarrow> int \<Rightarrow> Rectangle \<Rightarrow> DataObject \<Rightarrow> pen \<Rightarrow> (int \<times> int) \<times> pen" where
  "place_child pack align static ox oy b c p =
     (if pack = WP WP_HGRID \<or> pack = WP WP_VGRID then place_grid pack ox oy b c p else place_row pack align static b c p)"

fun place_children :: "(addr \<Rightarrow> store \<Rightarrow> store res) \<Rightarrow> int \<Rightarrow> bool \<Rightarrow> int \<Rightarrow> int \<Rightarrow> Rectangle \<Rightarrow> addr list \<Rightarrow> pen \<Rightarrow> store \<Rightarrow> store res" where
  "place_children f pack static ox oy b [] p s = Inr s"
| "place_children f pack static ox oy b (cw # cs) p s =
     bind_res (widget_getAlignment cw s) (\<lambda>(align, s).
     bind_res (get_obj s cw) (\<lambda>c.
     let ((x, y), p) = place_child pack align static ox oy b c p in
     bind_res (upd_obj (\<lambda>d. d\<lparr>box := at_xy x y (box d)\<rparr>) cw s) (\<lambda>s.
     bind_res (f cw s) (\<lambda>s.
     place_children f pack static ox oy b cs p s))))"

definition own_position :: "addr \<Rightarrow> store \<Rightarrow> store res" where
  "own_position w s =
     bind_res (dataobject_getEnumAsInt w EMO_FIELD_X s) (\<lambda>(xfield, s).
     bind_res (case xfield of None \<Rightarrow> Inr s | Some f \<Rightarrow> bind_res (get_integer s f) (\<lambda>x. upd_obj (\<lambda>d. d\<lparr>box := (box d)\<lparr>r_x := x\<rparr>\<rparr>) w s)) (\<lambda>s.
     bind_res (dataobject_getEnumAsInt w EMO_FIELD_Y s) (\<lambda>(yfield, s).
     case yfield of None \<Rightarrow> Inr s | Some f \<Rightarrow> bind_res (get_integer s f) (\<lambda>y. upd_obj (\<lambda>d. d\<lparr>box := (box d)\<lparr>r_y := y\<rparr>\<rparr>) w s))))"

fun resolvePosition_loop :: "nat \<Rightarrow> addr \<Rightarrow> store \<Rightarrow> store res" where
  "resolvePosition_loop 0 w s = Inl Diverge"
| "resolvePosition_loop (Suc n) w s =
     bind_res (own_position w s) (\<lambda>s.
     bind_res (widget_getPacking w s) (\<lambda>(pack, s).
     bind_res (get_obj s w) (\<lambda>d.
     bind_res (dataobject_getEnum s w EMO_FIELD_TYPE) (\<lambda>field.
     bind_res (EMO_DOF_IS_TYPE s field EMO_TYPE_STACK) (\<lambda>isstack.
     bind_res (EMO_DOF_IS_TYPE s field EMO_TYPE_SET) (\<lambda>isset.
     bind_res (shown_child field w s) (\<lambda>shown.
     let ox = r_x (box d) + r_x (margin d); oy = r_y (box d) + r_y (margin d);
         place = place_children (resolvePosition_loop n) pack (isstack \<or> isset) ox oy (box d) in
     case shown of
       Some c \<Rightarrow> place [c] \<lparr>xpos = ox, ypos = oy, rowMax = 0\<rparr> s
     | None \<Rightarrow>
         bind_res (dataobject_childIterator s w) (\<lambda>cs.
         bind_res (place cs \<lparr>xpos = ox, ypos = oy, rowMax = 0\<rparr> s) (\<lambda>s.
         bind_res (EMO_DOF_IS_TYPE s field EMO_TYPE_SCROLLED) (\<lambda>scr. if scr then scrolled_autoscroll w s else Inr s))))))))))"

definition widget_resolvePosition :: "addr \<Rightarrow> store \<Rightarrow> store res" where
  "widget_resolvePosition w s = resolvePosition_loop (Suc (next_addr s)) w s"

section \<open>The whole layout\<close>

definition each_child :: "(addr \<Rightarrow> store \<Rightarrow> store res) \<Rightarrow> addr \<Rightarrow> store \<Rightarrow> store res" where
  "each_child f w s = bind_res (dataobject_childIterator s w) (\<lambda>cs. each f cs s)"

definition widget_resolveLayoutRoot :: "font \<Rightarrow> addr \<Rightarrow> addr \<Rightarrow> bool \<Rightarrow> store \<Rightarrow> store res" where
  "widget_resolveLayoutRoot fo w st resizeRoot s =
     bind_res (dataobject_setLayoutDirtyAll w s) (\<lambda>s.
     bind_res (widget_resolveMargin w st s) (\<lambda>s.
     bind_res
       (if resizeRoot
        then upd_obj (\<lambda>d. d\<lparr>box := \<lparr>r_x = 0, r_y = 0, r_width = 320, r_height = 240\<rparr>, margin := rectangle_zero\<rparr>) w s else Inr s) (\<lambda>s.
     bind_res (each_child (\<lambda>c. widget_layoutMeasureAbsolute fo c st) w s) (\<lambda>s.
     bind_res (each_child widget_resolveMeasureRelative w s) (\<lambda>s.
     bind_res (each_child (\<lambda>c. widget_layoutMeasureFinal fo c st) w s) (\<lambda>s.
     bind_res (each_child widget_resolveMeasureRelative w s) (\<lambda>s.
     widget_resolvePosition w s)))))))"

section \<open>Trees of boxes\<close>

text \<open>
  A box has its own type, none of those that show something else than their children or are measured in a later pass, no position of its own and no percentages; packing and alignment are
  stored as numbers, and it is not a grid. \<open>lay\<close> is what the two passes change: boxes, sizes of contents and marks.
\<close>

definition code_of :: "int \<Rightarrow> int \<Rightarrow> store \<Rightarrow> addr \<Rightarrow> int" where
  "code_of key dflt s w = (case attr s w key of Some (DOF_INT i) \<Rightarrow> sint i | _ \<Rightarrow> dflt)"

abbreviation pack_of :: "store \<Rightarrow> addr \<Rightarrow> int" where "pack_of \<equiv> code_of EMO_FIELD_PACKING (WP WP_VERTICAL)"

abbreviation align_of :: "store \<Rightarrow> addr \<Rightarrow> int" where "align_of \<equiv> code_of EMO_FIELD_ALIGNMENT (WA WA_LEFT)"

definition boxy :: "store \<Rightarrow> addr \<Rightarrow> bool" where
  "boxy s w \<longleftrightarrow> direct s w \<and>
     (\<exists>p. attr s w EMO_FIELD_TYPE = Some (DOF_STRING (Builtin p)) \<and>
        p \<notin> {EMO_TYPE_FRAME, EMO_TYPE_REFERENCE, EMO_TYPE_ARRAY, EMO_TYPE_STACK, EMO_TYPE_SET, EMO_TYPE_SCROLLED, EMO_TYPE_TEXT}) \<and>
     (\<forall>k \<in> {EMO_FIELD_WIDTH, EMO_FIELD_HEIGHT, EMO_FIELD_PACKING, EMO_FIELD_ALIGNMENT}. attr s w k = None \<or> (\<exists>i. attr s w k = Some (DOF_INT i))) \<and>
     attr s w EMO_FIELD_X = None \<and> attr s w EMO_FIELD_Y = None \<and> pack_of s w \<notin> {WP WP_HGRID, WP WP_VGRID}"

definition box_tree :: "store \<Rightarrow> otree \<Rightarrow> bool" where
  "box_tree s t \<longleftrightarrow> tree_links s t \<and> distinct (preorder t) \<and> (\<forall>w \<in> set (preorder t). boxy s w \<and> w < next_addr s)"

definition bare :: "DataObject \<Rightarrow> DataObject" where
  "bare d = d\<lparr>box := rectangle_zero, childBox := None, flags1 := 0\<rparr>"

definition lay :: "store \<Rightarrow> store \<Rightarrow> bool" where
  "lay s s' \<longleftrightarrow> flds s' = flds s \<and> next_addr s' = next_addr s \<and> (\<forall>w. map_option bare (objs s' w) = map_option bare (objs s w))"

lemma lay_refl [simp]: "lay s s"
  by (simp add: lay_def)

lemma lay_trans: "lay s s1 \<Longrightarrow> lay s1 s2 \<Longrightarrow> lay s s2"
  by (simp add: lay_def)

lemma lay_upd:
  assumes "objs s w = Some d" and "bare d' = bare d"
  shows "lay s (put_obj w d' s)"
  using assms by (auto simp: lay_def put_obj_def)

lemma bare_sel:
  "d_enumData (bare d) = d_enumData d" "children (bare d) = children d" "parent (bare d) = parent d" "margin (bare d) = margin d"
  by (simp_all add: bare_def)

lemma bare_eq:
  assumes "bare d' = bare d"
  shows "d_enumData d' = d_enumData d" "children d' = children d" "parent d' = parent d" "margin d' = margin d"
  using assms bare_sel by metis+

lemma lay_objs:
  assumes "lay s s'"
  shows "objs s' w = None \<and> objs s w = None \<or> (\<exists>d d'. objs s w = Some d \<and> objs s' w = Some d' \<and> bare d' = bare d)"
proof -
  have "map_option bare (objs s' w) = map_option bare (objs s w)" using assms by (simp add: lay_def)
  then show ?thesis by (cases "objs s w"; cases "objs s' w") auto
qed

lemma lay_views:
  assumes "lay s s'"
  shows "attr s' = attr s" "direct s' = direct s" "kids_of s' = kids_of s" "parent_of s' = parent_of s" "flds s' = flds s" "next_addr s' = next_addr s"
    "code_of key dflt s' = code_of key dflt s"
proof -
  have f: "flds s' = flds s" using assms by (simp add: lay_def)
  have "(\<forall>k. attr s' w k = attr s w k) \<and> direct s' w = direct s w \<and> kids_of s' w = kids_of s w \<and> parent_of s' w = parent_of s w" for w
    using lay_objs [OF assms, of w]
  proof (elim disjE exE conjE)
    fix d d'
    assume "objs s w = Some d" "objs s' w = Some d'" "bare d' = bare d"
    with bare_eq [OF this(3)] f show ?thesis by (auto simp: attr_def direct_def kids_of_def parent_of_def split: option.split)
  qed (simp add: attr_def direct_def kids_of_def parent_of_def)
  then show a: "attr s' = attr s" and "direct s' = direct s" "kids_of s' = kids_of s" "parent_of s' = parent_of s" by blast+
  show "flds s' = flds s" "next_addr s' = next_addr s" using assms by (simp_all add: lay_def)
  show "code_of key dflt s' = code_of key dflt s" using a by (simp add: code_of_def fun_eq_iff)
qed

lemma lay_boxy: "lay s s' \<Longrightarrow> boxy s' w = boxy s w"
  using lay_views by (simp add: boxy_def)

lemma lay_tree: "lay s s' \<Longrightarrow> box_tree s t \<Longrightarrow> box_tree s' t"
  using lay_views [of s s'] lay_boxy [of s s'] tree_links_cong [of s t s'] by (simp add: box_tree_def)

lemma subtrees_distinct: "u \<in> subtrees t \<Longrightarrow> distinct (preorder t) \<Longrightarrow> distinct (preorder u)"
proof (induction t)
  case (Node a ts)
  show ?case
  proof (cases "u = Node a ts")
    case False
    then obtain v where "v \<in> set ts" "u \<in> subtrees v" using Node.prems(1) by auto
    moreover have "distinct (preorder v)" using Node.prems(2) calculation(1) by (auto simp: distinct_concat_iff)
    ultimately show ?thesis using Node.IH by blast
  qed (use Node.prems in simp)
qed

lemma box_sub: "box_tree s t \<Longrightarrow> u \<in> subtrees t \<Longrightarrow> box_tree s u"
  using subtrees_nodes [of u t] subtrees_links [of s t u] subtrees_distinct [of u t] by (auto simp: box_tree_def)

text \<open>What the passes read of a box.\<close>

lemma boxy_type:
  assumes "boxy s w"
  shows "\<exists>f. dataobject_getEnum s w EMO_FIELD_TYPE = Inr (Some f) \<and>
     (\<forall>p \<in> {EMO_TYPE_FRAME, EMO_TYPE_REFERENCE, EMO_TYPE_ARRAY, EMO_TYPE_STACK, EMO_TYPE_SET, EMO_TYPE_SCROLLED, EMO_TYPE_TEXT}.
        EMO_DOF_IS_TYPE s (Some f) p = Inr False)"
proof -
  obtain q where q: "direct s w" "attr s w EMO_FIELD_TYPE = Some (DOF_STRING (Builtin q))"
    "q \<notin> {EMO_TYPE_FRAME, EMO_TYPE_REFERENCE, EMO_TYPE_ARRAY, EMO_TYPE_STACK, EMO_TYPE_SET, EMO_TYPE_SCROLLED, EMO_TYPE_TEXT}"
    using assms by (auto simp: boxy_def)
  obtain fld where fld: "dataobject_getEnum s w EMO_FIELD_TYPE = Inr fld" "fld \<noteq> None"
    "\<And>f. fld = Some f \<Longrightarrow> \<exists>fl. flds s f = Some fl \<and> attr s w EMO_FIELD_TYPE = Some (f_val fl)"
    using getEnum_direct [OF q(1), of EMO_FIELD_TYPE] q(2) by (auto simp: EMO_FIELD_TYPE_def)
  then obtain f fl where "fld = Some f" "flds s f = Some fl" "f_val fl = DOF_STRING (Builtin q)" using q(2) by fastforce
  then show ?thesis using fld(1) q(3) by (auto simp: EMO_DOF_IS_TYPE_def get_fld_def)
qed

lemma int_enum:
  assumes "direct s w" and "key \<noteq> -1" and "attr s w key = None \<or> (\<exists>i. attr s w key = Some (DOF_INT i))"
  shows "(attr s w key = None \<and> dataobject_getEnum s w key = Inr None) \<or>
     (\<exists>f fl i. dataobject_getEnum s w key = Inr (Some f) \<and> flds s f = Some fl \<and> f_val fl = DOF_INT i \<and> attr s w key = Some (DOF_INT i))"
  using getEnum_direct [OF assms(1,2)] assms(3) by fastforce

lemma boxy_code:
  assumes "boxy s w" and "key \<in> {EMO_FIELD_PACKING, EMO_FIELD_ALIGNMENT}"
  shows "get_code_attribute key g dflt w s = Inr (code_of key dflt s w, s)"
  using int_enum [of s w key] assms
  by (fastforce simp: boxy_def emo_field_defs get_code_attribute_def code_of_def get_fld_def get_integer_def)

lemma boxy_packing: "boxy s w \<Longrightarrow> widget_getPacking w s = Inr (pack_of s w, s)"
  by (simp add: widget_getPacking_def boxy_code)

lemma boxy_alignment: "boxy s w \<Longrightarrow> widget_getAlignment w s = Inr (align_of s w, s)"
  by (simp add: widget_getAlignment_def boxy_code)

lemma boxy_relative: "boxy s w \<Longrightarrow> RELATIVE_FIELD sd w s = Inr s"
  using int_enum [of s w "side_field sd"]
  by (cases sd) (fastforce simp: boxy_def emo_field_defs RELATIVE_FIELD_def side_field_def get_fld_def)+

lemma boxy_shown: "boxy s w \<Longrightarrow> dataobject_getEnum s w EMO_FIELD_TYPE = Inr f \<Longrightarrow> shown_child f w s = Inr None"
  using boxy_type [of s w] by (auto simp: shown_child_def)

lemma boxy_position: "boxy s w \<Longrightarrow> own_position w s = Inr s"
  using int_enum [of s w EMO_FIELD_X] int_enum [of s w EMO_FIELD_Y]
  by (auto simp: boxy_def emo_field_defs own_position_def dataobject_getEnumAsInt_def field_to_int_def)

lemma boxy_kids:
  assumes "box_tree s (Node a us)"
  shows "dataobject_childIterator s a = Inr (map root us)"
proof -
  obtain d where d: "objs s a = Some d" "children d = map root us" using assms by (auto simp: box_tree_def tree_links_alt kids_of_def)
  show ?thesis
  proof (cases us)
    case (Cons v vs)
    then have "boxy s (root v)" using assms by (auto simp: box_tree_def)
    then show ?thesis using d Cons boxy_type [of s "root v"] by (auto simp: dataobject_childIterator_def get_obj_def)
  qed (use d in \<open>simp add: dataobject_childIterator_def get_obj_def\<close>)
qed

lemma box_child: "box_tree s (Node a us) \<Longrightarrow> u \<in> set us \<Longrightarrow> box_tree s u"
  by (meson subtrees_self subtrees_step box_sub)

lemma box_height: "box_tree s t \<Longrightarrow> height t \<le> next_addr s"
proof -
  assume t: "box_tree s t"
  then have "length (preorder t) = card (set (preorder t))" by (simp add: box_tree_def distinct_card)
  also have "\<dots> \<le> card {..<next_addr s}" using t by (intro card_mono) (auto simp: box_tree_def)
  finally show ?thesis using height_le_size [of t] by simp
qed

section \<open>Sizes of boxes\<close>

text \<open>The size of the content of a box from the outer sizes of its children, and the size of a box: what was measured before, or that of its content.\<close>

definition combine :: "int \<Rightarrow> (int \<times> int) list \<Rightarrow> int \<times> int" where
  "combine pack xs =
     (if pack = WP WP_HORIZONTAL then (sum_list (map fst xs), foldr max (map snd xs) 0) else (foldr max (map fst xs) 0, sum_list (map snd xs)))"

definition with_margin :: "Rectangle \<Rightarrow> int \<times> int \<Rightarrow> int \<times> int" where
  "with_margin m x = (fst x + r_x m + r_width m, snd x + r_y m + r_height m)"

definition margin_of :: "store \<Rightarrow> addr \<Rightarrow> Rectangle" where "margin_of s w = (case objs s w of None \<Rightarrow> rectangle_zero | Some d \<Rightarrow> margin d)"

definition box_of :: "store \<Rightarrow> addr \<Rightarrow> Rectangle" where "box_of s w = (case objs s w of None \<Rightarrow> rectangle_zero | Some d \<Rightarrow> box d)"

definition dirty_side :: "side \<Rightarrow> store \<Rightarrow> addr \<Rightarrow> bool" where
  "dirty_side sd s w = (case objs s w of None \<Rightarrow> False | Some d \<Rightarrow> flags1 d AND side_flag sd \<noteq> 0)"

fun box_size :: "store \<Rightarrow> otree \<Rightarrow> int \<times> int" where
  "box_size s (Node a ts) =
     (let c = combine (pack_of s a) (map (\<lambda>t. with_margin (margin_of s (root t)) (box_size s t)) ts)
      in (if dirty_side Width s a then fst c else r_width (box_of s a), if dirty_side Height s a then snd c else r_height (box_of s a)))"

definition content_size :: "store \<Rightarrow> otree \<Rightarrow> int \<times> int" where
  "content_size s t = combine (pack_of s (root t)) (map (\<lambda>t. with_margin (margin_of s (root t)) (box_size s t)) (subs t))"

lemma attr_same: "objs s' a = objs s a \<Longrightarrow> flds s' = flds s \<Longrightarrow> attr s' a = attr s a"
  by (rule ext) (auto simp: attr_def split: option.split)

lemma box_size_cong:
  "(\<And>x. x \<in> set (preorder t) \<Longrightarrow> objs s' x = objs s x) \<Longrightarrow> flds s' = flds s \<Longrightarrow> box_size s' t = box_size s t"
proof (induction t)
  case (Node a ts)
  have "box_size s' u = box_size s u" "margin_of s' (root u) = margin_of s (root u)" if "u \<in> set ts" for u
  proof -
    have "objs s' x = objs s x" if "x \<in> set (preorder u)" for x using Node.prems(1) [of x] \<open>u \<in> set ts\<close> that by auto
    then show "box_size s' u = box_size s u" "margin_of s' (root u) = margin_of s (root u)"
      using Node.IH [OF that] Node.prems(2) root_in [of u] by (auto simp: margin_of_def)
  qed
  then have "map (\<lambda>t. with_margin (margin_of s' (root t)) (box_size s' t)) ts = map (\<lambda>t. with_margin (margin_of s (root t)) (box_size s t)) ts" by simp
  moreover have a: "objs s' a = objs s a" using Node.prems(1) by simp
  have "pack_of s' a = pack_of s a" using attr_same [OF a Node.prems(2)] by (simp add: code_of_def)
  moreover have "dirty_side sd s' a = dirty_side sd s a" "box_of s' a = box_of s a" for sd using a by (simp_all add: dirty_side_def box_of_def)
  ultimately show ?case by (simp only: box_size.simps)
qed

text \<open>The result of measuring one widget.\<close>

definition sized :: "store \<Rightarrow> otree \<Rightarrow> store \<Rightarrow> bool" where
  "sized s u s' \<longleftrightarrow> (\<exists>d. objs s (root u) = Some d \<and>
     objs s' (root u) = Some (d\<lparr>box := (box d)\<lparr>r_width := fst (box_size s u), r_height := snd (box_size s u)\<rparr>,
       childBox := Some (content_size s u), flags1 := flags1 d AND NOT DO_FLAG_LAYOUT_DIRTY_WIDTH AND NOT DO_FLAG_LAYOUT_DIRTY_HEIGHT\<rparr>))"

definition outside :: "otree \<Rightarrow> store \<Rightarrow> store \<Rightarrow> bool" where
  "outside t s s' \<longleftrightarrow> (\<forall>x. x \<notin> set (preorder t) \<longrightarrow> objs s' x = objs s x)"

lemma clean_sides: "(f AND NOT DO_FLAG_LAYOUT_DIRTY_WIDTH AND NOT DO_FLAG_LAYOUT_DIRTY_HEIGHT) AND side_flag sd = 0"
  by (cases sd) (auto intro!: bit_word_eqI simp: bit_simps side_flag_def)

lemma and_not_clean: "f AND w = 0 \<Longrightarrow> f AND NOT w = (f :: 32 word)"
proof (rule bit_word_eqI)
  fix i assume z: "f AND w = 0" and i: "i < LENGTH(32)"
  have "\<not> bit (f AND w) i" using z by simp
  then show "bit (f AND NOT w) i = bit f i" using i by (auto simp: bit_simps)
qed

lemma and_not_other: "(f AND NOT DO_FLAG_LAYOUT_DIRTY_WIDTH) AND DO_FLAG_LAYOUT_DIRTY_HEIGHT = (f :: 32 word) AND DO_FLAG_LAYOUT_DIRTY_HEIGHT"
proof -
  have "NOT DO_FLAG_LAYOUT_DIRTY_WIDTH AND DO_FLAG_LAYOUT_DIRTY_HEIGHT = (DO_FLAG_LAYOUT_DIRTY_HEIGHT :: 32 word)"
    by (simp add: DO_FLAG_LAYOUT_DIRTY_WIDTH_def DO_FLAG_LAYOUT_DIRTY_HEIGHT_def)
  then show ?thesis by (simp add: and.assoc)
qed

definition add_size :: "int \<Rightarrow> int \<times> int \<Rightarrow> sums \<Rightarrow> sums" where
  "add_size pack x m =
     (if pack = WP WP_HORIZONTAL then m\<lparr>sumWidth := sumWidth m + fst x, sumHeight := max (sumHeight m) (snd x)\<rparr>
      else m\<lparr>sumWidth := max (sumWidth m) (fst x), sumHeight := sumHeight m + snd x\<rparr>)"

lemma add_child_size:
  assumes "pack \<notin> {WP WP_HGRID, WP WP_VGRID}"
  shows "add_child pack d c m = add_size pack (with_margin (margin c) (r_width (box c), r_height (box c))) m"
  using assms by (simp add: add_child_def add_size_def with_margin_def outer_def side_of_def start_of_def)

lemma add_sizes:
  assumes "0 \<le> sumWidth m" and "0 \<le> sumHeight m"
  shows "foldl (\<lambda>m x. add_size pack x m) m xs =
     (if pack = WP WP_HORIZONTAL
      then m\<lparr>sumWidth := sumWidth m + sum_list (map fst xs), sumHeight := foldl max (sumHeight m) (map snd xs)\<rparr>
      else m\<lparr>sumWidth := foldl max (sumWidth m) (map fst xs), sumHeight := sumHeight m + sum_list (map snd xs)\<rparr>)"
  by (induction xs arbitrary: m) (auto simp: add_size_def)

lemma foldl_max: "foldl max b xs = max b (foldr max xs 0)" if "0 \<le> b" for b :: int
  using that by (induction xs arbitrary: b) (auto simp: max_def)

lemma foldr_max_nonneg: "0 \<le> foldr max xs (0 :: int)"
  by (induction xs) auto

lemma combine_sizes:
  "foldl (\<lambda>m x. add_size pack x m) no_sums xs = no_sums\<lparr>sumWidth := fst (combine pack xs), sumHeight := snd (combine pack xs)\<rparr>"
  by (simp add: add_sizes foldl_max no_sums_def combine_def max_def foldr_max_nonneg)

lemma put_same: "objs s a = Some d \<Longrightarrow> put_obj a d s = s"
  by (simp add: put_obj_def fun_upd_idem)

lemma put_put [simp]: "put_obj a d (put_obj a d' s) = put_obj a d s"
  by (simp add: put_obj_def)

lemma get_put [simp]: "objs (put_obj a d s) a = Some d"
  by (simp add: put_obj_def)

lemma apply_sums_run:
  assumes a: "objs s a = Some d" and b: "boxy s a" and m: "\<not> widthStillDirty m" "\<not> heightStillDirty m"
  shows "apply_sums m a s = Inr (put_obj a (d\<lparr>box := (box d)\<lparr>r_width := if dirty_side Width s a then sumWidth m else r_width (box d),
      r_height := if dirty_side Height s a then sumHeight m else r_height (box d)\<rparr>,
      childBox := Some (sumWidth m, sumHeight m),
      flags1 := flags1 d AND NOT DO_FLAG_LAYOUT_DIRTY_WIDTH AND NOT DO_FLAG_LAYOUT_DIRTY_HEIGHT\<rparr>) s)"
proof -
  define d1 where "d1 = (if dirty_side Width s a then d\<lparr>box := (box d)\<lparr>r_width := sumWidth m\<rparr>, flags1 := flags1 d AND NOT DO_FLAG_LAYOUT_DIRTY_WIDTH\<rparr> else d)"
  define d2 where "d2 = (if dirty_side Height s a then d1\<lparr>box := (box d1)\<lparr>r_height := sumHeight m\<rparr>, flags1 := flags1 d1 AND NOT DO_FLAG_LAYOUT_DIRTY_HEIGHT\<rparr> else d1)"
  have w: "dirty_side Width s a \<longleftrightarrow> flags1 d AND DO_FLAG_LAYOUT_DIRTY_WIDTH \<noteq> 0" using a by (simp add: dirty_side_def side_flag_def)
  have h: "dirty_side Height s a \<longleftrightarrow> flags1 d1 AND DO_FLAG_LAYOUT_DIRTY_HEIGHT \<noteq> 0" using a by (simp add: dirty_side_def side_flag_def d1_def and_not_other)
  have "bare d1 = bare d" by (simp add: d1_def bare_def)
  then have "boxy (put_obj a d1 s) a" using lay_boxy [OF lay_upd [OF a]] b by blast
  then obtain f where f: "dataobject_getEnum (put_obj a d1 s) a EMO_FIELD_TYPE = Inr (Some f)" "EMO_DOF_IS_TYPE (put_obj a d1 s) (Some f) EMO_TYPE_TEXT = Inr False"
    using boxy_type by blast
  have st1: "(if \<not> widthStillDirty m \<and> flags1 d AND DO_FLAG_LAYOUT_DIRTY_WIDTH \<noteq> 0
      then bind_res (set_box_width (sumWidth m) a s) (dataobject_setLayoutClean DO_FLAG_LAYOUT_DIRTY_WIDTH a) else Inr s) = Inr (put_obj a d1 s)"
    using a m(1) w put_same [OF a] by (auto simp: set_box_width_def dataobject_setLayoutClean_def get_obj_def upd_obj_def d1_def)
  have st2: "(if \<not> heightStillDirty m \<and> flags1 d1 AND DO_FLAG_LAYOUT_DIRTY_HEIGHT \<noteq> 0
      then bind_res (dataobject_getEnum (put_obj a d1 s) a EMO_FIELD_TYPE) (\<lambda>sField. bind_res (EMO_DOF_IS_TYPE (put_obj a d1 s) sField EMO_TYPE_TEXT) (\<lambda>istext.
          if istext then Inr (put_obj a d1 s)
          else bind_res (set_box_height (sumHeight m) a (put_obj a d1 s)) (dataobject_setLayoutClean DO_FLAG_LAYOUT_DIRTY_HEIGHT a)))
      else Inr (put_obj a d1 s)) = Inr (put_obj a d2 s)"
    using f m(2) h by (auto simp: set_box_height_def dataobject_setLayoutClean_def get_obj_def upd_obj_def d2_def)
  have "dataobject_isLayoutDirty s a DO_FLAG_LAYOUT_DIRTY_WIDTH = Inr (flags1 d AND DO_FLAG_LAYOUT_DIRTY_WIDTH)"
      "dataobject_isLayoutDirty (put_obj a d1 s) a DO_FLAG_LAYOUT_DIRTY_HEIGHT = Inr (flags1 d1 AND DO_FLAG_LAYOUT_DIRTY_HEIGHT)"
    using a by (simp_all add: dataobject_isLayoutDirty_def get_obj_def)
  then have run: "apply_sums m a s = Inr (put_obj a (d2\<lparr>childBox := Some (sumWidth m, sumHeight m)\<rparr>) s)"
    by (simp only: apply_sums_def bind_res_simps st1 st2) (simp add: get_obj_def upd_obj_def)
  have f1: "flags1 d1 = flags1 d AND NOT DO_FLAG_LAYOUT_DIRTY_WIDTH" using w and_not_clean [of "flags1 d" DO_FLAG_LAYOUT_DIRTY_WIDTH] by (simp add: d1_def)
  have "flags1 d2 = flags1 d1 AND NOT DO_FLAG_LAYOUT_DIRTY_HEIGHT" using h and_not_clean [of "flags1 d1" DO_FLAG_LAYOUT_DIRTY_HEIGHT] by (simp add: d2_def)
  then have fl: "flags1 d2 = flags1 d AND NOT DO_FLAG_LAYOUT_DIRTY_WIDTH AND NOT DO_FLAG_LAYOUT_DIRTY_HEIGHT" by (simp only: f1 and.assoc)
  have bx: "box d2 = (box d)\<lparr>r_width := if dirty_side Width s a then sumWidth m else r_width (box d),
      r_height := if dirty_side Height s a then sumHeight m else r_height (box d)\<rparr>" by (simp add: d2_def d1_def)
  have "d2\<lparr>childBox := c\<rparr> = (d\<lparr>box := box d2, flags1 := flags1 d2\<rparr>)\<lparr>childBox := c\<rparr>" for c
    by (rule arg_cong [where f = "\<lambda>x. x\<lparr>childBox := c\<rparr>"]) (simp add: d2_def d1_def)
  also have "(d\<lparr>box := box d2, flags1 := flags1 d2\<rparr>)\<lparr>childBox := c\<rparr> = d\<lparr>box := box d2, childBox := c, flags1 := flags1 d2\<rparr>" for c by simp
  finally have "d2\<lparr>childBox := c\<rparr> = d\<lparr>box := box d2, childBox := c, flags1 := flags1 d2\<rparr>" for c .
  with run show ?thesis by (simp only: bx fl)
qed

lemma content_size_cong:
  assumes "\<And>x. x \<in> set (preorder t) \<Longrightarrow> objs s' x = objs s x" and "flds s' = flds s"
  shows "content_size s' t = content_size s t"
proof -
  have "box_size s' u = box_size s u \<and> margin_of s' (root u) = margin_of s (root u)" if "u \<in> set (subs t)" for u
  proof -
    have "objs s' x = objs s x" if "x \<in> set (preorder u)" for x using assms(1) [of x] preorder_hd [of t] \<open>u \<in> set (subs t)\<close> that by auto
    then show ?thesis using box_size_cong [of u s' s] assms(2) root_in [of u] by (auto simp: margin_of_def)
  qed
  then have "map (\<lambda>t. with_margin (margin_of s' (root t)) (box_size s' t)) (subs t) = map (\<lambda>t. with_margin (margin_of s (root t)) (box_size s t)) (subs t)" by simp
  moreover have "pack_of s' (root t) = pack_of s (root t)" using attr_same [of s' "root t" s] assms by (simp add: code_of_def)
  ultimately show ?thesis by (simp only: content_size_def)
qed

lemma sized_cong:
  assumes "\<And>x. x \<in> set (preorder t) \<Longrightarrow> objs s1 x = objs s x" and "flds s1 = flds s" and "u \<in> subtrees t"
  shows "sized s1 u s' = sized s u s'"
proof -
  have "x \<in> set (preorder u) \<Longrightarrow> objs s1 x = objs s x" for x using assms(1,3) subtrees_nodes by blast
  then show ?thesis using box_size_cong [of u s1 s] content_size_cong [of u s1 s] assms(2) root_in [of u] by (simp add: sized_def)
qed

lemma sized_child:
  assumes "sized s u s'" and "margin_of s (root u) = m"
  shows "\<exists>c. objs s' (root u) = Some c \<and> with_margin (margin c) (r_width (box c), r_height (box c)) = with_margin m (box_size s u) \<and>
     flags1 c AND DO_FLAG_LAYOUT_DIRTY_WIDTH = 0 \<and> flags1 c AND DO_FLAG_LAYOUT_DIRTY_HEIGHT = 0"
  using assms clean_sides [of _ Width] clean_sides [of _ Height] by (auto simp: sized_def margin_of_def side_flag_def)

text \<open>The loop over the children, when measuring one of them is known to do what it should.\<close>

lemma sum_children_run:
  assumes "\<And>u s. u \<in> set us \<Longrightarrow> box_tree s u \<Longrightarrow> \<exists>s'. f (root u) s = Inr s' \<and> lay s s' \<and> outside u s s' \<and> (\<forall>v \<in> subtrees u. sized s v s')"
    and "\<And>u. u \<in> set us \<Longrightarrow> box_tree s u" and "distinct (a # concat (map preorder us))" and "objs s a = Some d"
    and "pack \<notin> {WP WP_HGRID, WP WP_VGRID}" and "\<not> widthStillDirty m" and "\<not> heightStillDirty m"
  shows "\<exists>s'. sum_children f pack a (map root us) m s =
       Inr (foldl (\<lambda>m x. add_size pack x m) m (map (\<lambda>u. with_margin (margin_of s (root u)) (box_size s u)) us), s') \<and>
     lay s s' \<and> (\<forall>x. x \<notin> set (concat (map preorder us)) \<longrightarrow> objs s' x = objs s x) \<and> (\<forall>u \<in> set us. \<forall>v \<in> subtrees u. sized s v s')"
  using assms
proof (induction us arbitrary: s m)
  case Nil
  then show ?case by auto
next
  case (Cons u us)
  obtain s1 where s1: "f (root u) s = Inr s1" "lay s s1" "outside u s s1" "\<forall>v \<in> subtrees u. sized s v s1"
    using Cons.prems(1) [of u s] Cons.prems(2) by auto
  have dist: "set (preorder u) \<inter> set (concat (map preorder us)) = {}" "a \<notin> set (preorder u)" "distinct (a # concat (map preorder us))"
    using Cons.prems(3) by auto
  have same: "objs s1 x = objs s x" if "x \<notin> set (preorder u)" for x using s1(3) that by (simp add: outside_def)
  obtain c where c: "objs s1 (root u) = Some c" "with_margin (margin c) (r_width (box c), r_height (box c)) = with_margin (margin_of s (root u)) (box_size s u)"
      "flags1 c AND DO_FLAG_LAYOUT_DIRTY_WIDTH = 0" "flags1 c AND DO_FLAG_LAYOUT_DIRTY_HEIGHT = 0"
    using sized_child [of s u s1] s1(4) subtrees_self by blast
  have keep: "objs s1 x = objs s x" if "v \<in> set us" "x \<in> set (preorder v)" for v x using same dist(1) that by auto
  have ex: "\<exists>s2. sum_children f pack a (map root us) (add_size pack (with_margin (margin_of s (root u)) (box_size s u)) m) s1 =
       Inr (foldl (\<lambda>m x. add_size pack x m) (add_size pack (with_margin (margin_of s (root u)) (box_size s u)) m)
         (map (\<lambda>u. with_margin (margin_of s1 (root u)) (box_size s1 u)) us), s2) \<and>
     lay s1 s2 \<and> (\<forall>x. x \<notin> set (concat (map preorder us)) \<longrightarrow> objs s2 x = objs s1 x) \<and> (\<forall>u \<in> set us. \<forall>v \<in> subtrees u. sized s1 v s2)"
    using Cons.prems lay_tree [OF s1(2)] same [OF dist(2)] dist(3) by (intro Cons.IH) (auto simp: add_size_def)
  then obtain s2 where s2: "sum_children f pack a (map root us) (add_size pack (with_margin (margin_of s (root u)) (box_size s u)) m) s1 =
       Inr (foldl (\<lambda>m x. add_size pack x m) (add_size pack (with_margin (margin_of s (root u)) (box_size s u)) m)
         (map (\<lambda>u. with_margin (margin_of s1 (root u)) (box_size s1 u)) us), s2)"
     "lay s1 s2" "\<forall>x. x \<notin> set (concat (map preorder us)) \<longrightarrow> objs s2 x = objs s1 x" "\<forall>u \<in> set us. \<forall>v \<in> subtrees u. sized s1 v s2" by blast
  have eq: "map (\<lambda>u. with_margin (margin_of s1 (root u)) (box_size s1 u)) us = map (\<lambda>u. with_margin (margin_of s (root u)) (box_size s u)) us"
    using box_size_cong [of _ s1 s] keep lay_views(5) [OF s1(2)] by (auto simp: margin_of_def)
  have "sized s v s2" if "w \<in> set us" "v \<in> subtrees w" for v w
    using s2(4) sized_cong [of w s1 s v s2] keep lay_views(5) [OF s1(2)] that by blast
  moreover have "sized s v s2" if "v \<in> subtrees u" for v
  proof -
    have "root v \<in> set (preorder u)" using subtrees_nodes [OF that] root_in by blast
    then have "root v \<notin> set (concat (map preorder us))" using dist(1) by blast
    then show ?thesis using s1(4) that s2(3) by (simp add: sized_def)
  qed
  moreover have "objs s2 x = objs s x" if "x \<notin> set (concat (map preorder (u # us)))" for x using s2(3) same that by simp
  moreover have "sum_children f pack a (map root (u # us)) m s =
      sum_children f pack a (map root us) (add_size pack (with_margin (margin_of s (root u)) (box_size s u)) m) s1"
  proof -
    have m: "m\<lparr>widthStillDirty := False, heightStillDirty := False\<rparr> = m" using Cons.prems(6,7) by simp
    show ?thesis using s1(1) c same [OF dist(2)] Cons.prems(4,6,7) add_child_size [OF Cons.prems(5)]
      by (simp add: dataobject_isLayoutDirty_def get_obj_def m)
  qed
  ultimately show ?case using s2(1) [unfolded eq] lay_trans [OF s1(2) s2(2)] by (intro exI [of _ s2]) (auto simp del: sum_children.simps)
qed

lemma measure_run:
  "box_tree s t \<Longrightarrow> height t \<le> n \<Longrightarrow>
   \<exists>s'. measureRelative_loop n (root t) s = Inr s' \<and> lay s s' \<and> outside t s s' \<and> (\<forall>u \<in> subtrees t. sized s u s')"
proof (induction t arbitrary: n s)
  case (Node a ts)
  obtain k where n: "n = Suc k" using Node.prems(2) by (cases n) auto
  have b: "boxy s a" using Node.prems(1) by (simp add: box_tree_def)
  obtain d where d: "objs s a = Some d" using Node.prems(1) by (auto simp: box_tree_def tree_links_alt kids_of_def)
  obtain f where f: "dataobject_getEnum s a EMO_FIELD_TYPE = Inr (Some f)" "EMO_DOF_IS_TYPE s (Some f) EMO_TYPE_SET = Inr False" using boxy_type [OF b] by blast
  let ?m = "no_sums\<lparr>sumWidth := fst (content_size s (Node a ts)), sumHeight := snd (content_size s (Node a ts))\<rparr>"
  have kids: "relative_children (Some f) a s = Inr (map root ts)"
    using boxy_shown [OF b f(1)] boxy_kids [OF Node.prems(1)] f(2) by (simp add: relative_children_def)
  have "\<exists>s'. sum_children (measureRelative_loop k) (pack_of s a) a (map root ts) no_sums s =
       Inr (foldl (\<lambda>m x. add_size (pack_of s a) x m) no_sums (map (\<lambda>u. with_margin (margin_of s (root u)) (box_size s u)) ts), s') \<and>
     lay s s' \<and> (\<forall>x. x \<notin> set (concat (map preorder ts)) \<longrightarrow> objs s' x = objs s x) \<and> (\<forall>u \<in> set ts. \<forall>v \<in> subtrees u. sized s v s')"
  proof (rule sum_children_run)
    fix u s assume u: "u \<in> set ts" "box_tree s u"
    then show "\<exists>s'. measureRelative_loop k (root u) s = Inr s' \<and> lay s s' \<and> outside u s s' \<and> (\<forall>v \<in> subtrees u. sized s v s')"
      using Node.IH [OF u(1), of s k] height_sub [OF u(1)] Node.prems(2) n by simp
  qed (use Node.prems(1) d b box_child in \<open>auto simp: box_tree_def boxy_def no_sums_def\<close>)
  then obtain s1 where s1: "sum_children (measureRelative_loop k) (pack_of s a) a (map root ts) no_sums s = Inr (?m, s1)" "lay s s1"
      "\<forall>x. x \<notin> set (concat (map preorder ts)) \<longrightarrow> objs s1 x = objs s x" "\<forall>u \<in> set ts. \<forall>v \<in> subtrees u. sized s v s1"
    by (auto simp: combine_sizes content_size_def)
  have a: "a \<notin> set (concat (map preorder ts))" using Node.prems(1) by (simp add: box_tree_def)
  have a1: "objs s1 a = Some d" using s1(3) a d by metis
  define d' where "d' = d\<lparr>box := (box d)\<lparr>r_width := if dirty_side Width s1 a then sumWidth ?m else r_width (box d),
      r_height := if dirty_side Height s1 a then sumHeight ?m else r_height (box d)\<rparr>, childBox := Some (sumWidth ?m, sumHeight ?m),
      flags1 := flags1 d AND NOT DO_FLAG_LAYOUT_DIRTY_WIDTH AND NOT DO_FLAG_LAYOUT_DIRTY_HEIGHT\<rparr>"
  have "close_row (pack_of s a) ?m = ?m" by (simp add: close_row_def no_sums_def)
  then have run: "measureRelative_loop n a s = Inr (put_obj a d' s1)"
    using s1(1) kids f(1) boxy_packing [OF b] boxy_relative [OF b] apply_sums_run [OF a1, of ?m] lay_boxy [OF s1(2)] b
    by (simp add: n d'_def no_sums_def)
  have dirty: "dirty_side sd s1 a = dirty_side sd s a" for sd using a1 d by (simp add: dirty_side_def)
  have "sized s (Node a ts) (put_obj a d' s1)"
    using d by (simp add: sized_def d'_def dirty content_size_def Let_def box_of_def)
  moreover have "sized s v (put_obj a d' s1)" if "u \<in> set ts" "v \<in> subtrees u" for u v
  proof -
    have "root v \<in> set (preorder u)" using subtrees_nodes [OF that(2)] root_in [of v] by blast
    then have "root v \<noteq> a" using a that(1) by auto
    then show ?thesis using s1(4) that by (auto simp: sized_def put_obj_def)
  qed
  moreover have "lay s (put_obj a d' s1)" using lay_trans [OF s1(2) lay_upd [OF a1, of d']] by (simp add: d'_def bare_def)
  moreover have "outside (Node a ts) s (put_obj a d' s1)" using s1(3) by (auto simp: outside_def put_obj_def)
  ultimately show ?case using run by auto
qed

section \<open>Positions of boxes\<close>

text \<open>The place of the child number \<open>i\<close> of a box: behind the children before it, and aligned across.\<close>

definition outer_of :: "side \<Rightarrow> store \<Rightarrow> addr \<Rightarrow> int" where "outer_of sd s w = (case objs s w of None \<Rightarrow> 0 | Some d \<Rightarrow> outer sd d)"

definition shift_of :: "side \<Rightarrow> store \<Rightarrow> addr \<Rightarrow> int \<Rightarrow> int" where
  "shift_of sd s w extent = (case objs s w of None \<Rightarrow> 0 | Some c \<Rightarrow> align_offset sd (align_of s w) extent c)"

definition row_place :: "int \<Rightarrow> Rectangle \<Rightarrow> store \<Rightarrow> int \<Rightarrow> int \<Rightarrow> addr list \<Rightarrow> nat \<Rightarrow> int \<times> int" where
  "row_place pack b s x y ws i =
     (if pack = WP WP_HORIZONTAL
      then (x + (\<Sum>w\<leftarrow>take i ws. outer_of Width s w), y + shift_of Height s (ws ! i) (r_height b))
      else (x + shift_of Width s (ws ! i) (r_width b), y + (\<Sum>w\<leftarrow>take i ws. outer_of Height s w)))"

definition place :: "store \<Rightarrow> addr \<Rightarrow> addr list \<Rightarrow> nat \<Rightarrow> int \<times> int" where
  "place s a ws i =
     row_place (pack_of s a) (box_of s a) s (r_x (box_of s a) + r_x (margin_of s a)) (r_y (box_of s a) + r_y (margin_of s a)) ws i"

definition corner :: "store \<Rightarrow> addr \<Rightarrow> int \<times> int" where "corner s w = (r_x (box_of s w), r_y (box_of s w))"

definition placed :: "store \<Rightarrow> otree \<Rightarrow> bool" where
  "placed s u \<longleftrightarrow> (\<forall>i < length (subs u). corner s (root (subs u ! i)) = place s (root u) (map root (subs u)) i)"

definition fixed :: "DataObject \<Rightarrow> DataObject" where "fixed d = d\<lparr>box := at_xy 0 0 (box d)\<rparr>"

definition moves :: "store \<Rightarrow> store \<Rightarrow> bool" where
  "moves s s' \<longleftrightarrow> flds s' = flds s \<and> next_addr s' = next_addr s \<and> (\<forall>w. map_option fixed (objs s' w) = map_option fixed (objs s w))"

lemma moves_refl [simp]: "moves s s"
  by (simp add: moves_def)

lemma moves_trans: "moves s s1 \<Longrightarrow> moves s1 s2 \<Longrightarrow> moves s s2"
  by (simp add: moves_def)

lemma bare_fixed: "bare (fixed d) = bare d"
  by (simp add: bare_def fixed_def)

lemma moves_objs:
  assumes "moves s s'"
  shows "objs s' w = None \<and> objs s w = None \<or> (\<exists>d d'. objs s w = Some d \<and> objs s' w = Some d' \<and> fixed d' = fixed d)"
proof -
  have "map_option fixed (objs s' w) = map_option fixed (objs s w)" using assms by (simp add: moves_def)
  then show ?thesis by (cases "objs s w"; cases "objs s' w") auto
qed

lemma moves_lay: "moves s s' \<Longrightarrow> lay s s'"
proof -
  assume m: "moves s s'"
  have "map_option bare (objs s' w) = map_option bare (objs s w)" for w using moves_objs [OF m, of w] by (metis bare_fixed option.map)
  then show "lay s s'" using m by (simp add: lay_def moves_def)
qed

lemma fixed_eq:
  assumes "fixed d' = fixed d"
  shows "margin d' = margin d" "r_width (box d') = r_width (box d)" "r_height (box d') = r_height (box d)"
proof -
  have "margin (fixed d) = margin d" "r_width (box (fixed d)) = r_width (box d)" "r_height (box (fixed d)) = r_height (box d)" for d
    by (simp_all add: fixed_def at_xy_def)
  then show "margin d' = margin d" "r_width (box d') = r_width (box d)" "r_height (box d') = r_height (box d)" using assms by metis+
qed

lemma moves_views:
  assumes "moves s s'"
  shows "outer_of sd s' = outer_of sd s" "shift_of sd s' = shift_of sd s" "margin_of s' = margin_of s" "r_width (box_of s' w) = r_width (box_of s w)"
    "r_height (box_of s' w) = r_height (box_of s w)"
proof -
  have code: "align_of s' = align_of s" using lay_views(7) [OF moves_lay [OF assms]] by blast
  have all: "outer_of sd s' w = outer_of sd s w \<and> shift_of sd s' w e = shift_of sd s w e \<and> margin_of s' w = margin_of s w \<and>
      r_width (box_of s' w) = r_width (box_of s w) \<and> r_height (box_of s' w) = r_height (box_of s w)" for sd w e
    using moves_objs [OF assms, of w]
  proof (elim disjE exE conjE)
    fix d d'
    assume "objs s w = Some d" "objs s' w = Some d'" "fixed d' = fixed d"
    with fixed_eq [OF this(3)] code show ?thesis
      by (cases sd) (simp_all add: outer_of_def shift_of_def margin_of_def box_of_def outer_def side_of_def start_of_def align_offset_def)
  qed (simp add: outer_of_def shift_of_def margin_of_def box_of_def)
  then show "outer_of sd s' = outer_of sd s" "shift_of sd s' = shift_of sd s" "margin_of s' = margin_of s" by blast+
  show "r_width (box_of s' w) = r_width (box_of s w)" "r_height (box_of s' w) = r_height (box_of s w)" using all by blast+
qed

lemma row_place_moves: "moves s s' \<Longrightarrow> row_place pack b s' x y ws i = row_place pack b s x y ws i"
  by (simp add: row_place_def moves_views)

lemma placed_keep:
  assumes "moves s s'" and "\<And>x. x \<in> set (preorder t) \<Longrightarrow> objs s' x = objs s x" and "u \<in> subtrees t" and "placed s u"
  shows "placed s' u"
proof -
  have same: "box_of s' x = box_of s x" if "x \<in> set (preorder u)" for x using assms(2,3) subtrees_nodes that by (fastforce simp: box_of_def)
  have "root (subs u ! i) \<in> set (preorder u)" if "i < length (subs u)" for i
    using that preorder_hd [of u] by (auto intro!: bexI [of _ "subs u ! i"])
  moreover have "pack_of s' = pack_of s" using lay_views(7) [OF moves_lay [OF assms(1)]] by blast
  ultimately show ?thesis using assms(4) same row_place_moves [OF assms(1)] moves_views(3) [OF assms(1)]
    by (simp add: placed_def place_def corner_def)
qed

lemma row_place_Suc:
  "row_place pack b s x y (w # ws) (Suc i) =
     (if pack = WP WP_HORIZONTAL then row_place pack b s (x + outer_of Width s w) y ws i else row_place pack b s x (y + outer_of Height s w) ws i)"
  by (simp add: row_place_def)

lemma place_children_run:
  assumes "\<And>u s. u \<in> set us \<Longrightarrow> box_tree s u \<Longrightarrow>
      \<exists>s'. f (root u) s = Inr s' \<and> moves s s' \<and> outside u s s' \<and> objs s' (root u) = objs s (root u) \<and> (\<forall>v \<in> subtrees u. placed s' v)"
    and "\<And>u. u \<in> set us \<Longrightarrow> box_tree s u" and "distinct (concat (map preorder us))" and "pack \<notin> {WP WP_HGRID, WP WP_VGRID}"
  shows "\<exists>s'. place_children f pack False ox oy b (map root us) p s = Inr s' \<and> moves s s' \<and>
     (\<forall>x. x \<notin> set (concat (map preorder us)) \<longrightarrow> objs s' x = objs s x) \<and>
     (\<forall>i < length us. corner s' (root (us ! i)) = row_place pack b s (xpos p) (ypos p) (map root us) i) \<and>
     (\<forall>u \<in> set us. \<forall>v \<in> subtrees u. placed s' v)"
  using assms
proof (induction us arbitrary: s p)
  case (Cons u us)
  have u: "box_tree s u" "boxy s (root u)" using Cons.prems(2) [of u] by (auto simp: box_tree_def)
  then obtain c where c: "objs s (root u) = Some c" by (auto simp: boxy_def direct_def)
  obtain x y where xy: "row_place pack b s (xpos p) (ypos p) (map root (u # us)) 0 = (x, y)" by fastforce
  define p' where "p' = (if pack = WP WP_HORIZONTAL then p\<lparr>xpos := xpos p + outer Width c\<rparr> else p\<lparr>ypos := ypos p + outer Height c\<rparr>)"
  define s0 where "s0 = put_obj (root u) (c\<lparr>box := at_xy x y (box c)\<rparr>) s"
  have pl: "place_child pack (align_of s (root u)) False ox oy b c p = ((x, y), p')"
    using xy c Cons.prems(4) by (auto simp: place_child_def place_row_def row_place_def shift_of_def p'_def)
  have m0: "moves s s0" using c by (auto simp: moves_def s0_def put_obj_def fixed_def at_xy_def)
  have t0: "box_tree s0 v" if "box_tree s v" for v using lay_tree [OF moves_lay [OF m0] that] .
  obtain s1 where s1: "f (root u) s0 = Inr s1" "moves s0 s1" "outside u s0 s1" "objs s1 (root u) = objs s0 (root u)" "\<forall>v \<in> subtrees u. placed s1 v"
    using Cons.prems(1) [of u s0] t0 [OF u(1)] by auto
  have m1: "moves s s1" using moves_trans [OF m0 s1(2)] .
  have dist: "set (preorder u) \<inter> set (concat (map preorder us)) = {}" "distinct (concat (map preorder us))" using Cons.prems(3) by auto
  have "\<exists>s'. place_children f pack False ox oy b (map root us) p' s1 = Inr s' \<and> moves s1 s' \<and>
     (\<forall>x. x \<notin> set (concat (map preorder us)) \<longrightarrow> objs s' x = objs s1 x) \<and>
     (\<forall>i < length us. corner s' (root (us ! i)) = row_place pack b s1 (xpos p') (ypos p') (map root us) i) \<and>
     (\<forall>u \<in> set us. \<forall>v \<in> subtrees u. placed s' v)"
    using Cons.prems(1,2,4) lay_tree [OF moves_lay [OF m1]] dist(2) by (intro Cons.IH) auto
  then obtain s2 where s2: "place_children f pack False ox oy b (map root us) p' s1 = Inr s2" "moves s1 s2"
     "\<forall>x. x \<notin> set (concat (map preorder us)) \<longrightarrow> objs s2 x = objs s1 x"
     "\<forall>i < length us. corner s2 (root (us ! i)) = row_place pack b s1 (xpos p') (ypos p') (map root us) i"
     "\<forall>u \<in> set us. \<forall>v \<in> subtrees u. placed s2 v" by blast
  have keep: "objs s2 x = objs s1 x" if "x \<in> set (preorder u)" for x using s2(3) dist(1) that by blast
  have "place_children f pack False ox oy b (map root (u # us)) p s = Inr s2"
    using boxy_alignment [OF u(2)] c pl s1(1) s2(1) by (simp add: get_obj_def upd_obj_def s0_def)
  moreover have "moves s s2" using moves_trans [OF m1 s2(2)] .
  moreover have "objs s2 x = objs s x" if "x \<notin> set (concat (map preorder (u # us)))" for x
    using s2(3) s1(3) that root_in [of u] by (auto simp: outside_def s0_def put_obj_def)
  moreover have "corner s2 (root ((u # us) ! i)) = row_place pack b s (xpos p) (ypos p) (map root (u # us)) i" if "i < length (u # us)" for i
  proof (cases i)
    case 0
    have "objs s2 (root u) = Some (c\<lparr>box := at_xy x y (box c)\<rparr>)" using keep [of "root u"] s1(4) by (simp add: s0_def)
    then show ?thesis using 0 xy by (simp add: corner_def box_of_def at_xy_def)
  next
    case (Suc j)
    then show ?thesis using s2(4) that c row_place_moves [OF m1]
      by (simp add: row_place_Suc p'_def outer_of_def)
  qed
  moreover have "placed s2 v" if "v \<in> subtrees u" for v using placed_keep [OF s2(2) keep that] s1(5) that by blast
  ultimately show ?case using s2(5) by auto
qed auto

lemma position_run:
  "box_tree s t \<Longrightarrow> height t \<le> n \<Longrightarrow>
   \<exists>s'. resolvePosition_loop n (root t) s = Inr s' \<and> moves s s' \<and> outside t s s' \<and> objs s' (root t) = objs s (root t) \<and> (\<forall>u \<in> subtrees t. placed s' u)"
proof (induction t arbitrary: n s)
  case (Node a ts)
  obtain k where n: "n = Suc k" using Node.prems(2) by (cases n) auto
  have b: "boxy s a" using Node.prems(1) by (simp add: box_tree_def)
  obtain d where d: "objs s a = Some d" using Node.prems(1) by (auto simp: box_tree_def tree_links_alt kids_of_def)
  obtain f where f: "dataobject_getEnum s a EMO_FIELD_TYPE = Inr (Some f)" "EMO_DOF_IS_TYPE s (Some f) EMO_TYPE_STACK = Inr False"
      "EMO_DOF_IS_TYPE s (Some f) EMO_TYPE_SET = Inr False" "EMO_DOF_IS_TYPE s (Some f) EMO_TYPE_SCROLLED = Inr False" using boxy_type [OF b] by blast
  let ?ox = "r_x (box d) + r_x (margin d)" and ?oy = "r_y (box d) + r_y (margin d)"
  let ?p = "\<lparr>xpos = ?ox, ypos = ?oy, rowMax = 0\<rparr>"
  have "\<exists>s'. place_children (resolvePosition_loop k) (pack_of s a) False ?ox ?oy (box d) (map root ts) ?p s = Inr s' \<and> moves s s' \<and>
     (\<forall>x. x \<notin> set (concat (map preorder ts)) \<longrightarrow> objs s' x = objs s x) \<and>
     (\<forall>i < length ts. corner s' (root (ts ! i)) = row_place (pack_of s a) (box d) s (xpos ?p) (ypos ?p) (map root ts) i) \<and>
     (\<forall>u \<in> set ts. \<forall>v \<in> subtrees u. placed s' v)"
  proof (rule place_children_run)
    fix u s assume u: "u \<in> set ts" "box_tree s u"
    then show "\<exists>s'. resolvePosition_loop k (root u) s = Inr s' \<and> moves s s' \<and> outside u s s' \<and> objs s' (root u) = objs s (root u) \<and> (\<forall>v \<in> subtrees u. placed s' v)"
      using Node.IH [OF u(1), of s k] height_sub [OF u(1)] Node.prems(2) n by simp
  qed (use Node.prems(1) b box_child in \<open>auto simp: box_tree_def boxy_def\<close>)
  then obtain s1 where s1: "place_children (resolvePosition_loop k) (pack_of s a) False ?ox ?oy (box d) (map root ts) ?p s = Inr s1" "moves s s1"
     "\<forall>x. x \<notin> set (concat (map preorder ts)) \<longrightarrow> objs s1 x = objs s x"
     "\<forall>i < length ts. corner s1 (root (ts ! i)) = row_place (pack_of s a) (box d) s ?ox ?oy (map root ts) i"
     "\<forall>u \<in> set ts. \<forall>v \<in> subtrees u. placed s1 v" by auto
  have "a \<notin> set (concat (map preorder ts))" using Node.prems(1) by (simp add: box_tree_def)
  then have a1: "objs s1 a = Some d" using s1(3) d by metis
  have "EMO_DOF_IS_TYPE s1 (Some f) EMO_TYPE_SCROLLED = Inr False" using f(4) s1(2) by (simp add: EMO_DOF_IS_TYPE_def get_fld_def moves_def)
  then have "resolvePosition_loop n a s = Inr s1"
    using s1(1) f boxy_packing [OF b] boxy_position [OF b] boxy_shown [OF b f(1)] boxy_kids [OF Node.prems(1)] d by (simp add: n get_obj_def)
  moreover have "placed s1 (Node a ts)"
    using s1(4) a1 row_place_moves [OF s1(2)] lay_views(7) [OF moves_lay [OF s1(2)]] by (simp add: placed_def place_def box_of_def margin_of_def)
  moreover have "outside (Node a ts) s s1" using s1(3) by (simp add: outside_def)
  ultimately show ?case using s1(2,5) a1 d by auto
qed

section \<open>Boxes lie inside each other\<close>

lemma sum_take_nth: "i < length xs \<Longrightarrow> sum_list (take (Suc i) xs) = sum_list (take i xs) + (xs ! i :: int)"
  by (simp add: take_Suc_conv_app_nth)

lemma sum_take_mono:
  assumes "\<forall>x \<in> set xs. 0 \<le> (x :: int)" and "j \<le> i"
  shows "sum_list (take j xs) \<le> sum_list (take i xs)"
proof -
  have "take i xs = take j xs @ take (i - j) (drop j xs)" using assms(2) by (metis le_add_diff_inverse take_add)
  moreover have "0 \<le> sum_list (take (i - j) (drop j xs))" using assms(1) by (intro sum_list_nonneg) (auto dest: in_set_takeD in_set_dropD)
  ultimately show ?thesis by simp
qed

lemma foldr_max_ge: "x \<in> set xs \<Longrightarrow> x \<le> foldr max xs (0 :: int)"
  by (induction xs) auto

lemma half_bounds: "0 \<le> (n :: int) \<Longrightarrow> 0 \<le> n sdiv 2 \<and> n sdiv 2 \<le> n"
  by (cases "n = 0") (simp_all add: signed_divide_int_def sgn_if)

text \<open>Along the packing a child ends before the next one starts; across it is no larger than the content.\<close>

lemma offset_bounds:
  assumes "objs s w = Some c" and "align_of s w \<noteq> WA WA_RIGHT" and "outer_of sd s w \<le> extent"
  shows "0 \<le> shift_of sd s w extent \<and> shift_of sd s w extent + outer_of sd s w \<le> extent"
proof -
  have e: "extent - side_of sd (box c) - start_of sd (margin c) - side_of sd (margin c) = extent - outer_of sd s w"
    using assms(1) by (simp add: outer_of_def outer_def)
  have "shift_of sd s w extent = (if align_of s w = WA WA_CENTER then (extent - outer_of sd s w) sdiv 2 else 0)"
    using assms(1,2) by (simp add: shift_of_def align_offset_def e)
  then show ?thesis using assms(3) half_bounds [of "extent - outer_of sd s w"] by auto
qed

definition before :: "int \<Rightarrow> store \<Rightarrow> addr \<Rightarrow> addr \<Rightarrow> bool" where
  "before pack s v w \<longleftrightarrow>
     (if pack = WP WP_HORIZONTAL then fst (corner s v) + outer_of Width s v \<le> fst (corner s w)
      else snd (corner s v) + outer_of Height s v \<le> snd (corner s w))"

lemma placed_inside:
  assumes pl: "placed s u" and sz: "(r_width (box_of s (root u)), r_height (box_of s (root u))) =
      combine (pack_of s (root u)) (map (\<lambda>v. (outer_of Width s (root v), outer_of Height s (root v))) (subs u))"
    and ok: "\<forall>v \<in> set (subs u). objs s (root v) \<noteq> None \<and> align_of s (root v) \<noteq> WA WA_RIGHT \<and> 0 \<le> outer_of Width s (root v) \<and> 0 \<le> outer_of Height s (root v)"
    and i: "i < length (subs u)"
  shows "r_x (box_of s (root u)) + r_x (margin_of s (root u)) \<le> fst (corner s (root (subs u ! i))) \<and>
     fst (corner s (root (subs u ! i))) + outer_of Width s (root (subs u ! i)) \<le> r_x (box_of s (root u)) + r_x (margin_of s (root u)) + r_width (box_of s (root u)) \<and>
     r_y (box_of s (root u)) + r_y (margin_of s (root u)) \<le> snd (corner s (root (subs u ! i))) \<and>
     snd (corner s (root (subs u ! i))) + outer_of Height s (root (subs u ! i)) \<le> r_y (box_of s (root u)) + r_y (margin_of s (root u)) + r_height (box_of s (root u)) \<and>
     (\<forall>j < i. before (pack_of s (root u)) s (root (subs u ! j)) (root (subs u ! i)))"
proof -
  let ?v = "root (subs u ! i)" and ?ws = "map (outer_of Width s \<circ> root) (subs u)" and ?hs = "map (outer_of Height s \<circ> root) (subs u)"
  obtain c where c: "objs s ?v = Some c" "align_of s ?v \<noteq> WA WA_RIGHT" using ok i by fastforce
  have pos: "\<forall>x \<in> set ?ws. 0 \<le> x" "\<forall>x \<in> set ?hs. 0 \<le> x" using ok by auto
  have at: "corner s (root (subs u ! k)) = place s (root u) (map root (subs u)) k" if "k < length (subs u)" for k using pl that by (simp add: placed_def)
  have nth: "outer_of Width s (root (subs u ! k)) = ?ws ! k" "outer_of Height s (root (subs u ! k)) = ?hs ! k" if "k < length (subs u)" for k using that by simp_all
  have mr: "map root (subs u) ! i = ?v" using i by simp
  have tk: "(\<Sum>w\<leftarrow>take k (map root (subs u)). outer_of Width s w) = sum_list (take k ?ws)" "(\<Sum>w\<leftarrow>take k (map root (subs u)). outer_of Height s w) = sum_list (take k ?hs)" for k
    by (simp_all add: take_map [symmetric] comp_def)
  have mono: "sum_list (take j ?ws) + ?ws ! j \<le> sum_list (take k ?ws)" "sum_list (take j ?hs) + ?hs ! j \<le> sum_list (take k ?hs)"
    if "j < k" "j < length (subs u)" for j k
    using sum_take_nth [of j ?ws] sum_take_nth [of j ?hs] sum_take_mono [OF pos(1), of "Suc j" k] sum_take_mono [OF pos(2), of "Suc j" k] that by auto
  have zero: "0 \<le> sum_list (take k ?ws)" "0 \<le> sum_list (take k ?hs)" for k
    using sum_take_mono [OF pos(1), of 0 k] sum_take_mono [OF pos(2), of 0 k] by simp_all
  have big: "?ws ! i \<le> foldr max ?ws 0" "?hs ! i \<le> foldr max ?hs 0" using i by (auto intro!: foldr_max_ge nth_mem simp del: nth_map)
  show ?thesis
  proof (cases "pack_of s (root u) = WP WP_HORIZONTAL")
    case True
    then have box: "r_width (box_of s (root u)) = sum_list ?ws" "r_height (box_of s (root u)) = foldr max ?hs 0"
      using sz by (simp_all add: combine_def comp_def)
    have "0 \<le> shift_of Height s ?v (foldr max ?hs 0) \<and> shift_of Height s ?v (foldr max ?hs 0) + ?hs ! i \<le> foldr max ?hs 0"
      using offset_bounds [OF c, of Height "foldr max ?hs 0"] big(2) nth(2) [OF i] by simp
    moreover have "sum_list (take i ?ws) + ?ws ! i \<le> sum_list ?ws" using mono(1) [of i "length (subs u)"] i by simp
    ultimately show ?thesis using True at box nth zero(1) [of i] mono(1) [of _ i] i
      by (auto simp: place_def row_place_def before_def tk mr simp del: nth_map)
  next
    case False
    then have box: "r_height (box_of s (root u)) = sum_list ?hs" "r_width (box_of s (root u)) = foldr max ?ws 0"
      using sz by (simp_all add: combine_def comp_def)
    have "0 \<le> shift_of Width s ?v (foldr max ?ws 0) \<and> shift_of Width s ?v (foldr max ?ws 0) + ?ws ! i \<le> foldr max ?ws 0"
      using offset_bounds [OF c, of Width "foldr max ?ws 0"] big(1) nth(1) [OF i] by simp
    moreover have "sum_list (take i ?hs) + ?hs ! i \<le> sum_list ?hs" using mono(2) [of i "length (subs u)"] i by simp
    ultimately show ?thesis using False at box nth zero(2) [of i] mono(2) [of _ i] i
      by (auto simp: place_def row_place_def before_def tk mr simp del: nth_map)
  qed
qed

text \<open>Boxes whose size is that of their content, around widgets with a size of their own.\<close>

definition stretchy :: "store \<Rightarrow> otree \<Rightarrow> bool" where
  "stretchy s t \<longleftrightarrow> (\<forall>u \<in> subtrees t. (subs u \<noteq> [] \<longrightarrow> dirty_side Width s (root u) \<and> dirty_side Height s (root u)) \<and>
     align_of s (root u) \<noteq> WA WA_RIGHT \<and> 0 \<le> r_width (box_of s (root u)) \<and> 0 \<le> r_height (box_of s (root u)) \<and>
     0 \<le> r_x (margin_of s (root u)) \<and> 0 \<le> r_y (margin_of s (root u)) \<and> 0 \<le> r_width (margin_of s (root u)) \<and> 0 \<le> r_height (margin_of s (root u)))"

lemma stretchy_sub: "stretchy s t \<Longrightarrow> u \<in> subtrees t \<Longrightarrow> stretchy s u"
proof -
  have "v \<in> subtrees t" if "v \<in> subtrees u" "u \<in> subtrees t" for v using that
    by (induction t) auto
  then show "stretchy s t \<Longrightarrow> u \<in> subtrees t \<Longrightarrow> stretchy s u" unfolding stretchy_def by blast
qed

lemma box_size_nonneg: "stretchy s t \<Longrightarrow> 0 \<le> fst (box_size s t) \<and> 0 \<le> snd (box_size s t)"
proof (induction t)
  case (Node a ts)
  have "0 \<le> fst (with_margin (margin_of s (root u)) (box_size s u)) \<and> 0 \<le> snd (with_margin (margin_of s (root u)) (box_size s u))" if u: "u \<in> set ts" for u
  proof -
    have st: "stretchy s u" using Node.prems stretchy_sub [of s "Node a ts" u] u subtrees_step [of a ts "Node a ts" u] by simp
    have "0 \<le> r_x (margin_of s (root u)) \<and> 0 \<le> r_y (margin_of s (root u)) \<and> 0 \<le> r_width (margin_of s (root u)) \<and> 0 \<le> r_height (margin_of s (root u))"
      using st subtrees_self [of u] unfolding stretchy_def by blast
    then show ?thesis using Node.IH [OF u st] by (simp add: with_margin_def)
  qed
  then have "0 \<le> fst (combine k (map (\<lambda>t. with_margin (margin_of s (root t)) (box_size s t)) ts))"
      "0 \<le> snd (combine k (map (\<lambda>t. with_margin (margin_of s (root t)) (box_size s t)) ts))" for k
    by (auto simp: combine_def foldr_max_nonneg intro!: sum_list_nonneg)
  moreover have "0 \<le> r_width (box_of s a)" "0 \<le> r_height (box_of s a)" using Node.prems by (simp_all add: stretchy_def)
  ultimately show ?case by (simp add: Let_def)
qed

text \<open>Sizes and margins after measuring.\<close>

lemma sized_views:
  assumes "sized s v s1"
  shows "(r_width (box_of s1 (root v)), r_height (box_of s1 (root v))) = box_size s v" "margin_of s1 (root v) = margin_of s (root v)"
    "(outer_of Width s1 (root v), outer_of Height s1 (root v)) = with_margin (margin_of s (root v)) (box_size s v)"
  using assms by (auto simp: sized_def box_of_def margin_of_def outer_of_def outer_def side_of_def start_of_def with_margin_def)

definition clip_of :: "store \<Rightarrow> addr \<Rightarrow> Rectangle" where
  "clip_of s w = \<lparr>r_x = r_x (box_of s w) + r_x (margin_of s w), r_y = r_y (box_of s w) + r_y (margin_of s w),
     r_width = r_width (box_of s w), r_height = r_height (box_of s w)\<rparr>"

lemma clip_of_run: "objs s w \<noteq> None \<Longrightarrow> widget_getClipRectangle s w = Inr (clip_of s w)"
  by (auto simp: widget_getClipRectangle_def get_obj_def clip_of_def box_of_def margin_of_def)

definition separate :: "Rectangle \<Rightarrow> Rectangle \<Rightarrow> bool" where
  "separate p q \<longleftrightarrow> (\<forall>x y. \<not> (in_rect p x y \<and> in_rect q x y))"

lemma nests_at:
  assumes t: "box_tree s t" "stretchy s t" and s1: "\<forall>u \<in> subtrees t. sized s u s1" and l: "lay s s1" and s2: "moves s1 s2" "\<forall>u \<in> subtrees t. placed s2 u"
    and u: "u \<in> subtrees t" and i: "i < length (subs u)"
  shows "rect_subset (clip_of s2 (root (subs u ! i))) (clip_of s2 (root u)) \<and>
     (\<forall>j < i. separate (clip_of s2 (root (subs u ! j))) (clip_of s2 (root (subs u ! i))))"
proof -
  have sub: "v \<in> subtrees t" if "v \<in> set (subs u)" for v using subtrees_step [of "root u" "subs u" t v] u that by simp
  have st: "stretchy s v" if "v \<in> subtrees t" for v using stretchy_sub [OF t(2) that] .
  have codes: "code_of k d s2 = code_of k d s" for k d using lay_views(7) [OF moves_lay [OF s2(1)]] lay_views(7) [OF l] by metis
  have mg: "margin_of s2 (root v) = margin_of s (root v)" if "v \<in> subtrees t" for v using moves_views(3) [OF s2(1)] sized_views(2) s1 that by metis
  have out: "(outer_of Width s2 (root v), outer_of Height s2 (root v)) = with_margin (margin_of s (root v)) (box_size s v)" if "v \<in> subtrees t" for v
    using moves_views(1) [OF s2(1)] sized_views(3) s1 that by metis
  have bx: "(r_width (box_of s2 (root v)), r_height (box_of s2 (root v))) = box_size s v" if "v \<in> subtrees t" for v
    using moves_views(4,5) [OF s2(1)] sized_views(1) s1 that by metis
  have nn: "0 \<le> r_x (margin_of s (root v)) \<and> 0 \<le> r_y (margin_of s (root v)) \<and> 0 \<le> r_width (margin_of s (root v)) \<and> 0 \<le> r_height (margin_of s (root v)) \<and>
      align_of s (root v) \<noteq> WA WA_RIGHT" if "v \<in> subtrees t" for v using t(2) that by (simp add: stretchy_def)
  have ob: "objs s2 (root v) \<noteq> None" if "v \<in> subtrees t" for v
    using s1 that moves_objs [OF s2(1), of "root v"] by (auto simp: sized_def)
  have dirty: "dirty_side Width s (root u)" "dirty_side Height s (root u)" using t(2) u i by (auto simp: stretchy_def)
  obtain a us where au: "u = Node a us" by (cases u)
  have "box_size s u = combine (pack_of s (root u)) (map (\<lambda>v. with_margin (margin_of s (root v)) (box_size s v)) (subs u))"
    using dirty by (simp add: au Let_def)
  moreover have "map (\<lambda>v. with_margin (margin_of s (root v)) (box_size s v)) (subs u) = map (\<lambda>v. (outer_of Width s2 (root v), outer_of Height s2 (root v))) (subs u)"
    using out sub by auto
  ultimately have sz: "(r_width (box_of s2 (root u)), r_height (box_of s2 (root u))) =
      combine (pack_of s2 (root u)) (map (\<lambda>v. (outer_of Width s2 (root v), outer_of Height s2 (root v))) (subs u))"
    using bx [OF u] codes by simp
  have wide: "outer_of Width s2 (root v) = r_width (box_of s2 (root v)) + r_x (margin_of s (root v)) + r_width (margin_of s (root v)) \<and>
      outer_of Height s2 (root v) = r_height (box_of s2 (root v)) + r_y (margin_of s (root v)) + r_height (margin_of s (root v)) \<and>
      0 \<le> r_width (box_of s2 (root v)) \<and> 0 \<le> r_height (box_of s2 (root v))" if "v \<in> subtrees t" for v
    using out [OF that] box_size_nonneg [OF st [OF that]] bx [OF that, symmetric] by (simp add: with_margin_def)
  have pos: "0 \<le> outer_of Width s2 (root v) \<and> 0 \<le> outer_of Height s2 (root v)" if "v \<in> subtrees t" for v using wide [OF that] nn [OF that] by linarith
  have ok: "\<forall>v \<in> set (subs u). objs s2 (root v) \<noteq> None \<and> align_of s2 (root v) \<noteq> WA WA_RIGHT \<and> 0 \<le> outer_of Width s2 (root v) \<and> 0 \<le> outer_of Height s2 (root v)"
    using ob sub nn pos codes by simp
  have inside: "placed s2 u" using s2(2) u by blast
  note p = placed_inside [OF inside sz ok i]
  have vi: "subs u ! i \<in> subtrees t" using sub i by simp
  have "rect_subset (clip_of s2 (root (subs u ! i))) (clip_of s2 (root u))"
    using p wide [OF vi] nn [OF vi] mg [OF vi] by (simp add: rect_subset_def clip_of_def corner_def)
  moreover have "separate (clip_of s2 (root (subs u ! j))) (clip_of s2 (root (subs u ! i)))" if "j < i" for j
  proof -
    have vj: "subs u ! j \<in> subtrees t" using sub i that by simp
    have "before (pack_of s2 (root u)) s2 (root (subs u ! j)) (root (subs u ! i))" using p that by blast
    then show ?thesis using wide [OF vj] nn [OF vj] nn [OF vi] mg [OF vi] mg [OF vj]
      by (auto simp: separate_def before_def in_rect_def clip_of_def corner_def split: if_splits)
  qed
  ultimately show ?thesis by blast
qed

section \<open>Properties\<close>

definition sized_widget :: "int \<Rightarrow> int \<Rightarrow> int \<Rightarrow> DataObject \<Rightarrow> DataObject" where
  "sized_widget m w h d = d\<lparr>box := \<lparr>r_x = 0, r_y = 0, r_width = w, r_height = h\<rparr>, margin := \<lparr>r_x = m, r_y = m, r_width = m, r_height = m\<rparr>, flags1 := 0\<rparr>"

definition layout_store :: store where
  "layout_store = demo_store\<lparr>
     objs := [0 \<mapsto> (form_widget 5 [12, 2] None [])\<lparr>flags1 := 6\<rparr>, 12 \<mapsto> sized_widget 2 30 12 (form_widget 6 [] (Some 0) []),
        2 \<mapsto> (form_widget 7 [3, 4] (Some 0) [(EMO_FIELD_PACKING, 10)])\<lparr>flags1 := 6\<rparr>, 3 \<mapsto> sized_widget 0 16 16 (form_widget 8 [] (Some 2) []),
        4 \<mapsto> sized_widget 0 20 10 (form_widget 9 [] (Some 2) [])],
     flds := [5 \<mapsto> \<lparr>f_val = DOF_STRING (Builtin EMO_TYPE_BOX), f_flags = 0\<rparr>, 6 \<mapsto> \<lparr>f_val = DOF_STRING (Builtin EMO_TYPE_LABEL), f_flags = 0\<rparr>,
        7 \<mapsto> \<lparr>f_val = DOF_STRING (Builtin EMO_TYPE_BOX), f_flags = 0\<rparr>, 8 \<mapsto> \<lparr>f_val = DOF_STRING (Builtin EMO_TYPE_IMAGE), f_flags = 0\<rparr>,
        9 \<mapsto> \<lparr>f_val = DOF_STRING (Builtin EMO_TYPE_LABEL), f_flags = 0\<rparr>, 10 \<mapsto> \<lparr>f_val = DOF_INT 0, f_flags = 0\<rparr>], next_addr := 13\<rparr>"

definition layout_tree :: otree where "layout_tree = Node 0 [Node 12 [], Node 2 [Node 3 [], Node 4 []]]"

lemmas layout_demo_defs = layout_store_def form_widget_def sized_widget_def new_obj_def

lemma layout_demo_attr:
  "attr layout_store 0 k = (if k = EMO_FIELD_TYPE then Some (DOF_STRING (Builtin EMO_TYPE_BOX)) else None)"
  "attr layout_store 12 k = (if k = EMO_FIELD_TYPE then Some (DOF_STRING (Builtin EMO_TYPE_LABEL)) else None)"
  "attr layout_store 2 k = (if k = EMO_FIELD_TYPE then Some (DOF_STRING (Builtin EMO_TYPE_BOX)) else if k = EMO_FIELD_PACKING then Some (DOF_INT 0) else None)"
  "attr layout_store 3 k = (if k = EMO_FIELD_TYPE then Some (DOF_STRING (Builtin EMO_TYPE_IMAGE)) else None)"
  "attr layout_store 4 k = (if k = EMO_FIELD_TYPE then Some (DOF_STRING (Builtin EMO_TYPE_LABEL)) else None)"
  by (auto simp: attr_def layout_demo_defs am_find_def)

lemma layout_demo_codes:
  "code_of EMO_FIELD_PACKING d layout_store 0 = d" "code_of EMO_FIELD_PACKING d layout_store 12 = d" "code_of EMO_FIELD_PACKING d layout_store 2 = 0"
  "code_of EMO_FIELD_PACKING d layout_store 3 = d" "code_of EMO_FIELD_PACKING d layout_store 4 = d"
  "code_of EMO_FIELD_ALIGNMENT d layout_store 0 = d" "code_of EMO_FIELD_ALIGNMENT d layout_store 12 = d" "code_of EMO_FIELD_ALIGNMENT d layout_store 2 = d"
  "code_of EMO_FIELD_ALIGNMENT d layout_store 3 = d" "code_of EMO_FIELD_ALIGNMENT d layout_store 4 = d"
  by (simp_all add: code_of_def layout_demo_attr emo_field_defs)

lemma layout_demo_dirty:
  "dirty_side sd layout_store 0" "\<not> dirty_side sd layout_store 12" "dirty_side sd layout_store 2" "\<not> dirty_side sd layout_store 3" "\<not> dirty_side sd layout_store 4"
  by (cases sd; simp add: dirty_side_def side_flag_def DO_FLAG_LAYOUT_DIRTY_WIDTH_def DO_FLAG_LAYOUT_DIRTY_HEIGHT_def layout_demo_defs)+

lemma layout_demo_boxes:
  "box_of layout_store 0 = rectangle_zero" "box_of layout_store 12 = \<lparr>r_x = 0, r_y = 0, r_width = 30, r_height = 12\<rparr>" "box_of layout_store 2 = rectangle_zero"
  "box_of layout_store 3 = \<lparr>r_x = 0, r_y = 0, r_width = 16, r_height = 16\<rparr>" "box_of layout_store 4 = \<lparr>r_x = 0, r_y = 0, r_width = 20, r_height = 10\<rparr>"
  "margin_of layout_store 0 = rectangle_zero" "margin_of layout_store 12 = \<lparr>r_x = 2, r_y = 2, r_width = 2, r_height = 2\<rparr>" "margin_of layout_store 2 = rectangle_zero"
  "margin_of layout_store 3 = rectangle_zero" "margin_of layout_store 4 = rectangle_zero"
  by (simp_all add: box_of_def margin_of_def layout_demo_defs rectangle_zero_def)

lemma layout_demo_direct: "w \<in> {0, 12, 2, 3, 4} \<Longrightarrow> direct layout_store w"
  by (auto simp: direct_def layout_demo_defs am_find_def split: if_splits)

lemma layout_demo_ok: "box_tree layout_store layout_tree" "stretchy layout_store layout_tree"
proof -
  have "boxy layout_store w" if w: "w \<in> set (preorder layout_tree)" for w
  proof -
    have "w = 0 \<or> w = 12 \<or> w = 2 \<or> w = 3 \<or> w = 4" using w by (auto simp: layout_tree_def)
    then consider "w = 0" | "w = 12" | "w = 2" | "w = 3" | "w = 4" by blast
    then show ?thesis
      by cases (simp_all add: boxy_def layout_demo_codes [unfolded emo_field_defs] layout_demo_attr layout_demo_direct emo_field_defs emo_type_defs WP_def)
  qed
  moreover have "tree_links layout_store layout_tree"
    by (simp add: layout_tree_def tree_links_alt kids_of_def parent_of_def layout_demo_defs)
  ultimately show "box_tree layout_store layout_tree" by (auto simp: box_tree_def layout_tree_def layout_store_def)
  show "stretchy layout_store layout_tree"
    by (simp add: stretchy_def layout_tree_def layout_demo_codes layout_demo_dirty layout_demo_boxes WA_def rectangle_zero_def)
qed

lemma layout_demo_size: "box_size layout_store layout_tree = (36, 32)"
  by (simp add: layout_tree_def Let_def combine_def with_margin_def layout_demo_codes layout_demo_dirty layout_demo_boxes WP_def rectangle_zero_def)







end
