(* ===== verification/App_Manager.thy ===== *)
theory App_Manager
  imports Sync_Context Text_Entry Widget_Layout
begin

text \<open>
  Applications: \<open>Application.c\<close>, \<open>ApplicationManager.c\<close> and \<open>dataobject_resolveReferences\<close> of \<open>DataObject.c\<close>. Loading, launching and focusing an application, the dialogs, and the
  keys, which \<open>manager_handleKey\<close> gives to the focused widget, to a widget with that access key, or uses to move the focus.

  The state is that of \<open>Sync_Context\<close>, since references to objects that are not here are requested from the server. \<open>mime_loadAll\<close>, the decoding of the images of an application, is
  an argument.

  A window of plain widgets and entries is a form: \<open>form_key\<close> is the specification, with the focused widget and the editors of the entries as its state.
\<close>

section \<open>References\<close>

text \<open>A reference with a colon is the address of a global object, others the name of an object of the same tree.\<close>

definition resolve_field :: "env \<Rightarrow> addr \<Rightarrow> addr option \<Rightarrow> net \<Rightarrow> net res" where
  "resolve_field e dobj field n =
     bind_res (case field of None \<Rightarrow> Inr None | Some f \<Rightarrow> bind_res (get_fld (n_store n) f) (\<lambda>fl. Inr (case f_val fl of DOF_STRING str \<Rightarrow> Some (str_of str) | _ \<Rightarrow> None))) (\<lambda>str.
     case str of
       None \<Rightarrow> on_store (widget_setDataObject dobj None) n
     | Some str \<Rightarrow>
         if CHR '':'' \<in> set str then
           bind_res (url_parse (Some str) URL_ALL) (\<lambda>url.
           case url of
             None \<Rightarrow> Inl Abort
           | Some url \<Rightarrow>
               bind_res (dataobject_locate url (n_store n)) (\<lambda>(ref, s).
               bind_res
                 (case ref of
                    Some _ \<Rightarrow> Inr (ref, n\<lparr>n_store := s\<rparr>)
                  | None \<Rightarrow>
                      bind_res (connectionContext_syncRequest e url (n\<lparr>n_store := s\<rparr>)) (\<lambda>(_, n).
                      bind_res (dataobject_locate url (n_store n)) (\<lambda>(ref, s). Inr (ref, n\<lparr>n_store := s\<rparr>)))) (\<lambda>(ref, n).
               on_store (widget_setDataObject dobj ref) n)))
         else
           bind_res (dataobject_superparent (n_store n) dobj) (\<lambda>par.
           bind_res (dataobject_findByName (n_store n) par str) (\<lambda>ref.
           on_store (widget_setDataObject dobj ref) n)))"

definition clear_queue :: "net \<Rightarrow> net" where
  "clear_queue n = n\<lparr>n_store := (n_store n)\<lparr>renderman := renderman_clearQueue (renderman (n_store n))\<rparr>\<rparr>"

fun resolveReferences_loop :: "nat \<Rightarrow> env \<Rightarrow> addr \<Rightarrow> net \<Rightarrow> net res" where
  "resolveReferences_loop 0 e dobj n = Inl Diverge"
| "resolveReferences_loop (Suc k) e dobj n =
     bind_res (widget_getDataObject (n_store n) dobj) (\<lambda>_.
     bind_res (dataobject_getEnum (n_store n) dobj EMO_FIELD_REFERENCE) (\<lambda>field.
     bind_res (resolve_field e dobj field n) (\<lambda>n.
     bind_res (get_obj (n_store n) dobj) (\<lambda>d.
     bind_res (each (resolveReferences_loop k e) (children d) n) (\<lambda>n.
     bind_res (dataobject_getEnum (n_store n) dobj EMO_FIELD_TYPE) (\<lambda>type.
     bind_res (EMO_DOF_IS_TYPE (n_store n) type EMO_TYPE_ARRAY) (\<lambda>isarray.
     bind_res
       (if isarray then
          bind_res (on_store (array_expand dobj) n) (\<lambda>n.
          let n = clear_queue n in
          bind_res (dataobject_superparent (n_store n) dobj) (\<lambda>top. on_store (widget_markDirty top) n))
        else Inr n) (\<lambda>n.
     bind_res (get_obj (n_store n) dobj) (\<lambda>d.
     each (resolveReferences_loop k e) (arrayChildren d) n)))))))))"

definition dataobject_resolveReferences :: "env \<Rightarrow> addr \<Rightarrow> net \<Rightarrow> net res" where
  "dataobject_resolveReferences e dobj n = resolveReferences_loop (Suc (next_addr (n_store n))) e dobj n"

section \<open>Applications\<close>

definition get_app :: "net \<Rightarrow> nat option \<Rightarrow> Application res" where
  "get_app n a = (case a of None \<Rightarrow> Inl Abort | Some a \<Rightarrow> (case apps (n_store n) a of None \<Rightarrow> Inl UseAfterFree | Some app \<Rightarrow> Inr app))"

definition put_app :: "nat \<Rightarrow> Application \<Rightarrow> net \<Rightarrow> net" where
  "put_app a app n = n\<lparr>n_store := (n_store n)\<lparr>apps := (apps (n_store n))(a \<mapsto> app)\<rparr>\<rparr>"

abbreviation am :: "net \<Rightarrow> ApplicationManager" where "am n \<equiv> appManager (n_store n)"

definition upd_am :: "(ApplicationManager \<Rightarrow> ApplicationManager) \<Rightarrow> net \<Rightarrow> net" where
  "upd_am f n = n\<lparr>n_store := (n_store n)\<lparr>appManager := f (am n)\<rparr>\<rparr>"

definition APP_ICONIFIED :: "32 word" where "APP_ICONIFIED = 1"

text \<open>The object that a field of the application names.\<close>

definition named_object :: "addr \<Rightarrow> int \<Rightarrow> store \<Rightarrow> addr option res" where
  "named_object dobj key s =
     bind_res (dataobject_getEnum s dobj key) (\<lambda>field.
     case field of
       None \<Rightarrow> Inr None
     | Some f \<Rightarrow> bind_res (get_fld s f) (\<lambda>fl. case f_val fl of DOF_STRING str \<Rightarrow> dataobject_findByName s dobj (str_of str) | _ \<Rightarrow> Inr None))"

definition application_load :: "env \<Rightarrow> addr \<Rightarrow> net \<Rightarrow> (nat \<times> net) res" where
  "application_load e dobj n =
     (let a = next_app (n_store n); n = n\<lparr>n_store := (n_store n)\<lparr>next_app := Suc a\<rparr>\<rparr> in
      bind_res (dataobject_resolveReferences e dobj n) (\<lambda>n.
      bind_res (dataobject_getEnum (n_store n) dobj EMO_FIELD_ICONIFIED) (\<lambda>field.
      bind_res (dataobjectfield_isTrue (n_store n) field) (\<lambda>icon.
      bind_res (named_object dobj EMO_FIELD_STYLE (n_store n)) (\<lambda>style.
      bind_res (named_object dobj EMO_FIELD_STARTUPVIEW (n_store n)) (\<lambda>scr.
      bind_res (case scr of None \<Rightarrow> Inr n | Some w \<Rightarrow> on_store (widget_markDirty w) n) (\<lambda>n.
      let n = put_app a \<lparr>app_dobj = dobj, app_screen = scr, activeDialog = None, currentStyle = style,
            app_flags = (if icon \<noteq> 0 then APP_ICONIFIED else 0), app_url = None\<rparr> n in
      bind_res (script_event e dobj EMO_FIELD_ONLOAD n) (\<lambda>n. Inr (a, n)))))))))"

definition application_setURL :: "nat \<Rightarrow> URL \<Rightarrow> net \<Rightarrow> net res" where
  "application_setURL a url n =
     bind_res (get_app n (Some a)) (\<lambda>app.
     bind_res (url_parse (u_all url) URL_ALL) (\<lambda>u. Inr (put_app a (app\<lparr>app_url := Some u\<rparr>) n)))"

definition application_getURL :: "nat \<Rightarrow> net \<Rightarrow> URL option res" where
  "application_getURL a n = bind_res (get_app n (Some a)) (\<lambda>app. read_init (app_url app))"

definition application_isIconified :: "nat \<Rightarrow> net \<Rightarrow> 32 word res" where
  "application_isIconified a n = bind_res (get_app n (Some a)) (\<lambda>app. Inr (and (app_flags app) APP_ICONIFIED))"

section \<open>The manager\<close>

definition manager_getBootApp :: "net \<Rightarrow> nat option" where
  "manager_getBootApp n = bootApp (am n)"

definition manager_getFocusedApplication :: "net \<Rightarrow> nat option" where
  "manager_getFocusedApplication n = am_focus (am n)"

definition manager_getRootStyle :: "net \<Rightarrow> addr option" where
  "manager_getRootStyle n = am_style (am n)"

definition manager_launchApplication :: "nat \<Rightarrow> net \<Rightarrow> net" where
  "manager_launchApplication a n = upd_am (\<lambda>m. m\<lparr>applications := applications m @ [a]\<rparr>) n"

text \<open>The style of the application, or that of the manager. The layout asserts that there is one.\<close>

definition style_of :: "nat option \<Rightarrow> net \<Rightarrow> addr option res" where
  "style_of a n = bind_res (get_app n a) (\<lambda>app. Inr (case currentStyle app of None \<Rightarrow> am_style (am n) | Some st \<Rightarrow> Some st))"

definition not_null :: "'a option \<Rightarrow> 'a res" where
  "not_null p = (case p of None \<Rightarrow> Inl Abort | Some x \<Rightarrow> Inr x)"

definition layout_window :: "font \<Rightarrow> addr option \<Rightarrow> bool \<Rightarrow> net \<Rightarrow> net res" where
  "layout_window fo style resizeRoot n =
     bind_res (not_null (rootApplicationWindow (am n))) (\<lambda>w.
     bind_res (not_null style) (\<lambda>st. on_store (widget_resolveLayoutRoot fo w st resizeRoot) n))"

definition manager_resolveLayout :: "font \<Rightarrow> net \<Rightarrow> net res" where
  "manager_resolveLayout fo n = bind_res (style_of (am_focus (am n)) n) (\<lambda>style. layout_window fo style False n)"

definition set_string_enum :: "addr option \<Rightarrow> int \<Rightarrow> string \<Rightarrow> net \<Rightarrow> net res" where
  "set_string_enum w key str n =
     bind_res (not_null w) (\<lambda>w.
     let (f, s) = dataobjectfield_string str (n_store n) in on_store (dataobject_setEnum w key f) (n\<lparr>n_store := s\<rparr>))"

text \<open>The rest of \<open>manager_focusApplication\<close> when there is a screen.\<close>

definition show_application :: "env \<Rightarrow> font \<Rightarrow> nat \<Rightarrow> net \<Rightarrow> net res" where
  "show_application e fo a n =
     bind_res (application_getURL a n) (\<lambda>appURL.
     bind_res (case appURL of None \<Rightarrow> Inl NullDeref | Some u \<Rightarrow> not_null (u_all u)) (\<lambda>url.
     bind_res (set_string_enum (rootApplicationPlaceHolder (am n)) EMO_FIELD_REFERENCE url n) (\<lambda>n.
     bind_res (not_null (rootApplicationPlaceHolder (am n))) (\<lambda>holder.
     bind_res (dataobject_resolveReferences e holder n) (\<lambda>n.
     bind_res (style_of (Some a) n) (\<lambda>style.
     bind_res (layout_window fo style True n) (\<lambda>n.
     bind_res (not_null (rootApplicationWindow (am n))) (\<lambda>w.
     bind_res (on_store (widget_focusNone w False) n) (\<lambda>n.
     bind_res (on_store (widget_markDirty w) n) (\<lambda>n.
     Inr (clear_queue (upd_am (\<lambda>m. m\<lparr>am_focus := Some a\<rparr>) n))))))))))))"

text \<open>The name is printed, so there has to be one.\<close>

definition manager_focusApplication :: "env \<Rightarrow> font \<Rightarrow> nat option \<Rightarrow> net \<Rightarrow> net res" where
  "manager_focusApplication e fo ap n =
     bind_res (not_null ap) (\<lambda>a.
     bind_res (get_app n ap) (\<lambda>app.
     bind_res (dataobject_getEnumAsInt (app_dobj app) EMO_FIELD_FULLSCREEN (n_store n)) (\<lambda>(field, s).
     bind_res (case field of None \<Rightarrow> Inr 0 | Some f \<Rightarrow> get_integer s f) (\<lambda>full.
     bind_res (set_string_enum (rootTopBar (am n)) EMO_FIELD_HEIGHT (if full \<noteq> 0 then ''0'' else ''25'') (n\<lparr>n_store := s\<rparr>)) (\<lambda>n.
     bind_res (dataobject_getEnum (n_store n) (app_dobj app) EMO_FIELD_NAME) (\<lambda>nf.
     bind_res (case nf of None \<Rightarrow> Inl NullDeref | Some f \<Rightarrow> get_string (n_store n) f) (\<lambda>_.
     case app_screen app of None \<Rightarrow> Inr n | Some _ \<Rightarrow> show_application e fo a n)))))))"

text \<open>The loop: the application after the focused one.\<close>

fun next_loop :: "nat option \<Rightarrow> bool \<Rightarrow> nat list \<Rightarrow> nat option" where
  "next_loop focus found [] = None"
| "next_loop focus found (x # xs) =
     (if \<not> found \<and> Some x = focus then next_loop focus True xs
      else if found then Some x
      else next_loop focus found xs)"

definition manager_focusNextApplication :: "env \<Rightarrow> font \<Rightarrow> net \<Rightarrow> net res" where
  "manager_focusNextApplication e fo n =
     (let xs = applications (am n); new = next_loop (am_focus (am n)) False xs in
      manager_focusApplication e fo (case new of Some x \<Rightarrow> Some x | None \<Rightarrow> (case xs of [] \<Rightarrow> None | x # _ \<Rightarrow> Some x)) n)"

definition application_setCurrentScreen :: "env \<Rightarrow> font \<Rightarrow> nat \<Rightarrow> addr \<Rightarrow> net \<Rightarrow> net res" where
  "application_setCurrentScreen e fo a scr n =
     bind_res (get_app n (Some a)) (\<lambda>app.
     bind_res (dataobject_getEnum (n_store n) scr EMO_FIELD_TYPE) (\<lambda>field.
     bind_res (EMO_DOF_IS_TYPE (n_store n) field EMO_TYPE_VIEW) (\<lambda>isview.
     if \<not> isview then Inr n
     else manager_focusApplication e fo (Some a) (put_app a (app\<lparr>app_screen := Some scr\<rparr>) n))))"

definition manager_loadApplicationReal :: "(addr \<Rightarrow> net \<Rightarrow> net res) \<Rightarrow> env \<Rightarrow> font \<Rightarrow> addr \<Rightarrow> bool \<Rightarrow> bool \<Rightarrow> URL option \<Rightarrow> net \<Rightarrow> net res" where
  "manager_loadApplicationReal mime_loadAll e fo dobj launch focus url n =
     bind_res (not_null url) (\<lambda>u.
     bind_res (mime_loadAll dobj n) (\<lambda>n.
     bind_res (application_load e dobj n) (\<lambda>(a, n).
     bind_res (application_setURL a u n) (\<lambda>n.
     let n = (if launch then manager_launchApplication a n else n) in
     if focus then manager_focusApplication e fo (Some a) n else Inr n))))"

section \<open>Dialogs\<close>

definition set_focus_stack :: "addr \<Rightarrow> int \<Rightarrow> net \<Rightarrow> net res" where
  "set_focus_stack holder i n =
     bind_res (dataobject_parent (n_store n) holder) (\<lambda>p.
     bind_res (not_null p) (\<lambda>p.
     let (f, s) = dataobjectfield_int (word_of_int i) (n_store n) in on_store (dataobject_setEnum p EMO_FIELD_FOCUSSTACK f) (n\<lparr>n_store := s\<rparr>)))"

definition redraw_window :: "font \<Rightarrow> net \<Rightarrow> net res" where
  "redraw_window fo n =
     bind_res (layout_window fo (am_style (am n)) True n) (\<lambda>n.
     bind_res (not_null (rootApplicationWindow (am n))) (\<lambda>w.
     bind_res (on_store (widget_markDirty w) n) (\<lambda>n. Inr (clear_queue n))))"

definition manager_showDialog :: "env \<Rightarrow> font \<Rightarrow> string \<Rightarrow> net \<Rightarrow> net res" where
  "manager_showDialog e fo name n =
     (let (f, s) = dataobjectfield_string name (n_store n) in
      bind_res (dataobjectfield_setIsModified True f s) (\<lambda>s.
      bind_res (not_null (rootApplicationDialogHolder (am n))) (\<lambda>holder.
      bind_res (on_store (dataobject_setEnum holder EMO_FIELD_REFERENCE f) (n\<lparr>n_store := s\<rparr>)) (\<lambda>n.
      bind_res (dataobject_resolveReferences e holder n) (\<lambda>n.
      bind_res (on_store (dataobject_setIsModified True holder) n) (\<lambda>n.
      bind_res (set_focus_stack holder 2 n) (redraw_window fo)))))))"

definition manager_finishDialog :: "env \<Rightarrow> font \<Rightarrow> net \<Rightarrow> net res" where
  "manager_finishDialog e fo n =
     bind_res (not_null (rootApplicationDialogHolder (am n))) (\<lambda>holder.
     bind_res (on_store (dataobject_unsetValue holder ''reference'') n) (\<lambda>n.
     bind_res (dataobject_resolveReferences e holder n) (\<lambda>n.
     bind_res (set_focus_stack holder (-1) n) (redraw_window fo))))"

definition application_showDialog :: "env \<Rightarrow> font \<Rightarrow> nat \<Rightarrow> string \<Rightarrow> net \<Rightarrow> net res" where
  "application_showDialog e fo a name n =
     bind_res (get_app n (Some a)) (\<lambda>app.
     let n = put_app a (app\<lparr>activeDialog := Some name\<rparr>) n in
     if manager_getFocusedApplication n = Some a then manager_showDialog e fo name n else Inr n)"

definition application_finishDialog :: "env \<Rightarrow> font \<Rightarrow> nat \<Rightarrow> net \<Rightarrow> net res" where
  "application_finishDialog e fo a n =
     bind_res (get_app n (Some a)) (\<lambda>app.
     let n = put_app a (app\<lparr>activeDialog := None\<rparr>) n in
     if manager_getFocusedApplication n = Some a then manager_finishDialog e fo n else Inr n)"

section \<open>Keys\<close>

text \<open>The string that names the key in the field \<open>accesskey\<close>: the low byte of other keys, as a C string.\<close>

definition access_string :: "32 word \<Rightarrow> string" where
  "access_string key =
     (if key = EKEY_BACK then ''BACK''
      else if key = EKEY_ACTIVATE then ''ACTIVATE''
      else if key = EKEY_FOCUSPREV then ''PREV''
      else if key = EKEY_FOCUSNEXT then ''NEXT''
      else (let b = unat key mod 256 in if b = 0 then [] else [char_of b]))"

text \<open>The focused widget takes the key first: whether it did.\<close>

definition focus_takes_key :: "addr option \<Rightarrow> 32 word \<Rightarrow> store \<Rightarrow> (bool \<times> store) res" where
  "focus_takes_key focus key s =
     (case focus of
        None \<Rightarrow> Inr (False, s)
      | Some w \<Rightarrow>
          bind_res (dataobject_getEnum s w EMO_FIELD_TYPE) (\<lambda>field.
          bind_res (EMO_DOF_IS_TYPE s field EMO_TYPE_ENTRY) (\<lambda>isentry.
          if isentry then entryWidget_handleKey w key s
          else
            bind_res (EMO_DOF_IS_TYPE s field EMO_TYPE_CHECKBOX) (\<lambda>isbox.
            if isbox then checkboxWidget_handleKey w key s else Inr (False, s)))))"

definition manager_handleKey :: "env \<Rightarrow> font \<Rightarrow> 32 word \<Rightarrow> net \<Rightarrow> net res" where
  "manager_handleKey e fo key n =
     (if key = EKEY_ALTTAB then manager_focusNextApplication e fo n
      else
        bind_res (style_of (am_focus (am n)) n) (\<lambda>_.
        bind_res (case rootApplicationWindow (am n) of None \<Rightarrow> Inr (None, n_store n) | Some w \<Rightarrow> widget_focusWhichOneNF w (n_store n)) (\<lambda>(focus, s).
        bind_res (focus_takes_key focus key s) (\<lambda>(taken, s).
        let n = n\<lparr>n_store := s\<rparr> in
        if taken then Inr n
        else
          bind_res (not_null (rootApplicationWindow (am n))) (\<lambda>window.
          bind_res (widget_findStringField (n_store n) window EMO_FIELD_ACCESSKEY (access_string key)) (\<lambda>accessKey.
          case accessKey of
            Some w \<Rightarrow> bind_res (on_store (widget_forceFocus window w) n) (script_event e w EMO_FIELD_ONRETURN)
          | None \<Rightarrow>
              if key = EKEY_ACTIVATE then script_event e (case focus of Some w \<Rightarrow> w | None \<Rightarrow> window) EMO_FIELD_ONRETURN n
              else if key = EKEY_FOCUSPREV then on_store (widget_focusPrev window) n
              else if key = EKEY_FOCUSNEXT then on_store (widget_focusNext window) n
              else Inr n))))))"

section \<open>Forms\<close>

text \<open>A form is the widgets of a window, in the order of the focus, with the editors of its entries. Access keys would take keys away from it.\<close>

type_synonym form = "addr option \<times> (addr \<Rightarrow> editor)"

definition form_key :: "(addr \<Rightarrow> bool) \<Rightarrow> addr list \<Rightarrow> addr list \<Rightarrow> 32 word \<Rightarrow> form \<Rightarrow> form" where
  "form_key P ws es key f = (case f of (cur, ed) \<Rightarrow>
     if key = EKEY_FOCUSNEXT then (focus_succ P ws cur, ed)
     else if key = EKEY_FOCUSPREV then (focus_pred P ws cur, ed)
     else (case cur of None \<Rightarrow> (cur, ed) | Some w \<Rightarrow> if w \<in> set es then (cur, ed(w := edit key (ed w))) else (cur, ed)))"

definition form_ok :: "otree \<Rightarrow> addr list \<Rightarrow> form \<Rightarrow> net \<Rightarrow> bool" where
  "form_ok t es f n \<longleftrightarrow> (case f of (cur, ed) \<Rightarrow>
     plain_tree (n_store n) t \<and> rootApplicationWindow (am n) = Some (root t) \<and> (\<exists>app. get_app n (am_focus (am n)) = Inr app) \<and>
     set_option cur \<subseteq> set (preorder t) \<and> set es \<subseteq> set (preorder t) \<and>
     (\<forall>w \<in> set (preorder t). (focused (n_store n) w \<longleftrightarrow> cur = Some w) \<and> attr (n_store n) w EMO_FIELD_ACCESSKEY = None \<and>
        (attr (n_store n) w EMO_FIELD_TYPE = Some (DOF_STRING (Builtin EMO_TYPE_ENTRY)) \<longleftrightarrow> w \<in> set es)) \<and>
     (\<forall>w \<in> set es. entry_ok w (ed w) (n_store n) \<and> (\<forall>x \<in> set (fst (ed w)). x < 128)))"

lemma focusWhichOneNF_run:
  assumes t: "plain_tree s t" and cur: "\<forall>w \<in> set (preorder t). focused s w \<longleftrightarrow> cur = Some w" and ct: "set_option cur \<subseteq> set (preorder t)"
  shows "widget_focusWhichOneNF (root t) s = Inr (cur, s)"
proof -
  let ?step = "find_step (\<lambda>_. Inr)"
  have st: "?step w s = Inr (if focused s w then Some w else None, s)" if "w \<in> set (preorder t)" for w
    using plain_hasFocus [of s w] t that by (auto simp: find_step_def plain_tree_def)
  have "widget_focusWhichOneNF (root t) s = until_hit ?step (preorder t) s"
    using look.walk_preorder [OF t subtrees_self] is_tree_height [of s t] t
    by (simp add: widget_focusWhichOneNF_def plain_tree_def del: find_focus.simps)
  also have "\<dots> = (case List.find (focused s) (preorder t) of None \<Rightarrow> Inr (None, s) | Some w \<Rightarrow> ?step w s)"
    using st by (intro until_find) auto
  also have "List.find (focused s) (preorder t) = cur"
  proof (cases cur)
    case None
    with cur show ?thesis by (simp add: find_None_iff)
  next
    case (Some x)
    then have "List.find (focused s) (preorder t) \<noteq> None" using cur ct by (auto simp: find_None_iff)
    then show ?thesis using cur Some find_Some_mem by fastforce
  qed
  also have "(case cur of None \<Rightarrow> Inr (None, s) | Some w \<Rightarrow> ?step w s) = Inr (cur, s)" using st cur ct by (auto split: option.split)
  finally show ?thesis .
qed

lemma first_some_None: "\<forall>c \<in> set cs. f c = Inr None \<Longrightarrow> first_some f cs = Inr None"
  by (induction cs) auto

lemma findStringField_none:
  assumes t: "plain_tree s t" and none: "\<forall>w \<in> set (preorder t). attr s w key = None" and key: "key \<noteq> -1"
  shows "widget_findStringField s (root t) key val = Inr None"
proof -
  have "findStringField_loop k s key val (root u) = Inr None" if "u \<in> subtrees t" "height u < k" for u k
    using that
  proof (induction u arbitrary: k)
    case (Node a us)
    then obtain m where m: "k = Suc m" by (cases k) auto
    have a: "a \<in> set (preorder t)" using in_subtree [OF Node.prems(1)] .
    have pl: "plain s a" "direct s a" using t a by (auto simp: plain_tree_def plain_def)
    have "dataobject_getEnum s a key = Inr None" using getEnum_direct [OF pl(2) key] none a by auto
    moreover obtain f where f: "dataobject_getEnum s a EMO_FIELD_TYPE = Inr (Some f)" "EMO_DOF_IS_TYPE s (Some f) EMO_TYPE_FRAME = Inr False"
      "EMO_DOF_IS_TYPE s (Some f) EMO_TYPE_REFERENCE = Inr False" using plain_type [OF pl(1)] by auto
    moreover have "dataobject_childIterator s a = Inr (map root us)" using plain_kids [OF t Node.prems(1)] by simp
    moreover have "findStringField_loop m s key val (root c) = Inr None" if "c \<in> set us" for c
      using Node.IH [OF that subtrees_step [OF Node.prems(1) that], of m] height_sub [OF that] Node.prems(2) m by simp
    ultimately show ?case using first_some_None [of "map root us" "findStringField_loop m s key val"] m
      by (simp add: m dataobjectfield_isString_def)
  qed
  then show ?thesis using is_tree_height [of s t] t by (simp add: widget_findStringField_def plain_tree_def del: findStringField_loop.simps)
qed

lemma entry_ok_frame:
  assumes "entry_ok w e s" and "store_ok s'" and "rm_ok (renderman s')" and "plain s' w" and "still s' = still s"
    and "attr s' w EMO_FIELD_DATA = attr s w EMO_FIELD_DATA" and "attr s' w EMO_FIELD_CURSOR = attr s w EMO_FIELD_CURSOR"
  shows "entry_ok w e s'"
proof -
  obtain d where "objs s w = Some d" "widgetData d = None" using assms(1) by (auto simp: entry_ok_def entry_at_def split: prod.splits)
  moreover have "map_option widgetData (objs s w) = map_option widgetData (still s w)" for s by (simp add: still_def option.map_comp comp_def)
  then have "map_option widgetData (objs s' w) = map_option widgetData (objs s w)" using assms(5) by simp
  ultimately have "\<exists>d. objs s' w = Some d \<and> widgetData d = None" by (cases "objs s' w") auto
  then show ?thesis using assms by (auto simp: entry_ok_def entry_at_def split: prod.splits)
qed

lemma typed_tree:
  assumes q: "typed w s s'" and t: "plain_tree s t"
  shows "plain_tree s' t" "can s' = can s" "focused s' = focused s"
proof -
  have at: "attr s' u k = attr s u k" if "k \<noteq> EMO_FIELD_DATA" "k \<noteq> EMO_FIELD_CURSOR" for u k using q that by (simp add: typed_def)
  then have a: "attr s' u EMO_FIELD_TYPE = attr s u EMO_FIELD_TYPE" "attr s' u EMO_FIELD_HASFOCUS = attr s u EMO_FIELD_HASFOCUS"
    "attr s' u EMO_FIELD_CANFOCUS = attr s u EMO_FIELD_CANFOCUS" for u by (simp_all add: emo_field_defs)
  show "can s' = can s" "focused s' = focused s" by (simp_all add: can_def focused_def a fun_eq_iff)
  have v: "kids_of s' = kids_of s" "parent_of s' = parent_of s"
    "\<And>u d. objs s u = Some d \<Longrightarrow> \<exists>d'. objs s' u = Some d' \<and> state d' = state d \<and> referenced d' = referenced d \<and> arrayChildren d' = arrayChildren d"
    using q still_views [of s' s] unfolding typed_def by blast+
  have "plain s' u" if "plain s u" for u
  proof -
    have "\<exists>d'. objs s' u = Some d' \<and> state d' = DOS_OK \<and> referenced d' = [] \<and> arrayChildren d' = []" using that v(3) [of u] by (auto simp: plain_def)
    moreover have "direct s' u = direct s u" using q by (simp add: typed_def)
    ultimately show ?thesis using that by (simp add: plain_def a)
  qed
  moreover have "tree_links s' t" using t v tree_links_cong [of s t s'] by (auto simp: plain_tree_def is_tree_alt)
  then have "is_tree s' t" using t v q by (auto simp: plain_tree_def is_tree_alt typed_def)
  ultimately show "plain_tree s' t" using q t by (auto simp: plain_tree_def typed_def)
qed

lemma form_parts:
  assumes "form_ok t es (cur, ed) n"
  shows "plain_tree (n_store n) t" "rootApplicationWindow (am n) = Some (root t)" "\<exists>st. style_of (am_focus (am n)) n = Inr st"
    "widget_focusWhichOneNF (root t) (n_store n) = Inr (cur, n_store n)" "set_option cur \<subseteq> set (preorder t)"
    "widget_findStringField (n_store n) (root t) EMO_FIELD_ACCESSKEY str = Inr None"
  using assms focusWhichOneNF_run [of "n_store n" t cur] findStringField_none [of "n_store n" t EMO_FIELD_ACCESSKEY str]
  by (auto simp: form_ok_def style_of_def emo_field_defs)

text \<open>A widget of the form that is no entry leaves the keys of a form to others.\<close>

lemma focus_leaves_key:
  assumes p: "plain s w" and no: "attr s w EMO_FIELD_TYPE \<noteq> Some (DOF_STRING (Builtin EMO_TYPE_ENTRY))" and key: "key \<noteq> EKEY_ACTIVATE"
  shows "focus_takes_key (Some w) key s = Inr (False, s)"
proof -
  obtain q where q: "direct s w" "attr s w EMO_FIELD_TYPE = Some (DOF_STRING (Builtin q))" using p by (auto simp: plain_def)
  have "EMO_FIELD_TYPE \<noteq> -1" by (simp add: EMO_FIELD_TYPE_def)
  from getEnum_direct [OF q(1) this] obtain f fl where "dataobject_getEnum s w EMO_FIELD_TYPE = Inr (Some f)" "flds s f = Some fl" "f_val fl = DOF_STRING (Builtin q)"
    using q(2) by auto
  moreover have "q \<noteq> EMO_TYPE_ENTRY" using no q(2) by auto
  ultimately show ?thesis using key by (simp add: focus_takes_key_def EMO_DOF_IS_TYPE_def get_fld_def checkboxWidget_handleKey_def)
qed

lemma entry_takes_key:
  assumes p: "direct s w" and ty: "attr s w EMO_FIELD_TYPE = Some (DOF_STRING (Builtin EMO_TYPE_ENTRY))"
  shows "focus_takes_key (Some w) key s = entryWidget_handleKey w key s"
proof -
  have "EMO_FIELD_TYPE \<noteq> -1" by (simp add: EMO_FIELD_TYPE_def)
  from getEnum_direct [OF p this] obtain f fl where "dataobject_getEnum s w EMO_FIELD_TYPE = Inr (Some f)" "flds s f = Some fl" "f_val fl = DOF_STRING (Builtin EMO_TYPE_ENTRY)"
    using ty by auto
  then show ?thesis by (simp add: focus_takes_key_def EMO_DOF_IS_TYPE_def get_fld_def)
qed

lemma entry_key_other: "entry_key key \<Longrightarrow> key \<noteq> EKEY_ALTTAB \<and> key \<noteq> EKEY_ACTIVATE \<and> key \<noteq> EKEY_FOCUSPREV \<and> key \<noteq> EKEY_FOCUSNEXT"
  using printable_key(4) [of key] by (auto simp: entry_key_def ekey_defs)

lemma entry_refuses:
  assumes "key = EKEY_FOCUSNEXT \<or> key = EKEY_FOCUSPREV"
  shows "entryWidget_handleKey w key s = Inr (False, s)"
  using assms by (auto simp: entryWidget_handleKey_def entry_accepts_def ekey_defs)

lemma handleKey_taken:
  assumes ok: "form_ok t es (Some w, ed) n" and w: "w \<in> set es" and key: "key \<noteq> EKEY_ALTTAB"
  shows "manager_handleKey e fo key n = bind_res (entryWidget_handleKey w key (n_store n)) (\<lambda>(taken, s).
     if taken then Inr (n\<lparr>n_store := s\<rparr>) else manager_handleKey e fo key n)"
proof -
  note p = form_parts [OF ok]
  have "direct (n_store n) w" "attr (n_store n) w EMO_FIELD_TYPE = Some (DOF_STRING (Builtin EMO_TYPE_ENTRY))"
    using ok w by (auto simp: form_ok_def plain_tree_def plain_def)
  then show ?thesis using p(2-4) key entry_takes_key [of "n_store n" w key]
    by (cases "entryWidget_handleKey w key (n_store n)") (auto simp: manager_handleKey_def Let_def)
qed

lemma handleKey_left:
  assumes ok: "form_ok t es (cur, ed) n" and key: "key \<noteq> EKEY_ALTTAB" "key \<noteq> EKEY_ACTIVATE"
    and no: "\<And>w. cur = Some w \<Longrightarrow> w \<in> set es \<Longrightarrow> entryWidget_handleKey w key (n_store n) = Inr (False, n_store n)"
  shows "manager_handleKey e fo key n =
     (if key = EKEY_FOCUSPREV then on_store (widget_focusPrev (root t)) n else if key = EKEY_FOCUSNEXT then on_store (widget_focusNext (root t)) n else Inr n)"
proof -
  note p = form_parts [OF ok]
  have "focus_takes_key cur key (n_store n) = Inr (False, n_store n)"
  proof (cases cur)
    case (Some w)
    then have w: "w \<in> set (preorder t)" using p(5) by simp
    have pl: "plain (n_store n) w" "direct (n_store n) w" using p(1) w by (auto simp: plain_tree_def plain_def)
    show ?thesis
    proof (cases "w \<in> set es")
      case True
      then show ?thesis using entry_takes_key [OF pl(2), of key] no [OF Some True] ok Some w by (auto simp: form_ok_def)
    next
      case False
      then show ?thesis using focus_leaves_key [OF pl(1) _ key(2)] ok Some w by (auto simp: form_ok_def)
    qed
  qed (simp add: focus_takes_key_def)
  then show ?thesis using p(2-4) p(6) [of "access_string key"] key by (auto simp: manager_handleKey_def Let_def not_null_def)
qed

lemma get_app_store: "apps s' = apps (n_store n) \<Longrightarrow> get_app (n\<lparr>n_store := s'\<rparr>) a = get_app n a"
  by (cases a) (simp_all add: get_app_def)

lemma form_moved:
  assumes ok: "form_ok t es (cur, ed) n" and m: "focus_moved t (n_store n) cur new s'" and new: "set_option new \<subseteq> set (preorder t)"
  shows "form_ok t es (new, ed) (n\<lparr>n_store := s'\<rparr>)" "can s' = can (n_store n)"
proof -
  let ?s = "n_store n"
  have q: "calm ?s s'" "plain_tree s' t" "can s' = can ?s" "\<forall>w \<in> set (preorder t). focused s' w \<longleftrightarrow> new = Some w" using m by (auto simp: focus_moved_def)
  have at: "attr s' u k = attr ?s u k" if "k \<noteq> EMO_FIELD_HASFOCUS" for u k using q(1) that by (simp add: calm_def)
  have e: "entry_ok w (ed w) s'" if "w \<in> set es" for w
  proof -
    have "plain s' w" "entry_ok w (ed w) ?s" using q(2) ok that by (auto simp: plain_tree_def form_ok_def)
    then show ?thesis using entry_ok_frame [of w "ed w" ?s s'] q(1) at by (simp add: calm_def emo_field_defs)
  qed
  have "get_app (n\<lparr>n_store := s'\<rparr>) a = get_app n a" for a using q(1) get_app_store by (simp add: calm_def)
  then show "form_ok t es (new, ed) (n\<lparr>n_store := s'\<rparr>)"
    using ok q(2,4) new e at q(1) by (auto simp: form_ok_def calm_def emo_field_defs)
  show "can s' = can ?s" by (rule q(3))
qed

lemma form_typed:
  assumes ok: "form_ok t es (Some w, ed) n" and w: "w \<in> set es" and q: "typed w (n_store n) s'" and e: "entry_ok w x s'" "\<forall>c \<in> set (fst x). c < 128"
  shows "form_ok t es (Some w, ed(w := x)) (n\<lparr>n_store := s'\<rparr>)" "can s' = can (n_store n)"
proof -
  let ?s = "n_store n"
  have t: "plain_tree s' t" "can s' = can ?s" "focused s' = focused ?s" using typed_tree [OF q] ok by (auto simp: form_ok_def)
  have at: "attr s' u k = attr ?s u k" if "k \<noteq> EMO_FIELD_DATA \<and> k \<noteq> EMO_FIELD_CURSOR \<or> u \<noteq> w" for u k using q that by (auto simp: typed_def)
  have ee: "entry_ok u (ed u) s'" if "u \<in> set es" "u \<noteq> w" for u
  proof -
    have "plain s' u" "entry_ok u (ed u) ?s" using t(1) ok that by (auto simp: plain_tree_def form_ok_def)
    then show ?thesis using entry_ok_frame [of u "ed u" ?s s'] q at that(2) by (simp add: typed_def)
  qed
  have "get_app (n\<lparr>n_store := s'\<rparr>) a = get_app n a" for a using q get_app_store by (simp add: typed_def)
  moreover have "appManager s' = am n" using q by (simp add: typed_def)
  ultimately show "form_ok t es (Some w, ed(w := x)) (n\<lparr>n_store := s'\<rparr>)"
    using ok t ee e at by (auto simp: form_ok_def emo_field_defs)
  show "can s' = can ?s" by (rule t(2))
qed

definition form_keys :: "32 word \<Rightarrow> bool" where
  "form_keys key \<longleftrightarrow> entry_key key \<or> key = EKEY_FOCUSNEXT \<or> key = EKEY_FOCUSPREV"

lemma focus_succ_mem: "set_option (focus_succ P ws cur) \<subseteq> set ws"
  by (auto simp: focus_succ_def dest!: find_Some_mem) (metis list.set_sel(2) set_dropWhileD tl_Nil)

lemma form_step:
  assumes ok: "form_ok t es (cur, ed) n" and key: "form_keys key" and len: "\<forall>w \<in> set es. length (fst (ed w)) + 1 < 2 ^ 31"
  shows "\<exists>n'. manager_handleKey e fo key n = Inr n' \<and> form_ok t es (form_key (can (n_store n)) (preorder t) es key (cur, ed)) n' \<and>
     can (n_store n') = can (n_store n)"
proof -
  note p = form_parts [OF ok]
  have f: "\<forall>w \<in> set (preorder t). focused (n_store n) w \<longleftrightarrow> cur = Some w" using ok by (auto simp: form_ok_def)
  consider (move) "key = EKEY_FOCUSNEXT \<or> key = EKEY_FOCUSPREV" | (edit) w where "entry_key key" "cur = Some w" "w \<in> set es"
    | (none) "entry_key key" "\<And>w. cur = Some w \<Longrightarrow> w \<notin> set es" using key unfolding form_keys_def by blast
  then show ?thesis
  proof cases
    case move
    have k: "key \<noteq> EKEY_ALTTAB" "key \<noteq> EKEY_ACTIVATE" "EKEY_FOCUSNEXT \<noteq> EKEY_FOCUSPREV" using move by (auto simp: ekey_defs)
    note run = handleKey_left [OF ok k(1,2) entry_refuses [OF move], of e fo]
    have mem: "set_option (focus_pred (can (n_store n)) (preorder t) cur) \<subseteq> set (preorder t)" using focus_pred_mem by (auto elim!: option.set_cases)
    show ?thesis
    proof (cases "key = EKEY_FOCUSNEXT")
      case True
      obtain s' where "widget_focusNext (root t) (n_store n) = Inr s'" "focus_moved t (n_store n) cur (focus_succ (can (n_store n)) (preorder t) cur) s'"
        using focusNext_moves [OF p(1) f p(5)] by blast
      then show ?thesis using run True k(3) form_moved [OF ok _ focus_succ_mem] by (auto simp: on_store_def form_key_def)
    next
      case False
      obtain s' where "widget_focusPrev (root t) (n_store n) = Inr s'" "focus_moved t (n_store n) cur (focus_pred (can (n_store n)) (preorder t) cur) s'"
        using focusPrev_moves [OF p(1) f p(5)] by blast
      then show ?thesis using run False move form_moved [OF ok _ mem] by (auto simp: on_store_def form_key_def)
    qed
  next
    case edit
    obtain cs c where x: "ed w = (cs, c)" by (cases "ed w")
    have "entry_ok w (cs, c) (n_store n)" "\<forall>y \<in> set cs. y < 128" "length cs + 1 < 2 ^ 31" using ok edit x len by (force simp: form_ok_def)+
    then obtain s' where s': "entryWidget_handleKey w key (n_store n) = Inr (True, s')" "entry_ok w (edit key (cs, c)) s'" "typed w (n_store n) s'"
      "\<forall>y \<in> set (fst (edit key (cs, c))). y < 128"
      using entry_handleKey_step [of w cs c "n_store n" key] edit_ascii [of key "(cs, c)"] edit(1) by auto
    have ok': "form_ok t es (Some w, ed) n" using ok edit by simp
    have "manager_handleKey e fo key n = Inr (n\<lparr>n_store := s'\<rparr>)" using handleKey_taken [OF ok' edit(3), of key e fo] s'(1) entry_key_other [OF edit(1)] by simp
    then show ?thesis using form_typed [OF ok' edit(3) s'(3,2,4)] x edit entry_key_other [OF edit(1)] by (auto simp: form_key_def)
  next
    case none
    have "manager_handleKey e fo key n = Inr n" using handleKey_left [OF ok, of key e fo] none entry_key_other [OF none(1)] by auto
    then show ?thesis using ok none entry_key_other [OF none(1)] by (auto simp: form_key_def split: option.split)
  qed
qed

fun press_all :: "env \<Rightarrow> font \<Rightarrow> 32 word list \<Rightarrow> net \<Rightarrow> net res" where
  "press_all e fo [] n = Inr n"
| "press_all e fo (k # ks) n = bind_res (manager_handleKey e fo k n) (press_all e fo ks)"

lemma form_key_length: "\<forall>w \<in> set es. entry_ok w (ed w) s \<Longrightarrow> w \<in> set es \<Longrightarrow>
   length (fst (snd (form_key P ws es key (cur, ed)) w)) \<le> length (fst (ed w)) + 1"
  using edit_length [of "ed w" key] by (auto simp: form_key_def entry_ok_def split: option.splits)

lemma form_run:
  assumes "form_ok t es f n" and "\<forall>k \<in> set ks. form_keys k" and "\<forall>w \<in> set es. length (fst (snd f w)) + length ks < 2 ^ 31"
  shows "\<exists>n'. press_all e fo ks n = Inr n' \<and> form_ok t es (fold (form_key (can (n_store n)) (preorder t) es) ks f) n'"
  using assms
proof (induction ks arbitrary: f n)
  case (Cons k ks)
  obtain cur ed where f: "f = (cur, ed)" by (cases f)
  have ok: "form_ok t es (cur, ed) n" using Cons.prems(1) f by simp
  obtain n1 where n1: "manager_handleKey e fo k n = Inr n1" "form_ok t es (form_key (can (n_store n)) (preorder t) es k (cur, ed)) n1"
     "can (n_store n1) = can (n_store n)"
    using form_step [OF ok, of k e fo] Cons.prems(2,3) f by fastforce
  have "\<forall>w \<in> set es. length (fst (snd (form_key (can (n_store n)) (preorder t) es k (cur, ed)) w)) + length ks < 2 ^ 31"
    using form_key_length [of es ed "n_store n" _ "can (n_store n)" "preorder t" k cur] Cons.prems(3) ok f by (fastforce simp: form_ok_def)
  from Cons.IH [OF n1(2) _ this] Cons.prems(2) n1 show ?case by (auto simp: f)
qed simp

section \<open>Properties\<close>


text \<open>A box with a label and two entries; the first entry has the focus.\<close>

definition two_entries :: store where
  "two_entries = demo_store\<lparr>
     objs := [0 \<mapsto> form_widget 20 [11, 2, 3] None [], 11 \<mapsto> form_widget 21 [] (Some 0) [],
        2 \<mapsto> form_widget 22 [] (Some 0) [(EMO_FIELD_CANFOCUS, 24), (EMO_FIELD_HASFOCUS, 25), (EMO_FIELD_DATA, 26), (EMO_FIELD_CURSOR, 27)],
        3 \<mapsto> form_widget 23 [] (Some 0) [(EMO_FIELD_CANFOCUS, 28), (EMO_FIELD_DATA, 29), (EMO_FIELD_CURSOR, 30)]],
     flds := [20 \<mapsto> \<lparr>f_val = DOF_STRING (Builtin EMO_TYPE_BOX), f_flags = 0\<rparr>, 21 \<mapsto> \<lparr>f_val = DOF_STRING (Builtin EMO_TYPE_LABEL), f_flags = 0\<rparr>,
        22 \<mapsto> \<lparr>f_val = DOF_STRING (Builtin EMO_TYPE_ENTRY), f_flags = 0\<rparr>, 23 \<mapsto> \<lparr>f_val = DOF_STRING (Builtin EMO_TYPE_ENTRY), f_flags = 0\<rparr>,
        24 \<mapsto> \<lparr>f_val = DOF_INT 1, f_flags = 0\<rparr>, 25 \<mapsto> \<lparr>f_val = DOF_INT 1, f_flags = 0\<rparr>, 26 \<mapsto> \<lparr>f_val = DOF_STRING (Owned ''to''), f_flags = 0\<rparr>,
        27 \<mapsto> \<lparr>f_val = DOF_INT 2, f_flags = 0\<rparr>, 28 \<mapsto> \<lparr>f_val = DOF_INT 1, f_flags = 0\<rparr>, 29 \<mapsto> \<lparr>f_val = DOF_STRING (Owned []), f_flags = 0\<rparr>,
        30 \<mapsto> \<lparr>f_val = DOF_INT 0, f_flags = 0\<rparr>],
     next_addr := 31,
     apps := [0 \<mapsto> \<lparr>app_dobj = 0, app_screen = Some 0, activeDialog = None, currentStyle = None, app_flags = 0, app_url = None\<rparr>],
     appManager := (appManager demo_store)\<lparr>am_focus := Some 0, rootApplicationWindow := Some 0\<rparr>\<rparr>"

definition form_net :: net where
  "form_net = \<lparr>n_store = two_entries, ctx = connectionContext_new 9, reqs = (\<lambda>_. None), next_req = 0, outbox = [], loadingApplication = None\<rparr>"

definition entries_tree :: otree where "entries_tree = Node 0 [Node 11 [], Node 2 [], Node 3 []]"

definition start_form :: form where "start_form = (Some 2, (\<lambda>_. ([], 0))(2 := (map of_char ''to'', 2)))"

lemmas form_numbers = EMO_FIELD_TYPE_def EMO_FIELD_CANFOCUS_def EMO_FIELD_HASFOCUS_def EMO_FIELD_DATA_def EMO_FIELD_CURSOR_def EMO_FIELD_ACCESSKEY_def

lemma two_entries_attr:
  "attr two_entries w k =
     (if w = 0 \<and> k = EMO_FIELD_TYPE then Some (DOF_STRING (Builtin EMO_TYPE_BOX))
      else if w = 11 \<and> k = EMO_FIELD_TYPE then Some (DOF_STRING (Builtin EMO_TYPE_LABEL))
      else if (w = 2 \<or> w = 3) \<and> k = EMO_FIELD_TYPE then Some (DOF_STRING (Builtin EMO_TYPE_ENTRY))
      else if (w = 2 \<or> w = 3) \<and> k = EMO_FIELD_CANFOCUS \<or> w = 2 \<and> k = EMO_FIELD_HASFOCUS then Some (DOF_INT 1)
      else if w = 2 \<and> k = EMO_FIELD_DATA then Some (DOF_STRING (Owned ''to''))
      else if w = 3 \<and> k = EMO_FIELD_DATA then Some (DOF_STRING (Owned []))
      else if w = 2 \<and> k = EMO_FIELD_CURSOR then Some (DOF_INT 2)
      else if w = 3 \<and> k = EMO_FIELD_CURSOR then Some (DOF_INT 0) else None)"
  by (simp add: attr_def two_entries_def form_widget_def new_obj_def am_find_def form_numbers)

lemma two_entries_plain: "plain_tree two_entries entries_tree"
proof -
  have st: "store_ok two_entries"
    by (auto simp: store_ok_def owns_def two_entries_def form_widget_def new_obj_def obj_ok_def owned_fields_def form_numbers split: if_splits)
  have tr: "is_tree two_entries entries_tree"
    by (auto simp: is_tree_alt entries_tree_def two_entries_def form_widget_def tree_links_alt kids_of_def parent_of_def new_obj_def)
  have "direct two_entries w" if "w \<in> {0, 11, 2, 3}" for w
    using that by (auto simp: direct_def two_entries_def form_widget_def new_obj_def am_find_def split: if_splits)
  moreover have "\<exists>d. objs two_entries w = Some d \<and> state d = DOS_OK \<and> referenced d = [] \<and> arrayChildren d = []" if "w \<in> {0, 11, 2, 3}" for w
    using that by (auto simp: two_entries_def form_widget_def new_obj_def)
  ultimately have "plain two_entries w" if "w \<in> {0, 11, 2, 3}" for w
    using that unfolding plain_def by (auto simp: two_entries_attr form_numbers emo_type_defs)
  then have "plain two_entries w" if "w \<in> set (preorder entries_tree)" for w using that by (auto simp: entries_tree_def)
  moreover have "rm_ok (renderman two_entries)" by (simp add: two_entries_def demo_store_def rm_ok_def array_wf_def)
  ultimately show ?thesis using st tr by (simp add: plain_tree_def)
qed

lemma start_form_ok: "form_ok entries_tree [2, 3] start_form form_net"
proof -
  have pl: "plain two_entries 2" "plain two_entries 3" "store_ok two_entries" "rm_ok (renderman two_entries)"
    using two_entries_plain by (auto simp: plain_tree_def entries_tree_def)
  have d: "objs two_entries 2 \<noteq> None" "objs two_entries 3 \<noteq> None" "\<And>w d. w \<in> {2, 3} \<Longrightarrow> objs two_entries w = Some d \<Longrightarrow> widgetData d = None"
    by (auto simp: two_entries_def form_widget_def new_obj_def)
  have t: "utf8_text (map of_char ''to'') = ''to''" by (rule ascii_string) simp
  have "entry_ok 2 (map of_char ''to'', 2) two_entries" "entry_ok 3 ([], 0) two_entries"
    using pl d t by (auto simp: entry_ok_def entry_at_def two_entries_attr form_numbers scalar_value_def)
  moreover have "get_app form_net (am_focus (am form_net)) = Inr \<lparr>app_dobj = 0, app_screen = Some 0, activeDialog = None, currentStyle = None, app_flags = 0, app_url = None\<rparr>"
    "rootApplicationWindow (am form_net) = Some 0" by (simp_all add: get_app_def form_net_def two_entries_def)
  moreover have "n_store form_net = two_entries" by (simp add: form_net_def)
  ultimately show ?thesis using two_entries_plain
    by (auto simp: form_ok_def start_form_def entries_tree_def focused_def two_entries_attr form_numbers emo_type_defs)
qed


lemma next_loop_run:
  "distinct xs \<Longrightarrow> i < length xs \<Longrightarrow> next_loop (Some (xs ! i)) False xs = (if Suc i < length xs then Some (xs ! Suc i) else None)"
proof (induction xs arbitrary: i)
  case (Cons x xs)
  show ?case
  proof (cases i)
    case 0
    then show ?thesis by (cases xs) auto
  next
    case (Suc j)
    then have "x \<noteq> xs ! j" using Cons.prems by (auto simp: nth_mem)
    then show ?thesis using Cons.IH [of j] Cons.prems Suc by auto
  qed
qed simp

text \<open>
  The task key goes round the applications: when the focused application is one of the launched ones, \<open>manager_focusNextApplication\<close> focuses the one launched after it, and
  after the last one the first.
\<close>

lemma focusNext_target:
  assumes "distinct (applications (am n))" and "i < length (applications (am n))" and "am_focus (am n) = Some (applications (am n) ! i)"
  shows "manager_focusNextApplication e fo n = manager_focusApplication e fo (Some (applications (am n) ! (Suc i mod length (applications (am n))))) n"
proof (cases "Suc i < length (applications (am n))")
  case False
  then have "Suc i = length (applications (am n))" using assms(2) by simp
  then show ?thesis using next_loop_run [OF assms(1,2)] assms(3) by (cases "applications (am n)") (auto simp: manager_focusNextApplication_def)
qed (use next_loop_run [OF assms(1,2)] assms(3) in \<open>simp add: manager_focusNextApplication_def\<close>)

text \<open>
  An application without a screen cannot be passed: focusing it changes the height of the top bar and nothing of the manager, so the next press of the task key tries the same
  application again.
\<close>

lemma setEnum_apps: "key \<noteq> EMO_FIELD_TYPE \<Longrightarrow> dataobject_setEnum w key f s = Inr s' \<Longrightarrow> appManager s' = appManager s \<and> apps s' = apps s"
  by (auto simp: dataobject_setEnum_def dataobjectfield_free_def upd_obj_def put_obj_def Let_def split: if_splits option.splits)

lemma getEnumAsInt_apps: "dataobject_getEnumAsInt w key s = Inr (f, s') \<Longrightarrow> appManager s' = appManager s \<and> apps s' = apps s"
proof -
  assume "dataobject_getEnumAsInt w key s = Inr (f, s')"
  then obtain g where g: "field_to_int g s = Inr (f, s')" by (auto simp: dataobject_getEnumAsInt_def)
  show ?thesis
  proof (cases g)
    case (Some h)
    then obtain fl where "get_fld s h = Inr fl" "(case f_val fl of
            DOF_INT _ \<Rightarrow> Inr (Some h, s) | DOF_UINT _ \<Rightarrow> Inr (Some h, s) | DOF_DATA _ \<Rightarrow> Inr (None, s)
          | DOF_STRING str \<Rightarrow>
              (let t = str_of str; v = (case t of c # ds \<Rightarrow> if c = CHR ''#'' then color_value ds else word_of_int (atoi t) | [] \<Rightarrow> word_of_int (atoi t));
                   s = put_fld h (fl\<lparr>f_val := DOF_INT v\<rparr>) s
               in case str of Owned _ \<Rightarrow> Inr (Some h, s) | Builtin _ \<Rightarrow> Inl BadFree)) = Inr (f, s')"
      using g by (auto simp: field_to_int_def)
    then show ?thesis by (cases "f_val fl") (auto simp: put_fld_def Let_def split: dof_string.splits)
  qed (use g in \<open>simp add: field_to_int_def\<close>)
qed

lemma set_string_enum_apps:
  "key \<noteq> EMO_FIELD_TYPE \<Longrightarrow> set_string_enum w key str n = Inr n' \<Longrightarrow> am n' = am n \<and> apps (n_store n') = apps (n_store n)"
  by (auto simp: set_string_enum_def dataobjectfield_string_def new_fld_def put_fld_def on_store_def dest!: setEnum_apps)

lemma focusNext_stuck:
  assumes "distinct (applications (am n))" and "i < length (applications (am n))" and "am_focus (am n) = Some (applications (am n) ! i)"
    and "apps (n_store n) (applications (am n) ! (Suc i mod length (applications (am n)))) = Some app" and "app_screen app = None"
    and "manager_focusNextApplication e fo n = Inr n'"
  shows "am n' = am n"
  using assms(6) unfolding focusNext_target [OF assms(1-3)]
  using assms(4,5) set_string_enum_apps [of EMO_FIELD_HEIGHT]
  by (auto simp: manager_focusApplication_def get_app_def not_null_def emo_field_defs dest!: getEnumAsInt_apps)

text \<open>
  \<open>manager_showDialog\<close> sets the numbered field of the dialog holder, \<open>manager_finishDialog\<close> removes a named value \<open>reference\<close>: the field stays, and the references are resolved with it
  again.
\<close>

lemma finishDialog_keeps_reference:
  assumes "store_ok s" and "dataobject_unsetValue holder ''reference'' s = Inr s'"
  shows "entry s' holder EMO_FIELD_REFERENCE = entry s holder EMO_FIELD_REFERENCE \<and> attr s' holder EMO_FIELD_REFERENCE = attr s holder EMO_FIELD_REFERENCE"
proof -
  obtain d where d: "objs s holder = Some d" using assms(2) by (auto simp: dataobject_unsetValue_def get_obj_def split: option.splits)
  show ?thesis
  proof (cases "am_find ''reference'' (d_data d)")
    case None
    then show ?thesis using assms(2) d by (simp add: dataobject_unsetValue_def get_obj_def)
  next
    case (Some f)
    have s': "s' = (put_obj holder (d\<lparr>d_data := am_remove ''reference'' (d_data d)\<rparr>) s)\<lparr>flds := (flds s)(f := None)\<rparr>"
      using assms(2) d Some by (auto simp: dataobject_unsetValue_def get_obj_def upd_obj_def dataobjectfield_free_def put_obj_def)
    have "distinct (owned_fields d)" using store_okD(1) [OF assms(1) d] by (simp add: obj_ok_def)
    moreover have "(''reference'', f) \<in> set (d_data d)" using Some am_find_set by fast
    ultimately have "am_find EMO_FIELD_REFERENCE (d_enumData d) \<noteq> Some f"
      using am_find_set [of EMO_FIELD_REFERENCE "d_enumData d" f] by (force simp: owned_fields_def)
    then show ?thesis using d by (auto simp: entry_def attr_def s' put_obj_def split: option.splits)
  qed
qed

end
