(* ===== verification/Glyph_Cache.thy ===== *)
theory Glyph_Cache
  imports Lgui_Draw Object_Store
begin

text \<open>
  Glyphs: \<open>BitmapCache.c\<close> and the functions of \<open>Font.c\<close> that load a glyph. A glyph that FreeType renders with one byte per pixel is packed to half a byte per pixel and kept in one growing
  block of memory, with a map from the character and the bold flag to its place and metrics.

  FreeType is an argument, the record \<open>freetype\<close>: the functions that the code calls, on the face as it was set up. A pointer to the data of a glyph is its offset in the block. Bytes of the block
  that nobody wrote have no value. Before the first allocation the block is the null pointer, and so is the pointer to a glyph without pixels then.

  The lemmas show that the cache is transparent: \<open>font_getGlyph\<close> gives what FreeType renders, packed, however many glyphs were loaded before.
\<close>

unbundle bit_operations_syntax

section \<open>The bitmap cache\<close>

datatype PixelFormat = RGB565 | RGB | RGBA | A8 | A4 | RGB565A8 | A8A8

record Bitmap =
  b_data :: nat
  b_width :: nat
  b_height :: nat
  b_xadvance :: int
  b_yadvance :: int
  b_baselinedy :: int
  b_pf :: PixelFormat
  b_isBold :: bool

record BitmapCache =
  bc_data :: "8 word option list"
  dataPos :: nat
  dataSize :: nat
  bc_map :: "(32 word \<times> Bitmap) list"

definition BITMAPCACHE_STEP :: nat where "BITMAPCACHE_STEP = 8192"

definition bitmapcache_new :: BitmapCache where
  "bitmapcache_new = \<lparr>bc_data = [], dataPos = 0, dataSize = 0, bc_map = []\<rparr>"

definition bitmap_key :: "32 word \<Rightarrow> bool \<Rightarrow> 32 word" where
  "bitmap_key value isBold = value OR (if isBold then 0x80000000 else 0)"

definition blk_write :: "nat \<Rightarrow> 8 word \<Rightarrow> 8 word option list \<Rightarrow> 8 word option list res" where
  "blk_write p v blk = (if p < length blk then Inr (blk[p := Some v]) else Inl OutOfBounds)"

text \<open>One row: the loop over \<open>j\<close>, which takes two pixels at a time.\<close>

fun pack_row :: "nat \<Rightarrow> 8 word list \<Rightarrow> int \<Rightarrow> nat \<Rightarrow> nat \<Rightarrow> nat \<Rightarrow> 8 word option list \<Rightarrow> 8 word option list res" where
  "pack_row 0 src rsrc width j dest blk = Inr blk"
| "pack_row (Suc n) src rsrc width j dest blk =
     bind_res (img_read src rsrc) (\<lambda>a.
     bind_res
       (if width mod 2 = 1 \<and> j = width - 1 then Inr (a AND 0xF0, rsrc + 1)
        else bind_res (img_read src (rsrc + 1)) (\<lambda>b. Inr ((a AND 0xF0) OR (drop_bit 4 b AND 0x0F), rsrc + 2))) (\<lambda>(val, rsrc).
     bind_res (blk_write dest val blk) (pack_row n src rsrc width (j + 2) (dest + 1))))"

fun pack_rows :: "nat \<Rightarrow> 8 word list \<Rightarrow> int \<Rightarrow> int \<Rightarrow> nat \<Rightarrow> nat \<Rightarrow> 8 word option list \<Rightarrow> 8 word option list res" where
  "pack_rows 0 src pos pitch width dest blk = Inr blk"
| "pack_rows (Suc n) src pos pitch width dest blk =
     bind_res (pack_row ((width + 1) div 2) src pos width 0 dest blk)
       (pack_rows n src (pos + pitch) pitch width (dest + (width + 1) div 2))"

text \<open>\<open>c->data + b->data\<close>: null as long as no block was allocated.\<close>

definition blk_ptr :: "BitmapCache \<Rightarrow> nat \<Rightarrow> nat option" where
  "blk_ptr c off = (if dataSize c = 0 then None else Some off)"

definition bitmapcache_add :: "32 word \<Rightarrow> bool \<Rightarrow> 8 word list \<Rightarrow> nat \<Rightarrow> nat \<Rightarrow> int \<Rightarrow> int \<Rightarrow> int \<Rightarrow> int \<Rightarrow> BitmapCache \<Rightarrow> (nat option \<times> BitmapCache) res" where
  "bitmapcache_add value isBold data width height xadvance yadvance pitch baselinedy c =
     (let size = (width + 1) div 2 * height;
          c = (if dataPos c + size > dataSize c
               then c\<lparr>bc_data := bc_data c @ replicate BITMAPCACHE_STEP None, dataSize := dataSize c + BITMAPCACHE_STEP\<rparr> else c);
          b = \<lparr>b_data = dataPos c, b_width = width, b_height = height, b_xadvance = xadvance, b_yadvance = yadvance, b_baselinedy = baselinedy,
               b_pf = A4, b_isBold = isBold\<rparr> in
      bind_res (pack_rows height data 0 pitch width (dataPos c) (bc_data c)) (\<lambda>blk.
      Inr (blk_ptr c (dataPos c), c\<lparr>bc_data := blk, dataPos := dataPos c + size, bc_map := am_append (bitmap_key value isBold) b (bc_map c)\<rparr>)))"

definition bitmapcache_get :: "32 word \<Rightarrow> bool \<Rightarrow> BitmapCache \<Rightarrow> (nat option \<times> Bitmap) option" where
  "bitmapcache_get value isBold c = map_option (\<lambda>b. (blk_ptr c (b_data b), b)) (am_find (bitmap_key value isBold) (bc_map c))"

section \<open>Fonts\<close>

text \<open>The glyph slot of a face after the calls of FreeType, and these calls. \<open>FT_Load_Glyph\<close> may fail; errors of the others are printed only.\<close>

record ft_slot =
  buffer :: "8 word list"
  ft_width :: nat
  ft_rows :: nat
  ft_pitch :: int
  advance_x :: int
  advance_y :: int
  bitmap_top :: int
  is_gray :: bool

record 'f freetype =
  FT_Get_Char_Index :: "'f \<Rightarrow> 32 word \<Rightarrow> nat"
  FT_Load_Glyph :: "'f \<Rightarrow> nat \<Rightarrow> ft_slot option"
  FT_Outline_Embolden :: "ft_slot \<Rightarrow> ft_slot"
  FT_Render_Glyph :: "ft_slot \<Rightarrow> ft_slot"
  FT_Set_Pixel_Sizes :: "int \<Rightarrow> 'f \<Rightarrow> 'f"

text \<open>\<open>font_load\<close> leaves the height unset. What \<open>font_getGlyph\<close> gives back: the metrics it stores through its arguments and the pointer it returns; \<open>None\<close> where it returns null
  and stores nothing.\<close>

record 'f Font =
  face :: 'f
  f_height :: "int option"
  f_cache :: BitmapCache

record glyph =
  g_data :: "nat option"
  g_width :: nat
  g_height :: nat
  g_xadvance :: int
  g_yadvance :: int
  g_baselinedy :: int

definition new_font :: "'f \<Rightarrow> 'f Font" where
  "new_font fc = \<lparr>face = fc, f_height = None, f_cache = bitmapcache_new\<rparr>"

definition font_setHeight :: "'f freetype \<Rightarrow> int \<Rightarrow> 'f Font \<Rightarrow> 'f Font" where
  "font_setHeight ft h f = f\<lparr>f_height := Some h, face := FT_Set_Pixel_Sizes ft h (face f)\<rparr>"

definition font_getHeight :: "'f Font \<Rightarrow> int res" where
  "font_getHeight f = read_init (f_height f)"

definition font_getGlyph :: "'f freetype \<Rightarrow> 32 word \<Rightarrow> bool \<Rightarrow> 'f Font \<Rightarrow> (glyph option \<times> 'f Font) res" where
  "font_getGlyph ft utf32 isBold f =
     (case bitmapcache_get utf32 isBold (f_cache f) of
        Some (p, b) \<Rightarrow> Inr (Some \<lparr>g_data = p, g_width = b_width b, g_height = b_height b, g_xadvance = b_xadvance b, g_yadvance = b_yadvance b,
                        g_baselinedy = b_baselinedy b\<rparr>, f)
      | None \<Rightarrow>
          (let glyph_index = FT_Get_Char_Index ft (face f) utf32 in
           if glyph_index = 0 then Inr (None, f)
           else
             (case FT_Load_Glyph ft (face f) glyph_index of
                None \<Rightarrow> Inr (None, f)
              | Some slot \<Rightarrow>
                  (let slot = FT_Render_Glyph ft (if isBold then FT_Outline_Embolden ft slot else slot); xadvance = (advance_x slot + 32) div 64;
                       yadvance = advance_y slot div 64 in
                   if \<not> is_gray slot then Inr (None, f)
                   else
                     bind_res (bitmapcache_add utf32 isBold (buffer slot) (ft_width slot) (ft_rows slot) xadvance yadvance (ft_pitch slot) (bitmap_top slot) (f_cache f))
                       (\<lambda>(p, c).
                     Inr (Some \<lparr>g_data = p, g_width = ft_width slot, g_height = ft_rows slot, g_xadvance = xadvance, g_yadvance = yadvance,
                           g_baselinedy = bitmap_top slot\<rparr>, f\<lparr>f_cache := c\<rparr>))))))"

section \<open>What FreeType renders\<close>

fun pack :: "8 word list \<Rightarrow> 8 word list" where
  "pack [] = []"
| "pack [a] = [a AND 0xF0]"
| "pack (a # b # xs) = ((a AND 0xF0) OR (drop_bit 4 b AND 0x0F)) # pack xs"

definition pixel_row :: "ft_slot \<Rightarrow> nat \<Rightarrow> 8 word list" where
  "pixel_row sl i = take (ft_width sl) (drop (i * nat (ft_pitch sl)) (buffer sl))"

definition packed :: "ft_slot \<Rightarrow> 8 word list" where
  "packed sl = concat (map (\<lambda>i. pack (pixel_row sl i)) [0 ..< ft_rows sl])"

definition rendered :: "'f freetype \<Rightarrow> 'f \<Rightarrow> 32 word \<Rightarrow> bool \<Rightarrow> ft_slot option" where
  "rendered ft fc utf32 isBold =
     (if FT_Get_Char_Index ft fc utf32 = 0 then None
      else (case FT_Load_Glyph ft fc (FT_Get_Char_Index ft fc utf32) of
              None \<Rightarrow> None
            | Some slot \<Rightarrow>
                (let slot = FT_Render_Glyph ft (if isBold then FT_Outline_Embolden ft slot else slot) in if is_gray slot then Some slot else None)))"

text \<open>The metrics and the picture of a glyph, as FreeType has them and as they are found at a place of the block.\<close>

type_synonym picture = "nat \<times> nat \<times> int \<times> int \<times> int \<times> 8 word option list"

definition slot_picture :: "ft_slot \<Rightarrow> picture" where
  "slot_picture sl = (ft_width sl, ft_rows sl, (advance_x sl + 32) div 64, advance_y sl div 64, bitmap_top sl, map Some (packed sl))"

definition glyph_picture :: "BitmapCache \<Rightarrow> glyph \<Rightarrow> picture" where
  "glyph_picture c g = (g_width g, g_height g, g_xadvance g, g_yadvance g, g_baselinedy g,
     (case g_data g of None \<Rightarrow> [] | Some p \<Rightarrow> take ((g_width g + 1) div 2 * g_height g) (drop p (bc_data c))))"

text \<open>What FreeType guarantees of a rendered slot: the rows are in the buffer. The cache relies on a size of at most one step.\<close>

definition slot_ok :: "ft_slot \<Rightarrow> bool" where
  "slot_ok sl \<longleftrightarrow> 0 \<le> ft_pitch sl \<and> (0 < ft_rows sl \<longrightarrow> (ft_rows sl - 1) * nat (ft_pitch sl) + ft_width sl \<le> length (buffer sl)) \<and>
     (ft_width sl + 1) div 2 * ft_rows sl \<le> BITMAPCACHE_STEP"

definition face_ok :: "'f freetype \<Rightarrow> 'f \<Rightarrow> bool" where
  "face_ok ft fc \<longleftrightarrow> (\<forall>u b sl. rendered ft fc u b = Some sl \<longrightarrow> slot_ok sl)"

section \<open>Packing\<close>

lemma pack_length: "length (pack xs) = (length xs + 1) div 2"
  by (induction xs rule: pack.induct) auto

definition splice :: "nat \<Rightarrow> 'a list \<Rightarrow> 'a list \<Rightarrow> 'a list" where
  "splice p xs blk = take p blk @ xs @ drop (p + length xs) blk"

lemma splice_Cons: "p < length blk \<Longrightarrow> splice (Suc p) xs (blk[p := x]) = splice p (x # xs) blk"
  by (simp add: splice_def take_Suc_conv_app_nth)

lemma splice_splice: "p + length xs \<le> length blk \<Longrightarrow> splice (p + length xs) ys (splice p xs blk) = splice p (xs @ ys) blk"
  by (simp add: splice_def add_ac)

lemma splice_length [simp]: "p + length xs \<le> length blk \<Longrightarrow> length (splice p xs blk) = length blk"
  by (simp add: splice_def)

lemma take_drop_Cons:
  assumes "take (Suc n) (drop r src) = a # ys"
  shows "img_read src (int r) = Inr a" and "take n (drop (Suc r) src) = ys"
proof -
  obtain zs where "drop r src = a # zs" "take n zs = ys" using assms by (cases "drop r src") auto
  moreover from this have "r < length src" "src ! r = a" by (auto simp: nth_via_drop intro: ccontr)
  moreover have "drop (Suc r) src = zs" using calculation(1) by (metis drop_Suc tl_drop list.sel(3))
  ultimately show "img_read src (int r) = Inr a" "take n (drop (Suc r) src) = ys" by (auto simp: img_read_def)
qed

lemma pack_row_run:
  assumes "take (length xs) (drop r src) = xs" and "j + length xs = width" and "even j" and "dest + (length xs + 1) div 2 \<le> length blk"
  shows "pack_row ((length xs + 1) div 2) src (int r) width j dest blk = Inr (splice dest (map Some (pack xs)) blk)"
  using assms
proof (induction xs arbitrary: r j dest blk rule: pack.induct)
  case 1
  then show ?case by (simp add: splice_def)
next
  case (2 a)
  have a: "img_read src (int r) = Inr a" using take_drop_Cons [of 0 r src a "[]"] 2 by simp
  have "width mod 2 = 1 \<and> j = width - 1" using 2 by (auto simp: mod_Suc)
  then show ?case using a 2 by (simp add: blk_write_def splice_def upd_conv_take_nth_drop)
next
  case (3 a b xs)
  have a: "img_read src (int r) = Inr a" "take (Suc (length xs)) (drop (Suc r) src) = b # xs"
    using take_drop_Cons [of "Suc (length xs)" r src a "b # xs"] 3(2) by simp_all
  have b: "img_read src (int (Suc r)) = Inr b" "take (length xs) (drop (Suc (Suc r)) src) = xs"
    using take_drop_Cons [OF a(2)] by simp_all
  let ?v = "Some ((a AND 0xF0) OR (drop_bit 4 b AND 0x0F))"
  have "pack_row ((length xs + 1) div 2) src (int (Suc (Suc r))) width (j + 2) (dest + 1) (blk[dest := ?v]) =
      Inr (splice (dest + 1) (map Some (pack xs)) (blk[dest := ?v]))"
    using 3 b by (intro 3(1)) auto
  moreover have "j \<noteq> width - 1" using 3(3) by simp
  ultimately show ?case using a(1) b(1) 3 by (simp add: blk_write_def splice_Cons add_ac)
qed

lemma pack_rows_run:
  assumes "0 \<le> pitch" and "0 < n \<longrightarrow> r + (n - 1) * nat pitch + w \<le> length src" and "dest + n * ((w + 1) div 2) \<le> length blk"
  shows "pack_rows n src (int r) pitch w dest blk =
    Inr (splice dest (map Some (concat (map (\<lambda>i. pack (take w (drop (r + i * nat pitch) src))) [0 ..< n]))) blk)"
  using assms
proof (induction n arbitrary: r dest blk)
  case 0
  then show ?case by (simp add: splice_def)
next
  case (Suc n)
  let ?row = "take w (drop r src)" and ?blk = "splice dest (map Some (pack (take w (drop r src)))) blk"
  have len: "length ?row = w" using Suc.prems(2) by simp
  have row: "pack_row ((w + 1) div 2) src (int r) w 0 dest blk = Inr ?blk"
    using pack_row_run [of ?row r src 0 w dest blk] len Suc.prems(3) by simp
  have l: "dest + length (map Some (pack ?row)) \<le> length blk" using Suc.prems(3) len by (simp add: pack_length)
  have "pack_rows n src (int (r + nat pitch)) pitch w (dest + (w + 1) div 2) ?blk =
      Inr (splice (dest + (w + 1) div 2) (map Some (concat (map (\<lambda>i. pack (take w (drop (r + nat pitch + i * nat pitch) src))) [0 ..< n]))) ?blk)"
    using Suc.prems l by (intro Suc.IH) (auto simp: algebra_simps gr0_conv_Suc)
  moreover have "splice (dest + (w + 1) div 2) ys ?blk = splice dest (map Some (pack ?row) @ ys) blk" for ys
    using splice_splice [OF l, of ys] len by (simp add: pack_length)
  moreover have "[0 ..< Suc n] = 0 # map Suc [0 ..< n]" by (simp add: map_Suc_upt upt_conv_Cons)
  ultimately show ?case using row Suc.prems(1) by (simp add: comp_def add_ac del: upt_Suc)
qed

lemma packed_run:
  assumes "slot_ok sl" and "dest + (ft_width sl + 1) div 2 * ft_rows sl \<le> length blk"
  shows "pack_rows (ft_rows sl) (buffer sl) 0 (ft_pitch sl) (ft_width sl) dest blk = Inr (splice dest (map Some (packed sl)) blk)"
  using pack_rows_run [of "ft_pitch sl" "ft_rows sl" 0 "ft_width sl" "buffer sl" dest blk] assms
  by (simp add: slot_ok_def packed_def pixel_row_def mult.commute)

lemma packed_length:
  assumes "slot_ok sl"
  shows "length (packed sl) = (ft_width sl + 1) div 2 * ft_rows sl"
proof -
  have "length (pixel_row sl i) = ft_width sl" if "i < ft_rows sl" for i
  proof -
    have "i * nat (ft_pitch sl) \<le> (ft_rows sl - 1) * nat (ft_pitch sl)" using that by (intro mult_le_mono1) simp
    moreover have "(ft_rows sl - 1) * nat (ft_pitch sl) + ft_width sl \<le> length (buffer sl)" using assms that by (simp add: slot_ok_def)
    ultimately have "ft_width sl \<le> length (buffer sl) - i * nat (ft_pitch sl)" by linarith
    then show ?thesis by (simp add: pixel_row_def)
  qed
  then have "map (\<lambda>i. length (pack (pixel_row sl i))) [0 ..< ft_rows sl] = replicate (ft_rows sl) ((ft_width sl + 1) div 2)"
    by (intro nth_equalityI) (simp_all add: pack_length)
  then show ?thesis by (simp add: packed_def length_concat comp_def sum_list_replicate mult.commute del: map_eq_conv)
qed

section \<open>The invariant of the cache\<close>

abbreviation slot_size :: "ft_slot \<Rightarrow> nat" where
  "slot_size sl \<equiv> (ft_width sl + 1) div 2 * ft_rows sl"

definition entry_ok :: "BitmapCache \<Rightarrow> Bitmap \<Rightarrow> ft_slot \<Rightarrow> bool" where
  "entry_ok c b sl \<longleftrightarrow> b_data b + slot_size sl \<le> dataPos c \<and>
     (b_width b, b_height b, b_xadvance b, b_yadvance b, b_baselinedy b, take (slot_size sl) (drop (b_data b) (bc_data c))) = slot_picture sl"

text \<open>\<open>S\<close> is the set of the glyphs that are stored.\<close>

definition cache_ok :: "'f freetype \<Rightarrow> 'f \<Rightarrow> (32 word \<times> bool) set \<Rightarrow> BitmapCache \<Rightarrow> bool" where
  "cache_ok ft fc S c \<longleftrightarrow> dataPos c \<le> dataSize c \<and> length (bc_data c) = dataSize c \<and> finite S \<and>
     (\<forall>(u, b) \<in> S. u < 0x80000000) \<and>
     dataPos c = (\<Sum>(u, b)\<in>S. slot_size (the (rendered ft fc u b))) \<and>
     (\<forall>u b. u < 0x80000000 \<longrightarrow>
        (case am_find (bitmap_key u b) (bc_map c) of
           None \<Rightarrow> (u, b) \<notin> S
         | Some bm \<Rightarrow> (u, b) \<in> S \<and> (\<exists>sl. rendered ft fc u b = Some sl \<and> entry_ok c bm sl)))"

definition kept :: "BitmapCache \<Rightarrow> BitmapCache \<Rightarrow> bool" where
  "kept c c' \<longleftrightarrow> dataPos c \<le> dataPos c' \<and> dataPos c \<le> length (bc_data c) \<and> (\<forall>i n. i + n \<le> dataPos c \<longrightarrow> take n (drop i (bc_data c')) = take n (drop i (bc_data c)))"

definition glyph_ok :: "BitmapCache \<Rightarrow> glyph \<Rightarrow> ft_slot \<Rightarrow> bool" where
  "glyph_ok c g sl \<longleftrightarrow> glyph_picture c g = slot_picture sl \<and> (case g_data g of None \<Rightarrow> True | Some p \<Rightarrow> p + slot_size sl \<le> dataPos c)"

lemma bitmap_key_inj:
  assumes "u < 0x80000000" and "v < 0x80000000" and "bitmap_key u a = bitmap_key v b"
  shows "u = v \<and> a = b"
proof -
  have low: "take_bit 31 w = w" "\<not> bit w 31" if "w < 0x80000000" for w :: "32 word"
  proof -
    have "unat w < 2 ^ 31" using that by (simp add: word_less_nat_alt)
    then show t: "take_bit 31 w = w" by (metis take_bit_nat_eq_self unsigned_take_bit_eq word_unat_eq_iff)
    show "\<not> bit w 31" by (subst t [symmetric]) (simp add: bit_take_bit_iff)
  qed
  have tb: "take_bit 31 (bitmap_key w c) = w" "bit (bitmap_key w c) 31 = c" if "w < 0x80000000" for w c
    using low [OF that] by (auto simp: bitmap_key_def take_bit_or bit_or_iff)
  show ?thesis using tb [of u a] tb [of v b] assms by metis
qed

lemma rendered_ok: "face_ok ft fc \<Longrightarrow> rendered ft fc u b = Some sl \<Longrightarrow> slot_ok sl"
  by (auto simp: face_ok_def)

lemma splice_kept: "i + n \<le> p \<Longrightarrow> p + length xs \<le> length blk \<Longrightarrow> take n (drop i (splice p xs blk)) = take n (drop i blk)"
  by (simp add: splice_def drop_take)

lemma kept_entry: "kept c c' \<Longrightarrow> entry_ok c b sl \<Longrightarrow> entry_ok c' b sl"
  by (auto simp: kept_def entry_ok_def)

lemma kept_glyph:
  assumes "kept c c'" and "glyph_ok c g sl"
  shows "glyph_ok c' g sl"
proof -
  have "g_width g = ft_width sl" "g_height g = ft_rows sl" using assms(2) by (auto simp: glyph_ok_def glyph_picture_def slot_picture_def)
  then show ?thesis using assms by (cases "g_data g") (auto simp: glyph_ok_def kept_def glyph_picture_def)
qed

lemma kept_trans: "kept a b \<Longrightarrow> kept b c \<Longrightarrow> kept a c"
  by (force simp: kept_def)

lemma bitmapcache_add_run:
  assumes ok: "slot_ok sl" and pos: "dataPos c \<le> dataSize c" "length (bc_data c) = dataSize c"
  obtains c' where
    "bitmapcache_add u isb (buffer sl) (ft_width sl) (ft_rows sl) xa ya (ft_pitch sl) base c = Inr (blk_ptr c' (dataPos c), c')"
    "kept c c'" "dataPos c' = dataPos c + slot_size sl" "dataPos c' \<le> dataSize c'" "length (bc_data c') = dataSize c'"
    "bc_map c' = am_append (bitmap_key u isb) \<lparr>b_data = dataPos c, b_width = ft_width sl, b_height = ft_rows sl, b_xadvance = xa, b_yadvance = ya,
       b_baselinedy = base, b_pf = A4, b_isBold = isb\<rparr> (bc_map c)"
    "take (slot_size sl) (drop (dataPos c) (bc_data c')) = map Some (packed sl)"
proof -
  define c1 where "c1 = (if dataPos c + slot_size sl > dataSize c
     then c\<lparr>bc_data := bc_data c @ replicate BITMAPCACHE_STEP None, dataSize := dataSize c + BITMAPCACHE_STEP\<rparr> else c)"
  have c1: "dataPos c1 = dataPos c" "bc_map c1 = bc_map c" "length (bc_data c1) = dataSize c1" "dataPos c + slot_size sl \<le> dataSize c1"
    "\<And>i n. i + n \<le> dataPos c \<Longrightarrow> take n (drop i (bc_data c1)) = take n (drop i (bc_data c))"
    using pos ok by (auto simp: c1_def slot_ok_def)
  define c' where "c' = c1\<lparr>bc_data := splice (dataPos c) (map Some (packed sl)) (bc_data c1), dataPos := dataPos c + slot_size sl,
    bc_map := am_append (bitmap_key u isb) \<lparr>b_data = dataPos c, b_width = ft_width sl, b_height = ft_rows sl, b_xadvance = xa, b_yadvance = ya,
       b_baselinedy = base, b_pf = A4, b_isBold = isb\<rparr> (bc_map c)\<rparr>"
  have len: "dataPos c + length (map Some (packed sl)) \<le> length (bc_data c1)" using c1 by (simp add: packed_length [OF ok])
  have run: "bitmapcache_add u isb (buffer sl) (ft_width sl) (ft_rows sl) xa ya (ft_pitch sl) base c = Inr (blk_ptr c' (dataPos c), c')"
    using packed_run [OF ok, of "dataPos c" "bc_data c1"] c1 unfolding bitmapcache_add_def c1_def [symmetric] Let_def by (simp add: c'_def blk_ptr_def)
  have keep: "kept c c'" using c1 len pos splice_kept [OF _ len] by (auto simp: kept_def c'_def)
  have own: "take (slot_size sl) (drop (dataPos c) (bc_data c')) = map Some (packed sl)"
    using len by (simp add: c'_def splice_def packed_length [OF ok])
  show thesis by (rule that [OF run keep _ _ _ _ own]) (use c1 len in \<open>auto simp: c'_def\<close>)
qed

lemma font_getGlyph_new:
  assumes "bitmapcache_get u isb (f_cache f) = None"
  shows "font_getGlyph ft u isb f =
    (case rendered ft (face f) u isb of
       None \<Rightarrow> Inr (None, f)
     | Some sl \<Rightarrow>
         bind_res (bitmapcache_add u isb (buffer sl) (ft_width sl) (ft_rows sl) ((advance_x sl + 32) div 64) (advance_y sl div 64) (ft_pitch sl) (bitmap_top sl) (f_cache f))
           (\<lambda>(p, c). Inr (Some \<lparr>g_data = p, g_width = ft_width sl, g_height = ft_rows sl, g_xadvance = (advance_x sl + 32) div 64,
              g_yadvance = advance_y sl div 64, g_baselinedy = bitmap_top sl\<rparr>, f\<lparr>f_cache := c\<rparr>)))"
  using assms by (simp add: font_getGlyph_def rendered_def Let_def split: option.split)

lemma entry_glyph:
  assumes "entry_ok c b sl" and "slot_ok sl" and "dataPos c \<le> dataSize c"
  shows "glyph_ok c \<lparr>g_data = blk_ptr c (b_data b), g_width = b_width b, g_height = b_height b, g_xadvance = b_xadvance b, g_yadvance = b_yadvance b,
     g_baselinedy = b_baselinedy b\<rparr> sl"
proof -
  have "packed sl = []" if "dataSize c = 0" using that assms packed_length [OF assms(2)] by (auto simp: entry_ok_def)
  then show ?thesis using assms(1) by (auto simp: entry_ok_def glyph_ok_def glyph_picture_def slot_picture_def blk_ptr_def)
qed

lemma cache_ok_hit:
  assumes "cache_ok ft fc S c" and "u < 0x80000000" and "am_find (bitmap_key u b) (bc_map c) = Some bm"
  obtains sl where "(u, b) \<in> S" "rendered ft fc u b = Some sl" "entry_ok c bm sl"
proof -
  have "case am_find (bitmap_key u b) (bc_map c) of None \<Rightarrow> (u, b) \<notin> S
     | Some bm \<Rightarrow> (u, b) \<in> S \<and> (\<exists>sl. rendered ft fc u b = Some sl \<and> entry_ok c bm sl)"
    using assms(1,2) unfolding cache_ok_def by blast
  then show thesis using assms(3) that by auto
qed

lemma cache_ok_miss: "cache_ok ft fc S c \<Longrightarrow> u < 0x80000000 \<Longrightarrow> am_find (bitmap_key u b) (bc_map c) = None \<Longrightarrow> (u, b) \<notin> S"
  unfolding cache_ok_def by (metis (no_types, lifting) option.case(1))

lemma cache_ok_insert:
  assumes ok: "cache_ok ft fc S c" and u: "u < 0x80000000" "(u, b) \<notin> S" and r: "rendered ft fc u b = Some sl" and keep: "kept c c'"
    and pos: "dataPos c' = dataPos c + slot_size sl" "dataPos c' \<le> dataSize c'" "length (bc_data c') = dataSize c'"
    and m: "bc_map c' = am_append (bitmap_key u b) bm (bc_map c)" and e: "entry_ok c' bm sl"
  shows "cache_ok ft fc (insert (u, b) S) c'"
proof -
  have "case am_find (bitmap_key v d) (bc_map c') of None \<Rightarrow> (v, d) \<notin> insert (u, b) S
     | Some bm \<Rightarrow> (v, d) \<in> insert (u, b) S \<and> (\<exists>sl. rendered ft fc v d = Some sl \<and> entry_ok c' bm sl)" if v: "v < 0x80000000" for v d
  proof (cases "bitmap_key v d = bitmap_key u b")
    case True
    then show ?thesis using bitmap_key_inj [OF v u(1) True] m r e by simp
  next
    case False
    then have "(v, d) \<noteq> (u, b)" by (metis Pair_inject)
    then show ?thesis using False m cache_ok_miss [OF ok v] kept_entry [OF keep]
      by (auto split: option.split elim!: cache_ok_hit [OF ok v])
  qed
  then show ?thesis using ok u r pos by (auto simp: cache_ok_def)
qed

lemma font_getGlyph_run:
  assumes ok: "cache_ok ft fc S (f_cache f)" and f: "face f = fc" and face: "face_ok ft fc" and u: "u < 0x80000000"
  obtains g f' where "font_getGlyph ft u b f = Inr (g, f')" "face f' = fc" "kept (f_cache f) (f_cache f')"
    "cache_ok ft fc (if rendered ft fc u b = None then S else insert (u, b) S) (f_cache f')"
    "rel_option (glyph_ok (f_cache f')) g (rendered ft fc u b)"
proof -
  have c: "dataPos (f_cache f) \<le> dataSize (f_cache f)" "length (bc_data (f_cache f)) = dataSize (f_cache f)" using ok by (auto simp: cache_ok_def)
  then have self: "kept (f_cache f) (f_cache f)" by (simp add: kept_def)
  show thesis
  proof (cases "am_find (bitmap_key u b) (bc_map (f_cache f))")
    case (Some bm)
    then obtain sl where sl: "(u, b) \<in> S" "rendered ft fc u b = Some sl" "entry_ok (f_cache f) bm sl" using cache_ok_hit [OF ok u] by blast
    from entry_glyph [OF sl(3) rendered_ok [OF face sl(2)] c(1)] show thesis
      using Some sl f self ok by (intro that) (auto simp: font_getGlyph_def bitmapcache_get_def insert_absorb)
  next
    case None
    note new = font_getGlyph_new [of u b f ft, unfolded bitmapcache_get_def None f, simplified]
    show thesis
    proof (cases "rendered ft fc u b")
      case None
      then show thesis using new f self ok by (intro that) auto
    next
      case (Some sl)
      note slot = rendered_ok [OF face Some]
      let ?x = "(advance_x sl + 32) div 64" and ?y = "advance_y sl div 64" and ?p = "dataPos (f_cache f)"
      let ?bm = "\<lparr>b_data = ?p, b_width = ft_width sl, b_height = ft_rows sl, b_xadvance = ?x, b_yadvance = ?y,
         b_baselinedy = bitmap_top sl, b_pf = A4, b_isBold = b\<rparr>"
      obtain c' where c': "bitmapcache_add u b (buffer sl) (ft_width sl) (ft_rows sl) ?x ?y (ft_pitch sl) (bitmap_top sl) (f_cache f) =
          Inr (blk_ptr c' ?p, c')" "kept (f_cache f) c'" "dataPos c' = ?p + slot_size sl" "dataPos c' \<le> dataSize c'" "length (bc_data c') = dataSize c'"
          "bc_map c' = am_append (bitmap_key u b) ?bm (bc_map (f_cache f))" "take (slot_size sl) (drop ?p (bc_data c')) = map Some (packed sl)"
        using bitmapcache_add_run [OF slot c] by metis
      have e: "entry_ok c' ?bm sl" using c' by (simp add: entry_ok_def slot_picture_def)
      have "cache_ok ft fc (insert (u, b) S) c'"
        using cache_ok_insert [OF ok u cache_ok_miss [OF ok u None] Some c'(2-6) e] .
      then show thesis using new Some c' f entry_glyph [OF e slot c'(4)] by (intro that [where f' = "f\<lparr>f_cache := c'\<rparr>"]) auto
    qed
  qed
qed

fun getGlyphs :: "'f freetype \<Rightarrow> (32 word \<times> bool) list \<Rightarrow> 'f Font \<Rightarrow> (glyph option list \<times> 'f Font) res" where
  "getGlyphs ft [] f = Inr ([], f)"
| "getGlyphs ft ((u, b) # ks) f =
     bind_res (font_getGlyph ft u b f) (\<lambda>(g, f). bind_res (getGlyphs ft ks f) (\<lambda>(gs, f). Inr (g # gs, f)))"

lemma getGlyphs_run:
  assumes "face_ok ft fc" and "cache_ok ft fc S (f_cache f)" and "face f = fc" and "list_all (\<lambda>(u, b). u < 0x80000000) ks"
  shows "\<exists>gs f'. getGlyphs ft ks f = Inr (gs, f') \<and> face f' = fc \<and> kept (f_cache f) (f_cache f') \<and>
    cache_ok ft fc (S \<union> {(u, b) \<in> set ks. rendered ft fc u b \<noteq> None}) (f_cache f') \<and>
    list_all2 (rel_option (glyph_ok (f_cache f'))) gs (map (\<lambda>(u, b). rendered ft fc u b) ks)"
  using assms(2-4)
proof (induction ks arbitrary: S f)
  case Nil
  then show ?case by (auto simp: kept_def cache_ok_def)
next
  case (Cons k ks)
  obtain u b where k: "k = (u, b)" by (cases k)
  then have u: "u < 0x80000000" using Cons.prems(3) by simp
  let ?S = "if rendered ft fc u b = None then S else insert (u, b) S"
  obtain g f1 where g: "font_getGlyph ft u b f = Inr (g, f1)" "face f1 = fc" "kept (f_cache f) (f_cache f1)" "cache_ok ft fc ?S (f_cache f1)"
    "rel_option (glyph_ok (f_cache f1)) g (rendered ft fc u b)" using font_getGlyph_run [OF Cons.prems(1,2) assms(1) u] by blast
  obtain gs f' where gs: "getGlyphs ft ks f1 = Inr (gs, f')" "face f' = fc" "kept (f_cache f1) (f_cache f')"
    "cache_ok ft fc (?S \<union> {(u, b) \<in> set ks. rendered ft fc u b \<noteq> None}) (f_cache f')"
    "list_all2 (rel_option (glyph_ok (f_cache f'))) gs (map (\<lambda>(u, b). rendered ft fc u b) ks)" using Cons.IH [OF g(4,2)] Cons.prems(3) by auto
  have "?S \<union> {(u, b) \<in> set ks. rendered ft fc u b \<noteq> None} = S \<union> {(u, b) \<in> set (k # ks). rendered ft fc u b \<noteq> None}" by (auto simp: k)
  moreover have "rel_option (glyph_ok (f_cache f')) g (rendered ft fc u b)" using g(5) kept_glyph [OF gs(3)] by (auto elim: option.rel_mono_strong)
  ultimately show ?case using g(1) gs kept_trans [OF g(3) gs(3)] by (auto simp: k)
qed

section \<open>The cache is transparent\<close>


text \<open>A face with two characters: one of three pixels by two rows, and one without pixels.\<close>

definition demo_slot :: ft_slot where
  "demo_slot = \<lparr>buffer = [0x10, 0xF0, 0x80, 0, 0xFF, 0x7F, 0x22], ft_width = 3, ft_rows = 2, ft_pitch = 4, advance_x = 200, advance_y = 0,
     bitmap_top = 2, is_gray = True\<rparr>"

definition demo_freetype :: "int freetype" where
  "demo_freetype = \<lparr>FT_Get_Char_Index = (\<lambda>f u. if u = 0x41 then 2 else if u = 0x20 then 1 else 0),
     FT_Load_Glyph = (\<lambda>f i. Some (if i = 2 then demo_slot\<lparr>advance_x := f\<rparr> else demo_slot\<lparr>ft_width := 0, ft_rows := 0\<rparr>)), FT_Outline_Embolden = (\<lambda>s. s),
     FT_Render_Glyph = (\<lambda>s. s), FT_Set_Pixel_Sizes = (\<lambda>h f. h)\<rparr>"

lemma demo_face_ok: "face_ok demo_freetype fc"
  by (auto simp: face_ok_def rendered_def demo_freetype_def demo_slot_def slot_ok_def BITMAPCACHE_STEP_def Let_def split: if_splits)

lemma demo_pictures:
  "map_option slot_picture (rendered demo_freetype 200 0x20 False) = Some (0, 0, 3, 0, 2, [])"
  "map_option slot_picture (rendered demo_freetype 200 0x41 True) = Some (3, 2, 3, 0, 2, map Some [0x1F, 0x80, 0xF7, 0x20])"
  "map_option slot_picture (rendered demo_freetype 200 0x42 False) = None"
  by (simp_all add: rendered_def demo_freetype_def demo_slot_def slot_picture_def packed_def pixel_row_def upt_rec)


text \<open>Three ways in which the code leaves this. A character without pixels that is asked first gets the null pointer, which callers read as a missing glyph; the same character asked later does not.
  After \<open>font_setHeight\<close> the cached glyphs are those of the old height. A glyph of more than one step is written past the end of the block.\<close>

lemma first_blank_is_null:
  "\<exists>f. font_getGlyph demo_freetype 0x20 False (new_font 200) = Inr (Some \<lparr>g_data = None, g_width = 0, g_height = 0, g_xadvance = 3, g_yadvance = 0, g_baselinedy = 2\<rparr>, f)"
  by (simp add: font_getGlyph_def bitmapcache_get_def new_font_def bitmapcache_new_def demo_freetype_def demo_slot_def bitmapcache_add_def blk_ptr_def Let_def)

lemma font_setHeight_keeps_glyphs:
  assumes "bitmapcache_get u b (f_cache f) = Some (p, bm)"
  shows "\<exists>g. font_getGlyph ft u b f = Inr (Some g, f) \<and> font_getGlyph ft u b (font_setHeight ft h f) = Inr (Some g, font_setHeight ft h f)"
  using assms by (simp add: font_getGlyph_def font_setHeight_def)

lemma pack_row_past_block: "dest \<ge> length blk \<Longrightarrow> pack_row (Suc n) src r w j dest blk = Inl OutOfBounds"
  by (auto simp: blk_write_def img_read_def)

end
