(* ===== verification/Hw_Timer.thy ===== *)
theory Hw_Timer
  imports Linked_List
begin

text \<open>
  The software timers of the hardware task: \<open>timer.c\<close> over the one system timer that \<open>tmr.c\<close> wraps. Both queues are lists of
  \<open>List.c\<close>, so the model runs on the heap of \<open>Linked_List\<close>, with all that its operations do to the links.

  The state \<open>timers\<close> has the heap of list nodes, the pending and the running queue (created by the first access in the code, by the
  initial state here), the timer structures, the static variables of \<open>timer.c\<close> and the function pointer \<open>sig\<close> of \<open>tmr.c\<close>,
  which is NULL or \<open>timerTimeout\<close>. What is not code of the task is in the record \<open>tenv\<close>: the operating system's timer with its state
  \<open>hw\<close>, and the callbacks. Times are 32-bit integers, compared as signed ones where the code has \<open>int\<close>.

  The member \<open>left\<close> of a pending timer counts from the moment the system timer expires, so the time until a timer runs is the
  remaining time of the system timer plus its \<open>left\<close>. The lemmas show where the code keeps this reading and where it breaks it.
\<close>

section \<open>State\<close>

record tDS =
  tCB :: "nat option"
  tData :: nat
  left :: "32 word"
  time :: "32 word option"

record 'h timers =
  t_heap :: "addr heap"
  timer_queue :: LList
  timer_r_queue :: LList
  tds :: "addr \<Rightarrow> tDS option"
  next_tds :: addr
  timerTimeoutCount :: int
  timerTimeoutBusy :: bool
  timerPrecMs :: "32 word"
  sig :: bool
  hw :: 'h

record 'h tenv =
  vsi_t_start :: "32 word \<Rightarrow> 'h \<Rightarrow> 'h"
  vsi_t_stop :: "'h \<Rightarrow> 'h"
  vsi_t_status :: "'h \<Rightarrow> 32 word"
  call_tCB :: "nat \<Rightarrow> addr \<Rightarrow> nat \<Rightarrow> 'h timers \<Rightarrow> 'h timers res"

definition get_tds :: "'h timers \<Rightarrow> addr \<Rightarrow> tDS res" where
  "get_tds s t = (case tds s t of None \<Rightarrow> Inl UseAfterFree | Some d \<Rightarrow> Inr d)"

definition upd_tds :: "(tDS \<Rightarrow> tDS) \<Rightarrow> addr \<Rightarrow> 'h timers \<Rightarrow> 'h timers res" where
  "upd_tds f t s = bind_res (get_tds s t) (\<lambda>d. Inr (s\<lparr>tds := (tds s)(t \<mapsto> f d)\<rparr>))"

text \<open>A loop \<open>for (list_begin(..); ..; listIterator_next(..))\<close> that changes the timers and not the list.\<close>

fun each_timer :: "(tDS \<Rightarrow> tDS) \<Rightarrow> addr list \<Rightarrow> 'h timers \<Rightarrow> 'h timers res" where
  "each_timer f [] s = Inr s"
| "each_timer f (t # ts) s = bind_res (upd_tds f t s) (each_timer f ts)"

section \<open>The system timer\<close>

definition tmrInit :: "'h timers \<Rightarrow> 'h timers" where
  "tmrInit s = s\<lparr>sig := True\<rparr>"

definition tmrStart :: "'h tenv \<Rightarrow> 32 word \<Rightarrow> 'h timers \<Rightarrow> 'h timers" where
  "tmrStart e ms s = (if sig s then s\<lparr>hw := vsi_t_start e (if ms < 5 then 5 else ms) (hw s)\<rparr> else s)"

definition tmrStop :: "'h tenv \<Rightarrow> 'h timers \<Rightarrow> 32 word \<times> 'h timers" where
  "tmrStop e s = (if sig s then (vsi_t_status e (hw s), s\<lparr>hw := vsi_t_stop e (hw s)\<rparr>) else (0, s))"

definition tmrLeft :: "'h tenv \<Rightarrow> 'h timers \<Rightarrow> 32 word" where
  "tmrLeft e s = (if sig s then vsi_t_status e (hw s) else 0)"

definition tmrExit :: "'h tenv \<Rightarrow> 'h timers \<Rightarrow> 'h timers" where
  "tmrExit e s = (let s = (if sig s then snd (tmrStop e s) else s) in s\<lparr>sig := False\<rparr>)"

section \<open>The operations of timer.c\<close>

definition timerInit :: "'h tenv \<Rightarrow> 'h timers \<Rightarrow> 'h timers" where
  "timerInit e s =
     (let s = s\<lparr>timerTimeoutCount := 0, timerTimeoutBusy := False\<rparr>;
          s = tmrInit s;
          s = tmrStart e 1 s;
          (prec, s) = tmrStop e s
      in s\<lparr>timerPrecMs := prec\<rparr>)"

definition timerCreate :: "nat option \<Rightarrow> nat \<Rightarrow> 'h timers \<Rightarrow> addr \<times> 'h timers" where
  "timerCreate tcb opaque s =
     (next_tds s, s\<lparr>next_tds := Suc (next_tds s),
        tds := (tds s)(next_tds s \<mapsto> \<lparr>tCB = tcb, tData = opaque, left = 0, time = None\<rparr>)\<rparr>)"

fun timerInsert_loop :: "nat \<Rightarrow> addr \<Rightarrow> ListIterator \<Rightarrow> 'h timers \<Rightarrow> 'h timers res" where
  "timerInsert_loop 0 timeData iter s = Inl Diverge"
| "timerInsert_loop (Suc n) timeData iter s =
     (if listIterator_finished iter then
        bind_res (list_prepend (t_heap s) (timer_queue s) timeData) (\<lambda>(h, q). Inr (s\<lparr>t_heap := h, timer_queue := q\<rparr>))
      else
        bind_res (listIterator_item (t_heap s) iter) (\<lambda>item.
        case item of
          None \<Rightarrow> Inl NullDeref
        | Some iTimeData \<Rightarrow>
            bind_res (get_tds s timeData) (\<lambda>d.
            bind_res (get_tds s iTimeData) (\<lambda>i.
            if sint (left d) \<ge> sint (left i) then
              bind_res (listIterator_insertAfter (t_heap s) (timer_queue s) iter timeData) (\<lambda>(h, q).
              Inr (s\<lparr>t_heap := h, timer_queue := q\<rparr>))
            else bind_res (listIterator_next (t_heap s) iter) (\<lambda>iter. timerInsert_loop n timeData iter s)))))"

definition timerInsert :: "addr \<Rightarrow> 'h timers \<Rightarrow> 'h timers res" where
  "timerInsert timeData s =
     (if list_size (timer_queue s) = 0 then
        bind_res (list_append (t_heap s) (timer_queue s) timeData) (\<lambda>(h, q). Inr (s\<lparr>t_heap := h, timer_queue := q\<rparr>))
      else timerInsert_loop (Suc (Suc (brk (t_heap s)))) timeData (list_rbegin (timer_queue s)) s)"

definition timersAdjust :: "32 word \<Rightarrow> 'h timers \<Rightarrow> 'h timers res" where
  "timersAdjust t s =
     bind_res (list_debug (t_heap s) (timer_queue s)) (\<lambda>items. each_timer (\<lambda>d. d\<lparr>left := left d + t\<rparr>) items s)"

definition timerRemove :: "addr \<Rightarrow> 'h timers \<Rightarrow> 'h timers res" where
  "timerRemove timeData s =
     bind_res (list_findIter (t_heap s) (timer_queue s) timeData ListEqualComparitor) (\<lambda>(found, iter).
     if found then
       bind_res (listIterator_remove (t_heap s) (timer_queue s) iter) (\<lambda>(h, q, it). Inr (s\<lparr>t_heap := h, timer_queue := q\<rparr>))
     else
       bind_res (list_findIter (t_heap s) (timer_r_queue s) timeData ListEqualComparitor) (\<lambda>(found, iter).
       if found then
         bind_res (listIterator_remove (t_heap s) (timer_r_queue s) iter) (\<lambda>(h, q, it). Inr (s\<lparr>t_heap := h, timer_r_queue := q\<rparr>))
       else Inr s))"

definition timerStart :: "'h tenv \<Rightarrow> addr \<Rightarrow> 32 word \<Rightarrow> 'h timers \<Rightarrow> (int \<times> 'h timers) res" where
  "timerStart e timeData t s =
     bind_res (upd_tds (\<lambda>d. d\<lparr>time := Some t\<rparr>) timeData s) (\<lambda>s.
     if sint t \<le> 0 then Inr (-1, s)
     else
       let t = (if sint t < sint (timerPrecMs s) then timerPrecMs s else t) in
       bind_res (upd_tds (\<lambda>d. d\<lparr>time := Some t, left := t\<rparr>) timeData s) (\<lambda>s.
       let (lft, s) = tmrStop e s in
       bind_res (timerRemove timeData s) (\<lambda>s.
       bind_res
         (if sint lft \<le> sint t then
            bind_res (upd_tds (\<lambda>d. d\<lparr>left := left d - lft\<rparr>) timeData s) (\<lambda>s. Inr (lft, s))
          else bind_res (timersAdjust (lft - t) s) (\<lambda>s. Inr (t, s))) (\<lambda>(lft, s).
       bind_res (timerInsert timeData s) (\<lambda>s.
       if lft = 0 then
         bind_res (list_firstItem (t_heap s) (timer_queue s)) (\<lambda>f.
         case f of
           None \<Rightarrow> Inr (-1, s)
         | Some f \<Rightarrow>
             bind_res (get_tds s f) (\<lambda>d.
             let lft = left d in
             bind_res (list_debug (t_heap s) (timer_queue s)) (\<lambda>items.
             bind_res (each_timer (\<lambda>d. d\<lparr>left := left d - lft\<rparr>) items s) (\<lambda>s.
             Inr (0, tmrStart e lft s)))))
       else Inr (0, tmrStart e lft s))))))"

definition timerStop :: "addr \<Rightarrow> 'h timers \<Rightarrow> 'h timers res" where
  "timerStop timeData s =
     bind_res (upd_tds (\<lambda>d. d\<lparr>left := 0, time := Some 0\<rparr>) timeData s) (timerRemove timeData)"

text \<open>
  The first loop of \<open>timerSignal\<close>. Its result is the variable \<open>timeout\<close>, which the code sets only when the loop
  meets a timer that has not expired.
\<close>

fun signal_expired :: "nat \<Rightarrow> ListIterator \<Rightarrow> 'h timers \<Rightarrow> (32 word option \<times> 'h timers) res" where
  "signal_expired 0 iter s = Inl Diverge"
| "signal_expired (Suc n) iter s =
     (if listIterator_finished iter then Inr (None, s)
      else
        bind_res (listIterator_item (t_heap s) iter) (\<lambda>item.
        case item of
          None \<Rightarrow> Inl NullDeref
        | Some timeData \<Rightarrow>
            bind_res (get_tds s timeData) (\<lambda>d.
            if sint (left d) \<le> 0 then
              bind_res (upd_tds (\<lambda>d. d\<lparr>left := -1\<rparr>) timeData s) (\<lambda>s.
              bind_res (list_append (t_heap s) (timer_r_queue s) timeData) (\<lambda>(h, r).
              bind_res (listIterator_remove h (timer_queue s) iter) (\<lambda>(h, q, iter).
              bind_res (listIterator_next h iter) (\<lambda>iter.
              signal_expired n iter (s\<lparr>t_heap := h, timer_queue := q, timer_r_queue := r\<rparr>)))))
            else Inr (Some (left d), s))))"

fun signal_run :: "nat \<Rightarrow> 'h tenv \<Rightarrow> ListIterator \<Rightarrow> 'h timers \<Rightarrow> 'h timers res" where
  "signal_run 0 e iter s = Inl Diverge"
| "signal_run (Suc n) e iter s =
     (if listIterator_finished iter then Inr s
      else
        bind_res (listIterator_item (t_heap s) iter) (\<lambda>item.
        case item of
          None \<Rightarrow> Inl NullDeref
        | Some timeData \<Rightarrow>
            bind_res (listIterator_remove (t_heap s) (timer_r_queue s) iter) (\<lambda>(h, r, iter).
            let s = s\<lparr>t_heap := h, timer_r_queue := r\<rparr> in
            bind_res (get_tds s timeData) (\<lambda>d.
            bind_res (case tCB d of None \<Rightarrow> Inr s | Some cb \<Rightarrow> call_tCB e cb timeData (tData d) s) (\<lambda>s.
            bind_res (listIterator_next (t_heap s) iter) (\<lambda>iter. signal_run n e iter s))))))"

definition timerSignal :: "'h tenv \<Rightarrow> 'h timers \<Rightarrow> 'h timers res" where
  "timerSignal e s =
     (if list_size (timer_queue s) = 0 then Inr s
      else
        bind_res (signal_expired (Suc (brk (t_heap s))) (list_begin (timer_queue s)) s) (\<lambda>(timeout, s).
        bind_res
          (if list_size (timer_queue s) \<noteq> 0 then
             (case timeout of
                None \<Rightarrow> Inl Uninit
              | Some t \<Rightarrow>
                  bind_res (list_debug (t_heap s) (timer_queue s)) (\<lambda>items.
                  bind_res (each_timer (\<lambda>d. d\<lparr>left := left d - t\<rparr>) items s) (\<lambda>s. Inr (tmrStart e t s))))
           else Inr s) (\<lambda>s.
        if list_size (timer_r_queue s) \<noteq> 0
        then signal_run (Suc (brk (t_heap s))) e (list_begin (timer_r_queue s)) s
        else Inr s)))"

text \<open>
  The loop of \<open>timerTimeout\<close>; a callback that waits for the timer interrupt may raise the counter again, so the number of rounds
  is an argument.
\<close>

fun timeout_loop :: "nat \<Rightarrow> 'h tenv \<Rightarrow> 'h timers \<Rightarrow> 'h timers res" where
  "timeout_loop 0 e s = Inl Diverge"
| "timeout_loop (Suc n) e s =
     (if timerTimeoutCount s \<noteq> 0
      then bind_res (timerSignal e (s\<lparr>timerTimeoutCount := timerTimeoutCount s - 1\<rparr>)) (timeout_loop n e)
      else Inr s)"

definition timerTimeout :: "nat \<Rightarrow> 'h tenv \<Rightarrow> 'h timers \<Rightarrow> 'h timers res" where
  "timerTimeout fuel e s =
     (let s = s\<lparr>timerTimeoutCount := timerTimeoutCount s + 1\<rparr> in
      if timerTimeoutBusy s then Inr s
      else
        bind_res (timeout_loop fuel e (s\<lparr>timerTimeoutBusy := True\<rparr>)) (\<lambda>s. Inr (s\<lparr>timerTimeoutBusy := False\<rparr>)))"

text \<open>\<open>mfw_timeout\<close>: the operating system reports the expiry of a timer; \<open>own\<close> is whether it is the one of the task.\<close>

definition mfw_timeout :: "nat \<Rightarrow> 'h tenv \<Rightarrow> bool \<Rightarrow> 'h timers \<Rightarrow> (int \<times> 'h timers) res" where
  "mfw_timeout fuel e own s =
     (if sig s \<and> own then bind_res (timerTimeout fuel e s) (\<lambda>s. Inr (1, s)) else Inr (0, s))"

declare timerInsert_loop.simps [simp del]

section \<open>Inserting into the pending queue\<close>

text \<open>
  \<open>links h l fs bs\<close>: the forward chain of the list is \<open>fs\<close> and its backward chain \<open>bs\<close>. On a well-formed list both are the
  same; \<open>listIterator_insertAfter\<close> in the middle extends the forward chain only.
\<close>

definition links :: "'a heap \<Rightarrow> LList \<Rightarrow> (addr \<times> 'a) list \<Rightarrow> (addr \<times> 'a) list \<Rightarrow> bool" where
  "links h l fs bs \<longleftrightarrow> fwdseg (cells h) fs None \<and> bwdseg (cells h) None bs \<and> distinct (map fst fs) \<and> distinct (map fst bs) \<and>
     (\<forall>a \<in> addrs fs \<union> addrs bs. a < brk h) \<and> l_head l = first_addr fs None \<and> l_tail l = last_addr bs None \<and> (l_length l = 0 \<longleftrightarrow> fs = []) \<and>
     0 \<le> l_length l"

lemma dll_links: "dll h l xs \<Longrightarrow> links h l xs xs"
  using dlseg_fwdseg dlseg_bwdseg by (fastforce simp: dll_def links_def)

lemma links_length: "links h l fs bs \<Longrightarrow> length fs \<le> brk h \<and> length bs \<le> brk h"
proof -
  assume l: "links h l fs bs"
  have "length xs \<le> brk h" if "distinct (map fst xs)" "\<forall>a \<in> addrs xs. a < brk h" for xs :: "(addr \<times> 'a) list"
  proof -
    have "length xs = card (addrs xs)" using distinct_card [OF that(1)] by simp
    also have "\<dots> \<le> card {..<brk h}" using that(2) by (intro card_mono) auto
    finally show ?thesis by simp
  qed
  with l show ?thesis by (auto simp: links_def)
qed

lemma links_items: "links h l fs bs \<Longrightarrow> list_debug h l = Inr (map snd fs)"
  using list_walk_next [of h fs "Suc (brk h)"] links_length [of h l fs bs] by (simp add: links_def list_debug_def list_begin_def)

lemma bwdseg_relink:
  "bwdseg c pv xs \<Longrightarrow> c a = Some n \<Longrightarrow> ln_data m = ln_data n \<Longrightarrow> ln_prev m = ln_prev n \<Longrightarrow> bwdseg (c(a \<mapsto> m)) pv xs"
  by (induction xs arbitrary: pv) (auto split: option.splits)

lemma insertAfter_links:
  assumes l: "links h l (fu @ (a, i) # fv) bs" and fv: "fv \<noteq> []" and it: "it_node it = Some a"
  shows "\<exists>h' l'. listIterator_insertAfter h l it x = Inr (h', l') \<and> links h' l' (fu @ (a, i) # (brk h, x) # fv) bs \<and> brk h' = Suc (brk h)"
proof -
  let ?new = "brk h"
  obtain n where n: "cells h a = Some n" "ln_data n = i" "ln_next n = first_addr fv None"
    using l by (auto simp: links_def split: option.splits)
  have fresh: "?new \<notin> addrs fu" "?new \<notin> addrs fv" "?new \<notin> addrs bs" "a \<noteq> ?new" "a \<notin> addrs fu" "a \<notin> addrs fv"
  proof -
    have b: "\<forall>b \<in> addrs (fu @ (a, i) # fv) \<union> addrs bs. b < ?new" and d: "distinct (map fst (fu @ (a, i) # fv))"
      using l by (simp_all add: links_def)
    from b show "?new \<notin> addrs fu" "?new \<notin> addrs fv" "?new \<notin> addrs bs" "a \<noteq> ?new" by auto
    from d show "a \<notin> addrs fu" "a \<notin> addrs fv" by simp_all
  qed
  let ?m = "\<lparr>ln_data = x, ln_prev = Some a, ln_next = first_addr fv None\<rparr>"
  let ?c = "(cells h)(?new \<mapsto> ?m, a \<mapsto> n\<lparr>ln_next := Some ?new\<rparr>)"
  let ?h = "h\<lparr>cells := ?c, brk := Suc ?new\<rparr>" and ?l = "l\<lparr>l_length := l_length l + 1\<rparr>"
  have "first_addr fv None \<noteq> None" using fv by simp
  then have run: "listIterator_insertAfter h l it x = Inr (?h, ?l)"
    using it n fresh(4) by (auto simp: listIterator_insertAfter_def node_defs)
  have fwd: "fwdseg ?c (fu @ (a, i) # (?new, x) # fv) None"
    using l n(2) fresh by (simp add: links_def fwdseg_frame)
  have "bwdseg ((cells h)(?new \<mapsto> ?m)) None bs" using l fresh(3) by (simp add: links_def bwdseg_frame)
  then have bwd: "bwdseg ?c None bs" by (rule bwdseg_relink [of _ _ _ _ n]) (use n fresh(4) in simp_all)
  have "links ?h ?l (fu @ (a, i) # (?new, x) # fv) bs"
    using fwd bwd l fresh by (auto simp: links_def first_addr_append less_Suc_eq)
  with run show ?thesis by auto
qed

text \<open>The search: from the end of the backward chain to the last timer that is not later than the new one.\<close>

definition left_of :: "'h timers \<Rightarrow> addr \<Rightarrow> int" where
  "left_of s t = (case tds s t of None \<Rightarrow> 0 | Some d \<Rightarrow> sint (left d))"

lemma insert_search:
  assumes "bwdseg (cells (t_heap s)) None (us @ vs)" and "tds s x \<noteq> None" and "\<forall>p \<in> set (us @ vs). tds s (snd p) \<noteq> None"
    and "\<forall>p \<in> set vs. left_of s x < left_of s (snd p)" and "us = [] \<or> left_of s (snd (last us)) \<le> left_of s x"
    and "length vs < n"
  shows "timerInsert_loop n x \<lparr>it_node = last_addr (us @ vs) None, it_offset = PrevOff\<rparr> s =
     (let it = \<lparr>it_node = last_addr us None, it_offset = PrevOff\<rparr> in
      if us = [] then bind_res (list_prepend (t_heap s) (timer_queue s) x) (\<lambda>(h, q). Inr (s\<lparr>t_heap := h, timer_queue := q\<rparr>))
      else bind_res (listIterator_insertAfter (t_heap s) (timer_queue s) it x) (\<lambda>(h, q). Inr (s\<lparr>t_heap := h, timer_queue := q\<rparr>)))"
  using assms(1,3,4,6)
proof (induction vs arbitrary: n rule: rev_induct)
  case Nil
  then obtain m where n: "n = Suc m" by (cases n) auto
  show ?case
  proof (cases us rule: rev_cases)
    case Nil
    then show ?thesis by (simp add: n timerInsert_loop.simps listIterator_finished_def)
  next
    case (snoc ws p)
    obtain a i where p: "p = (a, i)" by fastforce
    have "cells (t_heap s) a \<noteq> None" "\<forall>c. cells (t_heap s) a = Some c \<longrightarrow> ln_data c = i"
      using Nil.prems(1) snoc p by (auto split: option.splits)
    moreover obtain d dx where "tds s i = Some d" "tds s x = Some dx" using Nil.prems(2) assms(2) snoc p by fastforce
    ultimately show ?thesis using assms(5) snoc p
      by (auto simp: n timerInsert_loop.simps listIterator_finished_def listIterator_item_def read_node_def get_tds_def left_of_def last_addr_append split: option.splits)
  qed
next
  case (snoc v vs)
  obtain a i where p: "v = (a, i)" by fastforce
  from snoc.prems obtain m where n: "n = Suc m" "length vs < m" by (cases n) auto
  obtain c where c: "cells (t_heap s) a = Some c" "ln_data c = i" "ln_prev c = last_addr (us @ vs) None"
    using snoc.prems(1) p by (auto simp: last_addr_append split: option.splits)
  obtain d dx where "tds s i = Some d" "tds s x = Some dx" using snoc.prems(2) assms(2) p by fastforce
  moreover have "left_of s x < left_of s i" using snoc.prems(3) p by simp
  ultimately have "timerInsert_loop n x \<lparr>it_node = last_addr (us @ vs @ [v]) None, it_offset = PrevOff\<rparr> s =
      timerInsert_loop m x \<lparr>it_node = last_addr (us @ vs) None, it_offset = PrevOff\<rparr> s"
    using c p by (simp add: n timerInsert_loop.simps listIterator_finished_def listIterator_item_def listIterator_next_def read_node_def get_tds_def left_of_def last_addr_append)
  then show ?case using snoc.IH [of m] snoc.prems n(2) by simp
qed

lemma insert_split:
  obtains us vs where "qs = us @ vs" "\<forall>p \<in> set vs. left_of s x < left_of s (snd p)"
    "us = [] \<or> left_of s (snd (last us)) \<le> left_of s x"
proof -
  let ?P = "\<lambda>p. left_of s x < left_of s (snd p)"
  let ?vs = "rev (takeWhile ?P (rev qs))" and ?us = "rev (dropWhile ?P (rev qs))"
  have "?us @ ?vs = rev (takeWhile ?P (rev qs) @ dropWhile ?P (rev qs))" by (rule rev_append [symmetric])
  also have "\<dots> = qs" unfolding takeWhile_dropWhile_id by (rule rev_rev_ident)
  finally have "qs = ?us @ ?vs" by (rule sym)
  moreover have "\<forall>p \<in> set ?vs. ?P p" using set_takeWhileD [of _ ?P "rev qs"] by auto
  moreover have "?us = [] \<or> left_of s (snd (last ?us)) \<le> left_of s x" 
  proof (cases "dropWhile ?P (rev qs) = []")
    case False
    from hd_dropWhile [OF this] False show ?thesis by (simp add: last_rev)
  qed simp
  ultimately show ?thesis by (rule that)
qed

lemma timerInsert_run:
  assumes d: "dll (t_heap s) (timer_queue s) (us @ vs)" and x: "tds s x \<noteq> None" and al: "\<forall>p \<in> set (us @ vs). tds s (snd p) \<noteq> None"
    and vs: "\<forall>p \<in> set vs. left_of s x < left_of s (snd p)" and us: "us = [] \<or> left_of s (snd (last us)) \<le> left_of s x"
  shows "\<exists>h' q' bs. timerInsert x s = Inr (s\<lparr>t_heap := h', timer_queue := q'\<rparr>) \<and>
     links h' q' (us @ (brk (t_heap s), x) # vs) bs \<and> (vs \<noteq> [] \<longrightarrow> us \<noteq> [] \<longrightarrow> bs = us @ vs)"
proof (cases "us @ vs = []")
  case True
  with list_append_refines [OF d, of x] list_size_refines [OF d] show ?thesis
    by (auto simp: timerInsert_def intro!: exI [of _ "[(brk (t_heap s), x)]"] dll_links)
next
  case False
  let ?it = "\<lparr>it_node = last_addr us None, it_offset = PrevOff\<rparr>"
  have bwd: "bwdseg (cells (t_heap s)) None (us @ vs)" using dll_links [OF d] by (simp add: links_def)
  have "length vs < Suc (Suc (brk (t_heap s)))" using dll_length_le [OF d] by simp
  note search = insert_search [OF bwd x al vs us this]
  have start: "timerInsert x s = timerInsert_loop (Suc (Suc (brk (t_heap s)))) x \<lparr>it_node = last_addr (us @ vs) None, it_offset = PrevOff\<rparr> s"
    using False list_size_refines [OF d] d unfolding timerInsert_def list_rbegin_def
    by (metis dll_def int_eq_iff_numeral length_0_conv of_nat_eq_0_iff)
  show ?thesis
  proof (cases us rule: rev_cases)
    case Nil
    with list_prepend_refines [OF d, of x] start search show ?thesis by (auto simp: Let_def intro!: exI [of _ "(brk (t_heap s), x) # vs"] dll_links)
  next
    case (snoc ws p)
    obtain a i where p: "p = (a, i)" by fastforce
    then have it: "it_node ?it = Some a" using snoc by (simp add: last_addr_append)
    show ?thesis
    proof (cases "vs = []")
      case True
      with d snoc p have "dll (t_heap s) (timer_queue s) (ws @ [(a, i)])" by simp
      from listIterator_insertAfter_tail [OF this it, of x] start search snoc p True show ?thesis
        by (auto simp: Let_def intro!: exI [of _ "ws @ [(a, i), (brk (t_heap s), x)]"] dll_links)
    next
      case False
      have "links (t_heap s) (timer_queue s) (ws @ (a, i) # vs) (us @ vs)" using dll_links [OF d] snoc p by simp
      from insertAfter_links [OF this False it, of x] start search snoc p show ?thesis by (auto simp: Let_def)
    qed
  qed
qed

text \<open>
  The order of the pending timers is lost. The queue is kept in the order of expiry, and \<open>timerInsert\<close> searches it from the
  end. When a timer \<open>y\<close> was inserted between two others, the search no longer sees it, because \<open>listIterator_insertAfter\<close> does not
  set the back link of the successor: a later timer \<open>w\<close> for the same gap is put in front of \<open>y\<close>.
\<close>

theorem timerInsert_order_lost:
  assumes "dll (t_heap s) (timer_queue s) (us @ (a, i) # (b, j) # vs)" and "tds s y \<noteq> None" and "tds s w \<noteq> None"
    and "\<forall>p \<in> set (us @ (a, i) # (b, j) # vs). tds s (snd p) \<noteq> None"
    and "left_of s i \<le> left_of s y" and "left_of s y < left_of s w" and "\<forall>p \<in> set ((b, j) # vs). left_of s w < left_of s (snd p)"
  shows "\<exists>s1 s2. timerInsert y s = Inr s1 \<and> list_debug (t_heap s1) (timer_queue s1) = Inr (map snd us @ [i, y, j] @ map snd vs) \<and>
     timerInsert w s1 = Inr s2 \<and> list_debug (t_heap s2) (timer_queue s2) = Inr (map snd us @ [i, w, y, j] @ map snd vs)"
proof -
  let ?us = "us @ [(a, i)]" and ?vs = "(b, j) # vs"
  have "dll (t_heap s) (timer_queue s) (?us @ ?vs)" using assms(1) by simp
  moreover have "\<forall>p \<in> set (?us @ ?vs). tds s (snd p) \<noteq> None" using assms(4) by simp
  moreover have "\<forall>p \<in> set ?vs. left_of s y < left_of s (snd p)" using assms(6,7) by force
  moreover have "?us = [] \<or> left_of s (snd (last ?us)) \<le> left_of s y" using assms(5) by simp
  ultimately obtain h q where
    1: "timerInsert y s = Inr (s\<lparr>t_heap := h, timer_queue := q\<rparr>)" "links h q (?us @ (brk (t_heap s), y) # ?vs) (?us @ ?vs)"
    using timerInsert_run [of s ?us ?vs y] assms(2) by blast
  let ?s = "s\<lparr>t_heap := h, timer_queue := q\<rparr>" and ?it = "\<lparr>it_node = last_addr ?us None, it_offset = PrevOff\<rparr>"
  have l: "links h q (us @ (a, i) # (brk (t_heap s), y) # ?vs) (?us @ ?vs)" using 1(2) by simp
  then have bwd: "bwdseg (cells (t_heap ?s)) None (?us @ ?vs)" and "length (?us @ ?vs) \<le> brk h" and size: "list_size q \<noteq> 0"
    and tl: "l_tail q = last_addr (?us @ ?vs) None"
    using links_length [OF l] by (simp_all add: links_def list_size_def)
  then have len: "length ?vs < Suc (Suc (brk h))" by simp
  have lo: "left_of ?s t = left_of s t" for t by (simp add: left_of_def)
  have "timerInsert_loop (Suc (Suc (brk h))) w \<lparr>it_node = last_addr (?us @ ?vs) None, it_offset = PrevOff\<rparr> ?s =
      bind_res (listIterator_insertAfter h q ?it w) (\<lambda>(h, q). Inr (?s\<lparr>t_heap := h, timer_queue := q\<rparr>))"
    using insert_search [OF bwd _ _ _ _ len, of w] assms(3-7) unfolding lo by (simp add: Let_def)
  moreover obtain h' q' where h': "listIterator_insertAfter h q ?it w = Inr (h', q')"
      "links h' q' (us @ (a, i) # (brk h, w) # (brk (t_heap s), y) # ?vs) (?us @ ?vs)"
    using insertAfter_links [OF l, of ?it w] by (auto simp: last_addr_append)
  ultimately have 2: "timerInsert w ?s = Inr (?s\<lparr>t_heap := h', timer_queue := q'\<rparr>)"
    using size tl by (simp add: timerInsert_def list_rbegin_def)
  show ?thesis using 1(1) 2 links_items [OF 1(2)] links_items [OF h'(2)] by (intro exI conjI) (assumption | simp)+
qed

section \<open>Starting a timer\<close>

lemma upd_tds_run: "tds s x = Some d \<Longrightarrow> upd_tds f x s = Inr (s\<lparr>tds := (tds s)(x \<mapsto> f d)\<rparr>)"
  by (simp add: upd_tds_def get_tds_def)

lemma each_timer_run:
  "distinct ts \<Longrightarrow> \<forall>t \<in> set ts. tds s t \<noteq> None \<Longrightarrow>
   each_timer f ts s = Inr (s\<lparr>tds := (\<lambda>t. if t \<in> set ts then map_option f (tds s t) else tds s t)\<rparr>)"
proof (induction ts arbitrary: s)
  case (Cons t ts)
  then obtain d where d: "tds s t = Some d" by auto
  let ?s = "s\<lparr>tds := (tds s)(t \<mapsto> f d)\<rparr>"
  have "each_timer f ts ?s = Inr (?s\<lparr>tds := (\<lambda>u. if u \<in> set ts then map_option f (tds ?s u) else tds ?s u)\<rparr>)"
    using Cons.prems by (intro Cons.IH) auto
  then show ?case using Cons.prems(1) d by (auto simp: upd_tds_run [OF d] fun_eq_iff)
qed simp

lemma timerRemove_absent:
  assumes "dll (t_heap s) (timer_queue s) qs" and "dll (t_heap s) (timer_r_queue s) rs" and "x \<notin> snd ` set (qs @ rs)"
  shows "timerRemove x s = Inr s"
proof -
  have "dropWhile (\<lambda>p. ListEqualComparitor x (snd p) \<noteq> 0) qs = []" "dropWhile (\<lambda>p. ListEqualComparitor x (snd p) \<noteq> 0) rs = []"
    using assms(3) by (auto simp: dropWhile_eq_Nil_conv ListEqualComparitor_def)
  with list_findIter_refines [OF assms(1), of x ListEqualComparitor] list_findIter_refines [OF assms(2), of x ListEqualComparitor]
  show ?thesis by (simp add: timerRemove_def find_result_def)
qed

text \<open>The time until a pending timer is due: the rest of the system timer and what is left afterwards.\<close>

definition due :: "'h tenv \<Rightarrow> 'h timers \<Rightarrow> addr \<Rightarrow> int" where
  "due e s t = sint (vsi_t_status e (hw s)) + left_of s t"

text \<open>The system timer reports the time it was started with, as long as no time has passed.\<close>

definition vsi_ok :: "'h tenv \<Rightarrow> bool" where
  "vsi_ok e \<longleftrightarrow> (\<forall>t h. vsi_t_status e (vsi_t_start e t h) = t)"

text \<open>A state in which a timer can be started: well-formed queues of allocated timers that are not too far in the future.\<close>

definition startable :: "'h tenv \<Rightarrow> 'h timers \<Rightarrow> addr \<Rightarrow> (addr \<times> addr) list \<Rightarrow> bool" where
  "startable e s x qs \<longleftrightarrow> sig s \<and> dll (t_heap s) (timer_queue s) qs \<and> (\<exists>rs. dll (t_heap s) (timer_r_queue s) rs \<and> x \<notin> snd ` set rs) \<and>
     tds s x \<noteq> None \<and> x \<notin> snd ` set qs \<and> distinct (map snd qs) \<and>
     (\<forall>p \<in> set qs. tds s (snd p) \<noteq> None \<and> 0 \<le> left_of s (snd p) \<and> due e s (snd p) < 2 ^ 31)"

lemma sint_diff: "0 \<le> sint (b :: 32 word) \<Longrightarrow> sint b \<le> sint a \<Longrightarrow> sint (a - b) = sint a - sint b"
  using sint_range_size [of a] by (simp add: sint_word_ariths signed_take_bit_int_eq_self word_size)

lemma sint_add: "0 \<le> sint (a :: 32 word) \<Longrightarrow> 0 \<le> sint b \<Longrightarrow> sint a + sint b < 2 ^ 31 \<Longrightarrow> sint (a + b) = sint a + sint b"
  by (simp add: sint_word_ariths signed_take_bit_int_eq_self)

lemma tmrStart_run:
  assumes "sig s" and "5 \<le> sint ms"
  shows "tmrStart e ms s = s\<lparr>hw := vsi_t_start e ms (hw s)\<rparr>"
proof -
  have "uint ms = sint ms"
    using assms(2) sint_range_size [of ms] by (simp add: uint_sint take_bit_int_eq_self word_size)
  then have "\<not> ms < 5" using assms(2) by (simp add: word_less_def)
  with assms(1) show ?thesis by (simp add: tmrStart_def)
qed

lemma tmrStart_due: "vsi_ok e \<Longrightarrow> sig s \<Longrightarrow> 5 \<le> sint ms \<Longrightarrow> due e (tmrStart e ms s) t = sint ms + left_of s t"
  by (simp add: tmrStart_run due_def vsi_ok_def left_of_def)

lemma tmrStart_simps [simp]:
  "t_heap (tmrStart e ms s) = t_heap s" "timer_queue (tmrStart e ms s) = timer_queue s" "timer_r_queue (tmrStart e ms s) = timer_r_queue s"
  "tds (tmrStart e ms s) = tds s" "left_of (tmrStart e ms s) = left_of s" "sig (tmrStart e ms s) = sig s"
  by (simp_all add: tmrStart_def left_of_def fun_eq_iff)

lemma left_of_update [simp]: "left_of (s\<lparr>t_heap := h, timer_queue := q\<rparr>) = left_of s"
  by (simp add: left_of_def fun_eq_iff)

lemma links_firstItem: "links h l fs bs \<Longrightarrow> list_firstItem h l = Inr (case fs of [] \<Rightarrow> None | p # _ \<Rightarrow> Some (snd p))"
  by (cases fs) (auto simp: links_def list_firstItem_def read_node_def split: option.splits)

lemma timerInsert_sorted:
  assumes d: "dll (t_heap s) (timer_queue s) qs" and x: "tds s x \<noteq> None" and al: "\<forall>p \<in> set qs. tds s (snd p) \<noteq> None"
    and n: "x \<notin> snd ` set qs" "distinct (map snd qs)"
  shows "\<exists>h' q' ys. timerInsert x s = Inr (s\<lparr>t_heap := h', timer_queue := q'\<rparr>) \<and> list_debug h' q' = Inr ys \<and>
     list_firstItem h' q' = Inr (Some (hd ys)) \<and> set ys = insert x (snd ` set qs) \<and> distinct ys \<and>
     (sorted (map (left_of s) (map snd qs)) \<longrightarrow> sorted (map (left_of s) ys))"
proof -
  obtain us vs where q: "qs = us @ vs" "\<forall>p \<in> set vs. left_of s x < left_of s (snd p)" "us = [] \<or> left_of s (snd (last us)) \<le> left_of s x"
    by (rule insert_split)
  from timerInsert_run [of s us vs x] assms q obtain h' q' bs where
    run: "timerInsert x s = Inr (s\<lparr>t_heap := h', timer_queue := q'\<rparr>)" "links h' q' (us @ (brk (t_heap s), x) # vs) bs" by blast
  let ?ys = "map snd us @ x # map snd vs"
  have "sorted (map (left_of s) ?ys)" if s: "sorted (map (left_of s) (map snd qs))"
  proof -
    have "left_of s (snd p) \<le> left_of s x" if "p \<in> set us" for p
    proof -
      from s q(1) have "sorted (map (\<lambda>p. left_of s (snd p)) us)" by (simp add: sorted_append comp_def)
      with that have "left_of s (snd p) \<le> left_of s (snd (last us))"
        by (cases us rule: rev_cases) (auto simp: sorted_append)
      with q(3) that show ?thesis by force
    qed
    with s q(1,2) show ?thesis by (fastforce simp: sorted_append)
  qed
  moreover have "list_firstItem h' q' = Inr (Some (hd ?ys))" using links_firstItem [OF run(2)] by (cases us) auto
  ultimately show ?thesis using run(1) links_items [OF run(2)] n q(1) by (intro exI [of _ h'] exI [of _ q'] exI [of _ ?ys]) auto
qed

text \<open>The state in which the new timer is inserted: marked with its time, \<open>l\<close> left, the system timer stopped.\<close>

definition prepared :: "'h tenv \<Rightarrow> addr \<Rightarrow> tDS \<Rightarrow> 32 word \<Rightarrow> 32 word \<Rightarrow> 'h timers \<Rightarrow> 'h timers" where
  "prepared e x d t l s = s\<lparr>tds := (tds s)(x \<mapsto> d\<lparr>time := Some t, left := l\<rparr>), hw := vsi_t_stop e (hw s)\<rparr>"

lemma prepared_simps [simp]:
  "t_heap (prepared e x d t l s) = t_heap s" "timer_queue (prepared e x d t l s) = timer_queue s" "sig (prepared e x d t l s) = sig s"
  "left_of (prepared e x d t l s) y = (if y = x then sint l else left_of s y)"
  by (simp_all add: prepared_def left_of_def)

lemma startable_prepared:
  assumes "startable e s x qs" and "tds s x = Some d"
  shows "upd_tds (\<lambda>d. d\<lparr>time := Some t, left := t\<rparr>) x (s\<lparr>tds := (tds s)(x \<mapsto> d\<lparr>time := Some t\<rparr>)\<rparr>) =
      Inr (s\<lparr>tds := (tds s)(x \<mapsto> d\<lparr>time := Some t, left := t\<rparr>)\<rparr>)"
    "s\<lparr>tds := (tds s)(x \<mapsto> d\<lparr>time := Some t, left := t\<rparr>), hw := vsi_t_stop e (hw s)\<rparr> = prepared e x d t t s"
    "timerRemove x (prepared e x d t t s) = Inr (prepared e x d t t s)"
    "upd_tds (\<lambda>d. d\<lparr>left := left d - l\<rparr>) x (prepared e x d t t s) = Inr (prepared e x d t (t - l) s)"
    "\<exists>h' q' ys. timerInsert x (prepared e x d t l s) = Inr (prepared e x d t l s\<lparr>t_heap := h', timer_queue := q'\<rparr>) \<and> list_debug h' q' = Inr ys \<and>
     list_firstItem h' q' = Inr (Some (hd ys)) \<and> set ys = insert x (snd ` set qs) \<and> distinct ys \<and>
     (sorted (map (left_of s) (map snd qs)) \<longrightarrow> sorted (map (left_of (prepared e x d t l s)) ys))"
proof -
  obtain rs where w: "dll (t_heap s) (timer_queue s) qs" "dll (t_heap s) (timer_r_queue s) rs" "x \<notin> snd ` set qs" "x \<notin> snd ` set rs"
      "distinct (map snd qs)" "\<forall>p \<in> set qs. tds s (snd p) \<noteq> None"
    using assms(1) unfolding startable_def by blast
  show "timerRemove x (prepared e x d t t s) = Inr (prepared e x d t t s)"
    by (rule timerRemove_absent [of _ qs rs]) (use w in \<open>auto simp: prepared_def\<close>)
  have "left_of (prepared e x d t l s) (snd p) = left_of s (snd p)" if "p \<in> set qs" for p using w(3) that by force
  then have eq: "map (left_of (prepared e x d t l s)) (map snd qs) = map (left_of s) (map snd qs)" by simp
  have "dll (t_heap (prepared e x d t l s)) (timer_queue (prepared e x d t l s)) qs" using w(1) by simp
  moreover have "tds (prepared e x d t l s) x \<noteq> None" "\<forall>p \<in> set qs. tds (prepared e x d t l s) (snd p) \<noteq> None"
    using w(6) by (auto simp: prepared_def)
  ultimately show "\<exists>h' q' ys. timerInsert x (prepared e x d t l s) = Inr (prepared e x d t l s\<lparr>t_heap := h', timer_queue := q'\<rparr>) \<and> list_debug h' q' = Inr ys \<and>
     list_firstItem h' q' = Inr (Some (hd ys)) \<and> set ys = insert x (snd ` set qs) \<and> distinct ys \<and>
     (sorted (map (left_of s) (map snd qs)) \<longrightarrow> sorted (map (left_of (prepared e x d t l s)) ys))"
    unfolding eq [symmetric] using w(3,5) by (rule timerInsert_sorted)
qed (simp_all add: prepared_def upd_tds_def get_tds_def)

text \<open>The three courses \<open>timerStart\<close> takes: the system timer is off, expires before the new timer, or expires after it.\<close>

lemma timerStart_off:
  assumes "vsi_ok e" and st: "startable e s x []" and t: "5 \<le> sint t" "sint (timerPrecMs s) \<le> sint t" and L: "vsi_t_status e (hw s) = 0"
  shows "\<exists>s'. timerStart e x t s = Inr (0, s') \<and> list_debug (t_heap s') (timer_queue s') = Inr [x] \<and> due e s' x = sint t \<and> hw s' = vsi_t_start e t (vsi_t_stop e (hw s))"
proof -
  obtain d where d: "tds s x = Some d" and sig: "sig s" using st unfolding startable_def by blast
  note prep = startable_prepared [OF st d]
  obtain h' q' ys where i: "timerInsert x (prepared e x d t t s) = Inr (prepared e x d t t s\<lparr>t_heap := h', timer_queue := q'\<rparr>)"
      "list_debug h' q' = Inr ys" "list_firstItem h' q' = Inr (Some (hd ys))" "set ys = {x}" "distinct ys"
    using prep(5) [of t t] by auto
  then have ys: "ys = [x]" by (cases ys; cases "tl ys") auto
  let ?s = "prepared e x d t 0 s\<lparr>t_heap := h', timer_queue := q'\<rparr>"
  have "upd_tds (\<lambda>d. d) x (prepared e x d t t s) = Inr (prepared e x d t t s)"
      "get_tds (prepared e x d t t s\<lparr>t_heap := h', timer_queue := q'\<rparr>) x = Inr (d\<lparr>time := Some t, left := t\<rparr>)"
      "upd_tds (\<lambda>d. d\<lparr>left := left d - t\<rparr>) x (prepared e x d t t s\<lparr>t_heap := h', timer_queue := q'\<rparr>) = Inr ?s"
    by (simp_all add: prepared_def upd_tds_def get_tds_def)
  then have "timerStart e x t s = Inr (0, tmrStart e t ?s)"
    using i t L sig by (simp add: timerStart_def upd_tds_run [OF d] prep(1-3) tmrStop_def Let_def ys)
  moreover have "hw (tmrStart e t ?s) = vsi_t_start e t (vsi_t_stop e (hw s))" using t(1) sig by (simp add: tmrStart_run prepared_def)
  ultimately show ?thesis using tmrStart_due [OF assms(1), of ?s t x] i(2) t(1) sig ys by simp
qed


lemma timerStart_later:
  assumes "vsi_ok e" and st: "startable e s x qs" and t: "5 \<le> sint t" "sint (timerPrecMs s) \<le> sint t"
    and L: "5 \<le> sint (vsi_t_status e (hw s))" "sint (vsi_t_status e (hw s)) \<le> sint t"
  shows "\<exists>s' ys. timerStart e x t s = Inr (0, s') \<and> list_debug (t_heap s') (timer_queue s') = Inr ys \<and>
     set ys = insert x (snd ` set qs) \<and> distinct ys \<and> (sorted (map (left_of s) (map snd qs)) \<longrightarrow> sorted (map (left_of s') ys)) \<and>
     (\<forall>y \<in> snd ` set qs. due e s' y = due e s y) \<and> due e s' x = sint t"
proof -
  let ?L = "vsi_t_status e (hw s)"
  obtain d where d: "tds s x = Some d" and sig: "sig s" and x: "x \<notin> snd ` set qs" using st unfolding startable_def by blast
  note prep = startable_prepared [OF st d]
  obtain h' q' ys where i: "timerInsert x (prepared e x d t (t - ?L) s) = Inr (prepared e x d t (t - ?L) s\<lparr>t_heap := h', timer_queue := q'\<rparr>)"
      "list_debug h' q' = Inr ys" "set ys = insert x (snd ` set qs)" "distinct ys"
      "sorted (map (left_of s) (map snd qs)) \<longrightarrow> sorted (map (left_of (prepared e x d t (t - ?L) s)) ys)"
    using prep(5) [of t "t - ?L"] by auto
  let ?s = "prepared e x d t (t - ?L) s\<lparr>t_heap := h', timer_queue := q'\<rparr>"
  have "?L \<noteq> 0" using L(1) by auto
  then have run: "timerStart e x t s = Inr (0, tmrStart e ?L ?s)"
    using i(1) t L sig by (simp add: timerStart_def upd_tds_run [OF d] prep(1-4) tmrStop_def Let_def)
  have "due e (tmrStart e ?L ?s) y = sint ?L + left_of ?s y" for y using tmrStart_due [OF assms(1), of ?s ?L] L(1) sig by simp
  then have "due e (tmrStart e ?L ?s) y = (if y = x then sint t else due e s y)" for y using L by (simp add: sint_diff due_def)
  with run i(2-5) x show ?thesis by (intro exI [of _ "tmrStart e ?L ?s"] exI [of _ ys]) auto
qed

lemma timerStart_sooner:
  assumes "vsi_ok e" and st: "startable e s x qs" and t: "5 \<le> sint t" "sint (timerPrecMs s) \<le> sint t"
    and L: "sint t < sint (vsi_t_status e (hw s))"
  shows "\<exists>s' ys. timerStart e x t s = Inr (0, s') \<and> list_debug (t_heap s') (timer_queue s') = Inr ys \<and>
     set ys = insert x (snd ` set qs) \<and> distinct ys \<and> (sorted (map (left_of s) (map snd qs)) \<longrightarrow> sorted (map (left_of s') ys)) \<and>
     (\<forall>y \<in> snd ` set qs. due e s' y = due e s y) \<and> due e s' x = 2 * sint t"
proof -
  let ?L = "vsi_t_status e (hw s)" and ?items = "map snd qs"
  let ?D = "?L - t"
  obtain d where w: "tds s x = Some d" "sig s" "x \<notin> snd ` set qs" "dll (t_heap s) (timer_queue s) qs" "distinct ?items"
      "\<forall>p \<in> set qs. tds s (snd p) \<noteq> None \<and> 0 \<le> left_of s (snd p) \<and> due e s (snd p) < 2 ^ 31"
    using st unfolding startable_def by blast
  note prep = startable_prepared [OF st w(1)]
  let ?f = "\<lambda>d. d\<lparr>left := left d + ?D\<rparr>" and ?p = "prepared e x d t t s"
  let ?s = "?p\<lparr>tds := (\<lambda>y. if y \<in> set ?items then map_option ?f (tds ?p y) else tds ?p y)\<rparr>"
  have D: "sint ?D = sint ?L - sint t" using L t by (simp add: sint_diff)
  have "\<forall>y \<in> set ?items. tds ?p y \<noteq> None" using w(6) by (auto simp: prepared_def)
  then have adj: "timersAdjust ?D ?p = Inr ?s"
    using each_timer_run [OF w(5), of ?p ?f] list_debug_refines [OF w(4)] by (simp add: timersAdjust_def)
  have l: "left_of ?s y = left_of s y + sint ?D" if y: "y \<in> snd ` set qs" for y
  proof -
    obtain c where c: "tds s y = Some c" using y w(6) by auto
    have "0 \<le> left_of s y" "sint ?L + left_of s y < 2 ^ 31" using y w(6) by (auto simp: due_def)
    then have "sint (left c + ?D) = sint (left c) + sint ?D" using c D L t by (intro sint_add) (auto simp: left_of_def)
    with c y w(3) show ?thesis by (auto simp: left_of_def prepared_def)
  qed
  have lx: "left_of ?s x = sint t" using w(3) by (simp add: left_of_def prepared_def)
  have "\<forall>p \<in> set qs. tds ?s (snd p) \<noteq> None" "tds ?s x \<noteq> None" using w(6) by (auto simp: prepared_def)
  with timerInsert_sorted [of ?s qs x] w(3-5) obtain h' q' ys where
    i: "timerInsert x ?s = Inr (?s\<lparr>t_heap := h', timer_queue := q'\<rparr>)" "list_debug h' q' = Inr ys" "set ys = insert x (snd ` set qs)"
      "distinct ys" "sorted (map (left_of ?s) ?items) \<longrightarrow> sorted (map (left_of ?s) ys)" by auto
  have "map (left_of ?s) ?items = map (\<lambda>l. l + sint ?D) (map (left_of s) ?items)" using l by simp
  then have "sorted (map (left_of s) ?items) \<longrightarrow> sorted (map (left_of ?s) ?items)"
    by (simp only: sorted_map) (simp add: sorted_wrt_map)
  with i(5) have srt: "sorted (map (left_of s) ?items) \<longrightarrow> sorted (map (left_of ?s) ys)" by blast
  let ?s' = "tmrStart e t (?s\<lparr>t_heap := h', timer_queue := q'\<rparr>)"
  have "t \<noteq> 0" using t by auto
  then have run: "timerStart e x t s = Inr (0, ?s')"
    using i(1) t L w(2) adj by (simp add: timerStart_def upd_tds_run [OF w(1)] prep(1-3) tmrStop_def Let_def)
  have "due e ?s' y = sint t + left_of ?s y" for y
    using tmrStart_due [OF assms(1), of "?s\<lparr>t_heap := h', timer_queue := q'\<rparr>" t] t(1) w(2) by simp
  then have "due e ?s' x = 2 * sint t" "\<forall>y \<in> snd ` set qs. due e ?s' y = due e s y" using l lx D by (simp_all add: due_def)
  with run i(2-4) srt show ?thesis by (intro exI [of _ ?s'] exI [of _ ys]) simp
qed

text \<open>
  C21: Starting a timer and when it runs. Starting a timer that is not pending succeeds, keeps every other pending timer due at the
  same time and leaves the queue in the order of expiry if it was. If the system timer is off, or expires no later than the new timer, the new one is
  due after the requested time. But if the new timer is to run before the system timer expires, it is due only after twice the
  requested time: the system timer is restarted with the shorter time, and \<open>left\<close> of the new timer still counts it.
\<close>

theorem timerStart_due:
  assumes e: "vsi_ok e" and st: "startable e s x qs" and t: "5 \<le> sint t" "sint (timerPrecMs s) \<le> sint t"
    and L: "qs = [] \<and> vsi_t_status e (hw s) = 0 \<or> 5 \<le> sint (vsi_t_status e (hw s))"
  shows "\<exists>s' ys. timerStart e x t s = Inr (0, s') \<and> list_debug (t_heap s') (timer_queue s') = Inr ys \<and>
     set ys = insert x (snd ` set qs) \<and> distinct ys \<and> (sorted (map (left_of s) (map snd qs)) \<longrightarrow> sorted (map (left_of s') ys)) \<and>
     (\<forall>y \<in> snd ` set qs. due e s' y = due e s y) \<and>
     due e s' x = (if sint (vsi_t_status e (hw s)) \<le> sint t then sint t else 2 * sint t)"
proof -
  consider "qs = []" "vsi_t_status e (hw s) = 0" | "5 \<le> sint (vsi_t_status e (hw s))" "sint (vsi_t_status e (hw s)) \<le> sint t"
    | "sint t < sint (vsi_t_status e (hw s))" using L by force
  then show ?thesis
  proof cases
    case 1
    with timerStart_off [OF e _ t, of x] st t show ?thesis by fastforce
  next
    case 2
    with timerStart_later [OF e st t] show ?thesis by simp
  next
    case 3
    with timerStart_sooner [OF e st t] show ?thesis by simp
  qed
qed

section \<open>The expiry of the system timer\<close>

lemma expire_first:
  assumes q: "dll (t_heap s) (timer_queue s) ((a, x) # vs)" and r: "dll (t_heap s) (timer_r_queue s) rs"
    and dis: "addrs ((a, x) # vs) \<inter> addrs rs = {}" and d: "tds s x = Some d" "sint (left d) \<le> 0" and n: "2 \<le> n"
  shows "\<exists>h' q' r' c. signal_expired n (list_begin (timer_queue s)) s =
       Inr (None, s\<lparr>tds := (tds s)(x \<mapsto> d\<lparr>left := -1\<rparr>), t_heap := h', timer_queue := q', timer_r_queue := r'\<rparr>) \<and>
     dll h' q' vs \<and> dll h' r' (rs @ [(c, x)])"
proof -
  obtain m where m: "n = Suc (Suc m)" using n by (metis Suc_le_D numeral_2_eq_2 Suc_le_mono)
  let ?it = "\<lparr>it_node = Some a, it_offset = NextOff\<rparr>" and ?c = "brk (t_heap s)"
  obtain h1 r1 where 1: "list_append (t_heap s) (timer_r_queue s) x = Inr (h1, r1)" "dll h1 r1 (rs @ [(?c, x)])"
      "same_outside (insert ?c (addrs rs)) (t_heap s) h1"
    using list_append_refines [OF r, of x] by blast
  have fresh: "?c \<notin> addrs ((a, x) # vs)" by (rule dll_brk_fresh [OF q])
  have q1: "dll h1 (timer_queue s) ([] @ (a, x) # vs)"
    unfolding append_Nil by (rule dll_same_outside [OF q 1(3)]) (use dis fresh in auto)
  obtain h2 q2 where 2: "listIterator_remove h1 (timer_queue s) ?it = Inr (h2, q2, ?it\<lparr>it_node := None\<rparr>)" "dll h2 q2 vs"
      "same_outside (addrs ((a, x) # vs)) h1 h2"
    using listIterator_remove_refines [OF q1, of ?it] by auto
  have r2: "dll h2 r1 (rs @ [(?c, x)])"
    by (rule dll_same_outside [OF 1(2) 2(3)]) (use dis fresh in auto)
  have "list_begin (timer_queue s) = ?it" "listIterator_item (t_heap s) ?it = Inr (Some x)"
    using q by (auto simp: dll_def list_begin_def listIterator_item_def read_node_def)
  then show ?thesis
    using 1(1) 2(1) d 2(2) r2
    by (auto simp: m listIterator_finished_def listIterator_next_def get_tds_def upd_tds_def)
qed

lemma signal_single:
  assumes "dll (t_heap s) (timer_queue s) [(a, x)]" and "dll (t_heap s) (timer_r_queue s) []"
    and "tds s x = Some d" and "sint (left d) \<le> 0"
  shows "\<exists>s'. timerSignal e s = (case tCB d of None \<Rightarrow> Inr s' | Some cb \<Rightarrow> call_tCB e cb x (tData d) s') \<and>
     dll (t_heap s') (timer_queue s') [] \<and> dll (t_heap s') (timer_r_queue s') [] \<and>
     tds s' = (tds s)(x \<mapsto> d\<lparr>left := -1\<rparr>) \<and> hw s' = hw s \<and> sig s' = sig s \<and> timerPrecMs s' = timerPrecMs s"
proof -
  have b: "2 \<le> Suc (brk (t_heap s))" "list_size (timer_queue s) \<noteq> 0" using assms(1) by (auto simp: dll_def list_size_def)
  from expire_first [OF assms(1,2) _ assms(3,4) b(1)] obtain h q r c where
    1: "signal_expired (Suc (brk (t_heap s))) (list_begin (timer_queue s)) s =
         Inr (None, s\<lparr>tds := (tds s)(x \<mapsto> d\<lparr>left := -1\<rparr>), t_heap := h, timer_queue := q, timer_r_queue := r\<rparr>)"
      "dll h q []" "dll h r [(c, x)]" by auto
  let ?s = "s\<lparr>tds := (tds s)(x \<mapsto> d\<lparr>left := -1\<rparr>), t_heap := h, timer_queue := q, timer_r_queue := r\<rparr>"
  let ?it = "\<lparr>it_node = Some c, it_offset = NextOff\<rparr>"
  obtain h2 r2 where 2: "listIterator_remove h r ?it = Inr (h2, r2, ?it\<lparr>it_node := None\<rparr>)" "dll h2 r2 []"
    using listIterator_remove_refines [of h r "[]" c x "[]" ?it] 1(3) by auto
  let ?s' = "?s\<lparr>t_heap := h2, timer_r_queue := r2\<rparr>"
  have size: "list_size q = 0" "list_size r \<noteq> 0" using 1(2,3) by (simp_all add: dll_def list_size_def)
  obtain k where k: "brk h = Suc k" using 1(3) by (cases "brk h") (auto simp: dll_def)
  have it: "list_begin r = ?it" "listIterator_item h ?it = Inr (Some x)"
    using 1(3) by (auto simp: dll_def list_begin_def listIterator_item_def read_node_def)
  have step: "signal_run (Suc (brk h)) e ?it ?s = (case tCB d of None \<Rightarrow> Inr ?s' | Some cb \<Rightarrow> call_tCB e cb x (tData d) ?s')"
  proof (cases "tCB d")
    case (Some cb)
    then show ?thesis using it 2(1)
      by (cases "call_tCB e cb x (tData d) ?s'") (simp_all add: k listIterator_finished_def listIterator_next_def get_tds_def Let_def)
  qed (use it 2(1) in \<open>simp add: k listIterator_finished_def listIterator_next_def get_tds_def Let_def\<close>)
  have "timerSignal e s = (case tCB d of None \<Rightarrow> Inr ?s' | Some cb \<Rightarrow> call_tCB e cb x (tData d) ?s')"
    unfolding timerSignal_def using b(2) 1(1) size step it(1) by simp
  moreover have "dll (t_heap ?s') (timer_queue ?s') []" using 1(2) by (simp add: dll_def)
  ultimately show ?thesis using 2(2) by (intro exI [of _ ?s']) simp
qed

text \<open>
  C23: A single pending timer runs when the system timer expires. \<open>timerSignal\<close> takes it off the pending queue, marks it, and calls its
  callback exactly once, with the timer and its data, in a state in which both queues are empty, so that the callback may start the timer again.
\<close>

theorem timerSignal_single:
  assumes "dll (t_heap s) (timer_queue s) [(a, x)]" and "dll (t_heap s) (timer_r_queue s) []"
    and "tds s x = Some d" and "sint (left d) \<le> 0"
  shows "\<exists>s'. timerSignal e s = (case tCB d of None \<Rightarrow> Inr s' | Some cb \<Rightarrow> call_tCB e cb x (tData d) s') \<and>
     dll (t_heap s') (timer_queue s') [] \<and> dll (t_heap s') (timer_r_queue s') [] \<and>
     tds s' = (tds s)(x \<mapsto> d\<lparr>left := -1\<rparr>) \<and> hw s' = hw s \<and> sig s' = sig s \<and> timerPrecMs s' = timerPrecMs s"
  by (rule signal_single [OF assms])

text \<open>
  With two or more pending timers \<open>timerSignal\<close> reads an uninitialised variable. Removing the first timer resets the iterator to the node
  before it, which is NULL, so the loop ends; \<open>timeout\<close> is assigned only when the loop meets a timer that has not expired, and is
  then subtracted from the remaining timers and given to the system timer.
\<close>

theorem timerSignal_uninit:
  assumes "dll (t_heap s) (timer_queue s) ((a, x) # (b, y) # vs)" and "dll (t_heap s) (timer_r_queue s) rs"
    and "addrs ((a, x) # (b, y) # vs) \<inter> addrs rs = {}" and "tds s x = Some d" and "sint (left d) \<le> 0"
  shows "timerSignal e s = Inl Uninit"
proof -
  have n: "2 \<le> Suc (brk (t_heap s))" "list_size (timer_queue s) \<noteq> 0" using assms(1) by (auto simp: dll_def list_size_def)
  from expire_first [OF assms(1-5) n(1)] obtain h q r c where
    1: "signal_expired (Suc (brk (t_heap s))) (list_begin (timer_queue s)) s =
         Inr (None, s\<lparr>tds := (tds s)(x \<mapsto> d\<lparr>left := -1\<rparr>), t_heap := h, timer_queue := q, timer_r_queue := r\<rparr>)"
      "dll h q ((b, y) # vs)" by blast
  then have "list_size q \<noteq> 0" by (simp add: dll_def list_size_def)
  with n(2) 1(1) show ?thesis by (simp add: timerSignal_def del: signal_expired.simps)
qed

section \<open>Concrete timers\<close>

definition demo_tenv :: "32 word tenv" where
  "demo_tenv = \<lparr>vsi_t_start = (\<lambda>t h. t), vsi_t_stop = (\<lambda>h. 0), vsi_t_status = (\<lambda>h. h), call_tCB = (\<lambda>cb t data s. Inr s)\<rparr>"

definition demo_tds :: "addr \<Rightarrow> tDS option" where
  "demo_tds = map_of (map (\<lambda>(t, l). (t, \<lparr>tCB = Some 0, tData = t, left = l, time = None\<rparr>)) [(10, 0), (20, 100), (30, 300), (40, 150), (50, 200)])"

definition demo_timers :: "32 word timers" where
  "demo_timers = \<lparr>t_heap = demo_heap, timer_queue = demo_list, timer_r_queue = list_new, tds = demo_tds, next_tds = 60,
     timerTimeoutCount = 0, timerTimeoutBusy = False, timerPrecMs = 5, sig = True, hw = 50\<rparr>"

lemma demo_left: "left_of demo_timers 10 = 0" "left_of demo_timers 20 = 100" "left_of demo_timers 30 = 300"
    "left_of demo_timers 40 = 150" "left_of demo_timers 50 = 200"
  by (simp_all add: left_of_def demo_timers_def demo_tds_def)

lemma demo_timers_simps: "t_heap demo_timers = demo_heap" "timer_queue demo_timers = demo_list" "timer_r_queue demo_timers = list_new"
    "hw demo_timers = 50" "sig demo_timers" "timerPrecMs demo_timers = 5"
    "t \<in> {10, 20, 30, 40, 50} \<Longrightarrow> tds demo_timers t = Some \<lparr>tCB = Some 0, tData = t, left = word_of_int (left_of demo_timers t), time = None\<rparr>"
  by (auto simp: left_of_def demo_timers_def demo_tds_def)

theorem timerInsert_order_lost_witness:
  "\<exists>s1 s2. timerInsert 40 demo_timers = Inr s1 \<and> list_debug (t_heap s1) (timer_queue s1) = Inr [10, 20, 40, 30] \<and>
     timerInsert 50 s1 = Inr s2 \<and> list_debug (t_heap s2) (timer_queue s2) = Inr [10, 20, 50, 40, 30]"
proof -
  have "dll (t_heap demo_timers) (timer_queue demo_timers) ([(0, 10)] @ (1, 20) # (2, 30) # [])" using demo_dll by (simp add: demo_timers_simps)
  from timerInsert_order_lost [OF this, of 40 50] show ?thesis by (simp add: demo_timers_simps demo_left)
qed

theorem timerStart_due_witness:
  "\<exists>s'. timerStart demo_tenv 40 20 demo_timers = Inr (0, s') \<and> due demo_tenv s' 40 = 40 \<and> due demo_tenv s' 20 = 150"
proof -
  have e: "vsi_ok demo_tenv" by (simp add: vsi_ok_def demo_tenv_def)
  have d: "due demo_tenv demo_timers t = 50 + left_of demo_timers t" for t by (simp add: due_def demo_tenv_def demo_timers_simps)
  have st: "startable demo_tenv demo_timers 40 [(0, 10), (1, 20), (2, 30)]"
    using demo_dll dll_new [of demo_heap] by (auto simp: startable_def demo_timers_simps demo_left d)
  have "vsi_t_status demo_tenv (hw demo_timers) = 50" by (simp add: demo_tenv_def demo_timers_simps)
  with timerStart_due [OF e st, of 20] d demo_left show ?thesis by (auto simp: demo_timers_simps)
qed

theorem timerSignal_uninit_witness: "timerSignal demo_tenv demo_timers = Inl Uninit"
proof -
  have "dll (t_heap demo_timers) (timer_queue demo_timers) ((0, 10) # (1, 20) # [(2, 30)])" using demo_dll by (simp add: demo_timers_simps)
  moreover have "dll (t_heap demo_timers) (timer_r_queue demo_timers) []" using dll_new by (simp add: demo_timers_simps)
  moreover have "tds demo_timers 10 = Some \<lparr>tCB = Some 0, tData = 10, left = 0, time = None\<rparr>" by (simp add: demo_timers_simps demo_left)
  ultimately show ?thesis using timerSignal_uninit [of demo_timers 0 10 1 20 "[(2, 30)]" "[]"] by simp
qed

theorem timerSignal_single_witness:
  "\<exists>s'. timerSignal demo_tenv (demo_timers\<lparr>t_heap := \<lparr>cells = [0 \<mapsto> \<lparr>ln_data = 10, ln_prev = None, ln_next = None\<rparr>], brk = 1\<rparr>,
      timer_queue := \<lparr>l_length = 1, l_head = Some 0, l_tail = Some 0\<rparr>\<rparr>) = Inr s' \<and> list_size (timer_queue s') = 0"
proof -
  let ?s = "demo_timers\<lparr>t_heap := \<lparr>cells = [0 \<mapsto> \<lparr>ln_data = 10, ln_prev = None, ln_next = None\<rparr>], brk = 1\<rparr>,
      timer_queue := \<lparr>l_length = 1, l_head = Some 0, l_tail = Some 0\<rparr>\<rparr>"
  have "dll (t_heap ?s) (timer_queue ?s) [(0, 10)]" by (simp add: dll_def)
  moreover have "dll (t_heap ?s) (timer_r_queue ?s) []" by (simp add: dll_def demo_timers_simps list_new_def)
  moreover have "tds ?s 10 = Some \<lparr>tCB = Some 0, tData = 10, left = 0, time = None\<rparr>" by (simp add: demo_timers_def demo_tds_def)
  ultimately show ?thesis
    using timerSignal_single [of ?s 0 10 "\<lparr>tCB = Some 0, tData = 10, left = 0, time = None\<rparr>" demo_tenv]
    by (auto simp: demo_tenv_def list_size_def dll_def)
qed

end
