(* ===== verification/Hw_Events.thy ===== *)
theory Hw_Events
  imports Linked_List
begin

text \<open>
  The hardware events of \<open>hwevents.c\<close>: subscription of callbacks per event type, and triggering.

  The map from event types to lists is a HOL map, the lists are those of \<open>List.c\<close> on the heap of \<open>Linked_List\<close>, their items the
  \<open>HW_EVENT\<close> structures. Callbacks are the parameter \<open>call_cb\<close>; they act on the whole state, which has a component \<open>world\<close> for
  what they change outside. The lemmas show that subscribing refines appending to the list of one event type, that a trigger runs the
  callbacks of its type in the order of subscription, and that unsubscribing never removes a callback.
\<close>

section \<open>State and operations\<close>

datatype hwEventType = HW_KEYBOARD_EVENT | HW_DISPLAY_EVENT | HW_SIM_EVENT

record HW_EVENT =
  ev_cb :: nat
  ev_context :: nat

record 'w events =
  ev_heap :: "HW_EVENT heap"
  hwSubs :: "hwEventType \<Rightarrow> LList option"
  world :: 'w

type_synonym 'w callbacks = "nat \<Rightarrow> hwEventType \<Rightarrow> nat \<Rightarrow> nat \<Rightarrow> 'w events \<Rightarrow> (int \<times> 'w events) res"

definition hwEventComparator :: "HW_EVENT \<Rightarrow> HW_EVENT \<Rightarrow> int" where
  "hwEventComparator lhs rhs = (if ev_cb lhs = ev_cb rhs then 1 else 0)"

definition hwEventSubscribe :: "hwEventType \<Rightarrow> nat \<Rightarrow> nat \<Rightarrow> 'w events \<Rightarrow> (int \<times> 'w events) res" where
  "hwEventSubscribe eventType c ctxt s =
     (let hwCbList = (case hwSubs s eventType of Some l \<Rightarrow> l | None \<Rightarrow> list_new) in
      bind_res (list_append (ev_heap s) hwCbList \<lparr>ev_cb = c, ev_context = ctxt\<rparr>) (\<lambda>(h, l).
      Inr (0, s\<lparr>ev_heap := h, hwSubs := (hwSubs s)(eventType \<mapsto> l)\<rparr>)))"

text \<open>
  \<open>list_find\<close> returns the item it finds, an \<open>HW_EVENT\<close>; the code then uses it as a list iterator: the read of its members is
  \<open>TypeConfusion\<close>.
\<close>

definition hwEventUnsubscribe :: "hwEventType \<Rightarrow> nat \<Rightarrow> 'w events \<Rightarrow> (int \<times> 'w events) res" where
  "hwEventUnsubscribe eventType c s =
     (case hwSubs s eventType of
        None \<Rightarrow> Inr (0, s)
      | Some l \<Rightarrow>
          bind_res (list_find (ev_heap s) l \<lparr>ev_cb = c, ev_context = 0\<rparr> hwEventComparator) (\<lambda>event.
          case event of None \<Rightarrow> Inr (0, s) | Some ev \<Rightarrow> Inl TypeConfusion))"

fun trigger_loop :: "nat \<Rightarrow> 'w callbacks \<Rightarrow> hwEventType \<Rightarrow> nat \<Rightarrow> ListIterator \<Rightarrow> 'w events \<Rightarrow> 'w events res" where
  "trigger_loop 0 call_cb eventType eventData it s = Inl Diverge"
| "trigger_loop (Suc n) call_cb eventType eventData it s =
     (if listIterator_finished it then Inr s
      else
        bind_res (listIterator_item (ev_heap s) it) (\<lambda>event.
        case event of
          None \<Rightarrow> Inl NullDeref
        | Some ev \<Rightarrow>
            bind_res (call_cb (ev_cb ev) eventType eventData (ev_context ev) s) (\<lambda>(ret, s).
            bind_res (listIterator_next (ev_heap s) it) (\<lambda>it. trigger_loop n call_cb eventType eventData it s))))"

text \<open>A callback may subscribe another one for the same event, which the loop then reaches: the number of rounds is an argument.\<close>

definition hwEventTrigger :: "nat \<Rightarrow> 'w callbacks \<Rightarrow> hwEventType \<Rightarrow> nat \<Rightarrow> 'w events \<Rightarrow> (int \<times> 'w events) res" where
  "hwEventTrigger fuel call_cb eventType eventData s =
     (case hwSubs s eventType of
        None \<Rightarrow> Inr (0, s)
      | Some l \<Rightarrow> bind_res (trigger_loop fuel call_cb eventType eventData (list_begin l) s) (\<lambda>s. Inr (0, s)))"

declare trigger_loop.simps [simp del]

section \<open>Subscriptions\<close>

text \<open>The lists of the event types are well formed and share no node.\<close>

definition subs_ok :: "'w events \<Rightarrow> (hwEventType \<Rightarrow> (addr \<times> HW_EVENT) list) \<Rightarrow> bool" where
  "subs_ok s f \<longleftrightarrow> (\<forall>ty. case hwSubs s ty of None \<Rightarrow> f ty = [] | Some l \<Rightarrow> dll (ev_heap s) l (f ty)) \<and>
     (\<forall>ty ty'. ty \<noteq> ty' \<longrightarrow> addrs (f ty) \<inter> addrs (f ty') = {})"

text \<open>What the subscriptions mean: the callbacks of each event type in order.\<close>

definition subscribed :: "'w events \<Rightarrow> (hwEventType \<Rightarrow> HW_EVENT list) \<Rightarrow> bool" where
  "subscribed s F \<longleftrightarrow> (\<exists>f. subs_ok s f \<and> F = (\<lambda>ty. map snd (f ty)))"

lemma subs_ok_list: "subs_ok s f \<Longrightarrow> hwSubs s ty = Some l \<Longrightarrow> dll (ev_heap s) l (f ty)"
  unfolding subs_ok_def by (drule conjunct1, drule spec [of _ ty]) simp

lemma subs_ok_none: "subs_ok s f \<Longrightarrow> hwSubs s ty = None \<Longrightarrow> f ty = []"
  unfolding subs_ok_def by (drule conjunct1, drule spec [of _ ty]) simp

lemma subs_ok_disjoint: "subs_ok s f \<Longrightarrow> ty \<noteq> ty' \<Longrightarrow> addrs (f ty) \<inter> addrs (f ty') = {}"
  unfolding subs_ok_def by simp

lemma subscribe_subs_ok:
  assumes "subs_ok s f"
  shows "\<exists>s'. hwEventSubscribe ty c ctxt s = Inr (0, s') \<and> subs_ok s' (f(ty := f ty @ [(brk (ev_heap s), \<lparr>ev_cb = c, ev_context = ctxt\<rparr>)])) \<and> world s' = world s"
proof -
  let ?ev = "\<lparr>ev_cb = c, ev_context = ctxt\<rparr>" and ?l = "case hwSubs s ty of Some l \<Rightarrow> l | None \<Rightarrow> list_new" and ?b = "brk (ev_heap s)"
  have l: "dll (ev_heap s) ?l (f ty)"
    using subs_ok_list [OF assms] subs_ok_none [OF assms] dll_new by (cases "hwSubs s ty") auto
  obtain h' l' where app: "list_append (ev_heap s) ?l ?ev = Inr (h', l')" "dll h' l' (f ty @ [(?b, ?ev)])"
      "same_outside (insert ?b (addrs (f ty))) (ev_heap s) h'"
    using list_append_refines [OF l, of ?ev] by blast
  have fresh: "?b \<notin> addrs (f ty')" for ty'
  proof (cases "hwSubs s ty'")
    case (Some k)
    from dll_brk_fresh [OF subs_ok_list [OF assms this]] show ?thesis .
  qed (simp add: subs_ok_none [OF assms])
  have other: "dll h' k (f ty')" if "ty' \<noteq> ty" "hwSubs s ty' = Some k" for ty' k
  proof (rule dll_same_outside [OF subs_ok_list [OF assms that(2)] app(3)])
    show "addrs (f ty') \<inter> insert ?b (addrs (f ty)) = {}" using fresh [of ty'] subs_ok_disjoint [OF assms that(1)] by (simp only: Int_insert_right if_False)
  qed
  let ?s = "s\<lparr>ev_heap := h', hwSubs := (hwSubs s)(ty \<mapsto> l')\<rparr>" and ?f = "f(ty := f ty @ [(?b, ?ev)])"
  have "case hwSubs ?s ty' of None \<Rightarrow> ?f ty' = [] | Some k \<Rightarrow> dll (ev_heap ?s) k (?f ty')" for ty'
    using app(2) other [of ty'] subs_ok_none [OF assms, of ty'] by (cases "ty' = ty") (auto split: option.splits)
  moreover have "addrs (?f ty') \<inter> addrs (?f ty'') = {}" if "ty' \<noteq> ty''" for ty' ty''
    using subs_ok_disjoint [OF assms that] fresh [of ty'] fresh [of ty''] that by (cases "ty' = ty"; cases "ty'' = ty") auto
  ultimately have "subs_ok ?s ?f" unfolding subs_ok_def by blast
  with app(1) show ?thesis by (auto simp: hwEventSubscribe_def)
qed

section \<open>Properties\<close>

text \<open>The callbacks a trigger runs: those of its event type in the order of subscription, each with the data of the event and its own context.\<close>

fun run_callbacks :: "'w callbacks \<Rightarrow> hwEventType \<Rightarrow> nat \<Rightarrow> HW_EVENT list \<Rightarrow> 'w events \<Rightarrow> 'w events res" where
  "run_callbacks call_cb ty data [] s = Inr s"
| "run_callbacks call_cb ty data (ev # evs) s =
     bind_res (call_cb (ev_cb ev) ty data (ev_context ev) s) (\<lambda>(ret, s). run_callbacks call_cb ty data evs s)"

text \<open>A callback that does not touch the subscriptions.\<close>

definition leaves_subs :: "'w callbacks \<Rightarrow> bool" where
  "leaves_subs call_cb \<longleftrightarrow> (\<forall>c ty data ctxt s r s'. call_cb c ty data ctxt s = Inr (r, s') \<longrightarrow> ev_heap s' = ev_heap s \<and> hwSubs s' = hwSubs s)"

lemma trigger_loop_run:
  "fwdseg (cells (ev_heap s)) xs None \<Longrightarrow> leaves_subs call_cb \<Longrightarrow> length xs < n \<Longrightarrow>
   trigger_loop n call_cb ty data \<lparr>it_node = first_addr xs None, it_offset = NextOff\<rparr> s = run_callbacks call_cb ty data (map snd xs) s"
proof (induction xs arbitrary: n s)
  case Nil
  then show ?case by (cases n) (simp_all add: trigger_loop.simps listIterator_finished_def)
next
  case (Cons p xs)
  obtain a ev where p: "p = (a, ev)" by fastforce
  obtain m where n: "n = Suc m" "length xs < m" using Cons.prems(3) by (cases n) auto
  obtain c where c: "cells (ev_heap s) a = Some c" "ln_data c = ev" "ln_next c = first_addr xs None" "fwdseg (cells (ev_heap s)) xs None"
    using Cons.prems(1) p by (auto split: option.splits)
  show ?case
  proof (cases "call_cb (ev_cb ev) ty data (ev_context ev) s")
    case (Inl e)
    then show ?thesis using c p by (simp add: n trigger_loop.simps listIterator_finished_def listIterator_item_def read_node_def)
  next
    case (Inr rs)
    obtain r s' where rs: "rs = (r, s')" by fastforce
    with Inr Cons.prems(2) have h: "ev_heap s' = ev_heap s" unfolding leaves_subs_def by blast
    with Cons.IH [of s' m] c(4) Cons.prems(2) n(2) have
      "trigger_loop m call_cb ty data \<lparr>it_node = first_addr xs None, it_offset = NextOff\<rparr> s' = run_callbacks call_cb ty data (map snd xs) s'" by simp
    then show ?thesis using c p Inr rs h
      by (simp add: n trigger_loop.simps listIterator_finished_def listIterator_item_def listIterator_next_def read_node_def)
  qed
qed


text \<open>
  Unsubscribing never removes a callback. The comparator returns 1 for equal callbacks and \<open>list_find\<close> takes 0 for a match, so the search
  finds the first subscription of another callback, and uses the structure it finds as a list iterator. If only the given callback is
  subscribed, the function reports that it is not and changes nothing.
\<close>

theorem hwEventUnsubscribe_removes_nothing:
  assumes "subscribed s F"
  shows "hwEventUnsubscribe ty c s = (if \<exists>ev \<in> set (F ty). ev_cb ev \<noteq> c then Inl TypeConfusion else Inr (0, s))"
proof -
  obtain f where f: "subs_ok s f" "F = (\<lambda>ty. map snd (f ty))" using assms by (auto simp: subscribed_def)
  show ?thesis
  proof (cases "hwSubs s ty")
    case None
    with subs_ok_none [OF f(1) this] f(2) show ?thesis by (simp add: hwEventUnsubscribe_def)
  next
    case (Some l)
    let ?P = "\<lambda>ev. hwEventComparator \<lparr>ev_cb = c, ev_context = 0\<rparr> ev = 0"
    have P: "?P ev \<longleftrightarrow> ev_cb ev \<noteq> c" for ev by (auto simp: hwEventComparator_def)
    have "list_find (ev_heap s) l \<lparr>ev_cb = c, ev_context = 0\<rparr> hwEventComparator = Inr (List.find ?P (F ty))"
      using list_find_refines [OF subs_ok_list [OF f(1) Some]] f(2) by simp
    moreover have "List.find ?P (F ty) = None \<longleftrightarrow> \<not> (\<exists>ev \<in> set (F ty). ev_cb ev \<noteq> c)" unfolding find_None_iff P by blast
    ultimately show ?thesis using Some by (cases "List.find ?P (F ty)") (simp_all add: hwEventUnsubscribe_def del: P)
  qed
qed

text \<open>Two callbacks on the keyboard event.\<close>

definition demo_events :: "nat list events" where
  "demo_events = \<lparr>ev_heap = \<lparr>cells = [0 \<mapsto> \<lparr>ln_data = \<lparr>ev_cb = 1, ev_context = 5\<rparr>, ln_prev = None, ln_next = Some 1\<rparr>,
       1 \<mapsto> \<lparr>ln_data = \<lparr>ev_cb = 2, ev_context = 6\<rparr>, ln_prev = Some 0, ln_next = None\<rparr>], brk = 2\<rparr>,
     hwSubs = [HW_KEYBOARD_EVENT \<mapsto> \<lparr>l_length = 2, l_head = Some 0, l_tail = Some 1\<rparr>], world = []\<rparr>"

definition demo_callbacks :: "nat list callbacks" where
  "demo_callbacks c ty data ctxt s = Inr (0, s\<lparr>world := world s @ [c + ctxt + data]\<rparr>)"

lemma demo_subscribed:
  "subscribed demo_events ((\<lambda>ty. [])(HW_KEYBOARD_EVENT := [\<lparr>ev_cb = 1, ev_context = 5\<rparr>, \<lparr>ev_cb = 2, ev_context = 6\<rparr>]))"
proof -
  let ?f = "(\<lambda>ty. [])(HW_KEYBOARD_EVENT := [(0, \<lparr>ev_cb = 1, ev_context = 5\<rparr>), (1, \<lparr>ev_cb = 2, ev_context = 6\<rparr>)])"
  have "subs_ok demo_events ?f" by (auto simp: subs_ok_def demo_events_def dll_def)
  moreover have "(\<lambda>ty. [])(HW_KEYBOARD_EVENT := [\<lparr>ev_cb = 1, ev_context = 5\<rparr>, \<lparr>ev_cb = 2, ev_context = 6\<rparr>]) = (\<lambda>ty. map snd (?f ty))" by auto
  ultimately show ?thesis unfolding subscribed_def by blast
qed


theorem hwEventUnsubscribe_removes_nothing_witness:
  "hwEventUnsubscribe HW_KEYBOARD_EVENT 1 demo_events = Inl TypeConfusion \<and> hwEventUnsubscribe HW_SIM_EVENT 1 demo_events = Inr (0, demo_events)"
  using hwEventUnsubscribe_removes_nothing [OF demo_subscribed, of HW_KEYBOARD_EVENT 1]
    hwEventUnsubscribe_removes_nothing [OF demo_subscribed, of HW_SIM_EVENT 1] by simp

end
