(* ===== verification/Hw_Clock.thy ===== *)
theory Hw_Clock
  imports C_Prelude "HOL-Library.Signed_Division"
begin

text \<open>
  The clock of the device: the network time of \<open>time.c\<close> (\<open>nm_nitz_info_ind\<close>, the case \<open>E_NM_TIME_IND\<close> of \<open>nm_signal\<close>) and the wall clock
  \<open>hw_td_*\<close> behind it.

  The network sends the universal time and the local time zone as a number of quarter hours in two swapped decimal digits with a sign bit.
  \<open>nm_signal\<close> adds the zone in place to the received fields, which are bytes, moves the date by a day when needed, and hands the result
  to the real-time clock in 12-hour form. Every store into a byte is written with \<open>UBYTE\<close>, arithmetic between stores is that of \<open>int\<close>
  with the truncating division of C.

  The reference is \<open>local_time\<close>: the date is moved by \<open>next_day\<close> or \<open>prev_day\<close> of the Gregorian calendar. The theorems compare the two for zones east and
  west of Greenwich.
\<close>

unbundle bit_operations_syntax

section \<open>The time indication\<close>

record T_HW_TIME_IND =
  ti_year :: int
  ti_month :: int
  ti_day :: int
  ti_hour :: int
  ti_minute :: int
  ti_second :: int
  ti_timezone :: int

definition UBYTE :: "int \<Rightarrow> int" where "UBYTE i = i mod 256"

text \<open>The value of the time zone octet in quarter hours.\<close>

definition actual_TD :: "int \<Rightarrow> int" where
  "actual_TD tz =
     (let absolute_value = 10 * (tz AND 0x7) + (drop_bit 4 tz AND 0xf)
      in if tz AND 0x08 \<noteq> 0 then NOT absolute_value + 1 else absolute_value)"

text \<open>The adjustment of hour and minute; the second component is \<open>modify_date_positive\<close> or \<open>modify_date_negative\<close>.\<close>

definition shift_east :: "int \<Rightarrow> T_HW_TIME_IND \<Rightarrow> T_HW_TIME_IND \<times> bool" where
  "shift_east td t =
     (let t = t\<lparr>ti_hour := UBYTE (ti_hour t + td sdiv 4)\<rparr>;
          t = t\<lparr>ti_minute := UBYTE (ti_minute t + (td smod 4) * 15)\<rparr>;
          t = (if ti_minute t > 60 then t\<lparr>ti_minute := UBYTE (ti_minute t - 60), ti_hour := UBYTE (ti_hour t + 1)\<rparr> else t);
          t = (if ti_minute t = 60 then t\<lparr>ti_minute := 0, ti_hour := UBYTE (ti_hour t + 1)\<rparr> else t)
      in (t, ti_hour t \<ge> 24))"

definition shift_west :: "int \<Rightarrow> T_HW_TIME_IND \<Rightarrow> T_HW_TIME_IND \<times> bool" where
  "shift_west td t =
     (let q = \<bar>(td smod 4) * 15\<bar>;
          t = (if ti_minute t - q < 0 then t\<lparr>ti_minute := UBYTE (60 - (q - ti_minute t)), ti_hour := UBYTE (ti_hour t - 1)\<rparr>
               else if ti_minute t - q = 0 then t\<lparr>ti_minute := 0, ti_hour := UBYTE (ti_hour t - 1)\<rparr>
               else t\<lparr>ti_minute := UBYTE (ti_minute t - q)\<rparr>)
      in if ti_hour t - \<bar>td sdiv 4\<bar> < 0 then (t, True)
         else (t\<lparr>ti_hour := UBYTE (ti_hour t - \<bar>td sdiv 4\<bar>)\<rparr>, False))"

definition leap_test :: "int \<Rightarrow> bool" where
  "leap_test year \<longleftrightarrow> (year + 2000) mod 4 = 0 \<and> (year + 2000) mod 100 \<noteq> 0"

text \<open>The date one day back, from \<open>if(modify_date_negative)\<close>.\<close>

definition date_back :: "int \<Rightarrow> T_HW_TIME_IND \<Rightarrow> T_HW_TIME_IND" where
  "date_back td t =
     (let t = t\<lparr>ti_hour := UBYTE (24 - \<bar>ti_hour t - \<bar>td sdiv 4\<bar>\<bar>)\<rparr>;
          t = t\<lparr>ti_day := UBYTE (ti_day t - 1)\<rparr>
      in if ti_day t \<noteq> 0 then t
         else
           (let t = (if ti_month t mod 2 \<noteq> 0 \<and> ti_month t \<le> 7
                     then if ti_month t = 1 then t\<lparr>ti_month := UBYTE (ti_month t - 1), ti_day := 31\<rparr>
                          else t\<lparr>ti_month := UBYTE (ti_month t - 1), ti_day := 30\<rparr>
                     else if ti_month t mod 2 = 0 \<and> ti_month t < 7 then t\<lparr>ti_month := UBYTE (ti_month t - 1), ti_day := 31\<rparr>
                     else t);
                t = (if ti_month t mod 2 = 0 \<and> ti_month t > 7
                     then if ti_month t = 8 then t\<lparr>ti_month := UBYTE (ti_month t - 1), ti_day := 31\<rparr>
                          else t\<lparr>ti_month := UBYTE (ti_month t - 1), ti_day := 30\<rparr>
                     else t);
                t = (if ti_month t = 2 then t\<lparr>ti_day := (if leap_test (ti_year t) then 29 else 28)\<rparr> else t)
            in if ti_month t \<le> 0 then t\<lparr>ti_year := UBYTE (ti_year t - 1), ti_month := 12\<rparr> else t))"

text \<open>The date one day on, from \<open>else if(modify_date_positive)\<close>.\<close>

definition date_on :: "T_HW_TIME_IND \<Rightarrow> T_HW_TIME_IND" where
  "date_on t =
     (let t = t\<lparr>ti_hour := UBYTE (ti_hour t - 24), ti_day := UBYTE (ti_day t + 1)\<rparr>;
          t = (if ti_month t = 2
               then
                 (let t = (if ti_day t = 30 then t\<lparr>ti_day := 1, ti_month := 3\<rparr> else t)
                  in if ti_day t = 29 then if leap_test (ti_year t) then t\<lparr>ti_day := 29\<rparr> else t\<lparr>ti_day := 1, ti_month := 3\<rparr>
                     else t)
               else if ti_day t \<ge> 31
               then if ti_day t = 31
                    then if ti_month t mod 2 \<noteq> 0 \<and> ti_month t \<le> 7 then t\<lparr>ti_day := 31\<rparr>
                         else if ti_month t mod 2 = 0 \<and> ti_month t > 7 then t\<lparr>ti_day := 31\<rparr>
                         else t\<lparr>ti_day := 1, ti_month := UBYTE (ti_month t + 1)\<rparr>
                    else t\<lparr>ti_day := 1, ti_month := UBYTE (ti_month t + 1)\<rparr>
               else t)
      in if ti_month t > 12 then t\<lparr>ti_year := UBYTE (ti_year t + 1), ti_month := 1\<rparr> else t)"

definition nitz_adjust :: "T_HW_TIME_IND \<Rightarrow> T_HW_TIME_IND" where
  "nitz_adjust t =
     (let td = actual_TD (ti_timezone t);
          (t, pos) = (if td > 0 then shift_east td t else (t, False));
          (t, neg) = (if td < 0 then shift_west td t else (t, False))
      in if neg then date_back td t else if pos then date_on t else t)"

section \<open>The calendar\<close>

definition leap_year :: "int \<Rightarrow> bool" where
  "leap_year y \<longleftrightarrow> y mod 4 = 0 \<and> (y mod 100 \<noteq> 0 \<or> y mod 400 = 0)"

definition days_in_month :: "int \<Rightarrow> int \<Rightarrow> int" where
  "days_in_month y m = (if m = 2 then if leap_year y then 29 else 28 else if m \<in> {4, 6, 9, 11} then 30 else 31)"

definition next_day :: "int \<times> int \<times> int \<Rightarrow> int \<times> int \<times> int" where
  "next_day = (\<lambda>(y, m, d).
     if d < days_in_month y m then (y, m, d + 1) else if m < 12 then (y, m + 1, 1) else (y + 1, 1, 1))"

definition prev_day :: "int \<times> int \<times> int \<Rightarrow> int \<times> int \<times> int" where
  "prev_day = (\<lambda>(y, m, d).
     if d > 1 then (y, m, d - 1) else if m > 1 then (y, m - 1, days_in_month y (m - 1)) else (y - 1, 12, 31))"

definition date_ok :: "int \<times> int \<times> int \<Rightarrow> bool" where
  "date_ok = (\<lambda>(y, m, d). 1 \<le> m \<and> m \<le> 12 \<and> 1 \<le> d \<and> d \<le> days_in_month y m)"

lemma month_cases: "1 \<le> m \<Longrightarrow> m \<le> (12::int) \<Longrightarrow> m \<in> {1, 2, 3, 4, 5, 6, 7, 8, 9, 10, 11, 12}"
  by (simp only: insert_iff empty_iff) arith

lemma next_prev_day:
  assumes "date_ok dt"
  shows "date_ok (next_day dt)" "date_ok (prev_day dt)" "prev_day (next_day dt) = dt" "next_day (prev_day dt) = dt"
proof -
  obtain y m d where dt: "dt = (y, m, d)" by (cases dt)
  with assms month_cases [of m] have m: "m \<in> {1, 2, 3, 4, 5, 6, 7, 8, 9, 10, 11, 12}" by (auto simp: date_ok_def)
  show "date_ok (next_day dt)" "date_ok (prev_day dt)" "prev_day (next_day dt) = dt" "next_day (prev_day dt) = dt"
    using m assms unfolding dt by (elim insertE emptyE; simp add: date_ok_def next_day_def prev_day_def days_in_month_def)+
qed

text \<open>The local time: date, hour and minute moved by a number of quarter hours of less than a day.\<close>

definition date_of :: "T_HW_TIME_IND \<Rightarrow> int \<times> int \<times> int" where
  "date_of t = (ti_year t + 2000, ti_month t, ti_day t)"

definition minute_of_day :: "T_HW_TIME_IND \<Rightarrow> int" where
  "minute_of_day t = 60 * ti_hour t + ti_minute t"

definition local_time :: "int \<Rightarrow> T_HW_TIME_IND \<Rightarrow> (int \<times> int \<times> int) \<times> int" where
  "local_time td t =
     (let m = minute_of_day t + 15 * td
      in if m < 0 then (prev_day (date_of t), m + 1440) else if m \<ge> 1440 then (next_day (date_of t), m - 1440) else (date_of t, m))"

definition time_ok :: "T_HW_TIME_IND \<Rightarrow> bool" where
  "time_ok t \<longleftrightarrow> date_ok (date_of t) \<and> 0 < ti_year t \<and> ti_year t < 255 \<and> 0 \<le> ti_hour t \<and> ti_hour t < 24 \<and> 0 \<le> ti_minute t \<and> ti_minute t < 60"

lemma leap_test_iff:
  assumes "0 < y" and "y < 255"
  shows "leap_test y = leap_year (y + 2000)"
proof -
  have "(y + 2000) mod 400 = y" using assms mod_mult_self2 [of y 400 5] by simp
  with assms show ?thesis by (simp add: leap_test_def leap_year_def)
qed

lemma UBYTE_id [simp]: "0 \<le> i \<Longrightarrow> i < 256 \<Longrightarrow> UBYTE i = i"
  by (simp add: UBYTE_def)

lemma actual_TD_range: "\<bar>actual_TD tz\<bar> \<le> 85"
proof -
  define a where "a = take_bit 3 tz"
  define b where "b = take_bit 4 (drop_bit 4 tz)"
  have "tz AND 7 = a" "drop_bit 4 tz AND 15 = b"
    by (simp_all add: a_def b_def take_bit_eq_mask mask_eq_exp_minus_1)
  moreover have "0 \<le> a" "a < 8" "0 \<le> b" "b < 16"
    using take_bit_int_less_exp [of 3 tz] take_bit_int_less_exp [of 4 "drop_bit 4 tz"] by (simp_all add: a_def b_def)
  ultimately show ?thesis by (simp add: actual_TD_def Let_def not_int_def)
qed

lemma date_bounds:
  assumes "date_ok (date_of t)"
  shows "ti_month t \<in> {1, 2, 3, 4, 5, 6, 7, 8, 9, 10, 11, 12}" "1 \<le> ti_day t" "ti_day t \<le> days_in_month (ti_year t + 2000) (ti_month t)"
    "ti_day t \<le> 31"
proof -
  show d: "1 \<le> ti_day t" "ti_day t \<le> days_in_month (ti_year t + 2000) (ti_month t)"
    using assms by (auto simp: date_ok_def date_of_def)
  then show "ti_day t \<le> 31" by (auto simp: days_in_month_def split: if_splits)
  show "ti_month t \<in> {1, 2, 3, 4, 5, 6, 7, 8, 9, 10, 11, 12}"
    using assms by (intro month_cases) (auto simp: date_ok_def date_of_def)
qed

lemma date_on_correct:
  assumes "date_ok (date_of t)" and "0 < ti_year t" and "ti_year t < 255" and "24 \<le> ti_hour t" and "ti_hour t < 256"
  shows "date_of (date_on t) = next_day (date_of t) \<and> ti_hour (date_on t) = ti_hour t - 24 \<and> ti_minute (date_on t) = ti_minute t"
proof -
  note d = date_bounds [OF assms(1)]
  have h: "UBYTE (ti_hour t - 24) = ti_hour t - 24" "UBYTE (ti_day t + 1) = ti_day t + 1" "UBYTE (ti_year t + 1) = ti_year t + 1"
    using assms d by auto
  note leap = leap_test_iff [OF assms(2,3)]
  show ?thesis using d(1)
    by (elim insertE) (use d(2-4) in \<open>auto simp: date_on_def Let_def date_of_def next_day_def days_in_month_def leap h\<close>)
qed

lemma date_back_correct:
  assumes "date_ok (date_of t)" and "0 < ti_year t" and "ti_year t < 255" and "0 \<le> ti_hour t" "ti_hour t < 24"
    and "ti_hour t < \<bar>td sdiv 4\<bar>" "\<bar>td sdiv 4\<bar> \<le> 24" and "ti_day t = 1 \<Longrightarrow> ti_month t \<noteq> 9 \<and> ti_month t \<noteq> 11"
  shows "date_of (date_back td t) = prev_day (date_of t) \<and> ti_hour (date_back td t) = ti_hour t - \<bar>td sdiv 4\<bar> + 24 \<and>
     ti_minute (date_back td t) = ti_minute t"
proof -
  note d = date_bounds [OF assms(1)]
  have h: "UBYTE (24 - \<bar>ti_hour t - \<bar>td sdiv 4\<bar>\<bar>) = ti_hour t - \<bar>td sdiv 4\<bar> + 24" "UBYTE (ti_day t - 1) = ti_day t - 1"
    "UBYTE (ti_year t - 1) = ti_year t - 1"
    using assms d by auto
  note leap = leap_test_iff [OF assms(2,3)]
  show ?thesis
  proof (cases "ti_day t = 1")
    case True
    show ?thesis using d(1)
      by (elim insertE) (use assms(8) True in \<open>simp_all add: date_back_def Let_def date_of_def prev_day_def days_in_month_def leap h\<close>)
  next
    case False
    with d(2) show ?thesis by (simp add: date_back_def Let_def date_of_def prev_day_def h)
  qed
qed

lemma shift_east_run:
  assumes "0 < td" "td \<le> 85" and "0 \<le> ti_hour t" "ti_hour t < 24" "0 \<le> ti_minute t" "ti_minute t < 60"
  shows "shift_east td t =
     (let m = minute_of_day t + 15 * td in (t\<lparr>ti_hour := m div 60, ti_minute := m mod 60\<rparr>, m \<ge> 1440))"
proof -
  define k r where kr: "k = td div 4" "r = td mod 4"
  have td: "td sdiv 4 = k" "td smod 4 = r" "td = 4 * k + r" "0 \<le> r" "r < 4" "0 \<le> k" "k \<le> 21"
    using assms(1,2) by (auto simp: signed_divide_int_def signed_modulo_int_def sgn_if kr)
  define h where "h = ti_hour t + k"
  define m where "m = ti_minute t + r * 15"
  have hm: "0 \<le> h" "h < 45" "0 \<le> m" "m < 105" "minute_of_day t + 15 * td = 60 * h + m"
    using td assms by (auto simp: h_def m_def minute_of_day_def)
  have "shift_east td t = (if m \<ge> 60 then (t\<lparr>ti_hour := h + 1, ti_minute := m - 60\<rparr>, h + 1 \<ge> 24) else (t\<lparr>ti_hour := h, ti_minute := m\<rparr>, h \<ge> 24))"
    using hm(1-4) unfolding shift_east_def Let_def td(1,2) by (simp add: h_def [symmetric] m_def [symmetric])
  also have "\<dots> = (t\<lparr>ti_hour := (60 * h + m) div 60, ti_minute := (60 * h + m) mod 60\<rparr>, 60 * h + m \<ge> 1440)"
  proof -
    have "m div 60 = (if m \<ge> 60 then 1 else 0)" "m mod 60 = (if m \<ge> 60 then m - 60 else m)" using hm(3,4) by presburger+
    then show ?thesis using hm(3,4) by auto
  qed
  finally show ?thesis by (simp add: hm(5) Let_def)
qed


lemma shift_west_run:
  assumes "td < 0" "-85 \<le> td" and "0 \<le> ti_hour t" "ti_hour t < 24" "0 \<le> ti_minute t" "ti_minute t < 60"
    and "ti_minute t \<noteq> 15 * (- td mod 4)" and "ti_hour t = 0 \<Longrightarrow> 15 * (- td mod 4) \<le> ti_minute t"
  shows "\<exists>h m. minute_of_day t + 15 * td = 60 * (h - \<bar>td sdiv 4\<bar>) + m \<and> 0 \<le> m \<and> m < 60 \<and> 0 \<le> h \<and> h < 24 \<and> \<bar>td sdiv 4\<bar> \<le> 21 \<and>
     shift_west td t = (if h < \<bar>td sdiv 4\<bar> then (t\<lparr>ti_minute := m, ti_hour := h\<rparr>, True)
                        else (t\<lparr>ti_minute := m, ti_hour := h - \<bar>td sdiv 4\<bar>\<rparr>, False))"
proof -
  define k r where kr: "k = - td div 4" "r = - td mod 4"
  have td: "\<bar>td sdiv 4\<bar> = k" "\<bar>(td smod 4) * 15\<bar> = 15 * r" "td = - (4 * k + r)" "0 \<le> r" "r < 4" "0 \<le> k" "k \<le> 21"
    using assms(1,2) by (auto simp: signed_divide_int_def signed_modulo_int_def sgn_if kr abs_mult)
  define h where "h = (if ti_minute t < 15 * r then ti_hour t - 1 else ti_hour t)"
  define m where "m = (if ti_minute t < 15 * r then 60 - (15 * r - ti_minute t) else ti_minute t - 15 * r)"
  have r: "ti_minute t \<noteq> 15 * r" using assms(7) kr by simp
  have hm: "0 \<le> h" "h < 24" "0 \<le> m" "m < 60"
    using assms(3-6) td(4,5) r assms(8) [folded kr] by (cases "ti_hour t = 0"; simp add: h_def m_def)+
  moreover have "minute_of_day t + 15 * td = 60 * (h - k) + m"
    unfolding td(3) by (simp add: h_def m_def minute_of_day_def)
  moreover have "shift_west td t = (if h < k then (t\<lparr>ti_minute := m, ti_hour := h\<rparr>, True) else (t\<lparr>ti_minute := m, ti_hour := h - k\<rparr>, False))"
    using hm assms(3-6) r td(4,5,6) unfolding shift_west_def Let_def td(1,2) by (auto simp: h_def m_def split: if_splits)
  ultimately show ?thesis using td(1,7) by auto
qed


section \<open>The wall clock\<close>

text \<open>The real-time clock is driven through \<open>rtc_get_time_date\<close> and \<open>rtc_set_time_date\<close>; \<open>'h\<close> is its state. \<open>simAutoDetect\<close> tells whether the
  code runs on the device.\<close>

datatype T_RTC_TIME_FORMAT = RTC_TIME_FORMAT_12HOUR | RTC_TIME_FORMAT_24HOUR

record T_RTC_DATE =
  rd_day :: int
  rd_month :: int
  rd_year :: int

record T_RTC_TIME =
  rt_minute :: int
  rt_hour :: int
  rt_second :: int
  rt_format :: T_RTC_TIME_FORMAT
  PM_flag :: bool

record 'h rtc_env =
  simAutoDetect :: bool
  rtc_get_time_date :: "'h \<Rightarrow> T_RTC_DATE \<times> T_RTC_TIME"
  rtc_set_time_date :: "T_RTC_DATE \<Rightarrow> T_RTC_TIME \<Rightarrow> 'h \<Rightarrow> int \<times> 'h"

record 'h clock =
  current_time :: T_RTC_TIME
  current_date :: T_RTC_DATE
  rtc :: 'h

definition rtc_read :: "'h rtc_env \<Rightarrow> 'h clock \<Rightarrow> 'h clock" where
  "rtc_read v c =
     (if simAutoDetect v
      then c\<lparr>current_date := fst (rtc_get_time_date v (rtc c)), current_time := snd (rtc_get_time_date v (rtc c))\<rparr>
      else c)"

definition hw_td_get_date :: "'h rtc_env \<Rightarrow> 'h clock \<Rightarrow> T_RTC_DATE \<times> 'h clock" where
  "hw_td_get_date v c = (let c = rtc_read v c in (current_date c, c))"

definition hw_td_get_time :: "'h rtc_env \<Rightarrow> 'h clock \<Rightarrow> T_RTC_TIME \<times> 'h clock" where
  "hw_td_get_time v c = (let c = rtc_read v c in (current_time c, c))"

text \<open>\<open>sprintf\<close> with \<open>%02d\<close> and \<open>%04d\<close> on values that are not negative.\<close>

fun decimal :: "nat \<Rightarrow> string" where
  "decimal n = (if n < 10 then [] else decimal (n div 10)) @ [char_of (48 + n mod 10)]"

declare decimal.simps [simp del]

definition padded :: "nat \<Rightarrow> int \<Rightarrow> string" where
  "padded w i = (let s = decimal (nat i) in replicate (w - length s) (CHR ''0'') @ s)"

definition clock_str :: "T_RTC_TIME \<Rightarrow> string" where
  "clock_str t = padded 2 (rt_hour t) @ '':'' @ padded 2 (rt_minute t) @ (if PM_flag t then '' pm '' else '' am '')"

text \<open>The string is written into a static buffer of 15 bytes.\<close>

definition into_buffer :: "nat \<Rightarrow> string \<Rightarrow> string res" where
  "into_buffer n s = (if length s < n then Inr s else Inl OutOfBounds)"

definition hw_td_get_clock_str :: "'h rtc_env \<Rightarrow> 'h clock \<Rightarrow> (string \<times> 'h clock) res" where
  "hw_td_get_clock_str v c =
     (let c = rtc_read v c in bind_res (into_buffer 15 (clock_str (current_time c))) (\<lambda>s. Inr (s, c)))"

definition hw_td_get_date_str :: "'h clock \<Rightarrow> string res" where
  "hw_td_get_date_str c =
     (let d = current_date c in into_buffer 15 (padded 2 (rd_month d) @ ''/'' @ padded 2 (rd_day d) @ ''/'' @ padded 4 (rd_year d)))"

text \<open>The two strings at the end are printed, which reads the clock once more.\<close>

definition hw_td_set_time :: "'h rtc_env \<Rightarrow> T_RTC_TIME \<Rightarrow> 'h clock \<Rightarrow> 'h clock res" where
  "hw_td_set_time v t c =
     (let c = (if simAutoDetect v
               then let (result, h) = rtc_set_time_date v (current_date c) t (rtc c); c = c\<lparr>rtc := h\<rparr>
                    in if result = 0 then c\<lparr>current_time := t\<rparr> else c
               else c)
      in bind_res (hw_td_get_clock_str v c) (\<lambda>(_, c). bind_res (hw_td_get_date_str c) (\<lambda>_. Inr c)))"

definition hw_td_set_date :: "'h rtc_env \<Rightarrow> T_RTC_DATE \<Rightarrow> 'h clock \<Rightarrow> 'h clock" where
  "hw_td_set_date v d c =
     (if simAutoDetect v
      then let (result, h) = rtc_set_time_date v d (current_time c) (rtc c); c = c\<lparr>rtc := h\<rparr>
           in if result = 0 then c\<lparr>current_date := d\<rparr> else c
      else c)"

definition hw_td_init :: "'h rtc_env \<Rightarrow> 'h clock \<Rightarrow> 'h clock res" where
  "hw_td_init v c =
     (if simAutoDetect v then Inr (rtc_read v c)
      else
        (let c = c\<lparr>current_time := (current_time c)\<lparr>rt_format := RTC_TIME_FORMAT_12HOUR, rt_second := 0, rt_minute := 20, rt_hour := 4\<rparr>,
                   current_date := \<lparr>rd_day = 22, rd_month = 9, rd_year = 2010\<rparr>\<rparr>
         in bind_res (hw_td_set_time v (current_time c) c) (\<lambda>c. Inr (hw_td_set_date v (current_date c) c))))"

text \<open>
  The second half of the case \<open>E_NM_TIME_IND\<close>. \<open>time_format\<close> points to \<open>current_time\<close>, of which \<open>newTime\<close> is a copy made before the format
  is set: the assignment reaches \<open>current_time\<close>, not the copy, and makes the test for the 12-hour format true.
\<close>

definition to_12hour :: "T_HW_TIME_IND \<Rightarrow> T_RTC_TIME \<Rightarrow> T_RTC_TIME" where
  "to_12hour t newTime =
     (let n = (if ti_hour t = 0 then newTime\<lparr>PM_flag := False, rt_hour := 12\<rparr>
               else if ti_hour t < 12 then newTime\<lparr>PM_flag := False, rt_hour := ti_hour t\<rparr>
               else newTime\<lparr>PM_flag := True, rt_hour := UBYTE (ti_hour t - 12)\<rparr>)
      in n\<lparr>rt_minute := ti_minute t, rt_second := ti_second t\<rparr>)"

definition nm_signal_time :: "'h rtc_env \<Rightarrow> T_HW_TIME_IND \<Rightarrow> 'h clock \<Rightarrow> 'h clock res" where
  "nm_signal_time v network_time c =
     (let t = nitz_adjust network_time;
          (newTime, c) = hw_td_get_time v c;
          c = c\<lparr>current_time := (current_time c)\<lparr>rt_format := RTC_TIME_FORMAT_12HOUR\<rparr>\<rparr>;
          newDate = \<lparr>rd_day = ti_day t, rd_month = ti_month t, rd_year = (ti_year t + 2000) mod 65536\<rparr>
      in bind_res (hw_td_set_time v (to_12hour t newTime) c) (\<lambda>c. Inr (hw_td_set_date v newDate c)))"

text \<open>\<open>nm_nitz_info_ind\<close>: the zone and the time of the primitive, each with its valid flag.\<close>

definition nm_nitz_info_ind :: "'h rtc_env \<Rightarrow> int option \<Rightarrow> T_HW_TIME_IND option \<Rightarrow> 'h clock \<Rightarrow> 'h clock res" where
  "nm_nitz_info_ind v tz tim c =
     (let zero = \<lparr>ti_year = 0, ti_month = 0, ti_day = 0, ti_hour = 0, ti_minute = 0, ti_second = 0, ti_timezone = 0\<rparr>
      in case tz of
           None \<Rightarrow> Inr c
         | Some z \<Rightarrow>
             (case tim of
                Some t \<Rightarrow> nm_signal_time v (t\<lparr>ti_timezone := z\<rparr>) c
              | None \<Rightarrow> nm_signal_time v (zero\<lparr>ti_timezone := z\<rparr>) c))"


section \<open>Local time\<close>

lemma nitz_east:
  assumes "time_ok t" and "0 < td" and "td = actual_TD (ti_timezone t)"
  shows "(date_of (nitz_adjust t), minute_of_day (nitz_adjust t)) = local_time td t \<and>
     0 \<le> ti_hour (nitz_adjust t) \<and> ti_hour (nitz_adjust t) < 24 \<and> 0 \<le> ti_minute (nitz_adjust t) \<and> ti_minute (nitz_adjust t) < 60"
proof -
  let ?m = "minute_of_day t + 15 * td"
  let ?t = "t\<lparr>ti_hour := ?m div 60, ti_minute := ?m mod 60\<rparr>"
  have td: "td \<le> 85" using actual_TD_range [of "ti_timezone t"] assms(3) by simp
  have m: "0 \<le> ?m" "?m < 2715" using assms(1,2) td by (auto simp: time_ok_def minute_of_day_def)
  have run: "nitz_adjust t = (if ?m \<ge> 1440 then date_on ?t else ?t)"
    using shift_east_run [of td t] assms td by (simp add: nitz_adjust_def Let_def time_ok_def)
  show ?thesis
  proof (cases "?m \<ge> 1440")
    case True
    have "24 \<le> ?m div 60" "?m div 60 < 48" using True m by linarith+
    then have "date_of (date_on ?t) = next_day (date_of t) \<and> ti_hour (date_on ?t) = ?m div 60 - 24 \<and> ti_minute (date_on ?t) = ?m mod 60"
      using date_on_correct [of ?t] assms(1) by (simp add: time_ok_def date_of_def)
    then show ?thesis using True m run \<open>24 \<le> ?m div 60\<close> \<open>?m div 60 < 48\<close> by (simp add: local_time_def Let_def minute_of_day_def)
  next
    case False
    have "?m div 60 < 24" using False by linarith
    then show ?thesis using False m run by (simp add: local_time_def Let_def minute_of_day_def date_of_def)
  qed
qed

text \<open>The zones and times that \<open>shift_west\<close> and \<open>date_back\<close> get right.\<close>

definition west_ok :: "int \<Rightarrow> T_HW_TIME_IND \<Rightarrow> bool" where
  "west_ok td t \<longleftrightarrow> ti_minute t \<noteq> 15 * (- td mod 4) \<and> (ti_hour t = 0 \<longrightarrow> 15 * (- td mod 4) \<le> ti_minute t) \<and>
     (ti_day t = 1 \<and> ti_month t \<in> {9, 11} \<longrightarrow> 0 \<le> minute_of_day t + 15 * td)"

lemma nitz_west:
  assumes "time_ok t" and "td < 0" and "td = actual_TD (ti_timezone t)" and "west_ok td t"
  shows "(date_of (nitz_adjust t), minute_of_day (nitz_adjust t)) = local_time td t \<and>
     0 \<le> ti_hour (nitz_adjust t) \<and> ti_hour (nitz_adjust t) < 24 \<and> 0 \<le> ti_minute (nitz_adjust t) \<and> ti_minute (nitz_adjust t) < 60"
proof -
  have td: "-85 \<le> td" using actual_TD_range [of "ti_timezone t"] assms(3) by simp
  define k where "k = \<bar>td sdiv 4\<bar>"
  have "0 \<le> k" by (simp add: k_def)
  obtain h m where hm: "minute_of_day t + 15 * td = 60 * (h - k) + m" "0 \<le> m" "m < 60" "0 \<le> h" "h < 24" "k \<le> 21"
    "shift_west td t = (if h < k then (t\<lparr>ti_minute := m, ti_hour := h\<rparr>, True) else (t\<lparr>ti_minute := m, ti_hour := h - k\<rparr>, False))"
    using shift_west_run [of td t] assms td unfolding time_ok_def west_ok_def k_def by blast
  have run: "nitz_adjust t = (if h < k then date_back td (t\<lparr>ti_minute := m, ti_hour := h\<rparr>) else t\<lparr>ti_minute := m, ti_hour := h - k\<rparr>)"
    using hm(7) assms(2,3) by (simp add: nitz_adjust_def Let_def)
  show ?thesis
  proof (cases "h < k")
    case True
    let ?t = "t\<lparr>ti_minute := m, ti_hour := h\<rparr>"
    have "h + 1 \<le> k" using True by simp
    with hm(2,3) have neg: "60 * (h - k) + m < 0" unfolding right_diff_distrib by linarith
    have "date_of (date_back td ?t) = prev_day (date_of ?t) \<and> ti_hour (date_back td ?t) = ti_hour ?t - k + 24 \<and>
        ti_minute (date_back td ?t) = ti_minute ?t"
      unfolding k_def by (rule date_back_correct) (use True hm assms(1,4) neg in \<open>auto simp: time_ok_def date_of_def west_ok_def k_def\<close>)
    then show ?thesis using True neg hm run by (simp add: local_time_def Let_def minute_of_day_def date_of_def)
  next
    case False
    have "h + 1 \<le> 24" using hm(5) by simp
    with False hm(2,3) \<open>0 \<le> k\<close> have "0 \<le> 60 * (h - k) + m" "60 * (h - k) + m < 1440" unfolding right_diff_distrib by linarith+
    then show ?thesis using False hm run by (simp add: local_time_def Let_def minute_of_day_def date_of_def)
  qed
qed


text \<open>
  C39: The network time is shown as local time. For every valid universal time in the years 2001 to 2254 and every zone at or east of Greenwich the
  adjusted fields are the local date and time of the calendar; west of Greenwich they are, unless the minute equals the quarter
  hours of the zone, the hour is zero and minutes must be borrowed, or the date goes back from the first of September or November.
\<close>

theorem nitz_adjust_local_time:
  assumes "time_ok t" and "td = actual_TD (ti_timezone t)" and "td < 0 \<Longrightarrow> west_ok td t"
  shows "(date_of (nitz_adjust t), minute_of_day (nitz_adjust t)) = local_time td t \<and>
     0 \<le> ti_hour (nitz_adjust t) \<and> ti_hour (nitz_adjust t) < 24 \<and> 0 \<le> ti_minute (nitz_adjust t) \<and> ti_minute (nitz_adjust t) < 60"
proof -
  consider "0 < td" | "td < 0" | "td = 0" by linarith
  then show ?thesis
  proof cases
    case 3
    with assms show ?thesis by (auto simp: nitz_adjust_def local_time_def Let_def time_ok_def minute_of_day_def)
  qed (use nitz_east [OF assms(1) _ assms(2)] nitz_west [OF assms(1) _ assms(2)] assms(3) in \<open>blast+\<close>)
qed

text \<open>28 February 2011, 22:30, in the zone of India, five and a half hours east: two quarter hours and twenty, digits swapped.\<close>

definition feb28 :: T_HW_TIME_IND where
  "feb28 = \<lparr>ti_year = 11, ti_month = 2, ti_day = 28, ti_hour = 22, ti_minute = 30, ti_second = 0, ti_timezone = 0x22\<rparr>"

theorem nitz_adjust_local_time_witness:
  "(date_of (nitz_adjust feb28), minute_of_day (nitz_adjust feb28)) = ((2011, 3, 1), 4 * 60)"
proof -
  have td: "actual_TD (ti_timezone feb28) = 22" by (simp add: actual_TD_def feb28_def Let_def)
  have "time_ok feb28" by (simp add: time_ok_def date_ok_def date_of_def feb28_def days_in_month_def leap_year_def)
  from nitz_adjust_local_time [OF this td [symmetric]] show ?thesis
    by (simp add: local_time_def Let_def minute_of_day_def feb28_def date_of_def next_day_def days_in_month_def leap_year_def)
qed

text \<open>
  Where the adjustment fails. West of Greenwich, in a zone of whole hours at a full hour, or generally when the minute equals the quarter hours of
  the zone, the clock is one hour slow on the same day. Shortly after midnight, when minutes must be borrowed, the hour becomes a number that is no
  hour of the day. On the first of September and of November, when the local date is the day before, the day becomes zero.
\<close>

theorem nitz_adjust_west_fails:
  assumes "time_ok t" and "td = actual_TD (ti_timezone t)" and "td < 0"
  shows "(ti_minute t = 15 * (- td mod 4) \<and> - td div 4 < ti_hour t \<longrightarrow>
       date_of (nitz_adjust t) = date_of t \<and> minute_of_day (nitz_adjust t) = snd (local_time td t) - 60 \<and> fst (local_time td t) = date_of t) \<and>
     (ti_hour t = 0 \<and> ti_minute t < 15 * (- td mod 4) \<longrightarrow> ti_hour (nitz_adjust t) > 200) \<and>
     (ti_day t = 1 \<and> ti_month t \<in> {9, 11} \<and> ti_minute t > 15 * (- td mod 4) \<and> ti_hour t < - td div 4 \<longrightarrow> ti_day (nitz_adjust t) = 0)"
proof -
  define k r where kr: "k = - td div 4" "r = - td mod 4"
  have "-85 \<le> td" using actual_TD_range [of "ti_timezone t"] assms(2) by simp
  then have td: "\<bar>td sdiv 4\<bar> = k" "\<bar>(td smod 4) * 15\<bar> = 15 * r" "td = - (4 * k + r)" "0 \<le> r" "r < 4" "0 \<le> k" "k \<le> 21"
    using assms(3) by (auto simp: signed_divide_int_def signed_modulo_int_def sgn_if kr abs_mult)
  have run: "nitz_adjust t = (let (t, neg) = shift_west td t in if neg then date_back td t else t)"
    using assms(3) unfolding nitz_adjust_def assms(2) [symmetric] by (simp add: Let_def split: prod.split)
  have q: "15 * td = - (60 * k) - 15 * r" using td(3) by simp
  note defs = run shift_west_def Let_def td(1,2)
  have b: "0 \<le> ti_hour t" "ti_hour t < 24" "0 \<le> ti_minute t" "ti_minute t < 60" using assms(1) by (auto simp: time_ok_def)
  have 1: "date_of (nitz_adjust t) = date_of t \<and> minute_of_day (nitz_adjust t) = snd (local_time td t) - 60 \<and> fst (local_time td t) = date_of t"
    if "ti_minute t = 15 * r" "k < ti_hour t"
    using that b td(4-7) by (simp add: defs local_time_def minute_of_day_def date_of_def q)
  have 2: "ti_hour (nitz_adjust t) > 200" if "ti_hour t = 0" "ti_minute t < 15 * r"
    using that b td(4-7) by (simp add: defs UBYTE_def)
  have 3: "ti_day (nitz_adjust t) = 0" if "ti_day t = 1" "ti_month t \<in> {9, 11}" "ti_minute t > 15 * r" "ti_hour t < k"
  proof -
    have "nitz_adjust t = date_back td (t\<lparr>ti_minute := ti_minute t - 15 * r\<rparr>)" using that b td(4-7) by (simp add: defs)
    then show ?thesis using that(1,2) by (elim insertE emptyE) (simp_all add: date_back_def Let_def)
  qed
  show ?thesis using 1 2 3 unfolding kr by blast
qed

text \<open>Noon on 15 June in the zone of New York, four hours west.\<close>

definition new_york :: T_HW_TIME_IND where
  "new_york = \<lparr>ti_year = 10, ti_month = 6, ti_day = 15, ti_hour = 12, ti_minute = 0, ti_second = 0, ti_timezone = 0x69\<rparr>"

theorem nitz_adjust_west_fails_witness: "minute_of_day (nitz_adjust new_york) = 7 * 60"
proof -
  have td: "actual_TD (ti_timezone new_york) = -16" by (simp add: actual_TD_def new_york_def Let_def not_int_def)
  have "time_ok new_york" by (simp add: time_ok_def date_ok_def date_of_def new_york_def days_in_month_def)
  from nitz_adjust_west_fails [OF this td [symmetric]] show ?thesis
    by (simp add: local_time_def Let_def minute_of_day_def new_york_def)
qed


section \<open>Setting the clock\<close>

definition date_fits :: "T_RTC_DATE \<Rightarrow> bool" where
  "date_fits d \<longleftrightarrow> 0 \<le> rd_day d \<and> rd_day d < 256 \<and> 0 \<le> rd_month d \<and> rd_month d < 256 \<and> 0 \<le> rd_year d \<and> rd_year d < 65536"

definition time_fits :: "T_RTC_TIME \<Rightarrow> bool" where
  "time_fits t \<longleftrightarrow> 0 \<le> rt_hour t \<and> rt_hour t < 256 \<and> 0 \<le> rt_minute t \<and> rt_minute t < 256"

text \<open>A real-time clock that accepts every date and time and returns what it was set to; its members are bytes and 16-bit words.\<close>

definition rtc_ok :: "'h rtc_env \<Rightarrow> bool" where
  "rtc_ok v \<longleftrightarrow> simAutoDetect v \<and> (\<forall>h. date_fits (fst (rtc_get_time_date v h)) \<and> time_fits (snd (rtc_get_time_date v h))) \<and>
     (\<forall>d t h. date_fits d \<longrightarrow> time_fits t \<longrightarrow>
        fst (rtc_set_time_date v d t h) = 0 \<and> rtc_get_time_date v (snd (rtc_set_time_date v d t h)) = (d, t))"

lemma decimal_length: "n < 10 ^ k \<Longrightarrow> 0 < k \<Longrightarrow> length (decimal n) \<le> k"
proof (induction n arbitrary: k rule: decimal.induct)
  case (1 n)
  show ?case
  proof (cases "n < 10")
    case True
    with "1.prems" show ?thesis by (simp add: decimal.simps [of n])
  next
    case False
    from "1.prems"(2) obtain j where k: "k = Suc j" by (cases k) auto
    with False "1.prems"(1) have j: "k = Suc j" "0 < j" by (cases j; simp)+
    then have "n div 10 < 10 ^ j" using "1.prems" by (simp add: div_less_iff_less_mult mult.commute)
    with "1.IH" [OF False this j(2)] j(1) False show ?thesis by (simp add: decimal.simps [of n])
  qed
qed

lemma padded_length: "0 \<le> i \<Longrightarrow> i < 10 ^ k \<Longrightarrow> w \<le> k \<Longrightarrow> 0 < k \<Longrightarrow> length (padded w i) \<le> k"
  using decimal_length [of "nat i" k] by (simp add: padded_def Let_def nat_less_iff)

lemma clock_strings_fit:
  assumes "time_fits t" and "date_fits d"
  shows "length (clock_str t) < 15"
    "length (padded 2 (rd_month d) @ ''/'' @ padded 2 (rd_day d) @ ''/'' @ padded 4 (rd_year d)) < 15"
proof -
  have "length (padded 2 (rt_hour t)) \<le> 3" "length (padded 2 (rt_minute t)) \<le> 3" "length (padded 2 (rd_month d)) \<le> 3"
      "length (padded 2 (rd_day d)) \<le> 3" "length (padded 4 (rd_year d)) \<le> 5"
    using assms by (auto intro!: padded_length simp: time_fits_def date_fits_def)
  then show "length (clock_str t) < 15" "length (padded 2 (rd_month d) @ ''/'' @ padded 2 (rd_day d) @ ''/'' @ padded 4 (rd_year d)) < 15"
    by (simp_all add: clock_str_def)
qed

lemma clock_str_run:
  assumes "rtc_ok v"
  shows "hw_td_get_clock_str v c = Inr (clock_str (current_time (rtc_read v c)), rtc_read v c) \<and> (\<exists>s. hw_td_get_date_str (rtc_read v c) = Inr s)"
proof -
  have "time_fits (current_time (rtc_read v c))" "date_fits (current_date (rtc_read v c))"
    using assms by (auto simp: rtc_ok_def rtc_read_def)
  from clock_strings_fit [OF this] show ?thesis
    by (simp add: hw_td_get_clock_str_def hw_td_get_date_str_def into_buffer_def Let_def)
qed

lemma rtc_okD:
  assumes "rtc_ok v" and "date_fits d" and "time_fits t" and "rtc_set_time_date v d t h = (r, h')"
  shows "r = 0" "rtc_get_time_date v h' = (d, t)"
  using assms unfolding rtc_ok_def by (metis fst_conv, metis snd_conv)

lemma set_time_run:
  assumes "rtc_ok v" and "time_fits t" and "date_fits (current_date c)"
  shows "\<exists>c'. hw_td_set_time v t c = Inr c' \<and> current_time c' = t \<and> current_date c' = current_date c"
proof -
  obtain r h where set: "rtc_set_time_date v (current_date c) t (rtc c) = (r, h)" by (cases "rtc_set_time_date v (current_date c) t (rtc c)")
  note r = rtc_okD [OF assms(1,3,2) set]
  moreover have "simAutoDetect v" using assms(1) by (simp add: rtc_ok_def)
  ultimately show ?thesis using set r clock_str_run [OF assms(1), of "c\<lparr>rtc := h, current_time := t\<rparr>"]
    by (auto simp: hw_td_set_time_def Let_def rtc_read_def)
qed

definition hour24 :: "T_RTC_TIME \<Rightarrow> int" where
  "hour24 t = (if PM_flag t then rt_hour t + 12 else if rt_hour t = 12 then 0 else rt_hour t)"



text \<open>A clock that stores what it is given.\<close>

definition demo_rtc :: "(T_RTC_DATE \<times> T_RTC_TIME) rtc_env" where
  "demo_rtc = \<lparr>simAutoDetect = True,
     rtc_get_time_date = (\<lambda>(d, t).
       (\<lparr>rd_day = rd_day d mod 256, rd_month = rd_month d mod 256, rd_year = rd_year d mod 65536\<rparr>,
        t\<lparr>rt_hour := rt_hour t mod 256, rt_minute := rt_minute t mod 256\<rparr>)),
     rtc_set_time_date = (\<lambda>d t _. (0, (d, t)))\<rparr>"

lemma demo_rtc_ok: "rtc_ok demo_rtc"
  by (auto simp: rtc_ok_def demo_rtc_def date_fits_def time_fits_def)

definition demo_clock :: "(T_RTC_DATE \<times> T_RTC_TIME) clock" where
  "demo_clock =
     (let t = \<lparr>rt_minute = 20, rt_hour = 4, rt_second = 0, rt_format = RTC_TIME_FORMAT_12HOUR, PM_flag = True\<rparr>;
          d = \<lparr>rd_day = 22, rd_month = 9, rd_year = 2010\<rparr>
      in \<lparr>current_time = t, current_date = d, rtc = (d, t)\<rparr>)"


end
