(* ===== verification/Spec2Isabelle.thy ===== *)
theory Spec2Isabelle
  imports Lgui_Draw Sync_Transfer Sync_Session App_Manager Glyph_Cache Hw_Timer Hw_Events Hw_Clock
begin

text \<open>
  A model of the client of the Peek e-mail device, the code under \<open>src/peek-build/src/emobiix\<close>, and of the timers, events
  and clock of its hardware task, \<open>src/peek-build/src/tasks/hwtask\<close>.

  \<^bold>\<open>The program.\<close> The user interface is a tree of data objects with named and numbered fields. A server sends and changes these trees
  with the packets of \<open>protocol/fri.asn1\<close>; the client keeps requests for objects in a queue, authenticates, sends start, data and finish
  packets, applies the operands it receives to its trees, marks the changed objects and draws them. Scripts in the objects may
  request further synchronisations. Everything is kept in the containers of the client: doubly linked lists, maps, arrays.

  \<^bold>\<open>The theories\<close>, in the order in which they build on each other:
  \<^item> \<open>C_Prelude\<close>: results of C functions (\<open>c_error + 'a\<close>), their sequencing, C strings and characters; sequences of steps, with the locales
    \<open>growing_steps\<close> and \<open>guarded_steps\<close> on what only grows and what one step alone may open, interpreted on the events of \<open>Sync_Session\<close>.
  \<^item> \<open>Linked_List\<close>, \<open>Key_Map\<close>, \<open>Dyn_Array\<close>: \<open>List.c\<close>, \<open>Map.c\<close>, \<open>Array.c\<close> on explicit heaps, with ownership of keys and nodes. The lemmas
    show that the operations refine HOL lists and maps; the locales \<open>sequence_store\<close>, \<open>assoc_store\<close> and \<open>indexed_seq\<close> state the
    contracts and are interpreted on the operations. The other theories use lists and association lists where these contracts hold.
  \<^item> \<open>Url\<close>: \<open>URL.c\<close>, \<open>StaticList.c\<close>, \<open>Transport.c\<close>. \<open>Int_Text\<close>: \<open>emo_itoa\<close>, \<open>emo_uitoa\<close> of \<open>ProtocolUtils.c\<close>. \<open>Emo_Field\<close>: the field numbers and
    type names of \<open>EmobiixField.c\<close>.
  \<^item> \<open>Geometry\<close>, \<open>Lgui_Draw\<close>: \<open>Rectangle.c\<close> and the clip stack, regions and drawing primitives of \<open>lgui.c\<close> on a framebuffer of 320 by 240 words.
  \<^item> \<open>Render_Queue\<close>: the queue of \<open>RenderManager.c\<close>.
  \<^item> \<open>Object_Store\<close>, \<open>Object_Tree\<close>, \<open>Object_Update\<close>: \<open>DataObject.c\<close>, parts of \<open>Widget.c\<close>, \<open>Application.c\<close>, \<open>ApplicationManager.c\<close> and \<open>array_expand\<close> of
    \<open>ArrayWidget.c\<close>: fields, values and flags; the tree and the walks over it; marks, deletion and array expansion.
  \<^item> \<open>Sync_Packet\<close>, \<open>Sync_Context\<close>: the packets of \<open>fri.asn1\<close> with \<open>Protocol.c\<close>; \<open>ConnectionContext.c\<close> with the receive handlers of
    \<open>UITask.c\<close>, \<open>TCPSequenceID\<close> of \<open>BalTCPTransport.c\<close>, \<open>script_event\<close> of \<open>Script.c\<close> and \<open>manager_loadApplication\<close>.
  \<^item> \<open>Sync_Transfer\<close>: abstract documents; a received operand list refines its meaning on the document, and what one side sends for an
    object arrives at the other. \<open>Sync_Session\<close>: sequences of events on a context; authentication, the byte stream, the life of a request.
  \<^item> \<open>Widget_Base\<close>: the attributes of \<open>Widget.c\<close> and the scrolled, stack and set widgets, with a view of the store as attributes (\<open>attr\<close>, \<open>attr_step\<close>) for
    the theories after it. \<open>Widget_Focus\<close>: the focus functions of \<open>Widget.c\<close>; the locales \<open>tree_visit\<close>, \<open>forward_walk\<close> and \<open>backward_walk\<close> state what a
    walk does on a tree when it does one thing at each widget, and are interpreted on the walks of the code. \<open>Utf8_Text\<close>: the decoder of \<open>Font.c\<close>
    and the measuring of a line. \<open>Text_Entry\<close>: \<open>KeyMappings.c\<close>, the keys of \<open>EntryWidget.c\<close> and \<open>CheckBoxWidget.c\<close>. \<open>Style_Lookup\<close>: \<open>Style.c\<close>, \<open>Gradient.c\<close> and
    the table of renderers.
  \<^item> \<open>Hw_Timer\<close>, \<open>Hw_Events\<close>: \<open>timer.c\<close> and \<open>tmr.c\<close>; \<open>hwevents.c\<close>, both on the lists of \<open>Linked_List\<close>. \<open>Hw_Clock\<close>: the time indication and the clock of
    \<open>time.c\<close>.
  \<^item> This theory: the timer of \<open>UITask.c\<close> that drives the synchronisation loop.

  \<^bold>\<open>State and errors.\<close> A struct is a record, a pointer to an object that is shared or freed is an address in a heap, other structs are
  passed by value. Allocation always succeeds. Every function that can crash, loop or read what was never written returns a
  result: \<open>Inl\<close> with the kind of error (a failed assertion is \<open>Abort\<close>; also null and freed pointers, a bad argument to \<open>free\<close>, an index outside
  an array, an uninitialised variable, a union read as another type, a loop that never ends), or \<open>Inr\<close> with the value and the new state.
  Flags are 32-bit words. The configuration is that of the device: \<open>SIMULATOR\<close> undefined, \<open>CACHE_DISABLE\<close> defined.

  \<^bold>\<open>Fuel.\<close> A loop over a chain of nodes or objects takes one round more than there are addresses; a longer walk has met an address
  twice and, as the state does not change, never ends: \<open>Diverge\<close>. On well-formed lists and trees the lemmas show that the fuel is enough. For
  the mutual recursion of \<open>dataobject_setIsModified\<close> it is twice that, as for the walk of the focus, which may go round. The receive loop has one round more than there are
  bytes, which is shown to be enough. Loops whose length callbacks decide (\<open>timerTimeout\<close>, \<open>hwEventTrigger\<close>) have the number of
  rounds as an argument.

  \<^bold>\<open>Parameters.\<close> The ASN.1 codec, the effect of running a script, the announcement of the connection, the printed endpoint and the device
  number are in the record \<open>env\<close>; the operating system's timer and callbacks in \<open>tenv\<close>; event callbacks are an argument, as are
  the glyphs of a font; the real-time clock is in \<open>rtc_env\<close>. Hypotheses on them
  are \<open>env_ok\<close> (scripts act through the bindings of the client only), \<open>codec_ok\<close> (an encoding is decoded in front of any
  bytes), \<open>encoder_range\<close> (the bounds of \<open>fri.asn1\<close>), \<open>vsi_ok\<close> (a timer reports the time it was started with), \<open>rtc_ok\<close> (the clock shows what
  it was set to) and \<open>leaves_subs\<close>; witnesses
  instantiate them.

  \<^bold>\<open>What the theorems show.\<close> Containers, fields, trees, geometry, parsing and printing do what they are for, with the exact conditions
  under which they do not. Synchronisation: incoming operands and outgoing objects agree on documents; nothing is synchronised before
  authentication; the receive handler delivers the packets of the stream in order; a request sends its packets. Timers and events: when
  a started timer is due, that a single timer runs and the synchronisation loop goes on, that subscribed callbacks run in order. The clock: network time becomes
  local time. Widgets: the focus goes round the widgets in order, scrolling reaches both ends, an entry is a text editor, a check box
  switches, characters are decoded as UTF-8, properties are looked up in a fixed order. Where
  the code fails, theorems give the outcome: sequence numbers run out, two timers at once, objects with numbered fields
  deleted, callbacks unsubscribed.

  \<^bold>\<open>Not modelled.\<close> The layout of \<open>Widget.c\<close>, \<open>renderman_flush\<close>, the application manager, \<open>ConnectionManager.c\<close> and \<open>dataobject_resolveReferences\<close> are
  planned next. Drawing by the widget renderers goes through FreeType. \<open>Cache.c\<close> is compiled out on the device. The text, PNG and JPEG paths, Lua bindings, sockets, the phone stack and
  the hardware registers are calls of code outside the client.
\<close>

section \<open>The interface task\<close>

text \<open>
  \<open>UITask.c\<close> joins the two: a timer of the hardware task runs the loop of the connection context and starts itself again. The state
  behind the timers is the operating system's timer \<open>'h\<close> together with the session.
\<close>

definition UI_SYNC_LOOP :: "32 word" where "UI_SYNC_LOOP = 3 * 1000"

definition ui_tenv :: "'h tenv \<Rightarrow> ('h \<times> net) tenv" where
  "ui_tenv v = \<lparr>vsi_t_start = (\<lambda>t h. (vsi_t_start v t (fst h), snd h)), vsi_t_stop = (\<lambda>h. (vsi_t_stop v (fst h), snd h)),
     vsi_t_status = (\<lambda>h. vsi_t_status v (fst h)), call_tCB = (\<lambda>cb t data s. Inr s)\<rparr>"

definition ui_timer_cb :: "env \<Rightarrow> 'h tenv \<Rightarrow> addr \<Rightarrow> ('h \<times> net) timers \<Rightarrow> ('h \<times> net) timers res" where
  "ui_timer_cb e v tm s =
     bind_res (connectionContext_loopIteration e (snd (hw s))) (\<lambda>(_, n).
     bind_res (timerStart (ui_tenv v) tm UI_SYNC_LOOP (s\<lparr>hw := (fst (hw s), n)\<rparr>)) (\<lambda>(_, s). Inr s))"

definition ui_callbacks :: "env \<Rightarrow> 'h tenv \<Rightarrow> ('h \<times> net) tenv" where
  "ui_callbacks e v = (ui_tenv v)\<lparr>call_tCB := (\<lambda>cb tm data s. ui_timer_cb e v tm s)\<rparr>"

text \<open>
  C22: The synchronisation loop keeps running. When the timer of the interface task is the only pending one and the system timer has expired,
  the expiry runs one iteration of the loop of the connection context, on the session as it is, and leaves the timer pending again, due in
  three seconds; so every expiry is followed by another one for as long as the iterations succeed.
\<close>

theorem ui_loop_periodic:
  assumes "vsi_ok v" and "sig s" and "dll (t_heap s) (timer_queue s) [(a, tm)]" and "dll (t_heap s) (timer_r_queue s) []"
    and "tds s tm = Some d" and "tCB d = Some cb" and "sint (left d) \<le> 0" and "sint (timerPrecMs s) \<le> 3000"
    and "vsi_t_status v (fst (hw s)) = 0" and "connectionContext_loopIteration e (snd (hw s)) = Inr (k, n)"
  shows "\<exists>s'. timerSignal (ui_callbacks e v) s = Inr s' \<and> snd (hw s') = n \<and>
     list_debug (t_heap s') (timer_queue s') = Inr [tm] \<and> due (ui_tenv v) s' tm = 3000"
proof -
  obtain s1 where s1: "timerSignal (ui_callbacks e v) s = ui_timer_cb e v tm s1" "dll (t_heap s1) (timer_queue s1) []"
      "dll (t_heap s1) (timer_r_queue s1) []" "tds s1 = (tds s)(tm \<mapsto> d\<lparr>left := -1\<rparr>)" "hw s1 = hw s" "sig s1" "timerPrecMs s1 = timerPrecMs s"
    using signal_single [OF assms(3-5,7), of "ui_callbacks e v"] assms(2,6) by (auto simp: ui_callbacks_def)
  let ?s = "s1\<lparr>hw := (fst (hw s), n)\<rparr>"
  have "vsi_ok (ui_tenv v)" using assms(1) by (simp add: vsi_ok_def ui_tenv_def)
  moreover have "startable (ui_tenv v) ?s tm []" using s1 by (auto simp: startable_def)
  moreover have "sint UI_SYNC_LOOP = 3000" by (simp add: UI_SYNC_LOOP_def)
  moreover have "vsi_t_status (ui_tenv v) (hw ?s) = 0" using assms(9) by (simp add: ui_tenv_def)
  ultimately obtain s' where s': "timerStart (ui_tenv v) tm UI_SYNC_LOOP ?s = Inr (0, s')"
      "list_debug (t_heap s') (timer_queue s') = Inr [tm]" "due (ui_tenv v) s' tm = 3000" "hw s' = vsi_t_start (ui_tenv v) UI_SYNC_LOOP (vsi_t_stop (ui_tenv v) (hw ?s))"
    using timerStart_off [of "ui_tenv v" ?s tm UI_SYNC_LOOP] s1(7) assms(8) by auto
  then have "timerSignal (ui_callbacks e v) s = Inr s'" using s1(1,5) assms(10) by (simp add: ui_timer_cb_def)
  moreover have "snd (hw s') = n" using s'(4) by (simp add: ui_tenv_def)
  ultimately show ?thesis using s' by blast
qed

definition ui_timers :: "(32 word \<times> net) timers" where
  "ui_timers = \<lparr>t_heap = \<lparr>cells = [0 \<mapsto> \<lparr>ln_data = 10, ln_prev = None, ln_next = None\<rparr>], brk = 1\<rparr>,
     timer_queue = \<lparr>l_length = 1, l_head = Some 0, l_tail = Some 0\<rparr>, timer_r_queue = list_new,
     tds = [10 \<mapsto> \<lparr>tCB = Some 0, tData = 0, left = 0, time = Some UI_SYNC_LOOP\<rparr>], next_tds = 11,
     timerTimeoutCount = 0, timerTimeoutBusy = False, timerPrecMs = 5, sig = True, hw = (0, session_net 7 NA_NO)\<rparr>"

theorem ui_loop_periodic_witness:
  "\<exists>s'. timerSignal (ui_callbacks demo_env demo_tenv) ui_timers = Inr s' \<and> snd (hw s') = session_net 7 NA_NO \<and>
     due (ui_tenv demo_tenv) s' 10 = 3000"
proof -
  have "vsi_ok demo_tenv" by (simp add: vsi_ok_def demo_tenv_def)
  moreover have "dll (t_heap ui_timers) (timer_queue ui_timers) [(0, 10)]" "dll (t_heap ui_timers) (timer_r_queue ui_timers) []"
    by (simp_all add: ui_timers_def dll_def list_new_def)
  moreover have "connectionContext_loopIteration demo_env (snd (hw ui_timers)) = Inr (0, session_net 7 NA_NO)"
    by (simp add: ui_timers_def connectionContext_loopIteration_def session_net_ok)
  moreover have "tds ui_timers 10 = Some \<lparr>tCB = Some 0, tData = 0, left = 0, time = Some UI_SYNC_LOOP\<rparr>" "sig ui_timers"
      "timerPrecMs ui_timers = 5" "vsi_t_status demo_tenv (fst (hw ui_timers)) = 0"
    by (simp_all add: ui_timers_def demo_tenv_def)
  ultimately show ?thesis using ui_loop_periodic [of demo_tenv ui_timers 0 10 _ 0 demo_env 0 "session_net 7 NA_NO"] by auto
qed

end
